(* ===== verification/Prelude.thy ===== *)
theory Prelude
  imports Main "HOL-Library.Word"
begin

text \<open>
  Shared vocabulary of the development: the result type in which every kernel operation
  returns, its sequencing combinator, and generic lemmas on lists, bytes and bit masks.

  A kernel routine written in C can return, raise an error with \<^verbatim>\<open>error()\<close> (caught by the
  caller's \<^verbatim>\<open>waserror()\<close>), go to sleep, panic, halt the machine, or have undefined behaviour
  (touch memory outside a buffer, follow a nil pointer). Each is a constructor of \<open>res\<close>, so
  that "the routine is safe" is the statement that it never yields \<open>Fault\<close> or \<open>Panic\<close>.
\<close>

unbundle bit_operations_syntax

type_synonym byte = "8 word"
type_synonym u16 = "16 word"
type_synonym u32 = "32 word"
type_synonym u64 = "64 word"

named_theorems blk \<open>facts about blocks that carry the proofs about routines using them\<close>
named_theorems qflags \<open>facts about queue state bits\<close>

section \<open>Results of kernel routines\<close>

datatype ('a, 's) res =
    Ret 'a 's          \<comment> \<open>normal return of a value, with the state left behind\<close>
  | Err string 's      \<comment> \<open>\<^verbatim>\<open>error(msg)\<close>, with the state left behind\<close>
  | Sleep 's           \<comment> \<open>asleep in \<^verbatim>\<open>sleep()\<close>, with the state left behind\<close>
  | Panic string       \<comment> \<open>\<^verbatim>\<open>panic(msg)\<close>\<close>
  | Halt               \<comment> \<open>\<^verbatim>\<open>exit(0)\<close>: the machine stops\<close>
  | Fault              \<comment> \<open>undefined behaviour: access outside a buffer, nil dereference\<close>

fun bindR :: "('a, 's) res \<Rightarrow> ('a \<Rightarrow> 's \<Rightarrow> ('b, 's) res) \<Rightarrow> ('b, 's) res" where
  "bindR (Ret a s) f = f a s"
| "bindR (Err e s) f = Err e s"
| "bindR (Sleep s) f = Sleep s"
| "bindR (Panic e) f = Panic e"
| "bindR Halt f = Halt"
| "bindR Fault f = Fault"

lemma bindR_eq_Ret [simp]:
  "bindR m f = Ret b t \<longleftrightarrow> (\<exists>a s. m = Ret a s \<and> f a s = Ret b t)"
  by (cases m) auto

lemma bindR_cong [fundef_cong]:
  "m = m' \<Longrightarrow> (\<And>a s. m' = Ret a s \<Longrightarrow> f a s = g a s) \<Longrightarrow> bindR m f = bindR m' g"
  by (cases m') auto

text \<open>\<open>okR m P\<close>: the routine returns, with a value and a state that satisfy \<open>P\<close> (total
  correctness: no error, sleep, panic, halt or undefined behaviour).\<close>

definition okR :: "('a, 's) res \<Rightarrow> ('a \<Rightarrow> 's \<Rightarrow> bool) \<Rightarrow> bool" where
  "okR m P \<longleftrightarrow> (\<exists>a s. m = Ret a s \<and> P a s)"

lemma okR_Ret [simp]: "okR (Ret a s) P = P a s"
  by (simp add: okR_def)

lemma okR_bindR [simp]: "okR (bindR m f) P = okR m (\<lambda>a s. okR (f a s) P)"
  by (auto simp: okR_def)

lemma okR_fail [simp]:
  "\<not> okR (Err e s) P" "\<not> okR (Sleep s) P" "\<not> okR (Panic e) P" "\<not> okR Halt P" "\<not> okR Fault P"
  by (simp_all add: okR_def)

lemma okR_mono: "okR m Q \<Longrightarrow> (\<And>a s. Q a s \<Longrightarrow> P a s) \<Longrightarrow> okR m P"
  by (auto simp: okR_def)

lemma okR_E: "okR m P \<Longrightarrow> (\<And>a s. m = Ret a s \<Longrightarrow> P a s \<Longrightarrow> R) \<Longrightarrow> R"
  by (auto simp: okR_def)

section \<open>Lists\<close>

text \<open>\<open>seg off n xs\<close>: the \<open>n\<close> elements of \<open>xs\<close> from offset \<open>off\<close>.\<close>

definition seg :: "nat \<Rightarrow> nat \<Rightarrow> 'a list \<Rightarrow> 'a list" where
  "seg off n xs = take n (drop off xs)"

text \<open>\<open>overwrite off ys xs\<close>: \<open>xs\<close> with \<open>ys\<close> stored from offset \<open>off\<close>.\<close>

definition overwrite :: "nat \<Rightarrow> 'a list \<Rightarrow> 'a list \<Rightarrow> 'a list" where
  "overwrite off ys xs = take off xs @ ys @ drop (off + length ys) xs"

lemma length_seg [simp]: "off + n \<le> length xs \<Longrightarrow> length (seg off n xs) = n"
  by (simp add: seg_def)

lemma seg_0 [simp]: "seg off 0 xs = []"
  by (simp add: seg_def)

lemma length_overwrite [simp]:
  "off + length ys \<le> length xs \<Longrightarrow> length (overwrite off ys xs) = length xs"
  by (simp add: overwrite_def)

lemma overwrite_Nil [simp]: "overwrite off [] xs = xs"
  by (simp add: overwrite_def)

lemma seg_overwrite_extend:
  assumes "off \<le> p" "p + length ys \<le> length xs"
  shows "seg off (p + length ys - off) (overwrite p ys xs) = seg off (p - off) xs @ ys"
proof -
  have "drop off (overwrite p ys xs)
      = drop off (take p xs) @ ys @ drop (p + length ys) xs"
    using assms by (simp add: overwrite_def)
  moreover have "length (drop off (take p xs)) = p - off"
    using assms by simp
  moreover have "p + length ys - off = (p - off) + length ys"
    using assms by simp
  ultimately have "seg off (p + length ys - off) (overwrite p ys xs)
      = drop off (take p xs) @ ys"
    by (simp add: seg_def)
  then show ?thesis
    using assms by (simp add: seg_def drop_take)
qed

lemma seg_append_drop:
  "m \<le> n \<Longrightarrow> seg off m xs @ seg (off + m) (n - m) xs = seg off n xs"
proof -
  assume "m \<le> n"
  then have "take n (drop off xs) = take m (drop off xs) @ take (n - m) (drop m (drop off xs))"
    by (metis add.commute le_add_diff_inverse2 take_add)
  then show ?thesis
    by (simp add: seg_def add.commute)
qed

lemma take_seg [simp]: "take m (seg off n xs) = seg off (min m n) xs"
  by (simp add: seg_def)

lemma drop_seg [simp]: "drop m (seg off n xs) = seg (off + m) (n - m) xs"
  by (simp add: seg_def drop_take add.commute)

section \<open>Bit masks\<close>

text \<open>Testing, setting and clearing the bits of a mask, as \<^verbatim>\<open>s & m\<close>, \<^verbatim>\<open>s |= m\<close> and
  \<^verbatim>\<open>s &= ~m\<close> do.\<close>

definition hasf :: "'a::len word \<Rightarrow> 'a word \<Rightarrow> bool" where
  "hasf s m \<longleftrightarrow> s AND m \<noteq> 0"

definition setf :: "'a::len word \<Rightarrow> 'a word \<Rightarrow> 'a word" where
  "setf s m = s OR m"

definition clrf :: "'a::len word \<Rightarrow> 'a word \<Rightarrow> 'a word" where
  "clrf s m = s AND NOT m"

lemma hasf_push_bit:
  assumes "i < LENGTH('a::len)"
  shows "hasf s (push_bit i 1 :: 'a word) = bit s i"
proof -
  have "s AND (push_bit i 1 :: 'a word) = (if bit s i then push_bit i 1 else 0)"
    using assms by (intro bit_word_eqI) (auto simp: bit_simps)
  moreover have "(push_bit i 1 :: 'a word) \<noteq> 0"
    using assms by (simp add: push_bit_eq_mult)
  ultimately show ?thesis
    by (simp add: hasf_def)
qed

lemma hasf_0 [simp]: "\<not> hasf 0 m"
  by (simp add: hasf_def)

end
