(* ===== verification/Blocks.thy ===== *)
theory Blocks
  imports Prelude
begin

text \<open>
  Data blocks: the allocator of \<^verbatim>\<open>sys/src/9k/port/allocb.c\<close> and the block routines of
  \<^verbatim>\<open>sys/src/9k/port/qio.c\<close> (lines 1-400, 690-715 and 880-950).

  A \<open>Block\<close> owns one buffer. Its pointers are offsets from \<^verbatim>\<open>base\<close>: \<open>buf\<close> holds the
  bytes from \<^verbatim>\<open>base\<close> to \<^verbatim>\<open>lim\<close>, the unread data is what lies between \<open>rp\<close> and \<open>wp\<close>. A
  string of blocks linked through \<^verbatim>\<open>next\<close> is a list, nil is the empty list. The fields
  \<^verbatim>\<open>list\<close> and \<^verbatim>\<open>checksum\<close>, which these routines never use, are left out. A C \<^verbatim>\<open>int\<close> is an
  \<open>int\<close>: no string of blocks holds 2 GiB.

  The kernel state these routines share is the record \<open>Kern\<close>: whether they run in a process
  (\<^verbatim>\<open>up\<close>), the interrupt-time allocation account \<^verbatim>\<open>ialloc\<close>, the counters, and the answers of
  \<^verbatim>\<open>malloc\<close>, a parameter: \<open>mallocs k n\<close> is the address that the \<open>k\<close>-th call returns when
  asked for \<open>n\<close> bytes, \<open>None\<close> for nil. \<^verbatim>\<open>malloc\<close> clears the memory it returns.
\<close>

section \<open>State\<close>

record Block =
  buf :: "byte list"
  rp :: nat
  wp :: nat
  bfree :: bool            \<comment> \<open>the driver supplied a \<^verbatim>\<open>free\<close> routine of its own\<close>
  flag :: u16
  magic :: u32

record Kern =
  up :: bool
  ialloc_bytes :: u32
  ialloc_limit :: u32
  m1 :: int
  m2 :: int
  mp :: int
  mallocs :: "nat \<Rightarrow> nat \<Rightarrow> nat option"
  ncalls :: nat
  padblockcnt :: u32
  concatblockcnt :: u32
  pullupblockcnt :: u32
  copyblockcnt :: u32
  consumecnt :: u32
  producecnt :: u32
  qcopycnt :: u32
  noblockcnt :: u32

definition BLOCKALIGN :: nat where "BLOCKALIGN = 8"

definition Hdrspc :: nat where "Hdrspc = 64"

definition sizeof_Block :: nat where "sizeof_Block = 64"

definition Bmagic :: u32 where "Bmagic = 0x0910b10c"

definition BINTR :: u16 where "BINTR = push_bit 0 1"

definition Maxatomic :: nat where "Maxatomic = 64 * 1024"

definition HOWMANY :: "nat \<Rightarrow> nat \<Rightarrow> nat" where
  "HOWMANY x y = (x + (y - 1)) div y"

definition ROUNDUP :: "nat \<Rightarrow> nat \<Rightarrow> nat" where
  "ROUNDUP x y = HOWMANY x y * y"

definition BLEN :: "Block \<Rightarrow> int" where
  "BLEN b = int (wp b) - int (rp b)"

definition BALLOC :: "Block \<Rightarrow> int" where
  "BALLOC b = int (length (buf b))"

section \<open>Allocation (allocb.c)\<close>

text \<open>The size \<^verbatim>\<open>_allocb\<close> asks \<^verbatim>\<open>malloc\<close> for, and the block it lays out at the end of the
  area that starts at address \<open>p\<close>. Only \<open>p\<close>'s alignment matters afterwards. The argument is an \<^verbatim>\<open>int\<close> in the
  code; the model is that of sizes that are not negative and for which the \<^verbatim>\<open>int\<close> \<open>n\<close> does not overflow,
  \<open>allocsz sz < 2 ^ 31\<close>. The routines below ask for the lengths of data they hold, so these are the only sizes.
  For other sizes the code is not defined: it computes a negative \<open>n\<close>, or places the header outside the area.\<close>

definition allocsz :: "nat \<Rightarrow> nat" where
  "allocsz sz = BLOCKALIGN + ROUNDUP (sz + Hdrspc) BLOCKALIGN + sizeof_Block"

definition newb :: "nat \<Rightarrow> nat \<Rightarrow> Block" where
  "newb sz p =
     (let b = p + allocsz sz - sizeof_Block;
          lim = b - b mod BLOCKALIGN;
          r = lim - ROUNDUP sz BLOCKALIGN
      in \<lparr>buf = replicate (lim - p) 0, rp = r - p, wp = r - p, bfree = False,
          flag = 0, magic = Bmagic\<rparr>)"

definition allocb0 :: "nat \<Rightarrow> Kern \<Rightarrow> (Block option, Kern) res" where
  "allocb0 sz w =
     (let w' = w\<lparr>ncalls := Suc (ncalls w)\<rparr> in
      case mallocs w (ncalls w) (allocsz sz) of
        None \<Rightarrow> Ret None w'
      | Some p \<Rightarrow>
          let b = p + allocsz sz - sizeof_Block;
              lim = b - b mod BLOCKALIGN;
              r = lim - ROUNDUP sz BLOCKALIGN
          in if lim < ROUNDUP sz BLOCKALIGN \<or> r < p \<or> lim - r < sz
             then Panic ''_allocb''
             else Ret (Some (newb sz p)) w')"

definition allocb :: "nat \<Rightarrow> Kern \<Rightarrow> (Block, Kern) res" where
  "allocb sz w =
     (if \<not> up w then Panic ''allocb without up''
      else bindR (allocb0 sz w) (\<lambda>b w.
        case b of None \<Rightarrow> Panic ''allocb: no memory'' | Some b \<Rightarrow> Ret b w))"

definition ialloclimit :: "u32 \<Rightarrow> Kern \<Rightarrow> Kern" where
  "ialloclimit limit w = w\<lparr>ialloc_limit := limit\<rparr>"

definition iallocb :: "nat \<Rightarrow> Kern \<Rightarrow> (Block option, Kern) res" where
  "iallocb sz w =
     (if ialloc_bytes w > ialloc_limit w then
        let w1 = w\<lparr>m1 := m1 w + 1\<rparr> in
        if m1 w mod 10000 = 0 then
          (if mp w > 1000 then Halt else Ret None (w1\<lparr>mp := mp w + 1\<rparr>))
        else Ret None w1
      else bindR (allocb0 sz w) (\<lambda>b w.
        case b of
          None \<Rightarrow>
            (let w1 = w\<lparr>m2 := m2 w + 1\<rparr> in
             if m2 w mod 10000 = 0 then
               (if mp w > 1000 then Halt else Ret None (w1\<lparr>mp := mp w + 1\<rparr>))
             else Ret None w1)
        | Some b \<Rightarrow>
            let b = b\<lparr>flag := BINTR\<rparr> in
            Ret (Some b) (w\<lparr>ialloc_bytes := ialloc_bytes w + of_int (BALLOC b)\<rparr>)))"

text \<open>A block with a driver's own \<^verbatim>\<open>free\<close> goes back to the driver's pool, which is not part
  of this state.\<close>

definition freeb :: "Block \<Rightarrow> Kern \<Rightarrow> (unit, Kern) res" where
  "freeb b w =
     (if magic b \<noteq> Bmagic then Panic ''freeb: bad magic''
      else if bfree b then Ret () w
      else if hasf (flag b) BINTR
      then Ret () (w\<lparr>ialloc_bytes := ialloc_bytes w - of_int (BALLOC b)\<rparr>)
      else Ret () w)"

section \<open>Moving bytes\<close>

text \<open>\<open>bfill d xs\<close> is \<^verbatim>\<open>memmove(d->wp, p, n); d->wp += n\<close> for \<open>n\<close> bytes \<open>xs\<close> at \<^verbatim>\<open>p\<close>
  (\<^verbatim>\<open>memset\<close> for a constant), and \<open>bmove d s off n\<close> is the same from offset \<open>off\<close> of the
  buffer of block \<open>s\<close>. Either is a \<open>Fault\<close> when it would leave a buffer; a negative count
  converts to a huge unsigned one.\<close>

definition bfill :: "Block \<Rightarrow> byte list \<Rightarrow> 's \<Rightarrow> (Block, 's) res" where
  "bfill d xs w =
     (if wp d + length xs \<le> length (buf d)
      then Ret (d\<lparr>buf := overwrite (wp d) xs (buf d), wp := wp d + length xs\<rparr>) w
      else Fault)"

definition bmove :: "Block \<Rightarrow> Block \<Rightarrow> nat \<Rightarrow> int \<Rightarrow> 's \<Rightarrow> (Block, 's) res" where
  "bmove d s off n w =
     (if 0 \<le> n \<and> off + nat n \<le> length (buf s)
      then bfill d (seg off (nat n) (buf s)) w
      else Fault)"

section \<open>Block routines (qio.c)\<close>

fun freeblist :: "Block list \<Rightarrow> Kern \<Rightarrow> (unit, Kern) res" where
  "freeblist [] w = Ret () w"
| "freeblist (b # bs) w = bindR (freeb b w) (\<lambda>_ w. freeblist bs w)"

fun padblock :: "Block list \<Rightarrow> int \<Rightarrow> Kern \<Rightarrow> (Block list, Kern) res" where
  "padblock [] sz w = Fault"
| "padblock (bp # rest) sz w =
     (if sz \<ge> 0 then
        if int (rp bp) \<ge> sz then Ret (bp\<lparr>rp := rp bp - nat sz\<rparr> # rest) w
        else if rest \<noteq> [] then Panic ''padblock''
        else
          let n = BLEN bp; w = w\<lparr>padblockcnt := padblockcnt w + 1\<rparr> in
          bindR (allocb (nat (sz + n)) w) (\<lambda>nbp w.
          let nbp = nbp\<lparr>rp := rp nbp + nat sz\<rparr>; nbp = nbp\<lparr>wp := rp nbp\<rparr> in
          bindR (bmove nbp bp (rp bp) n w) (\<lambda>nbp w.
          bindR (freeb bp w) (\<lambda>_ w.
          Ret [nbp\<lparr>rp := rp nbp - nat sz\<rparr>] w)))
      else
        let sz = - sz in
        if rest \<noteq> [] then Panic ''padblock''
        else if int (length (buf bp)) - int (wp bp) \<ge> sz then Ret [bp] w
        else
          let n = BLEN bp; w = w\<lparr>padblockcnt := padblockcnt w + 1\<rparr> in
          bindR (allocb (nat (sz + n)) w) (\<lambda>nbp w.
          bindR (bmove nbp bp (rp bp) n w) (\<lambda>nbp w.
          bindR (freeb bp w) (\<lambda>_ w.
          Ret [nbp] w))))"

fun blocklen :: "Block list \<Rightarrow> int" where
  "blocklen [] = 0"
| "blocklen (bp # bs) = BLEN bp + blocklen bs"

fun blockalloclen :: "Block list \<Rightarrow> int" where
  "blockalloclen [] = 0"
| "blockalloclen (bp # bs) = BALLOC bp + blockalloclen bs"

fun concat_copy :: "Block \<Rightarrow> Block list \<Rightarrow> Kern \<Rightarrow> (Block, Kern) res" where
  "concat_copy nb [] w = Ret nb w"
| "concat_copy nb (f # fs) w =
     bindR (bmove nb f (rp f) (BLEN f) w) (\<lambda>nb w. concat_copy nb fs w)"

definition concatblock :: "Block list \<Rightarrow> Kern \<Rightarrow> (Block list, Kern) res" where
  "concatblock bs w =
     (case bs of
        [] \<Rightarrow> Fault
      | [b] \<Rightarrow> Ret [b] w
      | _ \<Rightarrow>
          bindR (allocb (nat (blocklen bs)) w) (\<lambda>nb w.
          bindR (concat_copy nb bs w) (\<lambda>nb w.
          bindR (freeblist bs (w\<lparr>concatblockcnt := concatblockcnt w + of_int (BLEN nb)\<rparr>))
            (\<lambda>_ w. Ret [nb] w))))"

text \<open>The loop of \<^verbatim>\<open>pullupblock\<close> over the blocks that follow the first.\<close>

fun pullup_loop :: "Block \<Rightarrow> Block list \<Rightarrow> int \<Rightarrow> Kern \<Rightarrow> (Block list, Kern) res" where
  "pullup_loop bp [] n w = bindR (freeb bp w) (\<lambda>_ w. Ret [] w)"
| "pullup_loop bp (nbp # rest) n w =
     (let i = BLEN nbp in
      if i > n then
        bindR (bmove bp nbp (rp nbp) n w) (\<lambda>bp w.
        Ret (bp # nbp\<lparr>rp := nat (int (rp nbp) + n)\<rparr> # rest)
            (w\<lparr>pullupblockcnt := pullupblockcnt w + 1\<rparr>))
      else
        let i = (if i < 0 then 0 else i) in
        bindR (bmove bp nbp (rp nbp) i w) (\<lambda>bp w.
        bindR (freeb nbp (w\<lparr>pullupblockcnt := pullupblockcnt w + 1\<rparr>)) (\<lambda>_ w.
        if n - i = 0 then Ret (bp # rest) w else pullup_loop bp rest (n - i) w)))"

fun pullupblock :: "Block list \<Rightarrow> int \<Rightarrow> Kern \<Rightarrow> (Block list, Kern) res" where
  "pullupblock [] n w = Fault"
| "pullupblock (bp # rest) n w =
     (if BLEN bp \<ge> n then Ret (bp # rest) w
      else if int (length (buf bp)) - int (rp bp) < n then
        bindR (allocb (nat n) w) (\<lambda>nbp w.
        pullup_loop nbp (bp # rest) (n - BLEN nbp) w)
      else pullup_loop bp rest (n - BLEN bp) w)"

fun trim_front :: "Block list \<Rightarrow> int \<Rightarrow> Kern \<Rightarrow> (Block list \<times> int, Kern) res" where
  "trim_front [] offset w = Fault"
| "trim_front (bp # rest) offset w =
     (if BLEN bp < offset
      then bindR (freeb bp w) (\<lambda>_ w. trim_front rest (offset - BLEN bp) w)
      else Ret (bp # rest, offset) w)"

fun trim_back :: "Block list \<Rightarrow> int \<Rightarrow> Kern \<Rightarrow> (Block list, Kern) res" where
  "trim_back [] len w = Fault"
| "trim_back (bp # rest) len w =
     (if BLEN bp < len
      then bindR (trim_back rest (len - BLEN bp) w) (\<lambda>bs w. Ret (bp # bs) w)
      else bindR (freeblist rest w) (\<lambda>_ w.
        Ret [bp\<lparr>wp := nat (int (wp bp) - (BLEN bp - len))\<rparr>] w))"

definition trimblock :: "Block list \<Rightarrow> int \<Rightarrow> int \<Rightarrow> Kern \<Rightarrow> (Block list, Kern) res" where
  "trimblock bs offset len w =
     (if blocklen bs < offset + len then bindR (freeblist bs w) (\<lambda>_ w. Ret [] w)
      else bindR (trim_front bs offset w) (\<lambda>r w.
        case r of
          ([], off) \<Rightarrow> Fault
        | (bp # rest, off) \<Rightarrow>
            trim_back (bp\<lparr>rp := nat (int (rp bp) + off)\<rparr> # rest) len w))"

fun copy_loop :: "Block \<Rightarrow> Block list \<Rightarrow> int \<Rightarrow> Kern \<Rightarrow> (Block \<times> int, Kern) res" where
  "copy_loop nbp [] count w = Ret (nbp, count) w"
| "copy_loop nbp (bp # rest) count w =
     (if count > 0 then
        let l = (if BLEN bp > count then count else BLEN bp) in
        bindR (bmove nbp bp (rp bp) l w) (\<lambda>nbp w. copy_loop nbp rest (count - l) w)
      else Ret (nbp, count) w)"

definition copyblock :: "Block list \<Rightarrow> nat \<Rightarrow> Kern \<Rightarrow> (Block option, Kern) res" where
  "copyblock bs count w =
     (case bs of
        [] \<Rightarrow> Fault
      | bp # rest \<Rightarrow>
          bindR (if hasf (flag bp) BINTR then iallocb count w
                 else bindR (allocb count w) (\<lambda>b w. Ret (Some b) w)) (\<lambda>nbp w.
          case nbp of
            None \<Rightarrow> Ret None w
          | Some nbp \<Rightarrow>
              bindR (copy_loop nbp bs (int count) w) (\<lambda>(nbp, c) w.
              bindR (if c > 0 then bfill nbp (replicate (nat c) 0) w else Ret nbp w)
                (\<lambda>nbp w. Ret (Some nbp) (w\<lparr>copyblockcnt := copyblockcnt w + 1\<rparr>)))))"

definition adjustblock :: "Block list \<Rightarrow> int \<Rightarrow> Kern \<Rightarrow> (Block list, Kern) res" where
  "adjustblock bs len w =
     (if len < 0 then
        (case bs of [] \<Rightarrow> Ret [] w | bp # rest \<Rightarrow> bindR (freeb bp w) (\<lambda>_ w. Ret [] w))
      else
        case bs of
          [] \<Rightarrow> Fault
        | bp # rest \<Rightarrow>
            if rp bp + nat len > length (buf bp) then
              bindR (copyblock bs (nat len) w) (\<lambda>nbp w.
              bindR (freeblist bs w) (\<lambda>_ w.
              Ret (case nbp of None \<Rightarrow> [] | Some b \<Rightarrow> [b]) w))
            else
              let n = BLEN bp in
              bindR (if len > n
                     then bfill bp (replicate (nat (len - n)) 0) w else Ret bp w) (\<lambda>bp w.
              Ret (bp\<lparr>wp := rp bp + nat len\<rparr> # rest) w))"

text \<open>The loop of \<^verbatim>\<open>pullblock\<close>; \<open>bytes\<close> is what has been thrown away so far.\<close>

function pull_loop :: "Block list \<Rightarrow> int \<Rightarrow> int \<Rightarrow> Kern \<Rightarrow> (Block list \<times> int, Kern) res" where
  "pull_loop [] count bytes w = Ret ([], bytes) w"
| "pull_loop (bp # rest) count bytes w =
     (if count = 0 then Ret (bp # rest, bytes) w
      else
        let n = (if count < BLEN bp then count else BLEN bp);
            bp' = bp\<lparr>rp := nat (int (rp bp) + n)\<rparr>
        in if BLEN bp' = 0
           then bindR (freeb bp' w) (\<lambda>_ w. pull_loop rest (count - n) (bytes + n) w)
           else pull_loop (bp' # rest) (count - n) (bytes + n) w)"
  by pat_completeness auto
termination
  by (relation "measure (\<lambda>(bs, count, bytes, w). length bs + (if count = 0 then 0 else 1))")
     (auto simp: Let_def BLEN_def)

definition pullblock :: "Block list option \<Rightarrow> int \<Rightarrow> Kern \<Rightarrow> (Block list \<times> int, Kern) res" where
  "pullblock bph count w =
     (case bph of None \<Rightarrow> Ret ([], 0) w | Some bs \<Rightarrow> pull_loop bs count 0 w)"

fun packblock :: "Block list \<Rightarrow> Kern \<Rightarrow> (Block list, Kern) res" where
  "packblock [] w = Ret [] w"
| "packblock (nbp # rest) w =
     (let n = BLEN nbp in
      if n * 4 < BALLOC nbp then
        bindR (allocb (nat n) w) (\<lambda>l w.
        bindR (bmove l nbp (rp nbp) n w) (\<lambda>l w.
        bindR (freeb nbp w) (\<lambda>_ w.
        bindR (packblock rest w) (\<lambda>bs w. Ret (l # bs) w))))
      else bindR (packblock rest w) (\<lambda>bs w. Ret (nbp # bs) w))"

text \<open>\<^verbatim>\<open>bl2mem\<close> returns the bytes it stored in memory and the blocks it did not consume.\<close>

fun bl2mem :: "Block list \<Rightarrow> int \<Rightarrow> Kern \<Rightarrow> (byte list \<times> Block list, Kern) res" where
  "bl2mem [] n w = Ret ([], []) w"
| "bl2mem (b # rest) n w =
     (let i = BLEN b in
      if i > n then
        (if 0 \<le> n \<and> rp b + nat n \<le> length (buf b)
         then Ret (seg (rp b) (nat n) (buf b), b\<lparr>rp := rp b + nat n\<rparr> # rest) w
         else Fault)
      else if 0 \<le> i \<and> rp b + nat i \<le> length (buf b) then
        bindR (freeb (b\<lparr>rp := rp b + nat i\<rparr>) w) (\<lambda>_ w.
        bindR (bl2mem rest (n - i) w) (\<lambda>(xs, left) w.
        Ret (seg (rp b) (nat i) (buf b) @ xs, left) w))
      else Fault)"

function mem2bl :: "byte list \<Rightarrow> Kern \<Rightarrow> (Block list, Kern) res" where
  "mem2bl p w =
     (let n = (if length p > Maxatomic then Maxatomic else length p) in
      bindR (allocb n w) (\<lambda>b w.
      bindR (bfill b (take n p) w) (\<lambda>b w.
      if length p - n > 0
      then bindR (mem2bl (drop n p) w) (\<lambda>bs w. Ret (b # bs) w)
      else Ret [b] w)))"
  by pat_completeness auto
termination
  by (relation "measure (\<lambda>(p, w). length p)") (auto simp: Maxatomic_def Let_def split: if_splits)

section \<open>Well-formed blocks, their data, and the allocation account\<close>

text \<open>What \<^verbatim>\<open>checkb\<close> checks, together with \<open>rp \<le> wp\<close>.\<close>

definition wfb :: "Block \<Rightarrow> bool" where
  "wfb b \<longleftrightarrow> magic b = Bmagic \<and> rp b \<le> wp b \<and> wp b \<le> length (buf b)"

definition bdata :: "Block \<Rightarrow> byte list" where
  "bdata b = seg (rp b) (wp b - rp b) (buf b)"

definition bytesof :: "Block list \<Rightarrow> byte list" where
  "bytesof bs = concat (map bdata bs)"

text \<open>What a block contributes to \<^verbatim>\<open>ialloc.bytes\<close>: the space of its buffer when it was
  allocated by \<^verbatim>\<open>iallocb\<close>. \<open>balanced w bs w' bs'\<close>: a run that takes over the blocks \<open>bs\<close>
  in state \<open>w\<close> and hands out \<open>bs'\<close> in state \<open>w'\<close> leaves the account right, and does not touch
  the rest of the state that allocation depends on.\<close>

definition ibal :: "Block \<Rightarrow> u32" where
  "ibal b = (if \<not> bfree b \<and> hasf (flag b) BINTR then of_int (BALLOC b) else 0)"

definition iacct :: "Block list \<Rightarrow> u32" where
  "iacct bs = sum_list (map ibal bs)"

definition kstatic :: "Kern \<Rightarrow> bool \<times> (nat \<Rightarrow> nat \<Rightarrow> nat option) \<times> u32" where
  "kstatic w = (up w, mallocs w, ialloc_limit w)"

definition balanced :: "Kern \<Rightarrow> Block list \<Rightarrow> Kern \<Rightarrow> Block list \<Rightarrow> bool" where
  "balanced w bs w' bs' \<longleftrightarrow>
     kstatic w' = kstatic w \<and> ialloc_bytes w' + iacct bs = ialloc_bytes w + iacct bs'"

text \<open>The caller runs in a process and \<^verbatim>\<open>malloc\<close> never fails.\<close>

definition memok :: "Kern \<Rightarrow> bool" where
  "memok w \<longleftrightarrow> up w \<and> (\<forall>k n. mallocs w k n \<noteq> None)"

lemma kstatic_update [simp]:
  "kstatic (w\<lparr>ialloc_bytes := x\<rparr>) = kstatic w" "kstatic (w\<lparr>padblockcnt := c\<rparr>) = kstatic w"
  "kstatic (w\<lparr>concatblockcnt := c\<rparr>) = kstatic w" "kstatic (w\<lparr>pullupblockcnt := c\<rparr>) = kstatic w"
  "kstatic (w\<lparr>copyblockcnt := c\<rparr>) = kstatic w" "kstatic (w\<lparr>consumecnt := c\<rparr>) = kstatic w"
  "kstatic (w\<lparr>producecnt := c\<rparr>) = kstatic w" "kstatic (w\<lparr>qcopycnt := c\<rparr>) = kstatic w"
  "kstatic (w\<lparr>noblockcnt := c\<rparr>) = kstatic w" "kstatic (w\<lparr>ncalls := k\<rparr>) = kstatic w"
  "kstatic (w\<lparr>m1 := i\<rparr>) = kstatic w" "kstatic (w\<lparr>m2 := i\<rparr>) = kstatic w"
  "kstatic (w\<lparr>mp := i\<rparr>) = kstatic w"
  by (simp_all add: kstatic_def)

lemma bytesof_simps [simp]:
  "bytesof [] = []" "bytesof (b # bs) = bdata b @ bytesof bs"
  "bytesof (bs @ cs) = bytesof bs @ bytesof cs"
  by (simp_all add: bytesof_def)

lemma iacct_simps [simp]:
  "iacct [] = 0" "iacct (b # bs) = ibal b + iacct bs" "iacct (bs @ cs) = iacct bs + iacct cs"
  by (simp_all add: iacct_def)

lemma length_bdata: "wfb b \<Longrightarrow> length (bdata b) = wp b - rp b"
  by (simp add: bdata_def wfb_def)

lemma BLEN_length: "wfb b \<Longrightarrow> BLEN b = int (length (bdata b))"
  by (simp add: BLEN_def wfb_def bdata_def)

lemma BLEN_nonneg [simp]: "wfb b \<Longrightarrow> 0 \<le> BLEN b"
  by (simp add: BLEN_length)

lemma blocklen_length: "list_all wfb bs \<Longrightarrow> blocklen bs = int (length (bytesof bs))"
  by (induction bs) (simp_all add: BLEN_length)

lemma blockalloclen_nonneg [simp]: "0 \<le> blockalloclen bs"
  by (induction bs) (simp_all add: BALLOC_def)

lemma ibal_update [simp]:
  "ibal (b\<lparr>rp := r\<rparr>) = ibal b" "ibal (b\<lparr>wp := r\<rparr>) = ibal b"
  "length xs = length (buf b) \<Longrightarrow> ibal (b\<lparr>buf := xs\<rparr>) = ibal b"
  by (simp_all add: ibal_def BALLOC_def)

lemma balanced_refl [simp, intro]: "balanced w bs w bs"
  by (simp add: balanced_def)

lemma balanced_trans:
  "balanced w bs w' bs' \<Longrightarrow> balanced w' bs' w'' bs'' \<Longrightarrow> balanced w bs w'' bs''"
  by (auto simp: balanced_def simp flip: eq_diff_eq)

lemma balanced_memok: "balanced w bs w' bs' \<Longrightarrow> memok w' = memok w"
  by (simp add: balanced_def memok_def kstatic_def)

section \<open>Allocation and freeing\<close>

lemma ROUNDUP_8: "x \<le> ROUNDUP x BLOCKALIGN" "ROUNDUP x BLOCKALIGN < x + 8"
  "ROUNDUP x BLOCKALIGN mod 8 = 0"
  unfolding ROUNDUP_def HOWMANY_def BLOCKALIGN_def by presburger+

lemma ROUNDUP_Hdrspc: "ROUNDUP (n + Hdrspc) BLOCKALIGN = ROUNDUP n BLOCKALIGN + 64"
  unfolding ROUNDUP_def HOWMANY_def BLOCKALIGN_def Hdrspc_def by presburger

text \<open>The layout computed by \<^verbatim>\<open>_allocb\<close>, as a function of the address \<^verbatim>\<open>malloc\<close> returned:
  whatever its alignment, the end of the buffer lies 72 to 65 bytes past the data area.\<close>

lemma newb_addr:
  obtains k r where "ROUNDUP n BLOCKALIGN = k" "n \<le> k" "r = p mod 8" "r < 8"
    "p + allocsz n - sizeof_Block = p + (72 + k)" "(p + (72 + k)) mod BLOCKALIGN = r"
proof -
  obtain k where k: "ROUNDUP n BLOCKALIGN = 8 * k"
    by (simp add: ROUNDUP_def BLOCKALIGN_def mult.commute)
  have "n \<le> 8 * k" using ROUNDUP_8(1) [of n] by (simp add: k)
  moreover have "p + allocsz n - sizeof_Block = p + (72 + 8 * k)"
    by (simp add: allocsz_def ROUNDUP_Hdrspc k) (simp add: BLOCKALIGN_def)
  moreover have "(p + 8 * (9 + k)) mod 8 = p mod 8"
    by (rule mod_mult_self2)
  then have "(p + (72 + 8 * k)) mod BLOCKALIGN = p mod 8"
    by (simp add: BLOCKALIGN_def)
  ultimately show ?thesis by (intro that [OF k _ refl]) simp_all
qed

lemma newb_layout:
  "newb n p = \<lparr>buf = replicate (72 - p mod 8 + ROUNDUP n BLOCKALIGN) 0, rp = 72 - p mod 8,
     wp = 72 - p mod 8, bfree = False, flag = 0, magic = Bmagic\<rparr>"
  by (rule newb_addr [of n p]) (simp add: newb_def Let_def)

lemma newb_facts [simp, blk]:
  "wfb (newb n p)" "bdata (newb n p) = []" "wp (newb n p) = rp (newb n p)"
  "64 < rp (newb n p)" "flag (newb n p) = 0" "bfree (newb n p) = False"
  "magic (newb n p) = Bmagic" "rp (newb n p) + n \<le> length (buf (newb n p))"
  using ROUNDUP_8(1) [of n] pos_mod_bound [of 8 "int p"]
  by (auto simp: newb_layout wfb_def bdata_def intro: order.trans)

lemma ibal_newb [simp]: "ibal (newb n p) = 0"
  by (simp add: ibal_def)

lemma allocb0_eq:
  "allocb0 n w =
     Ret (map_option (newb n) (mallocs w (ncalls w) (allocsz n))) (w\<lparr>ncalls := Suc (ncalls w)\<rparr>)"
proof -
  have "\<not> (let b = p + allocsz n - sizeof_Block; lim = b - b mod BLOCKALIGN;
              r = lim - ROUNDUP n BLOCKALIGN
            in lim < ROUNDUP n BLOCKALIGN \<or> r < p \<or> lim - r < n)" for p
    by (rule newb_addr [of n p]) (auto simp: Let_def)
  then show ?thesis
    by (auto simp: allocb0_def Let_def split: option.split)
qed

text \<open>The address \<^verbatim>\<open>malloc\<close> hands out when it succeeds, and the state after the call.\<close>

definition maddr :: "nat \<Rightarrow> Kern \<Rightarrow> nat" where
  "maddr n w = the (mallocs w (ncalls w) (allocsz n))"

definition tick :: "Kern \<Rightarrow> Kern" where
  "tick w = w\<lparr>ncalls := Suc (ncalls w)\<rparr>"

lemma allocb_eq [blk]: "memok w \<Longrightarrow> allocb n w = Ret (newb n (maddr n w)) (tick w)"
  by (auto simp: allocb_def allocb0_eq memok_def maddr_def tick_def split: option.split)

lemma freeb_eq [blk]: "wfb b \<Longrightarrow> freeb b w = Ret () (w\<lparr>ialloc_bytes := ialloc_bytes w - ibal b\<rparr>)"
  by (auto simp: freeb_def wfb_def ibal_def)

lemma freeblist_eq [blk]:
  "list_all wfb bs \<Longrightarrow>
     freeblist bs w = Ret () (w\<lparr>ialloc_bytes := ialloc_bytes w - iacct bs\<rparr>)"
  by (induction bs arbitrary: w) (simp_all add: freeb_eq algebra_simps)

lemma tick_simps [simp]:
  "memok (tick w) = memok w" "ialloc_bytes (tick w) = ialloc_bytes w" "up (tick w) = up w"
  "mallocs (tick w) = mallocs w" "ialloc_limit (tick w) = ialloc_limit w"
  "kstatic (tick w) = kstatic w"
  by (simp_all add: tick_def memok_def)

lemma memok_update [simp]:
  "memok (w\<lparr>ialloc_bytes := x\<rparr>) = memok w" "memok (w\<lparr>padblockcnt := c\<rparr>) = memok w"
  "memok (w\<lparr>concatblockcnt := c\<rparr>) = memok w" "memok (w\<lparr>pullupblockcnt := c\<rparr>) = memok w"
  "memok (w\<lparr>copyblockcnt := c\<rparr>) = memok w" "memok (w\<lparr>consumecnt := c\<rparr>) = memok w"
  "memok (w\<lparr>producecnt := c\<rparr>) = memok w" "memok (w\<lparr>qcopycnt := c\<rparr>) = memok w"
  "memok (w\<lparr>noblockcnt := c\<rparr>) = memok w"
  by (simp_all add: memok_def)

section \<open>Moving bytes between blocks\<close>

text \<open>The block after \<open>xs\<close> has been stored at its write pointer.\<close>

definition bput :: "Block \<Rightarrow> byte list \<Rightarrow> Block" where
  "bput d xs = d\<lparr>buf := overwrite (wp d) xs (buf d), wp := wp d + length xs\<rparr>"

lemma bfill_eq [blk]:
  "wp d + length xs \<le> length (buf d) \<Longrightarrow> bfill d xs w = Ret (bput d xs) w"
  by (simp add: bfill_def bput_def)

lemma bmove_data_eq [blk]:
  "wfb s \<Longrightarrow> n \<le> length (bdata s) \<Longrightarrow> wp d + n \<le> length (buf d) \<Longrightarrow>
     bmove d s (rp s) (int n) w = Ret (bput d (take n (bdata s))) w"
  by (auto simp: bmove_def bfill_eq wfb_def bdata_def min_def)

lemma bmove_BLEN_eq [blk]:
  "wfb s \<Longrightarrow> wp d + length (bdata s) \<le> length (buf d) \<Longrightarrow>
     bmove d s (rp s) (BLEN s) w = Ret (bput d (bdata s)) w"
  using bmove_data_eq [of s "length (bdata s)" d w] by (simp add: BLEN_length)

lemma bput_facts [simp, blk]:
  assumes "wp d + length xs \<le> length (buf d)"
  shows "wfb d \<Longrightarrow> wfb (bput d xs)" "wfb d \<Longrightarrow> bdata (bput d xs) = bdata d @ xs"
    "length (buf (bput d xs)) = length (buf d)" "ibal (bput d xs) = ibal d"
  using assms seg_overwrite_extend [of "rp d" "wp d" xs "buf d"]
  by (auto simp: bput_def wfb_def bdata_def ibal_def BALLOC_def)

end
