(* ===== verification/Queues.thy ===== *)
theory Queues
  imports Blocks
begin

text \<open>
  I/O queues, \<^verbatim>\<open>sys/src/9k/port/qio.c\<close>: the state of a \<open>Queue\<close> and every operation on it.

  The linked list from \<^verbatim>\<open>bfirst\<close> to \<^verbatim>\<open>blast\<close> is the list \<open>blocks\<close>. \<^verbatim>\<open>kick\<close> and
  \<^verbatim>\<open>bypass\<close> record whether the queue has such a routine; the calls made through the queue
  (waking readers and writers, kicking the device, handing a block to the bypass routine) are
  appended to \<open>log\<close>, in order. Each operation is what runs between \<^verbatim>\<open>ilock(q)\<close> and
  \<^verbatim>\<open>iunlock(q)\<close>, so it is one atomic step; \<^verbatim>\<open>qread\<close>, which copies to the user outside the
  lock, is the composition of its two locked parts \<open>qread_get\<close> and \<open>qread_put\<close> around
  \<open>bl2mem\<close>. An operation that goes to sleep yields \<open>Sleep\<close>. The qlocks \<^verbatim>\<open>rlock\<close> and
  \<^verbatim>\<open>wlock\<close>, which serialise readers and writers, appear in the interleaving model.
\<close>

section \<open>State\<close>

datatype kevent = WakeR | WakeW | Kick | Bypass Block

record Queue =
  blocks :: "Block list"
  len :: int
  dlen :: int
  limit :: int
  inilim :: int
  state :: u32
  noblock :: bool
  eof :: int
  kick :: bool
  bypass :: bool
  err :: string
  log :: "kevent list"

definition Qstarve :: u32 where "Qstarve = push_bit 0 1"
definition Qmsg :: u32 where "Qmsg = push_bit 1 1"
definition Qclosed :: u32 where "Qclosed = push_bit 2 1"
definition Qflow :: u32 where "Qflow = push_bit 3 1"
definition Qcoalesce :: u32 where "Qcoalesce = push_bit 4 1"
definition Qkick :: u32 where "Qkick = push_bit 5 1"

definition ERRMAX :: nat where "ERRMAX = 128"

definition Ehungup :: string where "Ehungup = ''i/o on hungup channel''"

definition sizeof_Queue :: nat where "sizeof_Queue = 480"

text \<open>\<^verbatim>\<open>x/2\<close> in C truncates towards zero.\<close>

definition half :: "int \<Rightarrow> int" where
  "half x = (if x < 0 then - ((- x) div 2) else x div 2)"

text \<open>Run an operation on the kernel state while the queue stays as it is.\<close>

fun withq :: "Queue \<Rightarrow> ('a, Kern) res \<Rightarrow> ('a, Queue \<times> Kern) res" where
  "withq q (Ret a w) = Ret a (q, w)"
| "withq q (Err e w) = Err e (q, w)"
| "withq q (Sleep w) = Sleep (q, w)"
| "withq q (Panic e) = Panic e"
| "withq q Halt = Halt"
| "withq q Fault = Fault"

section \<open>Removing data without sleeping\<close>

fun pullupqueue :: "Queue \<Rightarrow> int \<Rightarrow> Kern \<Rightarrow> (Block list, Queue \<times> Kern) res" where
  "pullupqueue q n w =
     (case blocks q of
        [] \<Rightarrow> Fault
      | b # _ \<Rightarrow>
          if BLEN b \<ge> n then Ret (blocks q) (q, w)
          else bindR (withq q (pullupblock (blocks q) n w)) (\<lambda>bs (q, w).
            Ret bs (q\<lparr>blocks := bs\<rparr>, w)))"

text \<open>If the writer is flow controlled and the queue has drained, restart it: the code at the
  end of \<^verbatim>\<open>qget\<close>, \<^verbatim>\<open>qdiscard\<close> and \<^verbatim>\<open>qconsume\<close>.\<close>

definition restart :: "Queue \<Rightarrow> Queue" where
  "restart q =
     (if hasf (state q) Qflow \<and> len q < half (limit q)
      then q\<lparr>state := clrf (state q) Qflow, log := log q @ [WakeW]\<rparr> else q)"

definition qget :: "Queue \<Rightarrow> Kern \<Rightarrow> (Block option, Queue \<times> Kern) res" where
  "qget q w =
     (case blocks q of
        [] \<Rightarrow> Ret None (q\<lparr>state := setf (state q) Qstarve\<rparr>, w)
      | b # bs \<Rightarrow>
          Ret (Some b)
            (restart (q\<lparr>blocks := bs, len := len q - BALLOC b, dlen := dlen q - BLEN b\<rparr>), w))"

function discard_loop :: "Queue \<Rightarrow> int \<Rightarrow> int \<Rightarrow> Kern \<Rightarrow> (int, Queue \<times> Kern) res" where
  "discard_loop q l sofar w =
     (if sofar < l then
        (case blocks q of
           [] \<Rightarrow> Ret sofar (q, w)
         | b # bs \<Rightarrow>
             let n = BLEN b in
             if n \<le> l - sofar then
               let q' = q\<lparr>blocks := bs, len := len q - BALLOC b, dlen := dlen q - BLEN b\<rparr> in
               (case freeb b w of
                  Ret _ w \<Rightarrow> discard_loop q' l (sofar + n) w
                | m \<Rightarrow> withq q' (bindR m (\<lambda>_ w. Ret 0 w)))
             else
               let n = l - sofar in
               discard_loop
                 (q\<lparr>blocks := b\<lparr>rp := nat (int (rp b) + n)\<rparr> # bs, dlen := dlen q - n\<rparr>)
                 l (sofar + n) w)
      else Ret sofar (q, w))"
  by pat_completeness auto
termination
  by (relation "measures [\<lambda>(q, l, sofar, w). length (blocks q), \<lambda>(q, l, sofar, w). nat (l - sofar)]")
     auto

definition qdiscard :: "Queue \<Rightarrow> int \<Rightarrow> Kern \<Rightarrow> (int, Queue \<times> Kern) res" where
  "qdiscard q l w =
     bindR (discard_loop q l 0 w) (\<lambda>sofar (q, w). Ret sofar (restart q, w))"

text \<open>\<^verbatim>\<open>qconsume\<close> first sets aside the empty blocks at the front (\<^verbatim>\<open>tofree\<close>, latest first). It
  returns the count (\<open>-1\<close> on an empty queue) and the bytes it stored.\<close>

fun consume_skip :: "Block list \<Rightarrow> int \<Rightarrow> Block list \<Rightarrow> Block list \<times> int \<times> Block list" where
  "consume_skip [] l tofree = ([], l, tofree)"
| "consume_skip (b # bs) l tofree =
     (if BLEN b > 0 then (b # bs, l, tofree) else consume_skip bs (l - BALLOC b) (b # tofree))"

definition qconsume :: "Queue \<Rightarrow> int \<Rightarrow> Kern \<Rightarrow> (int \<times> byte list, Queue \<times> Kern) res" where
  "qconsume q l w =
     (case consume_skip (blocks q) (len q) [] of
        ([], ln, tofree) \<Rightarrow>
          Ret (-1, []) (q\<lparr>blocks := [], len := ln, state := setf (state q) Qstarve\<rparr>, w)
      | (b # bs, ln, tofree) \<Rightarrow>
          let n = BLEN b; l = (if n < l then n else l) in
          if 0 \<le> l \<and> rp b + nat l \<le> length (buf b) then
            let xs = seg (rp b) (nat l) (buf b);
                w = w\<lparr>consumecnt := consumecnt w + of_int n\<rparr>;
                b = b\<lparr>rp := rp b + nat l\<rparr>;
                q = q\<lparr>blocks := b # bs, len := ln, dlen := dlen q - l\<rparr>;
                gone = hasf (state q) Qmsg \<or> l = n;
                q = (if gone
                     then q\<lparr>blocks := bs, len := len q - BALLOC b, dlen := dlen q - BLEN b\<rparr>
                     else q);
                tofree = (if gone then b # tofree else tofree)
            in bindR (withq (restart q) (freeblist tofree w)) (\<lambda>_ s. Ret (l, xs) s)
          else Fault)"

section \<open>Adding data without sleeping\<close>

text \<open>The common end of \<^verbatim>\<open>qpass\<close> and \<^verbatim>\<open>qpassnolim\<close>: append the string of blocks.\<close>

definition passadd :: "Queue \<Rightarrow> Block list \<Rightarrow> Kern \<Rightarrow> (int, Queue \<times> Kern) res" where
  "passadd q bs w =
     (let q = q\<lparr>blocks := blocks q @ bs, len := len q + blockalloclen bs,
               dlen := dlen q + blocklen bs\<rparr>;
          q = (if len q \<ge> half (limit q) then q\<lparr>state := setf (state q) Qflow\<rparr> else q);
          q = (if hasf (state q) Qstarve
               then q\<lparr>state := clrf (state q) Qstarve, log := log q @ [WakeR]\<rparr> else q)
      in Ret (blockalloclen bs) (q, w))"

definition qpassnolim :: "Queue \<Rightarrow> Block list \<Rightarrow> Kern \<Rightarrow> (int, Queue \<times> Kern) res" where
  "qpassnolim q bs w =
     (case bs of
        [] \<Rightarrow> Fault
      | b # _ \<Rightarrow>
          if hasf (state q) Qclosed
          then bindR (withq q (freeblist bs w)) (\<lambda>_ s. Ret (BALLOC b) s)
          else passadd q bs w)"

definition qpass :: "Queue \<Rightarrow> Block list \<Rightarrow> Kern \<Rightarrow> (int, Queue \<times> Kern) res" where
  "qpass q bs w =
     (if len q \<ge> limit q then bindR (withq q (freeblist bs w)) (\<lambda>_ s. Ret (-1) s)
      else case bs of
        [] \<Rightarrow> Fault
      | b # _ \<Rightarrow>
          if hasf (state q) Qclosed
          then bindR (withq q (freeblist bs w)) (\<lambda>_ s. Ret (BALLOC b) s)
          else passadd q bs w)"

definition qproduce :: "Queue \<Rightarrow> byte list \<Rightarrow> Kern \<Rightarrow> (int, Queue \<times> Kern) res" where
  "qproduce q xs w =
     (if len q \<ge> limit q then Ret (-1) (q\<lparr>state := setf (state q) Qflow\<rparr>, w)
      else bindR (withq q (iallocb (length xs) w)) (\<lambda>b (q, w).
        case b of
          None \<Rightarrow> Ret 0 (q, w)
        | Some b \<Rightarrow>
            bindR (withq q (bfill b xs w)) (\<lambda>b (q, w).
            let w = w\<lparr>producecnt := producecnt w + of_nat (length xs)\<rparr>;
                q = q\<lparr>blocks := blocks q @ [b], len := len q + BALLOC b, dlen := dlen q + BLEN b\<rparr>;
                starved = hasf (state q) Qstarve;
                q = (if starved then q\<lparr>state := clrf (state q) Qstarve\<rparr> else q);
                q = (if len q \<ge> limit q then q\<lparr>state := setf (state q) Qflow\<rparr> else q);
                q = (if starved then q\<lparr>log := log q @ [WakeR]\<rparr> else q)
            in Ret (int (length xs)) (q, w))))"

section \<open>Copying from the middle\<close>

fun qcopy_seek :: "Block list \<Rightarrow> int \<Rightarrow> nat \<Rightarrow> (Block list \<times> nat) option" where
  "qcopy_seek [] sofar offset = None"
| "qcopy_seek (b # bs) sofar offset =
     (if sofar + BLEN b > int offset then Some (b # bs, nat (int offset - sofar))
      else qcopy_seek bs (sofar + BLEN b) offset)"

fun qcopy_loop ::
  "Block \<Rightarrow> Block \<Rightarrow> Block list \<Rightarrow> nat \<Rightarrow> int \<Rightarrow> int \<Rightarrow> int \<Rightarrow> Kern \<Rightarrow> (Block, Kern) res" where
  "qcopy_loop nb b bs p n l sofar w =
     (if sofar < l then
        let n = (if n > l - sofar then l - sofar else n) in
        bindR (bmove nb b p n w) (\<lambda>nb w.
        let w = w\<lparr>qcopycnt := qcopycnt w + of_int n\<rparr> in
        case bs of
          [] \<Rightarrow> Ret nb w
        | b' # bs' \<Rightarrow> qcopy_loop nb b' bs' (rp b') (BLEN b') l (sofar + n) w)
      else Ret nb w)"

definition qcopy :: "Queue \<Rightarrow> nat \<Rightarrow> nat \<Rightarrow> Kern \<Rightarrow> (Block, Queue \<times> Kern) res" where
  "qcopy q l offset w =
     withq q (bindR (allocb l w) (\<lambda>nb w.
       case qcopy_seek (blocks q) 0 offset of
         None \<Rightarrow> Ret nb w
       | Some ([], d) \<Rightarrow> Fault
       | Some (b # bs, d) \<Rightarrow> qcopy_loop nb b bs (rp b + d) (BLEN b - int d) (int l) 0 w))"

section \<open>Opening\<close>

definition qopen :: "int \<Rightarrow> u32 \<Rightarrow> bool \<Rightarrow> Kern \<Rightarrow> (Queue option, Kern) res" where
  "qopen lim msg kck w =
     Ret (case mallocs w (ncalls w) sizeof_Queue of
            None \<Rightarrow> None
          | Some _ \<Rightarrow>
              Some \<lparr>blocks = [], len = 0, dlen = 0, limit = lim, inilim = lim,
                    state = setf msg Qstarve, noblock = False, eof = 0, kick = kck,
                    bypass = False, err = '''', log = []\<rparr>)
         (w\<lparr>ncalls := Suc (ncalls w)\<rparr>)"

definition qbypass :: "Kern \<Rightarrow> (Queue option, Kern) res" where
  "qbypass w =
     Ret (case mallocs w (ncalls w) sizeof_Queue of
            None \<Rightarrow> None
          | Some _ \<Rightarrow>
              Some \<lparr>blocks = [], len = 0, dlen = 0, limit = 0, inilim = 0, state = 0,
                    noblock = False, eof = 0, kick = False, bypass = True, err = '''', log = []\<rparr>)
         (w\<lparr>ncalls := Suc (ncalls w)\<rparr>)"

section \<open>Reading\<close>

definition notempty :: "Queue \<Rightarrow> bool" where
  "notempty q \<longleftrightarrow> hasf (state q) Qclosed \<or> blocks q \<noteq> []"

text \<open>One turn of the loop of \<^verbatim>\<open>qwait\<close>; after a sleep the loop starts over.\<close>

definition qwait :: "Queue \<Rightarrow> Kern \<Rightarrow> (int, Queue \<times> Kern) res" where
  "qwait q w =
     (if blocks q \<noteq> [] then Ret 1 (q, w)
      else if hasf (state q) Qclosed then
        let q = q\<lparr>eof := eof q + 1\<rparr> in
        if eof q > 3 then Ret (-1) (q, w)
        else if err q \<noteq> '''' \<and> err q \<noteq> Ehungup then Ret (-1) (q, w)
        else Ret 0 (q, w)
      else Sleep (q\<lparr>state := setf (state q) Qstarve\<rparr>, w))"

definition qaddlist :: "Queue \<Rightarrow> Block list \<Rightarrow> Queue" where
  "qaddlist q bs =
     q\<lparr>blocks := blocks q @ bs, len := len q + blockalloclen bs, dlen := dlen q + blocklen bs\<rparr>"

definition qremove :: "Queue \<Rightarrow> Block option \<times> Queue" where
  "qremove q =
     (case blocks q of
        [] \<Rightarrow> (None, q)
      | b # bs \<Rightarrow>
          (Some b, q\<lparr>blocks := bs, dlen := dlen q - BLEN b, len := len q - BALLOC b\<rparr>))"

definition qputback :: "Queue \<Rightarrow> Block \<Rightarrow> Queue" where
  "qputback q b =
     q\<lparr>blocks := b # blocks q, len := len q + BALLOC b, dlen := dlen q + BLEN b\<rparr>"

definition qwakeup_iunlock :: "Queue \<Rightarrow> Queue" where
  "qwakeup_iunlock q =
     (if hasf (state q) Qflow \<and> len q < half (limit q)
      then q\<lparr>state := clrf (state q) Qflow,
             log := log q @ (if kick q then [Kick] else []) @ [WakeW]\<rparr>
      else q)"

definition qbread :: "Queue \<Rightarrow> int \<Rightarrow> Kern \<Rightarrow> (Block option, Queue \<times> Kern) res" where
  "qbread q l w =
     bindR (qwait q w) (\<lambda>r (q, w).
       if r = 0 then Ret None (q, w)
       else if r = -1 then Err (err q) (q, w)
       else case qremove q of
         (None, q) \<Rightarrow> Fault
       | (Some nb, q) \<Rightarrow>
           let n = BLEN nb in
           if n > l then
             bindR (if \<not> hasf (state q) Qmsg then
                      bindR (withq q (allocb (nat (n - l)) w)) (\<lambda>b (q, w).
                      bindR (withq q (bmove b nb (nat (int (rp nb) + l)) (n - l) w)) (\<lambda>b (q, w).
                      Ret () (qputback q b, w)))
                    else Ret () (q, w)) (\<lambda>_ (q, w).
             Ret (Some (nb\<lparr>wp := nat (int (rp nb) + l)\<rparr>)) (qwakeup_iunlock q, w))
           else Ret (Some nb) (qwakeup_iunlock q, w))"

text \<open>The coalescing loop of \<^verbatim>\<open>qread\<close>: after the first block, take every further block that
  still fits in the read.\<close>

fun coalesce :: "Block list \<Rightarrow> int \<Rightarrow> int \<Rightarrow> Block list \<times> int \<times> Block list" where
  "coalesce [] n l = ([], n, [])"
| "coalesce (b # bs) n l =
     (if n + BLEN b > l then ([], n, b # bs)
      else case coalesce bs (n + BLEN b) l of (took, m, left) \<Rightarrow> (b # took, m, left))"

text \<open>The first locked part of \<^verbatim>\<open>qread\<close>: \<open>None\<close> when the queue is closed, otherwise the blocks
  taken off the queue and their byte count.\<close>

function qread_get :: "Queue \<Rightarrow> int \<Rightarrow> Kern \<Rightarrow> ((Block list \<times> int) option, Queue \<times> Kern) res" where
  "qread_get q l w =
     (case blocks q of
        [] \<Rightarrow>
          bindR (qwait q w) (\<lambda>r (q, w).
            if r = 0 then Ret None (q, w)
            else if r = -1 then Err (err q) (q, w)
            else Fault)
      | b # bs \<Rightarrow>
          if hasf (state q) Qcoalesce then
            if BLEN b \<le> 0 then
              (case freeb b w of
                 Ret _ w \<Rightarrow> qread_get (snd (qremove q)) l w
               | m \<Rightarrow> withq (snd (qremove q)) (bindR m (\<lambda>_ w. Ret None w)))
            else
              (case coalesce bs (BLEN b) l of (took, n, left) \<Rightarrow>
                 Ret (Some (b # took, n))
                   (q\<lparr>blocks := left, dlen := dlen q - blocklen (b # took),
                      len := len q - blockalloclen (b # took)\<rparr>, w))
          else Ret (Some ([b], BLEN b)) (snd (qremove q), w))"
  by pat_completeness auto
termination
  by (relation "measure (\<lambda>(q, l, w). length (blocks q))") (auto simp: qremove_def)

text \<open>The second locked part: put back or drop what did not fit.\<close>

definition qread_put ::
  "Queue \<Rightarrow> Block list \<Rightarrow> int \<Rightarrow> byte list \<Rightarrow> Kern \<Rightarrow> (int \<times> byte list, Queue \<times> Kern) res" where
  "qread_put q left n xs w =
     (case left of
        [] \<Rightarrow> Ret (n, xs) (qwakeup_iunlock q, w)
      | b # _ \<Rightarrow>
          if hasf (state q) Qmsg
          then bindR (withq q (freeb b w)) (\<lambda>_ (q, w).
            Ret (n - BLEN b, xs) (qwakeup_iunlock q, w))
          else Ret (n - BLEN b, xs) (qwakeup_iunlock (qputback q b), w))"

definition qread :: "Queue \<Rightarrow> int \<Rightarrow> Kern \<Rightarrow> (int \<times> byte list, Queue \<times> Kern) res" where
  "qread q l w =
     bindR (qread_get q l w) (\<lambda>r (q, w).
       case r of
         None \<Rightarrow> Ret (0, []) (q, w)
       | Some (first, n) \<Rightarrow>
           bindR (withq q (bl2mem first l w)) (\<lambda>(xs, left) (q, w).
           qread_put q left n xs w))"

section \<open>Writing\<close>

definition qnotfull :: "Queue \<Rightarrow> bool" where
  "qnotfull q \<longleftrightarrow> len q < limit q \<or> hasf (state q) Qclosed"

text \<open>The flow-control loop at the end of \<^verbatim>\<open>qbwrite\<close>: one turn; after a sleep it starts over.\<close>

definition qbwrite_wait :: "Queue \<Rightarrow> int \<Rightarrow> Kern \<Rightarrow> (int, Queue \<times> Kern) res" where
  "qbwrite_wait q n w =
     (if noblock q \<or> qnotfull q then Ret n (q, w)
      else Sleep (q\<lparr>state := setf (state q) Qflow\<rparr>, w))"

text \<open>What \<^verbatim>\<open>qbwrite\<close> does before that loop: hand the block to the bypass routine, refuse it,
  drop it (the answer is then \<open>False\<close>), or queue it (\<open>True\<close>).\<close>

definition qbwrite_add :: "Queue \<Rightarrow> Block \<Rightarrow> Kern \<Rightarrow> (bool, Queue \<times> Kern) res" where
  "qbwrite_add q b w =
     (let n = BLEN b in
      if bypass q then Ret False (q\<lparr>log := log q @ [Bypass b]\<rparr>, w)
      else if hasf (state q) Qclosed
      then bindR (withq q (freeb b w)) (\<lambda>_ s. Err (err q) s)
      else if len q \<ge> limit q \<and> noblock q
      then bindR (withq q (freeb b w)) (\<lambda>_ (q, w).
             Ret False (q, w\<lparr>noblockcnt := noblockcnt w + of_int n\<rparr>))
      else
        let q = q\<lparr>blocks := blocks q @ [b], len := len q + BALLOC b, dlen := dlen q + n\<rparr>;
            dowakeup = hasf (state q) Qstarve;
            q = (if dowakeup then q\<lparr>state := clrf (state q) Qstarve\<rparr> else q);
            q = (if kick q \<and> (dowakeup \<or> hasf (state q) Qkick)
                 then q\<lparr>log := log q @ [Kick]\<rparr> else q);
            q = (if dowakeup then q\<lparr>log := log q @ [WakeR]\<rparr> else q)
        in Ret True (q, w))"

definition qbwrite :: "Queue \<Rightarrow> Block \<Rightarrow> Kern \<Rightarrow> (int, Queue \<times> Kern) res" where
  "qbwrite q b w =
     (let n = BLEN b in
      bindR (qbwrite_add q b w) (\<lambda>queued (q, w).
      if queued then qbwrite_wait q n w else Ret n (q, w)))"

text \<open>The loop of \<^verbatim>\<open>qwrite\<close>; \<open>xs\<close> are the bytes not yet queued.\<close>

function qwrite_loop :: "Queue \<Rightarrow> byte list \<Rightarrow> Kern \<Rightarrow> (unit, Queue \<times> Kern) res" where
  "qwrite_loop q xs w =
     (let n = (if length xs > Maxatomic then Maxatomic else length xs) in
      bindR (withq q (allocb n w)) (\<lambda>b (q, w).
      bindR (withq q (bfill b (take n xs) w)) (\<lambda>b (q, w).
      bindR (qbwrite q b w) (\<lambda>_ (q, w).
      if length xs - n > 0 \<and> \<not> hasf (state q) Qmsg
      then qwrite_loop q (drop n xs) w
      else Ret () (q, w)))))"
  by pat_completeness auto
termination
  by (relation "measure (\<lambda>(q, xs, w). length xs)")
     (auto simp: Maxatomic_def Let_def split: if_splits)

definition qwrite :: "Queue \<Rightarrow> byte list \<Rightarrow> Kern \<Rightarrow> (int, Queue \<times> Kern) res" where
  "qwrite q xs w = bindR (qwrite_loop q xs w) (\<lambda>_ s. Ret (int (length xs)) s)"

text \<open>The loop of \<^verbatim>\<open>qiwrite\<close>; \<^verbatim>\<open>dowakeup\<close> is set once and stays set.\<close>

function qiwrite_loop :: "Queue \<Rightarrow> byte list \<Rightarrow> bool \<Rightarrow> int \<Rightarrow> Kern \<Rightarrow> (int, Queue \<times> Kern) res" where
  "qiwrite_loop q xs dowakeup sofar w =
     (let n = (if length xs > Maxatomic then Maxatomic else length xs) in
      bindR (withq q (iallocb n w)) (\<lambda>b (q, w).
      case b of
        None \<Rightarrow> Ret sofar (q, w)
      | Some b \<Rightarrow>
          bindR (withq q (bfill b (take n xs) w)) (\<lambda>b (q, w).
          if dlen q \<ge> 16 * 1024
          then bindR (withq q (freeb b w)) (\<lambda>_ s. Ret sofar s)
          else
            let q = q\<lparr>blocks := blocks q @ [b], len := len q + BALLOC b, dlen := dlen q + int n\<rparr>;
                dowakeup = (dowakeup \<or> hasf (state q) Qstarve);
                q = q\<lparr>state := clrf (state q) Qstarve\<rparr>;
                q = (if dowakeup
                     then q\<lparr>log := log q @ (if kick q then [Kick] else []) @ [WakeR]\<rparr> else q)
            in if length xs - n > 0 \<and> \<not> hasf (state q) Qmsg
               then qiwrite_loop q (drop n xs) dowakeup (sofar + int n) w
               else Ret (sofar + int n) (q, w))))"
  by pat_completeness auto
termination
  by (relation "measure (\<lambda>(q, xs, d, s, w). length xs)")
     (auto simp: Maxatomic_def Let_def split: if_splits)

definition qiwrite :: "Queue \<Rightarrow> byte list \<Rightarrow> Kern \<Rightarrow> (int, Queue \<times> Kern) res" where
  "qiwrite q xs w = qiwrite_loop q xs False 0 w"

section \<open>Closing, and the rest\<close>

definition qclose :: "Queue option \<Rightarrow> Kern \<Rightarrow> (Queue option, Kern) res" where
  "qclose qo w =
     (case qo of
        None \<Rightarrow> Ret None w
      | Some q \<Rightarrow>
          bindR (freeblist (blocks q) w) (\<lambda>_ w.
          Ret (Some (q\<lparr>state := clrf (setf (state q) Qclosed) (Qflow OR Qstarve), err := Ehungup,
                       blocks := [], len := 0, dlen := 0, noblock := False,
                       log := log q @ [WakeR, WakeW]\<rparr>)) w))"

definition qfree :: "Queue \<Rightarrow> Kern \<Rightarrow> (unit, Kern) res" where
  "qfree q w = bindR (qclose (Some q) w) (\<lambda>_ w. Ret () w)"

text \<open>A nil message is the empty string here.\<close>

definition qhangup :: "Queue \<Rightarrow> string \<Rightarrow> Queue" where
  "qhangup q msg =
     q\<lparr>state := setf (state q) Qclosed,
       err := (if msg = '''' then Ehungup else take (ERRMAX - 1) msg),
       log := log q @ [WakeR, WakeW]\<rparr>"

definition qisclosed :: "Queue \<Rightarrow> bool" where
  "qisclosed q = hasf (state q) Qclosed"

definition qreopen :: "Queue \<Rightarrow> Queue" where
  "qreopen q =
     q\<lparr>state := setf (clrf (state q) Qclosed) Qstarve, eof := 0, limit := inilim q\<rparr>"

definition qlen :: "Queue \<Rightarrow> int" where
  "qlen q = dlen q"

definition qwindow :: "Queue \<Rightarrow> int" where
  "qwindow q = (let l = limit q - len q in if l < 0 then 0 else l)"

definition qcanread :: "Queue \<Rightarrow> bool" where
  "qcanread q = (blocks q \<noteq> [])"

definition qsetlimit :: "Queue \<Rightarrow> int \<Rightarrow> Queue" where
  "qsetlimit q lim = q\<lparr>limit := lim\<rparr>"

definition qnoblock :: "Queue \<Rightarrow> bool \<Rightarrow> Queue" where
  "qnoblock q onoff = q\<lparr>noblock := onoff\<rparr>"

definition qflush :: "Queue \<Rightarrow> Kern \<Rightarrow> (unit, Queue \<times> Kern) res" where
  "qflush q w =
     bindR (withq (q\<lparr>blocks := [], len := 0, dlen := 0, log := log q @ [WakeW]\<rparr>)
       (freeblist (blocks q) w)) (\<lambda>_ s. Ret () s)"

definition qfull :: "Queue \<Rightarrow> bool" where
  "qfull q = hasf (state q) Qflow"

definition qstate :: "Queue \<Rightarrow> u32" where
  "qstate q = state q"

end
