(* ===== verification/Block_Props.thy ===== *)
theory Block_Props
  imports Blocks
begin

text \<open>
  Correctness of the block routines: on well-formed blocks, with memory to be had, none of
  them panics or leaves a buffer; each keeps blocks well formed, does to the bytes of the
  string what its comment in \<^verbatim>\<open>qio.c\<close> says, and keeps the account of interrupt-time
  allocation right (\<open>balanced\<close>: what it drops it frees, once).
\<close>

section \<open>Moving a block's pointers\<close>

lemma wfb_rp_fwd [simp]: "wfb b \<Longrightarrow> k \<le> length (bdata b) \<Longrightarrow> wfb (b\<lparr>rp := rp b + k\<rparr>)"
  by (auto simp: wfb_def bdata_def)

lemma bdata_rp_fwd [simp]:
  "wfb b \<Longrightarrow> k \<le> length (bdata b) \<Longrightarrow> bdata (b\<lparr>rp := rp b + k\<rparr>) = drop k (bdata b)"
  by (simp add: bdata_def)

lemma wfb_rp_back [simp]: "wfb b \<Longrightarrow> wfb (b\<lparr>rp := rp b - k\<rparr>)"
  by (auto simp: wfb_def)

lemma bdata_rp_back:
  "wfb b \<Longrightarrow> k \<le> rp b \<Longrightarrow>
     bdata (b\<lparr>rp := rp b - k\<rparr>) = seg (rp b - k) k (buf b) @ bdata b"
  using seg_append_drop [of k "wp b - (rp b - k)" "rp b - k" "buf b"]
  by (auto simp: bdata_def wfb_def)

lemma wfb_wp_cut [simp]: "wfb b \<Longrightarrow> k \<le> length (bdata b) \<Longrightarrow> wfb (b\<lparr>wp := rp b + k\<rparr>)"
  by (auto simp: wfb_def bdata_def)

lemma bdata_wp_cut [simp]:
  "wfb b \<Longrightarrow> k \<le> length (bdata b) \<Longrightarrow> bdata (b\<lparr>wp := rp b + k\<rparr>) = take k (bdata b)"
  by (simp add: bdata_def wfb_def min_def)

lemma wfb_shift [simp]:
  "wfb b \<Longrightarrow> wp b = rp b \<Longrightarrow> rp b + k \<le> length (buf b) \<Longrightarrow> wfb (b\<lparr>rp := rp b + k, wp := rp b + k\<rparr>)"
  by (simp add: wfb_def)

lemma bdata_shift [simp]: "bdata (b\<lparr>rp := r, wp := r\<rparr>) = []"
  by (simp add: bdata_def)

lemma rp_bput [simp]: "rp (bput d xs) = rp d" and wp_bput [simp]: "wp (bput d xs) = wp d + length xs"
  by (simp_all add: bput_def)

lemma length_seg_rp: "wfb b \<Longrightarrow> k \<le> rp b \<Longrightarrow> length (seg (rp b - k) k (buf b)) = k"
  by (simp add: wfb_def)

lemma balanced_self: "iacct bs = iacct bs' \<Longrightarrow> balanced w bs w bs'"
  by (simp add: balanced_def)

section \<open>padblock\<close>

text \<open>A fresh block filled with bytes that fit.\<close>

lemma newb_fill [simp, blk]:
  assumes "length xs \<le> n"
  shows "rp (newb n p) + length xs \<le> length (buf (newb n p))" "wfb (bput (newb n p) xs)"
    "bdata (bput (newb n p) xs) = xs" "ibal (bput (newb n p) xs) = 0"
    "length (buf (bput (newb n p) xs)) = length (buf (newb n p))"
proof -
  show r: "rp (newb n p) + length xs \<le> length (buf (newb n p))"
    using newb_facts(8) [of n p] assms by linarith
  then have "wp (newb n p) + length xs \<le> length (buf (newb n p))" by simp
  note bput_facts [OF this]
  then show "wfb (bput (newb n p) xs)" "bdata (bput (newb n p) xs) = xs"
    "ibal (bput (newb n p) xs) = 0"
    "length (buf (bput (newb n p) xs)) = length (buf (newb n p))" by simp_all
qed

text \<open>A fresh block opened \<open>k\<close> bytes past its start and filled with \<open>xs\<close>.\<close>

lemma newb_pad:
  fixes xs :: "byte list"
  assumes "length xs = m" "d = (newb (k + m) p)\<lparr>rp := rp (newb (k + m) p) + k\<rparr>"
    "e = d\<lparr>wp := rp d\<rparr>"
  shows "wfb e" "wp e + length xs \<le> length (buf e)" "wfb (bput e xs)"
    "bdata (bput e xs) = xs" "k \<le> rp (bput e xs)" "ibal (bput e xs) = 0"
proof -
  have r: "rp (newb (k + m) p) + (k + m) \<le> length (buf (newb (k + m) p))"
    by simp
  have e: "e = (newb (k + m) p)\<lparr>rp := rp (newb (k + m) p) + k, wp := rp (newb (k + m) p) + k\<rparr>"
    by (simp add: assms(2,3))
  show "wfb e" unfolding e by (rule wfb_shift) (use r in \<open>simp_all, linarith\<close>)
  moreover show room: "wp e + length xs \<le> length (buf e)"
    by (simp add: e assms(1)) (use r in linarith)
  moreover have "bdata e = []" by (simp add: e)
  moreover have "ibal e = 0" by (simp add: e)
  ultimately show "wfb (bput e xs)" "bdata (bput e xs) = xs" "ibal (bput e xs) = 0"
    by simp_all
  show "k \<le> rp (bput e xs)" by (simp add: e)
qed

lemma padblock_front_ok:
  assumes "memok w" "wfb b"
  shows "okR (padblock [b] (int k) w) (\<lambda>bs w'. \<exists>b' h. bs = [b'] \<and> wfb b' \<and>
           length h = k \<and> bdata b' = h @ bdata b \<and> balanced w [b] w' bs)"
proof (cases "k \<le> rp b")
  case True
  with assms show ?thesis
    by (auto simp: bdata_rp_back length_seg_rp intro: balanced_self)
next
  case False
  define m where "m = length (bdata b)"
  define w1 where "w1 = w\<lparr>padblockcnt := padblockcnt w + 1\<rparr>"
  define nb where "nb = newb (k + m) (maddr (k + m) w1)"
  define d where "d = nb\<lparr>rp := rp nb + k\<rparr>"
  define e where "e = d\<lparr>wp := rp d\<rparr>"
  define f where "f = bput e (bdata b)"
  have len: "nat (int k + int m) = k + m" "BLEN b = int m"
    using assms by (simp_all add: m_def BLEN_length nat_int_add)
  note pad = newb_pad [OF m_def [symmetric] d_def [unfolded nb_def] e_def, folded f_def]
  have "allocb (k + m) w1 = Ret nb (tick w1)"
    unfolding nb_def by (rule allocb_eq) (simp add: w1_def assms)
  moreover have "bmove e b (rp b) (BLEN b) s = Ret f s" for s :: Kern
    unfolding f_def by (rule bmove_BLEN_eq) (use assms pad in simp_all)
  ultimately have "padblock [b] (int k) w =
      Ret [f\<lparr>rp := rp f - k\<rparr>] ((tick w1)\<lparr>ialloc_bytes := ialloc_bytes (tick w1) - ibal b\<rparr>)"
    using False assms by (simp add: Let_def freeb_eq len w1_def d_def e_def)
  then show ?thesis
    using pad by (auto simp: bdata_rp_back length_seg_rp balanced_def w1_def)
qed


lemma padblock_back_ok:
  assumes "memok w" "wfb b" "0 < k"
  shows "okR (padblock [b] (- int k) w) (\<lambda>bs w'. \<exists>b'. bs = [b'] \<and> wfb b' \<and>
           bdata b' = bdata b \<and> wp b' + k \<le> length (buf b') \<and> balanced w [b] w' bs)"
proof (cases "wp b + k \<le> length (buf b)")
  case True
  with assms show ?thesis by auto
next
  case False
  define m where "m = length (bdata b)"
  define w1 where "w1 = w\<lparr>padblockcnt := padblockcnt w + 1\<rparr>"
  define nb where "nb = newb (k + m) (maddr (k + m) w1)"
  define f where "f = bput nb (bdata b)"
  have len: "nat (int k + int m) = k + m" "BLEN b = int m"
    using assms by (simp_all add: m_def BLEN_length nat_int_add)
  have room: "rp nb + (k + m) \<le> length (buf nb)" "wp nb = rp nb" "wfb nb"
    by (simp_all add: nb_def)
  have "allocb (k + m) w1 = Ret nb (tick w1)"
    unfolding nb_def by (rule allocb_eq) (simp add: w1_def assms)
  moreover have "bmove nb b (rp b) (BLEN b) s = Ret f s" for s :: Kern
    unfolding f_def by (rule bmove_BLEN_eq) (use assms room m_def in auto)
  ultimately have "padblock [b] (- int k) w =
      Ret [f] ((tick w1)\<lparr>ialloc_bytes := ialloc_bytes (tick w1) - ibal b\<rparr>)"
    using False assms by (simp add: Let_def freeb_eq len w1_def)
  moreover have "length (bdata b) \<le> k + m" by (simp add: m_def)
  then have "wfb f" "bdata f = bdata b" "ibal f = 0" "length (buf f) = length (buf nb)"
    by (simp_all add: f_def nb_def)
  moreover have "wp f + k \<le> length (buf f)"
    using room \<open>length (buf f) = _\<close> by (simp add: f_def m_def)
  ultimately show ?thesis
    by (auto simp: balanced_def w1_def)
qed

section \<open>concatblock\<close>

lemma concat_copy_eq:
  "list_all wfb fs \<Longrightarrow> wfb nb \<Longrightarrow> wp nb + length (bytesof fs) \<le> length (buf nb) \<Longrightarrow>
     \<exists>nb'. concat_copy nb fs w = Ret nb' w \<and> wfb nb' \<and> bdata nb' = bdata nb @ bytesof fs \<and>
           ibal nb' = ibal nb"
proof (induction fs arbitrary: nb)
  case Nil
  then show ?case by simp
next
  case (Cons f fs)
  let ?nb = "bput nb (bdata f)"
  have room: "wp nb + length (bdata f) \<le> length (buf nb)"
    using Cons.prems by simp
  have "wp ?nb + length (bytesof fs) \<le> length (buf ?nb)"
    using Cons.prems room by simp
  from Cons.IH [OF _ _ this] Cons.prems room show ?case
    by (auto simp: bmove_BLEN_eq)
qed

lemma concatblock_ok:
  assumes "memok w" "bs \<noteq> []" "list_all wfb bs"
  shows "okR (concatblock bs w) (\<lambda>cs w'. \<exists>b. cs = [b] \<and> wfb b \<and> bdata b = bytesof bs \<and>
           balanced w bs w' cs)"
proof (cases "\<exists>b. bs = [b]")
  case True
  with assms show ?thesis by (auto simp: concatblock_def)
next
  case False
  define m where "m = length (bytesof bs)"
  define nb where "nb = newb m (maddr m w)"
  have m: "nat (blocklen bs) = m"
    using assms by (simp add: blocklen_length m_def)
  have "wp nb + length (bytesof bs) \<le> length (buf nb)" "wfb nb"
    by (simp_all add: nb_def m_def)
  then obtain b where b: "concat_copy nb bs (tick w) = Ret b (tick w)" "wfb b"
      "bdata b = bdata nb @ bytesof bs" "ibal b = ibal nb"
    using concat_copy_eq [OF assms(3)] by blast
  have "concatblock bs w = bindR (allocb m w) (\<lambda>nb w.
          bindR (concat_copy nb bs w) (\<lambda>nb w.
          bindR (freeblist bs (w\<lparr>concatblockcnt := concatblockcnt w + of_int (BLEN nb)\<rparr>))
            (\<lambda>_ w. Ret [nb] w)))"
    unfolding concatblock_def m [symmetric] using False assms(2) by (auto split: list.split)
  with b assms show ?thesis
    by (auto simp: allocb_eq nb_def [symmetric] freeblist_eq balanced_def) (simp_all add: nb_def)
qed

section \<open>pullupblock\<close>

lemma nat_int_plus [simp]: "nat (int a + int b) = a + b"
  by (simp add: nat_int_add)

lemma nat_int_minus [simp]: "nat (int a - int b) = a - b"
  by linarith

definition pulled :: "Block \<Rightarrow> Block list \<Rightarrow> nat \<Rightarrow> Kern \<Rightarrow> Block list \<Rightarrow> Kern \<Rightarrow> bool" where
  "pulled bp rest m w cs w' \<longleftrightarrow> balanced w (bp # rest) w' cs \<and>
     (if m \<le> length (bytesof rest)
      then cs \<noteq> [] \<and> list_all wfb cs \<and> bytesof cs = bdata bp @ bytesof rest \<and>
           bdata (hd cs) = bdata bp @ take m (bytesof rest)
      else cs = [])"

lemma pullup_loop_ok:
  "wfb bp \<Longrightarrow> list_all wfb rest \<Longrightarrow> 0 < m \<Longrightarrow> wp bp + m \<le> length (buf bp) \<Longrightarrow>
     okR (pullup_loop bp rest (int m) w) (pulled bp rest m w)"
proof (induction rest arbitrary: bp m w)
  case Nil
  then show ?case by (simp add: freeb_eq pulled_def balanced_def)
next
  case (Cons nbp rest)
  let ?l = "length (bdata nbp)"
  have l: "BLEN nbp = int ?l" using Cons.prems by (simp add: BLEN_length)
  show ?case
  proof (cases "m < ?l")
    case True
    have "bmove bp nbp (rp nbp) (int m) w = Ret (bput bp (take m (bdata nbp))) w"
      by (rule bmove_data_eq) (use Cons.prems True in auto)
    with True Cons.prems l show ?thesis
      by (simp add: Let_def pulled_def balanced_def min_def)
  next
    case False
    let ?bp = "bput bp (bdata nbp)"
    let ?w = "w\<lparr>pullupblockcnt := pullupblockcnt w + 1, ialloc_bytes := ialloc_bytes w - ibal nbp\<rparr>"
    have room: "wp bp + ?l \<le> length (buf bp)" using Cons.prems False by simp
    have eq: "pullup_loop bp (nbp # rest) (int m) w =
        (if m = ?l then Ret (?bp # rest) ?w else pullup_loop ?bp rest (int (m - ?l)) ?w)"
      using False Cons.prems room
      by (simp add: Let_def bmove_BLEN_eq freeb_eq) (simp add: l)
    have bal: "balanced w (bp # nbp # rest) ?w (?bp # rest)"
      using room by (simp add: balanced_def)
    show ?thesis
    proof (cases "m = ?l")
      case True
      with eq bal room Cons.prems show ?thesis
        by (simp add: pulled_def)
    next
      case ne: False
      have "okR (pullup_loop ?bp rest (int (m - ?l)) ?w) (pulled ?bp rest (m - ?l) ?w)"
        by (rule Cons.IH) (use Cons.prems room ne False in auto)
      then have "okR (pullup_loop bp (nbp # rest) (int m) w) (pulled ?bp rest (m - ?l) ?w)"
        unfolding eq using ne by simp
      then show ?thesis
        by (rule okR_mono)
           (use bal room Cons.prems(1,2) False in
             \<open>auto simp: pulled_def elim: balanced_trans split: if_splits\<close>)
    qed
  qed
qed

lemma pullupblock_ok:
  assumes "memok w" "bs \<noteq> []" "list_all wfb bs"
  shows "okR (pullupblock bs (int n) w) (\<lambda>cs w'. balanced w bs w' cs \<and>
           (if n \<le> length (bytesof bs)
            then cs \<noteq> [] \<and> list_all wfb cs \<and> bytesof cs = bytesof bs \<and> n \<le> length (bdata (hd cs))
            else cs = []))"
proof -
  from assms(2) obtain bp rest where bs: "bs = bp # rest" by (cases bs) auto
  let ?l = "length (bdata bp)"
  have wf: "wfb bp" "list_all wfb rest" and l: "BLEN bp = int ?l"
    using assms(3) by (simp_all add: bs BLEN_length)
  show ?thesis
  proof (cases "n \<le> ?l")
    case True
    with assms show ?thesis by (auto simp: bs l)
  next
    case False
    show ?thesis
    proof (cases "rp bp + n \<le> length (buf bp)")
      case True
      have "wp bp + (n - ?l) \<le> length (buf bp)"
        using True False wf by (simp add: wfb_def length_bdata)
      then have "okR (pullup_loop bp rest (int (n - ?l)) w) (pulled bp rest (n - ?l) w)"
        by (intro pullup_loop_ok) (use wf False in auto)
      moreover have "pullupblock bs (int n) w = pullup_loop bp rest (int (n - ?l)) w"
        using True False by (simp add: bs l)
      ultimately show ?thesis
        by (auto elim!: okR_mono simp: pulled_def bs split: if_splits)
    next
      case False2: False
      let ?nb = "newb n (maddr n w)"
      have "okR (pullup_loop ?nb (bp # rest) (int n) (tick w)) (pulled ?nb (bp # rest) n (tick w))"
        by (rule pullup_loop_ok) (use wf False in auto)
      moreover have "pullupblock bs (int n) w = pullup_loop ?nb (bp # rest) (int n) (tick w)"
        using False False2 assms(1) by (simp add: bs l allocb_eq BLEN_length)
      ultimately show ?thesis
        by (auto elim!: okR_mono simp: pulled_def bs balanced_def split: if_splits)
    qed
  qed
qed

section \<open>trimblock\<close>

definition trimmed :: "Block list \<Rightarrow> nat \<Rightarrow> Kern \<Rightarrow> Block list \<times> int \<Rightarrow> Kern \<Rightarrow> bool" where
  "trimmed bs off w r w' \<longleftrightarrow> (\<exists>bp rest m. r = (bp # rest, int m) \<and> m \<le> length (bdata bp) \<and>
     wfb bp \<and> list_all wfb rest \<and> drop m (bytesof (bp # rest)) = drop off (bytesof bs) \<and>
     balanced w bs w' (bp # rest))"

lemma trim_front_ok:
  "list_all wfb bs \<Longrightarrow> bs \<noteq> [] \<Longrightarrow> off \<le> length (bytesof bs) \<Longrightarrow>
     okR (trim_front bs (int off) w) (trimmed bs off w)"
proof (induction bs arbitrary: off w)
  case (Cons b bs)
  let ?l = "length (bdata b)"
  have l: "BLEN b = int ?l" using Cons.prems by (simp add: BLEN_length)
  show ?case
  proof (cases "?l < off")
    case True
    let ?w = "w\<lparr>ialloc_bytes := ialloc_bytes w - ibal b\<rparr>"
    have "bs \<noteq> []" using True Cons.prems by auto
    then have "okR (trim_front bs (int (off - ?l)) ?w) (trimmed bs (off - ?l) ?w)"
      using Cons by auto
    moreover have "trim_front (b # bs) (int off) w = trim_front bs (int (off - ?l)) ?w"
      using True Cons.prems by (simp add: l freeb_eq)
    moreover have bal: "balanced w (b # bs) ?w bs" by (simp add: balanced_def)
    ultimately show ?thesis
      using True by (auto elim!: okR_mono simp: trimmed_def intro!: balanced_trans [OF bal])
  next
    case False
    with Cons.prems show ?thesis by (auto simp: l trimmed_def)
  qed
qed simp

lemma wp_cut_nat: "wfb b \<Longrightarrow> k \<le> length (bdata b) \<Longrightarrow> nat (int (wp b) - (BLEN b - int k)) = rp b + k"
  by (auto simp: BLEN_def length_bdata wfb_def)

lemma trim_back_ok:
  "list_all wfb bs \<Longrightarrow> bs \<noteq> [] \<Longrightarrow> len \<le> length (bytesof bs) \<Longrightarrow>
     okR (trim_back bs (int len) w) (\<lambda>cs w'. cs \<noteq> [] \<and> list_all wfb cs \<and>
       bytesof cs = take len (bytesof bs) \<and> balanced w bs w' cs)"
proof (induction bs arbitrary: len w)
  case (Cons b bs)
  let ?l = "length (bdata b)"
  have l: "BLEN b = int ?l" using Cons.prems by (simp add: BLEN_length)
  show ?case
  proof (cases "?l < len")
    case True
    have "bs \<noteq> []" using True Cons.prems by auto
    then have "okR (trim_back bs (int (len - ?l)) w) (\<lambda>cs w'. cs \<noteq> [] \<and> list_all wfb cs \<and>
        bytesof cs = take (len - ?l) (bytesof bs) \<and> balanced w bs w' cs)"
      using Cons by auto
    with True Cons.prems show ?thesis
      by (auto elim!: okR_mono simp: l balanced_def)
  next
    case False
    with Cons.prems show ?thesis
      by (auto simp: freeblist_eq wp_cut_nat balanced_def) (simp add: l)
  qed
qed simp

lemma trimblock_ok:
  assumes "list_all wfb bs" "bs \<noteq> []"
  shows "okR (trimblock bs (int off) (int len) w) (\<lambda>cs w'. balanced w bs w' cs \<and>
           (if off + len \<le> length (bytesof bs)
            then cs \<noteq> [] \<and> list_all wfb cs \<and> bytesof cs = take len (drop off (bytesof bs))
            else cs = []))"
proof (cases "off + len \<le> length (bytesof bs)")
  case False
  with assms show ?thesis
    by (auto simp: trimblock_def blocklen_length freeblist_eq balanced_def)
next
  case True
  then have "okR (trim_front bs (int off) w) (trimmed bs off w)"
    using assms by (intro trim_front_ok) auto
  then obtain bp rest m w' where f: "trim_front bs (int off) w = Ret (bp # rest, int m) w'"
    and m: "m \<le> length (bdata bp)" "wfb bp" "list_all wfb rest"
      "drop m (bytesof (bp # rest)) = drop off (bytesof bs)" "balanced w bs w' (bp # rest)"
    by (auto simp: trimmed_def okR_def)
  let ?cs = "bp\<lparr>rp := rp bp + m\<rparr> # rest"
  have d: "bytesof ?cs = drop off (bytesof bs)" using m by simp
  have len: "len \<le> length (bytesof ?cs)" unfolding d using True by simp
  have spec: "okR (trim_back ?cs (int len) w') (\<lambda>cs w''. cs \<noteq> [] \<and> list_all wfb cs \<and>
      bytesof cs = take len (drop off (bytesof bs)) \<and> balanced w' ?cs w'' cs)"
    unfolding d [symmetric] by (rule trim_back_ok [OF _ _ len]) (use m in simp_all)
  have eq: "trimblock bs (int off) (int len) w = trim_back ?cs (int len) w'"
    using True assms f by (simp add: trimblock_def blocklen_length)
  have bal: "balanced w bs w' ?cs" using m(5) by (simp add: balanced_def)
  show ?thesis
    unfolding eq by (rule okR_mono [OF spec]) (auto simp: True intro: balanced_trans [OF bal])
qed

section \<open>copyblock and adjustblock\<close>

text \<open>A block fresh from \<^verbatim>\<open>iallocb\<close>, and the state after the call.\<close>

definition inewb :: "nat \<Rightarrow> nat \<Rightarrow> Block" where
  "inewb n p = (newb n p)\<lparr>flag := BINTR\<rparr>"

lemma hasf_BINTR [simp]: "hasf BINTR BINTR"
  by (simp add: BINTR_def hasf_def)

lemma iallocb_eq [blk]:
  assumes "\<forall>k n. mallocs w k n \<noteq> None" "ialloc_bytes w \<le> ialloc_limit w"
  shows "iallocb n w = Ret (Some (inewb n (maddr n w)))
       ((tick w)\<lparr>ialloc_bytes := ialloc_bytes w + ibal (inewb n (maddr n w))\<rparr>)"
proof -
  obtain p where "mallocs w (ncalls w) (allocsz n) = Some p" using assms(1) by blast
  with assms(2) show ?thesis
    by (simp add: iallocb_def allocb0_eq Let_def inewb_def ibal_def maddr_def tick_def BALLOC_def)
qed

lemma flag_update [simp]: "wfb (b\<lparr>flag := f\<rparr>) = wfb b" "bdata (b\<lparr>flag := f\<rparr>) = bdata b"
  by (simp_all add: wfb_def bdata_def)

lemma inewb_facts [simp]:
  "wfb (inewb n p)" "bdata (inewb n p) = []" "wp (inewb n p) = rp (inewb n p)"
  "rp (inewb n p) + n \<le> length (buf (inewb n p))"
  by (simp_all add: inewb_def)

lemma copy_loop_ok:
  "list_all wfb bs \<Longrightarrow> wfb nb \<Longrightarrow> wp nb + count \<le> length (buf nb) \<Longrightarrow>
     \<exists>nb'. copy_loop nb bs (int count) w = Ret (nb', int (count - length (bytesof bs))) w \<and> wfb nb' \<and>
       bdata nb' = bdata nb @ take count (bytesof bs) \<and> ibal nb' = ibal nb \<and>
       wp nb' + (count - length (bytesof bs)) \<le> length (buf nb')"
proof (induction bs arbitrary: nb count)
  case Nil
  then show ?case by simp
next
  case (Cons b bs)
  define l where "l = min count (length (bdata b))"
  let ?nb = "bput nb (take l (bdata b))"
  have room: "wp nb + length (take l (bdata b)) \<le> length (buf nb)"
    using Cons.prems by (simp add: l_def)
  have "wp ?nb + (count - l) \<le> length (buf ?nb)"
    using Cons.prems room by (simp add: l_def)
  from Cons.IH [OF _ _ this] Cons.prems room obtain nb' where nb':
    "copy_loop ?nb bs (int (count - l)) w = Ret (nb', int (count - l - length (bytesof bs))) w"
    "wfb nb'" "bdata nb' = bdata nb @ take l (bdata b) @ take (count - l) (bytesof bs)"
    "ibal nb' = ibal nb" "wp nb' + (count - l - length (bytesof bs)) \<le> length (buf nb')"
    by auto
  have mv: "bmove nb b (rp b) (int l) w = Ret ?nb w"
    by (rule bmove_data_eq) (use Cons.prems room in \<open>auto simp: l_def\<close>)
  have lI: "(if int (length (bdata b)) > int count then int count else int (length (bdata b))) = int l"
    by (auto simp: l_def)
  have "copy_loop nb (b # bs) (int count) w = Ret (nb', int (count - length (bytesof (b # bs)))) w"
    if "count \<noteq> 0"
    using that nb'(1) mv Cons.prems by (simp add: Let_def BLEN_length lI) (auto simp: l_def)
  moreover have "take l (bdata b) @ take (count - l) (bytesof bs) = take count (bytesof (b # bs))"
    by (simp add: l_def min_def)
  ultimately show ?case
    using nb' Cons.prems by (cases "count = 0") (auto simp: l_def)
qed


lemma copyblock_ok:
  assumes "memok w" "list_all wfb bs" "bs \<noteq> []"
    "hasf (flag (hd bs)) BINTR \<longrightarrow> ialloc_bytes w \<le> ialloc_limit w"
  shows "okR (copyblock bs n w) (\<lambda>r w'. \<exists>b. r = Some b \<and> wfb b \<and>
           bdata b = take n (bytesof bs) @ replicate (n - length (bytesof bs)) 0 \<and>
           balanced w bs w' (b # bs))"
proof -
  from assms(3) obtain bp rest where bs: "bs = bp # rest" by (cases bs) auto
  define nb where "nb = (if hasf (flag bp) BINTR then inewb n (maddr n w) else newb n (maddr n w))"
  define w1 where "w1 = (tick w)\<lparr>ialloc_bytes := ialloc_bytes w + ibal nb\<rparr>"
  have al: "(if hasf (flag bp) BINTR then iallocb n w
             else bindR (allocb n w) (\<lambda>b w. Ret (Some b) w)) = Ret (Some nb) w1"
    using assms by (auto simp: bs nb_def w1_def iallocb_eq allocb_eq memok_def)
  have nb: "wfb nb" "bdata nb = []" "wp nb + n \<le> length (buf nb)" by (simp_all add: nb_def)
  obtain nb' where nb': "copy_loop nb bs (int n) w1 = Ret (nb', int (n - length (bytesof bs))) w1"
    "wfb nb'" "bdata nb' = take n (bytesof bs)" "ibal nb' = ibal nb"
    "wp nb' + (n - length (bytesof bs)) \<le> length (buf nb')"
    using copy_loop_ok [OF assms(2) nb(1,3)] nb(2) by auto
  define c where "c = n - length (bytesof bs)"
  define b where "b = bput nb' (replicate c 0)"
  have b: "wfb b" "bdata b = take n (bytesof bs) @ replicate c 0" "ibal b = ibal nb"
    using nb' by (simp_all add: b_def c_def)
  have fill: "(if int c > 0 then bfill nb' (replicate (nat (int c)) 0) w1 else Ret nb' w1)
      = Ret (if c > 0 then b else nb') w1"
    using nb'(5) by (auto simp: bfill_eq b_def c_def)
  have c: "copy_loop nb (bp # rest) (int n) w1 = Ret (nb', int c) w1"
    using nb'(1) by (simp only: bs c_def)
  have "copyblock bs n w = Ret (Some (if c > 0 then b else nb'))
          (w1\<lparr>copyblockcnt := copyblockcnt w1 + 1\<rparr>)"
    unfolding copyblock_def bs list.case al bindR.simps option.case c prod.case fill ..
  then show ?thesis
    using b nb' by (auto simp: balanced_def w1_def c_def)
qed

lemma adjustblock_ok:
  assumes "memok w" "wfb b" "hasf (flag b) BINTR \<longrightarrow> ialloc_bytes w \<le> ialloc_limit w"
  shows "okR (adjustblock [b] (int n) w) (\<lambda>bs w'. \<exists>b'. bs = [b'] \<and> wfb b' \<and>
           bdata b' = take n (bdata b) @ replicate (n - length (bdata b)) 0 \<and>
           balanced w [b] w' bs)"
proof (cases "rp b + n \<le> length (buf b)")
  case False
  have "okR (copyblock [b] n w) (\<lambda>r w'. \<exists>b'. r = Some b' \<and> wfb b' \<and>
      bdata b' = take n (bytesof [b]) @ replicate (n - length (bytesof [b])) 0 \<and>
      balanced w [b] w' [b', b])"
    using assms by (intro copyblock_ok) auto
  with False assms(2) show ?thesis
    by (auto elim!: okR_mono simp: adjustblock_def freeb_eq balanced_def)
next
  case True
  show ?thesis
  proof (cases "n \<le> length (bdata b)")
    case le: True
    with True assms(2) show ?thesis
      by (auto simp: adjustblock_def BLEN_length balanced_self)
  next
    case gt: False
    define m where "m = n - length (bdata b)"
    have room: "wp b + length (replicate m (0::byte)) \<le> length (buf b)"
      using True gt assms(2) by (simp add: m_def length_bdata wfb_def)
    have "(bput b (replicate m 0))\<lparr>wp := rp b + n\<rparr> = bput b (replicate m 0)"
      using gt assms(2) by (simp add: m_def length_bdata wfb_def bput_def)
    then have "adjustblock [b] (int n) w = Ret [bput b (replicate m 0)] w"
      using True gt assms(2) room
      by (simp add: adjustblock_def BLEN_length bfill_eq nat_diff_distrib m_def)
    with room gt assms(2) show ?thesis
      by (auto simp: m_def intro: balanced_self)
  qed
qed

section \<open>pullblock and packblock\<close>

declare pull_loop.simps(2) [simp del]

lemma pull_loop_ok:
  "list_all wfb bs \<Longrightarrow> okR (pull_loop bs (int n) k w) (\<lambda>(cs, j) w'.
     j = k + int (min n (length (bytesof bs))) \<and> bytesof cs = drop n (bytesof bs) \<and>
     list_all wfb cs \<and> balanced w bs w' cs)"
proof (induction bs arbitrary: n k w)
  case Nil
  then show ?case by simp
next
  case (Cons b bs)
  let ?l = "length (bdata b)"
  have wf: "wfb b" "list_all wfb bs" and l: "BLEN b = int ?l"
    using Cons.prems by (simp_all add: BLEN_length)
  show ?case
  proof (cases "n = 0 \<or> n < ?l")
    case True
    let ?b = "b\<lparr>rp := rp b + n\<rparr>"
    have "BLEN ?b = int (?l - n)" if "n < ?l"
      using that wf BLEN_length [of ?b] by simp
    with True have "pull_loop (b # bs) (int n) k w = Ret ((if n = 0 then b else ?b) # bs, k + int n) w"
      by (auto simp: Let_def l pull_loop.simps(2) [of b bs "int n"] pull_loop.simps(2) [of ?b bs 0])
    with True wf show ?thesis by (auto simp: balanced_self)
  next
    case False
    let ?b = "b\<lparr>rp := rp b + ?l\<rparr>"
    let ?w = "w\<lparr>ialloc_bytes := ialloc_bytes w - ibal b\<rparr>"
    have b0: "wfb ?b" "BLEN ?b = 0" "ibal ?b = ibal b"
      using wf BLEN_length [of ?b] by simp_all
    then have "pull_loop (b # bs) (int n) k w = pull_loop bs (int (n - ?l)) (k + int ?l) ?w"
      using False by (simp add: Let_def l freeb_eq pull_loop.simps(2) [of b bs "int n"])
    with Cons.IH [OF wf(2), of "n - ?l" "k + int ?l" ?w] False show ?thesis
      by (auto elim!: okR_mono simp: balanced_def algebra_simps)
  qed
qed

lemma packblock_ok:
  "memok w \<Longrightarrow> list_all wfb bs \<Longrightarrow> okR (packblock bs w) (\<lambda>cs w'.
     map bdata cs = map bdata bs \<and> list_all wfb cs \<and> balanced w bs w' cs)"
proof (induction bs arbitrary: w)
  case (Cons b bs)
  let ?l = "length (bdata b)"
  have wf: "wfb b" "list_all wfb bs" and l: "BLEN b = int ?l"
    using Cons.prems by (simp_all add: BLEN_length)
  show ?case
  proof (cases "int ?l * 4 < BALLOC b")
    case True
    let ?nb = "bput (newb ?l (maddr ?l w)) (bdata b)"
    let ?w = "(tick w)\<lparr>ialloc_bytes := ialloc_bytes w - ibal b\<rparr>"
    have mv: "bmove (newb ?l (maddr ?l w)) b (rp b) (BLEN b) s = Ret ?nb s" for s :: Kern
      by (rule bmove_BLEN_eq) (use wf in simp_all)
    have "packblock (b # bs) w = bindR (packblock bs ?w) (\<lambda>cs w. Ret (?nb # cs) w)"
      using True mv Cons.prems(1) wf by (simp add: Let_def l allocb_eq freeb_eq)
    with Cons.IH [of ?w] Cons.prems wf show ?thesis
      by (auto elim!: okR_mono simp: balanced_def algebra_simps)
  next
    case False
    with Cons.IH [of w] Cons.prems wf show ?thesis
      by (auto elim!: okR_mono simp: Let_def l balanced_def)
  qed
qed simp


section \<open>Copying between memory and blocks\<close>

lemma bl2mem_ok:
  "list_all wfb bs \<Longrightarrow> okR (bl2mem bs (int n) w) (\<lambda>(xs, left) w'.
     xs = take n (bytesof bs) \<and> bytesof left = drop n (bytesof bs) \<and> list_all wfb left \<and>
     length left \<le> length bs \<and> (length (bytesof bs) \<le> n \<longrightarrow> left = []) \<and>
     balanced w bs w' left)"
proof (induction bs arbitrary: n w)
  case (Cons b bs)
  let ?l = "length (bdata b)"
  have wf: "wfb b" "list_all wfb bs" and l: "BLEN b = int ?l"
    using Cons.prems by (simp_all add: BLEN_length)
  have rd: "rp b + k \<le> length (buf b)" "seg (rp b) k (buf b) = take k (bdata b)" if "k \<le> ?l" for k
    using that wf(1) by (auto simp: wfb_def bdata_def min_def)
  show ?case
  proof (cases "n < ?l")
    case True
    with rd [of n] wf show ?thesis by (auto simp: l Let_def balanced_self)
  next
    case False
    let ?w = "w\<lparr>ialloc_bytes := ialloc_bytes w - ibal b\<rparr>"
    have "bl2mem (b # bs) (int n) w = bindR (bl2mem bs (int (n - ?l)) ?w)
        (\<lambda>(xs, left) w. Ret (bdata b @ xs, left) w)"
      using False rd [of ?l] wf(1) by (simp add: l Let_def freeb_eq)
    with Cons.IH [OF wf(2), of "n - ?l" ?w] False show ?thesis
      by (auto elim!: okR_mono simp: balanced_def algebra_simps)
  qed
qed simp

declare mem2bl.simps [simp del]

lemma mem2bl_ok:
  "memok w \<Longrightarrow> okR (mem2bl p w) (\<lambda>bs w'. bytesof bs = p \<and> bs \<noteq> [] \<and> list_all wfb bs \<and>
     list_all (\<lambda>b. length (bdata b) \<le> Maxatomic) bs \<and> balanced w [] w' bs)"
proof (induction "length p" arbitrary: p w rule: less_induct)
  case less
  define n where "n = min (length p) Maxatomic"
  let ?b = "bput (newb n (maddr n w)) (take n p)"
  have len: "length (take n p) \<le> n" "(if length p > Maxatomic then Maxatomic else length p) = n"
    by (auto simp: n_def)
  have fill: "bfill (newb n (maddr n w)) (take n p) s = Ret ?b s" for s :: Kern
    by (rule bfill_eq) (use newb_fill(1) [OF len(1)] in simp)
  have eq: "mem2bl p w = (if n < length p
      then bindR (mem2bl (drop n p) (tick w)) (\<lambda>bs w. Ret (?b # bs) w) else Ret [?b] (tick w))"
    using less.prems unfolding mem2bl.simps [of p w] len(2) Let_def
    by (simp add: allocb_eq fill)
  have b: "wfb ?b" "bdata ?b = take n p" "ibal ?b = 0" "length (bdata ?b) \<le> Maxatomic"
    using newb_fill [OF len(1)] by (simp_all add: n_def)
  show ?case
  proof (cases "n < length p")
    case True
    then have "length (drop n p) < length p" by (simp add: n_def Maxatomic_def)
    from less.hyps [OF this, of "tick w"] less.prems True b show ?thesis
      unfolding eq by (auto elim!: okR_mono simp: balanced_def)
  next
    case False
    with b show ?thesis unfolding eq by (simp add: balanced_def)
  qed
qed

section \<open>Concrete states\<close>

text \<open>A process with memory to be had, and a block with 64 bytes to spare.\<close>

definition kern_ex :: Kern where
  "kern_ex = \<lparr>up = True, ialloc_bytes = 0, ialloc_limit = 0xffff, m1 = 0, m2 = 0, mp = 0,
     mallocs = (\<lambda>k n. Some 8), ncalls = 0, padblockcnt = 0, concatblockcnt = 0,
     pullupblockcnt = 0, copyblockcnt = 0, consumecnt = 0, producecnt = 0, qcopycnt = 0,
     noblockcnt = 0\<rparr>"

definition block_ex :: "byte list \<Rightarrow> Block" where
  "block_ex xs = \<lparr>buf = xs @ replicate 64 0, rp = 0, wp = length xs, bfree = False, flag = 0,
     magic = Bmagic\<rparr>"

lemma block_ex_simps [simp]:
  "wfb (block_ex xs)" "bdata (block_ex xs) = xs" "BLEN (block_ex xs) = int (length xs)"
  "BALLOC (block_ex xs) = int (length xs) + 64"
  by (simp_all add: block_ex_def wfb_def bdata_def seg_def BLEN_def BALLOC_def)

lemma kern_ex_ok [simp]: "memok kern_ex" "mp kern_ex = 0"
  by (simp_all add: kern_ex_def memok_def)

section \<open>Properties\<close>

text \<open>The layout \<^verbatim>\<open>_allocb\<close> computes is right for every size that is not negative and small enough that
  the \<^verbatim>\<open>int\<close> arithmetic on it does not overflow, whatever the alignment of what \<^verbatim>\<open>malloc\<close> returned: all the numbers
  it computes fit an \<^verbatim>\<open>int\<close>, its own panic is never reached, the block is empty, has at least \<open>sz\<close>
  bytes of room behind its write pointer and more than \<^verbatim>\<open>Hdrspc\<close> bytes for headers in front of it,
  the end of its buffer is 8-aligned, and its header lies inside the memory \<^verbatim>\<open>malloc\<close> gave.\<close>

theorem allocb_layout:
  assumes "0 \<le> n" "n + 143 < 2 ^ 31" "sz = nat n"
  shows "int (allocsz sz) < 2 ^ 31 \<and> p + allocsz sz - sizeof_Block \<ge> p \<and>
   allocb0 sz w = Ret (map_option (newb sz) (mallocs w (ncalls w) (allocsz sz))) (w\<lparr>ncalls := Suc (ncalls w)\<rparr>) \<and>
   bdata (newb sz p) = [] \<and> wfb (newb sz p) \<and> int (wp (newb sz p)) + n \<le> int (length (buf (newb sz p))) \<and>
   Hdrspc < rp (newb sz p) \<and> (p + length (buf (newb sz p))) mod 8 = 0 \<and>
   length (buf (newb sz p)) + sizeof_Block \<le> allocsz sz"
proof (intro conjI)
  show "(p + length (buf (newb sz p))) mod 8 = 0" "length (buf (newb sz p)) + sizeof_Block \<le> allocsz sz"
    using ROUNDUP_8(3) [of sz]
    by (simp_all add: newb_layout allocsz_def ROUNDUP_Hdrspc) (presburger, simp add: BLOCKALIGN_def)
  have "ROUNDUP (sz + Hdrspc) BLOCKALIGN \<le> sz + 71" by (simp add: ROUNDUP_def HOWMANY_def BLOCKALIGN_def Hdrspc_def)
  with assms show "int (allocsz sz) < 2 ^ 31" by (simp add: allocsz_def BLOCKALIGN_def sizeof_Block_def)
  have "wp (newb sz p) + sz \<le> length (buf (newb sz p))" by simp
  then show "int (wp (newb sz p)) + n \<le> int (length (buf (newb sz p)))" using assms by linarith
qed (simp_all add: allocb0_eq Hdrspc_def allocsz_def)

theorem allocb_layout_witness:
  "int (allocsz 100) < 2 ^ 31 \<and> wfb (newb 100 12345) \<and> (12345 + length (buf (newb 100 12345))) mod 8 = 0 \<and>
   length (buf (newb 100 12345)) + sizeof_Block \<le> allocsz 100"
  using allocb_layout [of 100 100 12345 kern_ex] by (simp del: newb_layout)

text \<open>\<^verbatim>\<open>pullupblock\<close> leaves the bytes as they are, with the first \<open>n\<close> of them in the first
  block; when there are fewer than \<open>n\<close> it frees them all and returns nothing.\<close>

theorem pullupblock_front:
  assumes "memok w" "bs \<noteq> []" "list_all wfb bs"
  shows "okR (pullupblock bs (int n) w) (\<lambda>cs w'. balanced w bs w' cs \<and>
           (if n \<le> length (bytesof bs)
            then cs \<noteq> [] \<and> list_all wfb cs \<and> bytesof cs = bytesof bs \<and> n \<le> length (bdata (hd cs))
            else cs = []))"
  by (rule pullupblock_ok [OF assms])

theorem pullupblock_front_witness:
  "okR (pullupblock [block_ex [1], block_ex [2, 3]] 2 kern_ex) (\<lambda>cs w'. bytesof cs = [1, 2, 3] \<and>
     2 \<le> length (bdata (hd cs)))"
  using pullupblock_front [of kern_ex "[block_ex [1], block_ex [2, 3]]" 2]
  by (auto simp del: pullupblock.simps elim!: okR_mono)

text \<open>\<^verbatim>\<open>trimblock\<close> keeps exactly the \<open>len\<close> bytes from offset \<open>off\<close> and frees every other block;
  when the string is too short it frees all of it and returns nothing.\<close>

theorem trimblock_cuts:
  assumes "list_all wfb bs" "bs \<noteq> []"
  shows "okR (trimblock bs (int off) (int len) w) (\<lambda>cs w'. balanced w bs w' cs \<and>
           (if off + len \<le> length (bytesof bs)
            then cs \<noteq> [] \<and> list_all wfb cs \<and> bytesof cs = take len (drop off (bytesof bs))
            else cs = []))"
  by (rule trimblock_ok [OF assms])

theorem trimblock_cuts_witness:
  "okR (trimblock [block_ex [1], block_ex [2, 3], block_ex [4]] 1 1 kern_ex) (\<lambda>cs w'. bytesof cs = [2])"
  using trimblock_cuts [of "[block_ex [1], block_ex [2, 3], block_ex [4]]" 1 1 kern_ex]
  by (auto elim!: okR_mono)

text \<open>Round trip between memory and blocks: \<^verbatim>\<open>mem2bl\<close> puts any bytes into blocks of at most 64K
  each, and \<^verbatim>\<open>bl2mem\<close> gets the first \<open>n\<close> of them back, frees the blocks it used up and leaves the rest.\<close>

theorem mem_block_roundtrip:
  assumes "memok w"
  shows "okR (mem2bl p w) (\<lambda>bs w'. list_all (\<lambda>b. length (bdata b) \<le> Maxatomic) bs \<and>
     okR (bl2mem bs (int n) w') (\<lambda>(xs, left) w''. xs = take n p \<and> bytesof left = drop n p \<and>
       (length p \<le> n \<longrightarrow> left = []) \<and> balanced w [] w'' left))"
proof (rule okR_mono [OF mem2bl_ok [OF assms, of p]])
  fix bs w' assume b: "bytesof bs = p \<and> bs \<noteq> [] \<and> list_all wfb bs \<and>
     list_all (\<lambda>b. length (bdata b) \<le> Maxatomic) bs \<and> balanced w [] w' bs"
  then have "okR (bl2mem bs (int n) w') (\<lambda>(xs, left) w''. xs = take n p \<and> bytesof left = drop n p \<and>
       (length p \<le> n \<longrightarrow> left = []) \<and> balanced w [] w'' left)"
    using bl2mem_ok [of bs n w'] balanced_trans by (auto elim!: okR_mono)
  with b show "list_all (\<lambda>b. length (bdata b) \<le> Maxatomic) bs \<and>
     okR (bl2mem bs (int n) w') (\<lambda>(xs, left) w''. xs = take n p \<and> bytesof left = drop n p \<and>
       (length p \<le> n \<longrightarrow> left = []) \<and> balanced w [] w'' left)" by simp
qed

theorem mem_block_roundtrip_witness:
  "okR (mem2bl [1, 2, 3] kern_ex) (\<lambda>bs w'. okR (bl2mem bs 2 w') (\<lambda>(xs, left) w''.
     xs = [1, 2] \<and> bytesof left = [3]))"
  using mem_block_roundtrip [of kern_ex "[1, 2, 3]" 2] by (auto elim!: okR_mono)

end
