(* ===== verification/Queue_Props.thy ===== *)
theory Queue_Props
  imports Queues Block_Props
begin

text \<open>
  Correctness of the queue operations: the invariant \<open>qinv\<close> ties the two byte counts of a
  queue to its blocks; \<open>qbytes\<close> abstracts a queue to the byte stream it holds. Every
  operation keeps the invariant, and each is a first-in first-out operation on the stream.
\<close>

section \<open>State bits\<close>

lemmas qbit_defs = Qstarve_def Qmsg_def Qclosed_def Qflow_def Qcoalesce_def Qkick_def

lemma hasf_qbit:
  "hasf s Qstarve = bit s 0" "hasf s Qmsg = bit s 1" "hasf s Qclosed = bit s 2"
  "hasf s Qflow = bit s 3" "hasf s Qcoalesce = bit s 4" "hasf s Qkick = bit s 5"
  unfolding qbit_defs by (rule hasf_push_bit, simp)+

lemma bit_setf: "i < 32 \<Longrightarrow> bit (setf s (push_bit i 1 :: u32)) j = (i = j \<or> bit s j)"
  by (auto simp: setf_def bit_simps)

lemma bit_clrf: "i < 32 \<Longrightarrow> bit (clrf s (push_bit i 1 :: u32)) j = (i \<noteq> j \<and> bit s j)"
  by (auto simp: clrf_def bit_simps dest: bit_imp_le_length)

lemma hasf_setf_q [simp, qflags]:
  "hasf (setf s Qstarve) Qstarve = True" "hasf (setf s Qstarve) Qmsg = hasf s Qmsg"
  "hasf (setf s Qstarve) Qclosed = hasf s Qclosed" "hasf (setf s Qstarve) Qflow = hasf s Qflow"
  "hasf (setf s Qstarve) Qcoalesce = hasf s Qcoalesce" "hasf (setf s Qstarve) Qkick = hasf s Qkick"
  "hasf (setf s Qmsg) Qstarve = hasf s Qstarve" "hasf (setf s Qmsg) Qmsg = True"
  "hasf (setf s Qmsg) Qclosed = hasf s Qclosed" "hasf (setf s Qmsg) Qflow = hasf s Qflow"
  "hasf (setf s Qmsg) Qcoalesce = hasf s Qcoalesce" "hasf (setf s Qmsg) Qkick = hasf s Qkick"
  "hasf (setf s Qclosed) Qstarve = hasf s Qstarve" "hasf (setf s Qclosed) Qmsg = hasf s Qmsg"
  "hasf (setf s Qclosed) Qclosed = True" "hasf (setf s Qclosed) Qflow = hasf s Qflow"
  "hasf (setf s Qclosed) Qcoalesce = hasf s Qcoalesce" "hasf (setf s Qclosed) Qkick = hasf s Qkick"
  "hasf (setf s Qflow) Qstarve = hasf s Qstarve" "hasf (setf s Qflow) Qmsg = hasf s Qmsg"
  "hasf (setf s Qflow) Qclosed = hasf s Qclosed" "hasf (setf s Qflow) Qflow = True"
  "hasf (setf s Qflow) Qcoalesce = hasf s Qcoalesce" "hasf (setf s Qflow) Qkick = hasf s Qkick"
  "hasf (setf s Qcoalesce) Qstarve = hasf s Qstarve" "hasf (setf s Qcoalesce) Qmsg = hasf s Qmsg"
  "hasf (setf s Qcoalesce) Qclosed = hasf s Qclosed" "hasf (setf s Qcoalesce) Qflow = hasf s Qflow"
  "hasf (setf s Qcoalesce) Qcoalesce = True" "hasf (setf s Qcoalesce) Qkick = hasf s Qkick"
  "hasf (setf s Qkick) Qstarve = hasf s Qstarve" "hasf (setf s Qkick) Qmsg = hasf s Qmsg"
  "hasf (setf s Qkick) Qclosed = hasf s Qclosed" "hasf (setf s Qkick) Qflow = hasf s Qflow"
  "hasf (setf s Qkick) Qcoalesce = hasf s Qcoalesce" "hasf (setf s Qkick) Qkick = True"
  unfolding hasf_qbit unfolding qbit_defs by (simp_all only: bit_setf) simp_all

lemma hasf_clrf_q [simp, qflags]:
  "hasf (clrf s Qstarve) Qstarve = False" "hasf (clrf s Qstarve) Qmsg = hasf s Qmsg"
  "hasf (clrf s Qstarve) Qclosed = hasf s Qclosed" "hasf (clrf s Qstarve) Qflow = hasf s Qflow"
  "hasf (clrf s Qstarve) Qcoalesce = hasf s Qcoalesce" "hasf (clrf s Qstarve) Qkick = hasf s Qkick"
  "hasf (clrf s Qmsg) Qstarve = hasf s Qstarve" "hasf (clrf s Qmsg) Qmsg = False"
  "hasf (clrf s Qmsg) Qclosed = hasf s Qclosed" "hasf (clrf s Qmsg) Qflow = hasf s Qflow"
  "hasf (clrf s Qmsg) Qcoalesce = hasf s Qcoalesce" "hasf (clrf s Qmsg) Qkick = hasf s Qkick"
  "hasf (clrf s Qclosed) Qstarve = hasf s Qstarve" "hasf (clrf s Qclosed) Qmsg = hasf s Qmsg"
  "hasf (clrf s Qclosed) Qclosed = False" "hasf (clrf s Qclosed) Qflow = hasf s Qflow"
  "hasf (clrf s Qclosed) Qcoalesce = hasf s Qcoalesce" "hasf (clrf s Qclosed) Qkick = hasf s Qkick"
  "hasf (clrf s Qflow) Qstarve = hasf s Qstarve" "hasf (clrf s Qflow) Qmsg = hasf s Qmsg"
  "hasf (clrf s Qflow) Qclosed = hasf s Qclosed" "hasf (clrf s Qflow) Qflow = False"
  "hasf (clrf s Qflow) Qcoalesce = hasf s Qcoalesce" "hasf (clrf s Qflow) Qkick = hasf s Qkick"
  "hasf (clrf s Qcoalesce) Qstarve = hasf s Qstarve" "hasf (clrf s Qcoalesce) Qmsg = hasf s Qmsg"
  "hasf (clrf s Qcoalesce) Qclosed = hasf s Qclosed" "hasf (clrf s Qcoalesce) Qflow = hasf s Qflow"
  "hasf (clrf s Qcoalesce) Qcoalesce = False" "hasf (clrf s Qcoalesce) Qkick = hasf s Qkick"
  "hasf (clrf s Qkick) Qstarve = hasf s Qstarve" "hasf (clrf s Qkick) Qmsg = hasf s Qmsg"
  "hasf (clrf s Qkick) Qclosed = hasf s Qclosed" "hasf (clrf s Qkick) Qflow = hasf s Qflow"
  "hasf (clrf s Qkick) Qcoalesce = hasf s Qcoalesce" "hasf (clrf s Qkick) Qkick = False"
  unfolding hasf_qbit unfolding qbit_defs by (simp_all only: bit_clrf) simp_all

section \<open>Invariant and abstraction\<close>

definition qinv :: "Queue \<Rightarrow> bool" where
  "qinv q \<longleftrightarrow> list_all wfb (blocks q) \<and> len q = blockalloclen (blocks q) \<and>
     dlen q = blocklen (blocks q)"

definition qbytes :: "Queue \<Rightarrow> byte list" where
  "qbytes q = bytesof (blocks q)"

text \<open>What a call left alone: everything about the queue but its data, its state bits and
  its log.\<close>

definition qstatic ::
  "Queue \<Rightarrow> (int \<times> int \<times> bool \<times> bool \<times> bool \<times> string) \<times> bool \<times> bool \<times> bool \<times> bool" where
  "qstatic q = ((limit q, inilim q, noblock q, kick q, bypass q, err q),
     hasf (state q) Qmsg, hasf (state q) Qclosed, hasf (state q) Qcoalesce, hasf (state q) Qkick)"

lemma qstatic_update [simp]:
  "qstatic (q\<lparr>blocks := bs\<rparr>) = qstatic q" "qstatic (q\<lparr>len := n\<rparr>) = qstatic q"
  "qstatic (q\<lparr>dlen := n\<rparr>) = qstatic q" "qstatic (q\<lparr>log := l\<rparr>) = qstatic q"
  "qstatic (q\<lparr>eof := e\<rparr>) = qstatic q"
  "hasf s Qmsg = hasf (state q) Qmsg \<Longrightarrow> hasf s Qclosed = hasf (state q) Qclosed \<Longrightarrow>
   hasf s Qcoalesce = hasf (state q) Qcoalesce \<Longrightarrow> hasf s Qkick = hasf (state q) Qkick \<Longrightarrow>
   qstatic (q\<lparr>state := s\<rparr>) = qstatic q"
  by (simp_all add: qstatic_def)

lemma qstaticD:
  assumes "qstatic q' = qstatic q"
  shows "limit q' = limit q" "inilim q' = inilim q" "noblock q' = noblock q" "kick q' = kick q"
    "bypass q' = bypass q" "err q' = err q" "hasf (state q') Qmsg = hasf (state q) Qmsg"
    "hasf (state q') Qclosed = hasf (state q) Qclosed"
    "hasf (state q') Qcoalesce = hasf (state q) Qcoalesce"
    "hasf (state q') Qkick = hasf (state q) Qkick"
  using assms by (simp_all add: qstatic_def)

lemma qinv_dlen: "qinv q \<Longrightarrow> dlen q = int (length (qbytes q))"
  by (simp add: qinv_def qbytes_def blocklen_length)

lemma blockalloclen_append [simp]: "blockalloclen (bs @ cs) = blockalloclen bs + blockalloclen cs"
  by (induction bs) simp_all

lemma blocklen_append [simp]: "blocklen (bs @ cs) = blocklen bs + blocklen cs"
  by (induction bs) simp_all

lemma okR_withq [simp]: "okR (withq q m) P = okR m (\<lambda>a w. P a (q, w))"
  by (cases m) (simp_all add: okR_def)

lemma withq_eq_Ret [simp]: "withq q m = Ret a s \<longleftrightarrow> (\<exists>w. m = Ret a w \<and> s = (q, w))"
  by (cases m) auto

lemma restart_simps [simp]:
  "blocks (restart q) = blocks q" "len (restart q) = len q" "dlen (restart q) = dlen q"
  "limit (restart q) = limit q" "noblock (restart q) = noblock q" "eof (restart q) = eof q"
  "hasf (state (restart q)) Qclosed = hasf (state q) Qclosed"
  "hasf (state (restart q)) Qmsg = hasf (state q) Qmsg"
  "hasf (state (restart q)) Qstarve = hasf (state q) Qstarve"
  "hasf (state (restart q)) Qcoalesce = hasf (state q) Qcoalesce"
  "hasf (state (restart q)) Qkick = hasf (state q) Qkick"
  "inilim (restart q) = inilim q" "kick (restart q) = kick q" "bypass (restart q) = bypass q"
  "err (restart q) = err q"
  by (simp_all add: restart_def)

lemma qwakeup_simps [simp]:
  "blocks (qwakeup_iunlock q) = blocks q" "len (qwakeup_iunlock q) = len q"
  "dlen (qwakeup_iunlock q) = dlen q" "limit (qwakeup_iunlock q) = limit q"
  "noblock (qwakeup_iunlock q) = noblock q" "eof (qwakeup_iunlock q) = eof q"
  "hasf (state (qwakeup_iunlock q)) Qclosed = hasf (state q) Qclosed"
  "hasf (state (qwakeup_iunlock q)) Qmsg = hasf (state q) Qmsg"
  "hasf (state (qwakeup_iunlock q)) Qstarve = hasf (state q) Qstarve"
  "hasf (state (qwakeup_iunlock q)) Qcoalesce = hasf (state q) Qcoalesce"
  "hasf (state (qwakeup_iunlock q)) Qkick = hasf (state q) Qkick"
  "inilim (qwakeup_iunlock q) = inilim q" "kick (qwakeup_iunlock q) = kick q"
  "bypass (qwakeup_iunlock q) = bypass q" "err (qwakeup_iunlock q) = err q"
  by (simp_all add: qwakeup_iunlock_def)

text \<open>Bookkeeping bundles: what \<open>auto\<close> needs to settle \<open>qinv\<close> and \<open>qbytes\<close> of
  an updated queue.\<close>

lemma qstatic_restart [simp]: "qstatic (restart q) = qstatic q"
  and qstatic_wakeup [simp]: "qstatic (qwakeup_iunlock q) = qstatic q"
  by (simp_all add: qstatic_def)

lemmas qdefs = qinv_def qbytes_def

section \<open>Taking data without sleeping\<close>

lemma qget_ok:
  "qinv q \<Longrightarrow> okR (qget q w) (\<lambda>r (q', w').
     qinv q' \<and> qstatic q' = qstatic q \<and> w' = w \<and>
     (case r of None \<Rightarrow> blocks q = [] \<and> blocks q' = [] \<and> hasf (state q') Qstarve
      | Some b \<Rightarrow> wfb b \<and> blocks q = b # blocks q'))"
  by (auto simp: qget_def qdefs split: list.split)

declare discard_loop.simps [simp del]

lemma discard_loop_ok:
  "qinv q \<Longrightarrow> k \<le> n \<Longrightarrow> okR (discard_loop q (int n) (int k) w) (\<lambda>r (q', w').
     r = int (min n (k + length (qbytes q))) \<and> qinv q' \<and> qstatic q' = qstatic q \<and> state q' = state q \<and>
     log q' = log q \<and> len q' \<le> len q \<and>
     qbytes q' = drop (n - k) (qbytes q) \<and> balanced w (blocks q) w' (blocks q'))"
proof (induction "length (blocks q)" arbitrary: q k w rule: less_induct)
  case less
  show ?case
  proof (cases "blocks q")
    case Nil
    with less.prems show ?thesis
      by (auto simp: discard_loop.simps [of q] qdefs)
  next
    case (Cons b bs)
    let ?l = "length (bdata b)"
    have wf: "wfb b" "list_all wfb bs" and l: "BLEN b = int ?l"
      using less.prems by (simp_all add: qinv_def Cons BLEN_length)
    consider "k = n" | "k < n" "?l \<le> n - k" | "k < n" "n - k < ?l" using less.prems by linarith
    then show ?thesis
    proof cases
      case 1
      with less.prems show ?thesis by (simp add: discard_loop.simps [of q])
    next
      case 2
      let ?q = "q\<lparr>blocks := bs, len := len q - BALLOC b, dlen := dlen q - BLEN b\<rparr>"
      let ?w = "w\<lparr>ialloc_bytes := ialloc_bytes w - ibal b\<rparr>"
      have le: "int ?l \<le> int n - int k" using 2 by linarith
      have eq: "discard_loop q (int n) (int k) w = discard_loop ?q (int n) (int (k + ?l)) ?w"
        using 2 wf le by (simp add: discard_loop.simps [of q] Cons Let_def l freeb_eq)
      have "qinv ?q" "k + ?l \<le> n" "length (blocks ?q) < length (blocks q)"
        using less.prems 2 by (simp_all add: qinv_def Cons)
      note IH = less.hyps [OF this(3,1,2), of ?w]
      have bal: "balanced w (b # bs) ?w bs" by (simp add: balanced_def)
      have nn: "len q - BALLOC b \<le> len q" by (simp add: BALLOC_def)
      show ?thesis
        unfolding eq by (rule okR_mono [OF IH])
          (use 2 nn Cons in \<open>auto simp: qbytes_def intro: balanced_trans [OF bal]\<close>)
    next
      case 3
      define m where "m = n - k"
      then have n: "n = k + m" and m: "0 < m" "m < ?l" using 3 by simp_all
      let ?b = "b\<lparr>rp := rp b + m\<rparr>"
      let ?q = "q\<lparr>blocks := ?b # bs, dlen := dlen q - int m\<rparr>"
      have eq: "discard_loop q (int n) (int k) w = Ret (int n) (?q, w)"
        using m by (simp add: n discard_loop.simps [of q] discard_loop.simps [of ?q] Cons Let_def l)
      have "wfb ?b" "BLEN ?b = int ?l - int m" "BALLOC ?b = BALLOC b"
        using m wf BLEN_length [of ?b] by (simp_all add: BALLOC_def)
      then show ?thesis
        unfolding eq using m n wf l less.prems Cons by (simp add: qdefs balanced_def)
    qed
  qed
qed

lemma qdiscard_ok:
  assumes "qinv q"
  shows "okR (qdiscard q (int n) w) (\<lambda>r (q', w').
     r = int (min n (length (qbytes q))) \<and> qinv q' \<and> qstatic q' = qstatic q \<and>
     qbytes q' = drop n (qbytes q) \<and> balanced w (blocks q) w' (blocks q'))"
  using discard_loop_ok [OF assms, of 0 n w]
  by (auto simp: qdiscard_def qdefs elim!: okR_mono)

text \<open>The empty blocks at the front of a string, and the string from its first block with
  data on.\<close>

definition empties :: "Block list \<Rightarrow> Block list" where
  "empties bs = takeWhile (\<lambda>b. bdata b = []) bs"

definition nonempty :: "Block list \<Rightarrow> Block list" where
  "nonempty bs = dropWhile (\<lambda>b. bdata b = []) bs"

lemma empties_nonempty: "blocks q = empties (blocks q) @ nonempty (blocks q)"
  by (simp add: empties_def nonempty_def)

lemma nonempty_hd: "nonempty bs = b # cs \<Longrightarrow> bdata b \<noteq> []"
  by (simp add: nonempty_def dropWhile_eq_Cons_conv)

lemma bytesof_empties [simp]: "bytesof (empties bs) = []"
  by (induction bs) (simp_all add: empties_def)

lemma consume_skip_eq:
  "list_all wfb bs \<Longrightarrow>
     consume_skip bs l t = (nonempty bs, l - blockalloclen (empties bs), rev (empties bs) @ t)"
  by (induction bs arbitrary: l t) (simp_all add: BLEN_length nonempty_def empties_def)

text \<open>\<^verbatim>\<open>qconsume\<close> on a queue that holds data: the empty blocks at the front are freed, and
  the bytes come from the first block with data.\<close>

lemma qconsume_ok:
  assumes "qinv q" "qbytes q \<noteq> []"
  shows "okR (qconsume q (int l) w) (\<lambda>(n, xs) (q', w').
     n = int (length xs) \<and> length xs \<le> l \<and> (0 < l \<longrightarrow> xs \<noteq> []) \<and> qinv q' \<and> qstatic q' = qstatic q \<and>
     balanced w (blocks q) w' (blocks q') \<and>
     xs = take l (bdata (hd (nonempty (blocks q)))) \<and>
     qbytes q' = (if hasf (state q) Qmsg then [] else drop l (bdata (hd (nonempty (blocks q)))))
       @ bytesof (tl (nonempty (blocks q))))"
proof -
  define es where "es = empties (blocks q)"
  have "bytesof (empties (blocks q)) @ bytesof (nonempty (blocks q)) \<noteq> []"
    using assms(2) by (metis qbytes_def bytesof_simps(3) empties_nonempty)
  then obtain b bs where nq: "nonempty (blocks q) = b # bs"
    by (cases "nonempty (blocks q)") simp_all
  have wf: "list_all wfb (blocks q)" using assms(1) by (simp add: qinv_def)
  have c: "consume_skip (blocks q) (len q) [] = (b # bs, len q - blockalloclen es, rev es)"
    by (simp add: consume_skip_eq [OF wf] nq es_def)
  have es: "blocks q = es @ b # bs" using empties_nonempty [of q] by (simp add: nq es_def)
  have wfs: "list_all wfb es" "wfb b" "list_all wfb bs"
    using wf es by simp_all
  have ne: "bdata b \<noteq> []" by (rule nonempty_hd [OF nq])
  have bl: "blocklen es = 0" using wfs(1) by (simp add: blocklen_length es_def)
  define k where "k = min l (length (bdata b))"
  have k: "k \<le> length (bdata b)" "(if BLEN b < int l then BLEN b else int l) = int k"
    using wfs(2) by (auto simp: k_def BLEN_length)
  have rd: "rp b + k \<le> length (buf b)" "seg (rp b) k (buf b) = take k (bdata b)"
    using k(1) wfs(2) by (auto simp: wfb_def bdata_def min_def)
  have b': "wfb (b\<lparr>rp := rp b + k\<rparr>)" "BLEN (b\<lparr>rp := rp b + k\<rparr>) = BLEN b - int k"
    "BALLOC (b\<lparr>rp := rp b + k\<rparr>) = BALLOC b"
    using k(1) wfs(2) BLEN_length [of "b\<lparr>rp := rp b + k\<rparr>"]
    by (simp_all add: BLEN_length BALLOC_def)
  have fl: "list_all wfb (rev es)" "iacct (rev es) = iacct es"
    using wfs(1) by (auto simp: list_all_iff iacct_def rev_map [symmetric])
  have tk: "take k (bdata b) = take l (bdata b)" "k \<noteq> length (bdata b) \<Longrightarrow> k = l"
    "k = length (bdata b) \<Longrightarrow> drop l (bdata b) = []"
    by (auto simp: k_def min_def split: if_splits)
  have pos: "0 < l \<longrightarrow> take l (bdata b) \<noteq> []" "length (take l (bdata b)) = k"
    using ne by (auto simp: k_def)
  show ?thesis
  proof (cases "hasf (state q) Qmsg \<or> int k = BLEN b")
    case True
    with wfs fl b' have "okR (qconsume q (int l) w) (\<lambda>(n, xs) (q', w').
        n = int k \<and> xs = take l (bdata b) \<and> qinv q' \<and> qstatic q' = qstatic q \<and>
        blocks q' = bs \<and> balanced w (blocks q) w' bs)"
      using assms(1) unfolding qconsume_def c
      by (auto simp: Let_def k(2) rd tk freeblist_eq freeb_eq qdefs es bl balanced_def)
    then show ?thesis
      by (rule okR_mono)
         (use pos tk True BLEN_length [OF wfs(2)] in \<open>auto simp: qbytes_def nq\<close>)
  next
    case False
    then have kl: "k = l" using tk(2) BLEN_length [OF wfs(2)] by auto
    from False wfs fl b' have "okR (qconsume q (int l) w) (\<lambda>(n, xs) (q', w').
        n = int k \<and> xs = take l (bdata b) \<and> qinv q' \<and> qstatic q' = qstatic q \<and>
        blocks q' = b\<lparr>rp := rp b + k\<rparr> # bs \<and> balanced w (blocks q) w' (blocks q'))"
      using assms(1) unfolding qconsume_def c
      by (auto simp: Let_def k(2) rd tk freeblist_eq freeb_eq qdefs es bl balanced_def)
    then show ?thesis
      by (rule okR_mono)
         (use pos kl k(1) False wfs in \<open>auto simp: qbytes_def nq\<close>)
  qed
qed

text \<open>On a queue that holds only empty blocks \<^verbatim>\<open>qconsume\<close> drops them all, returns \<open>-1\<close>, and
  neither frees them nor restarts a flow-controlled writer.\<close>

lemma qconsume_empty:
  assumes "qinv q" "qbytes q = []"
  shows "qconsume q l w =
    Ret (-1, []) (q\<lparr>blocks := [], len := 0, state := setf (state q) Qstarve\<rparr>, w)"
proof -
  have "list_all wfb bs \<Longrightarrow> bytesof bs = [] \<Longrightarrow>
      \<exists>t'. consume_skip bs (m + blockalloclen bs) t = ([], m, t')" for bs m t
    by (induction bs arbitrary: m t) (auto simp: BLEN_length)
  from this [of "blocks q" 0 "[]"] assms show ?thesis
    by (auto simp: qconsume_def qdefs)
qed

section \<open>Adding data without sleeping\<close>

text \<open>\<open>woke e q q'\<close>: the call \<open>e\<close> was made on the way from \<open>q\<close> to \<open>q'\<close>.\<close>

definition woke :: "kevent \<Rightarrow> Queue \<Rightarrow> Queue \<Rightarrow> bool" where
  "woke e q q' \<longleftrightarrow> (\<exists>es. log q' = log q @ es \<and> e \<in> set es)"

lemma woke_log [simp]: "log q' = log q @ es \<Longrightarrow> woke e q q' = (e \<in> set es)"
  by (auto simp: woke_def)

definition logext :: "Queue \<Rightarrow> Queue \<Rightarrow> bool" where
  "logext q q' \<longleftrightarrow> (\<exists>es. log q' = log q @ es)"

lemma logext_log [simp]: "log q' = log q @ es \<Longrightarrow> logext q q'"
  by (auto simp: logext_def)

lemma logext_trans: "logext q q' \<Longrightarrow> logext q' q'' \<Longrightarrow> logext q q''"
  by (auto simp: logext_def)

lemma woke_logext: "woke e q q' \<Longrightarrow> logext q' q'' \<Longrightarrow> woke e q q''"
  by (auto simp: logext_def woke_def)

text \<open>\<open>appended q q' xs\<close>: \<open>q'\<close> is \<open>q\<close> with \<open>xs\<close> added at the end; a starved reader has
  been woken.\<close>

definition appended :: "Queue \<Rightarrow> Queue \<Rightarrow> byte list \<Rightarrow> bool" where
  "appended q q' xs \<longleftrightarrow> qinv q' \<and> qstatic q' = qstatic q \<and> qbytes q' = qbytes q @ xs \<and>
     \<not> hasf (state q') Qstarve \<and> logext q q' \<and> (hasf (state q) Qstarve \<longrightarrow> woke WakeR q q')"

lemma appended_trans: "appended q q1 xs \<Longrightarrow> appended q1 q2 ys \<Longrightarrow> appended q q2 (xs @ ys)"
  by (auto simp: appended_def intro: logext_trans woke_logext)

lemma qinv_append [simp]:
  "qinv q \<Longrightarrow> list_all wfb bs \<Longrightarrow>
     qinv (q\<lparr>blocks := blocks q @ bs, len := len q + blockalloclen bs, dlen := dlen q + blocklen bs\<rparr>)"
  by (simp add: qinv_def)

lemma passadd_ok:
  assumes "qinv q" "list_all wfb bs"
  shows "okR (passadd q bs w) (\<lambda>r (q', w'). r = blockalloclen bs \<and> w' = w \<and>
           appended q q' (bytesof bs) \<and> blocks q' = blocks q @ bs)"
  using assms by (auto simp: passadd_def Let_def appended_def qdefs)

lemma qpass_ok:
  assumes "qinv q" "bs \<noteq> []" "list_all wfb bs"
  shows "okR (qpass q bs w) (\<lambda>r (q', w').
     if len q \<ge> limit q \<or> hasf (state q) Qclosed
     then q' = q \<and> balanced w bs w' [] \<and> r = (if len q \<ge> limit q then -1 else BALLOC (hd bs))
     else r = blockalloclen bs \<and> w' = w \<and> appended q q' (bytesof bs) \<and> blocks q' = blocks q @ bs)"
  using assms passadd_ok [OF assms(1,3), of w]
  by (auto simp: qpass_def freeblist_eq freeb_eq balanced_def split: list.split)

lemma qpassnolim_ok:
  assumes "qinv q" "bs \<noteq> []" "list_all wfb bs"
  shows "okR (qpassnolim q bs w) (\<lambda>r (q', w').
     if hasf (state q) Qclosed then q' = q \<and> balanced w bs w' [] \<and> r = BALLOC (hd bs)
     else r = blockalloclen bs \<and> w' = w \<and> appended q q' (bytesof bs) \<and> blocks q' = blocks q @ bs)"
  using assms passadd_ok [OF assms(1,3), of w]
  by (auto simp: qpassnolim_def freeblist_eq freeb_eq balanced_def split: list.split)

text \<open>Memory is to be had at interrupt time too.\<close>

definition imemok :: "Kern \<Rightarrow> bool" where
  "imemok w \<longleftrightarrow> (\<forall>k n. mallocs w k n \<noteq> None) \<and> ialloc_bytes w \<le> ialloc_limit w"

lemma inewb_fill [simp]:
  assumes "length xs \<le> n"
  shows "rp (inewb n p) + length xs \<le> length (buf (inewb n p))" "wfb (bput (inewb n p) xs)"
    "bdata (bput (inewb n p) xs) = xs" "ibal (bput (inewb n p) xs) = ibal (inewb n p)"
proof -
  show r: "rp (inewb n p) + length xs \<le> length (buf (inewb n p))"
    using inewb_facts(4) [of n p] assms by linarith
  then have "wp (inewb n p) + length xs \<le> length (buf (inewb n p))" by simp
  note bput_facts [OF this]
  then show "wfb (bput (inewb n p) xs)" "bdata (bput (inewb n p) xs) = xs"
    "ibal (bput (inewb n p) xs) = ibal (inewb n p)" by simp_all
qed

lemma iallocb_fill:
  assumes "imemok w" "length xs \<le> n"
  obtains b w' where "iallocb n w = Ret (Some b) w'" "\<And>s. bfill b xs s = Ret (bput b xs) s"
    "wfb (bput b xs)" "bdata (bput b xs) = xs" "balanced w [] w' [bput b xs]"
proof -
  let ?b = "inewb n (maddr n w)"
  have "bfill ?b xs s = Ret (bput ?b xs) s" for s :: 'a
    by (rule bfill_eq) (use inewb_fill(1) [OF assms(2)] in simp)
  moreover have "balanced w [] ((tick w)\<lparr>ialloc_bytes := ialloc_bytes w + ibal ?b\<rparr>) [bput ?b xs]"
    by (simp add: balanced_def inewb_fill [OF assms(2)])
  ultimately show ?thesis
    using assms iallocb_eq [of w n] by (intro that) (auto simp: imemok_def)
qed

lemma qproduce_ok:
  assumes "qinv q" "imemok w"
  shows "okR (qproduce q xs w) (\<lambda>r (q', w').
     if len q \<ge> limit q
     then r = -1 \<and> w' = w \<and> blocks q' = blocks q \<and> qinv q' \<and> qstatic q' = qstatic q \<and>
          hasf (state q') Qflow
     else r = int (length xs) \<and> appended q q' xs \<and> balanced w (blocks q) w' (blocks q'))"
proof (cases "len q \<ge> limit q")
  case True
  with assms show ?thesis by (auto simp: qproduce_def qdefs)
next
  case False
  obtain b w1 where b: "iallocb (length xs) w = Ret (Some b) w1"
    "\<And>s::Kern. bfill b xs s = Ret (bput b xs) s" "wfb (bput b xs)" "bdata (bput b xs) = xs"
    "balanced w [] w1 [bput b xs]"
    using iallocb_fill [OF assms(2) le_refl] by metis
  with False assms(1) show ?thesis
    by (auto simp: qproduce_def Let_def appended_def qdefs balanced_def)
qed

section \<open>Copying from the middle\<close>

lemma qcopy_seek_spec:
  "list_all wfb bs \<Longrightarrow> s \<le> off \<Longrightarrow>
     (case qcopy_seek bs (int s) off of
        None \<Rightarrow> s + length (bytesof bs) \<le> off
      | Some (cs, d) \<Rightarrow> \<exists>b rest. cs = b # rest \<and> list_all wfb cs \<and> d < length (bdata b) \<and>
          drop d (bytesof cs) = drop (off - s) (bytesof bs))"
proof (induction bs arbitrary: s)
  case (Cons b bs)
  then have l: "BLEN b = int (length (bdata b))" by (simp add: BLEN_length)
  show ?case
  proof (cases "s + length (bdata b) > off")
    case True
    with Cons.prems l show ?thesis by (auto simp: nat_diff_distrib)
  next
    case False
    with Cons.IH [of "s + length (bdata b)"] Cons.prems l show ?thesis
      by (auto split: option.split)
  qed
qed simp

lemma bmove_seg_eq:
  "wfb s \<Longrightarrow> d + n \<le> length (bdata s) \<Longrightarrow> wp t + n \<le> length (buf t) \<Longrightarrow>
     bmove t s (rp s + d) (int n) w = Ret (bput t (take n (drop d (bdata s)))) w"
  by (auto simp: bmove_def bfill_eq wfb_def bdata_def min_def)

declare qcopy_loop.simps [simp del]

lemma qcopy_loop_step:
  assumes "wfb b" "d + m = length (bdata b)" "0 < r" "wp nb + r \<le> length (buf nb)"
  shows "qcopy_loop nb b bs (rp b + d) (int m) (int (s + r)) (int s) w =
    (let n = min m r; nb = bput nb (take n (drop d (bdata b)));
         w = w\<lparr>qcopycnt := qcopycnt w + of_nat n\<rparr>
     in case bs of [] \<Rightarrow> Ret nb w
        | c # cs \<Rightarrow> qcopy_loop nb c cs (rp c) (BLEN c) (int (s + r)) (int (s + n)) w)"
proof -
  have mv: "bmove nb b (rp b + d) (int (min m r)) w = Ret (bput nb (take (min m r) (drop d (bdata b)))) w"
    by (rule bmove_seg_eq) (use assms in auto)
  have n: "(if int m > int (s + r) - int s then int (s + r) - int s else int m) = int (min m r)"
    by auto
  show ?thesis
    unfolding qcopy_loop.simps [of nb] n Let_def mv using assms(3) by (simp split: list.split)
qed

lemma qcopy_loop_ok:
  "wfb b \<Longrightarrow> list_all wfb bs \<Longrightarrow> wfb nb \<Longrightarrow> d + m = length (bdata b) \<Longrightarrow>
   wp nb + r \<le> length (buf nb) \<Longrightarrow>
   okR (qcopy_loop nb b bs (rp b + d) (int m) (int (s + r)) (int s) w)
     (\<lambda>nb' w'. wfb nb' \<and> ibal nb' = ibal nb \<and> kstatic w' = kstatic w \<and>
        ialloc_bytes w' = ialloc_bytes w \<and>
        bdata nb' = bdata nb @ take r (drop d (bdata b) @ bytesof bs))"
proof (induction bs arbitrary: b nb d m r s w)
  case Nil
  have "take (min m r) (drop d (bdata b)) = take r (drop d (bdata b))"
    using Nil(4) by (simp add: min_def)
  with Nil qcopy_loop_step [OF Nil(1,4) _ Nil(5), of "[]" s w] show ?case
    by (cases "r = 0") (simp_all add: qcopy_loop.simps [of nb b "[]" _ _ "int s"] Let_def)
next
  case (Cons c cs)
  show ?case
  proof (cases "r = 0")
    case True
    with Cons.prems show ?thesis by (simp add: qcopy_loop.simps [of nb])
  next
    case False
    define n where "n = min m r"
    let ?nb = "bput nb (take n (drop d (bdata b)))"
    let ?w = "w\<lparr>qcopycnt := qcopycnt w + of_nat n\<rparr>"
    have len: "length (take n (drop d (bdata b))) = n" using Cons.prems(4) by (simp add: n_def)
    have fit: "wp nb + length (take n (drop d (bdata b))) \<le> length (buf nb)"
      using Cons.prems(5) unfolding len by (simp add: n_def)
    note put = bput_facts [OF fit]
    have c: "wfb c" "list_all wfb cs" "BLEN c = int (length (bdata c))"
      using Cons.prems by (simp_all add: BLEN_length)
    have IH: "okR (qcopy_loop ?nb c cs (rp c + 0) (int (length (bdata c))) (int ((s + n) + (r - n)))
        (int (s + n)) ?w) (\<lambda>nb' w'. wfb nb' \<and> ibal nb' = ibal ?nb \<and> kstatic w' = kstatic ?w \<and>
        ialloc_bytes w' = ialloc_bytes ?w \<and>
        bdata nb' = bdata ?nb @ take (r - n) (drop 0 (bdata c) @ bytesof cs))"
      by (rule Cons.IH) (use c put Cons.prems len in \<open>simp_all add: n_def\<close>)
    have "qcopy_loop nb b (c # cs) (rp b + d) (int m) (int (s + r)) (int s) w =
        qcopy_loop ?nb c cs (rp c) (int (length (bdata c))) (int ((s + n) + (r - n))) (int (s + n)) ?w"
      using qcopy_loop_step [OF Cons.prems(1,4) _ Cons.prems(5)] False
      by (simp add: n_def [symmetric] Let_def c(3)) (simp add: n_def)
    moreover have "take n (drop d (bdata b)) @ take (r - n) (bdata c @ bytesof cs)
        = take r (drop d (bdata b) @ bytesof (c # cs))"
      using Cons.prems(4) [symmetric] by (simp add: n_def min_def)
    ultimately show ?thesis
      using IH put Cons.prems(3) by (auto elim!: okR_mono)
  qed
qed

text \<open>\<^verbatim>\<open>qcopy\<close> copies without changing the queue.\<close>

lemma qcopy_ok:
  assumes "qinv q" "memok w"
  shows "okR (qcopy q l off w) (\<lambda>b (q', w'). q' = q \<and> wfb b \<and>
     bdata b = take l (drop off (qbytes q)) \<and> balanced w [] w' [b])"
proof -
  have wf: "list_all wfb (blocks q)" using assms(1) by (simp add: qinv_def)
  note seek = qcopy_seek_spec [OF wf, of 0 off, simplified]
  show ?thesis
  proof (cases "qcopy_seek (blocks q) 0 off")
    case None
    with seek assms(2) show ?thesis
      by (auto simp: qcopy_def allocb_eq balanced_def qbytes_def)
  next
    case (Some r)
    with seek obtain b rest d where r: "r = (b # rest, d)" "wfb b" "list_all wfb rest"
      "d < length (bdata b)" "drop d (bdata b @ bytesof rest) = drop off (bytesof (blocks q))"
      by auto
    let ?nb = "newb l (maddr l w)"
    have "okR (qcopy_loop ?nb b rest (rp b + d) (int (length (bdata b) - d)) (int (0 + l)) (int 0) (tick w))
      (\<lambda>nb' w'. wfb nb' \<and> ibal nb' = ibal ?nb \<and> kstatic w' = kstatic (tick w) \<and>
        ialloc_bytes w' = ialloc_bytes (tick w) \<and>
        bdata nb' = bdata ?nb @ take l (drop d (bdata b) @ bytesof rest))"
      by (rule qcopy_loop_ok) (use r in simp_all)
    with r assms(2) Some show ?thesis
      by (auto elim!: okR_mono simp: qcopy_def allocb_eq balanced_def qbytes_def BLEN_length)
  qed
qed

section \<open>Reading\<close>

lemma coalesce_spec:
  "coalesce bs n l = (took, m, left) \<Longrightarrow>
     bs = took @ left \<and> m = n + blocklen took \<and> (took \<noteq> [] \<longrightarrow> m \<le> l)"
  by (induction bs arbitrary: n took m left) (fastforce split: if_splits prod.splits)+

lemma balanced_frame: "balanced w bs w' cs \<Longrightarrow> balanced w (bs @ ds) w' (cs @ ds)"
  by (simp add: balanced_def add.assoc [symmetric])

declare qread_get.simps [simp del]

text \<open>What \<^verbatim>\<open>qread\<close> takes off a queue that has something to read: a string of blocks from the
  front, more than one only if all of it fits.\<close>

definition taken :: "Queue \<Rightarrow> int \<Rightarrow> Kern \<Rightarrow> (Block list \<times> int) option \<Rightarrow> Queue \<times> Kern \<Rightarrow> bool" where
  "taken q l w r s \<longleftrightarrow> (case (r, s) of
     (Some (first, n), (q', w')) \<Rightarrow>
       first \<noteq> [] \<and> list_all wfb first \<and> n = int (length (bytesof first)) \<and> qinv q' \<and>
       qstatic q' = qstatic q \<and> state q' = state q \<and> qbytes q = bytesof first @ qbytes q' \<and>
       balanced w (blocks q) w' (first @ blocks q') \<and> (length first > 1 \<longrightarrow> n \<le> l) \<and>
       (\<not> hasf (state q) Qcoalesce \<longrightarrow> first = [hd (blocks q)] \<and> blocks q' = tl (blocks q)) \<and>
       (hasf (state q) Qcoalesce \<longrightarrow> bdata (hd first) \<noteq> [])
   | _ \<Rightarrow> False)"

lemma qread_get_ok:
  "qinv q \<Longrightarrow> blocks q \<noteq> [] \<Longrightarrow> hasf (state q) Qcoalesce \<longrightarrow> qbytes q \<noteq> [] \<Longrightarrow>
     okR (qread_get q l w) (taken q l w)"
proof (induction "length (blocks q)" arbitrary: q w rule: less_induct)
  case less
  then obtain b bs where q: "blocks q = b # bs" by (cases "blocks q") auto
  have wf: "wfb b" "list_all wfb bs" and l: "BLEN b = int (length (bdata b))"
    using less.prems by (simp_all add: qinv_def q BLEN_length)
  let ?q = "snd (qremove q)"
  have q': "qinv ?q" "qstatic ?q = qstatic q" "state ?q = state q" "blocks ?q = bs"
    using less.prems(1) by (simp_all add: qinv_def qremove_def q)
  consider (one) "\<not> hasf (state q) Qcoalesce" | (skip) "hasf (state q) Qcoalesce" "bdata b = []"
    | (many) "hasf (state q) Qcoalesce" "bdata b \<noteq> []" by blast
  then show ?case
  proof cases
    case one
    with q q' wf l show ?thesis
      by (simp add: qread_get.simps [of q] taken_def qbytes_def balanced_self)
  next
    case skip
    let ?w = "w\<lparr>ialloc_bytes := ialloc_bytes w - ibal b\<rparr>"
    have eq: "qread_get q l w = qread_get ?q l ?w"
      using skip q l wf by (simp add: qread_get.simps [of q] freeb_eq)
    have ne: "qbytes ?q = qbytes q" "qbytes ?q \<noteq> []"
      using skip less.prems(3) q q' by (simp_all add: qbytes_def)
    then have "blocks ?q \<noteq> []" by (auto simp: qbytes_def)
    with less.hyps [of ?q ?w] q q' ne skip(1) have IH: "okR (qread_get ?q l ?w) (taken ?q l ?w)"
      by simp
    have bal: "balanced w (blocks q) ?w (blocks ?q)" by (simp add: balanced_def q q')
    show ?thesis
      unfolding eq by (rule okR_mono [OF IH])
        (use ne q'(1-3) skip in \<open>auto simp: taken_def split: option.splits intro: balanced_trans [OF bal]\<close>)
  next
    case many
    obtain took m left where c: "coalesce bs (BLEN b) l = (took, m, left)" by (metis prod_cases3)
    note sp = coalesce_spec [OF c]
    then have wf': "list_all wfb took" "list_all wfb left" using wf by simp_all
    with many q l wf less.prems(1) sp c show ?thesis
      by (auto simp: qread_get.simps [of q] taken_def qdefs balanced_self blocklen_length BLEN_length)
  qed
qed

text \<open>\<^verbatim>\<open>qread\<close> on a byte stream: what is read is the front of the stream, and the rest stays
  in the queue.\<close>

lemma qread_stream_ok:
  assumes "qinv q" "\<not> hasf (state q) Qmsg" "blocks q \<noteq> []"
    "hasf (state q) Qcoalesce \<longrightarrow> qbytes q \<noteq> []"
  shows "okR (qread q (int l) w) (\<lambda>(n, xs) (q', w').
     n = int (length xs) \<and> length xs \<le> l \<and> qinv q' \<and> qstatic q' = qstatic q \<and>
     qbytes q = xs @ qbytes q' \<and> balanced w (blocks q) w' (blocks q') \<and>
     (0 < l \<and> (hasf (state q) Qcoalesce \<or> bdata (hd (blocks q)) \<noteq> []) \<longrightarrow> xs \<noteq> []))"
proof -
  obtain r q1 w1 where g: "qread_get q (int l) w = Ret r (q1, w1)" and tk: "taken q (int l) w r (q1, w1)"
    using qread_get_ok [OF assms(1,3,4), of "int l" w] by (auto simp: okR_def)
  then obtain first where r: "r = Some (first, int (length (bytesof first)))" "first \<noteq> []"
    and f: "list_all wfb first" "qinv q1" "qstatic q1 = qstatic q" "qbytes q = bytesof first @ qbytes q1"
      "balanced w (blocks q) w1 (first @ blocks q1)" "length first > 1 \<longrightarrow> length (bytesof first) \<le> l"
    and ne: "hasf (state q) Qcoalesce \<or> bdata (hd (blocks q)) \<noteq> [] \<longrightarrow> bytesof first \<noteq> []"
    by (auto simp: taken_def neq_Nil_conv split: option.splits)
  obtain left w2 where b: "bl2mem first (int l) w1 = Ret (take l (bytesof first), left) w2"
    and lf: "bytesof left = drop l (bytesof first)" "list_all wfb left" "length left \<le> length first"
      "length (bytesof first) \<le> l \<longrightarrow> left = []" and bal: "balanced w1 first w2 left"
    using bl2mem_ok [OF f(1), of l w1] by (auto simp: okR_def)
  have bal': "balanced w (blocks q) w2 (left @ blocks q1)"
    by (rule balanced_trans [OF f(5) balanced_frame [OF bal]])
  have ms: "\<not> hasf (state q1) Qmsg" using qstaticD [OF f(3)] assms(2) by simp
  consider (all) "left = []" | (some) c where "left = [c]"
    using lf(3,4) f(6) r(2) by (cases left; cases first) (auto split: if_splits)
  then show ?thesis
  proof cases
    case all
    then have "take l (bytesof first) = bytesof first" "length (bytesof first) \<le> l"
      using lf(1) by simp_all
    with all g b r f ne bal' show ?thesis
      by (auto simp: qread_def qread_put_def qdefs)
  next
    case some
    then have c: "wfb c" "bdata c = drop l (bytesof first)" "bytesof first \<noteq> []"
      using lf by auto
    have n: "int (length (bytesof first)) - BLEN c = int (length (take l (bytesof first)))"
      using c(1,2) by (simp add: BLEN_length min_def)
    have "qinv (qputback q1 c)" "qbytes (qputback q1 c) = bdata c @ qbytes q1"
      "qstatic (qputback q1 c) = qstatic q1" "blocks (qputback q1 c) = c # blocks q1"
      using f(2) c(1) by (simp_all add: qputback_def qdefs)
    with some g b r f(3,4) ne ms bal' c n show ?thesis
      by (simp add: qread_def qread_put_def qinv_def qbytes_def)
  qed
qed

text \<open>\<^verbatim>\<open>qread\<close> on a message queue: one read takes one message, cut to the size asked for.\<close>

lemma qread_msg_ok:
  assumes "qinv q" "hasf (state q) Qmsg" "\<not> hasf (state q) Qcoalesce" "blocks q = b # bs"
  shows "okR (qread q (int l) w) (\<lambda>(n, xs) (q', w').
     xs = take l (bdata b) \<and> n = int (length xs) \<and> blocks q' = bs \<and> qinv q' \<and>
     qstatic q' = qstatic q \<and> balanced w (blocks q) w' bs)"
proof -
  let ?q = "snd (qremove q)"
  have wf: "wfb b" "list_all wfb bs" using assms(1,4) by (simp_all add: qinv_def)
  have q': "qinv ?q" "qstatic ?q = qstatic q" "state ?q = state q" "blocks ?q = bs"
    using assms(1,4) by (simp_all add: qinv_def qremove_def)
  have g: "qread_get q (int l) w = Ret (Some ([b], BLEN b)) (?q, w)"
    using assms(3,4) by (simp add: qread_get.simps [of q])
  obtain left w2 where b: "bl2mem [b] (int l) w = Ret (take l (bdata b), left) w2"
    and lf: "bytesof left = drop l (bdata b)" "list_all wfb left" "length left \<le> 1"
      "length (bdata b) \<le> l \<longrightarrow> left = []" and bal: "balanced w [b] w2 left"
    using bl2mem_ok [of "[b]" l w] wf(1) by (auto simp: okR_def)
  consider (all) "left = []" | (some) c where "left = [c]"
    using lf(3) by (cases left) auto
  then show ?thesis
  proof cases
    case all
    with lf(1) g b q' bal wf assms(4) show ?thesis
      by (simp add: qread_def qread_put_def qdefs BLEN_length balanced_def)
  next
    case some
    have n: "BLEN b - BLEN c = int (length (take l (bdata b)))"
      using some lf wf(1) by (simp add: BLEN_length min_def)
    have "kstatic w2 = kstatic w" "ialloc_bytes w2 - ibal c + ibal b = ialloc_bytes w"
      using bal by (simp_all add: balanced_def some algebra_simps)
    with some lf g b q' n assms(2,4) show ?thesis
      by (simp add: qread_def qread_put_def qinv_def freeb_eq balanced_def)
  qed
qed

text \<open>On a queue that neither coalesces nor holds messages a read is served from the first block alone, which goes
  when it is used up, also when it was empty.\<close>

lemma qread_plain_ok:
  assumes "qinv q" "\<not> hasf (state q) Qmsg" "\<not> hasf (state q) Qcoalesce" "blocks q = b # bs"
  shows "okR (qread q (int l) w) (\<lambda>(n, xs) (q', w').
     xs = take l (bdata b) \<and> n = int (length xs) \<and> qbytes q' = drop l (bdata b) @ bytesof bs \<and>
     length (blocks q') = (if length (bdata b) \<le> l then length bs else Suc (length bs)) \<and>
     qinv q' \<and> qstatic q' = qstatic q \<and> eof q' = eof q \<and> balanced w (blocks q) w' (blocks q'))"
proof -
  let ?q = "snd (qremove q)"
  have wf: "wfb b" "list_all wfb bs" using assms(1,4) by (simp_all add: qinv_def)
  have q': "qinv ?q" "qstatic ?q = qstatic q" "state ?q = state q" "blocks ?q = bs" "eof ?q = eof q"
    using assms(1,4) by (simp_all add: qinv_def qremove_def)
  have g: "qread_get q (int l) w = Ret (Some ([b], BLEN b)) (?q, w)"
    using assms(3,4) by (simp add: qread_get.simps [of q])
  obtain left w2 where b: "bl2mem [b] (int l) w = Ret (take l (bdata b), left) w2"
    and lf: "bytesof left = drop l (bdata b)" "list_all wfb left" "length left \<le> 1"
      "length (bdata b) \<le> l \<longrightarrow> left = []" and bal: "balanced w [b] w2 left"
    using bl2mem_ok [of "[b]" l w] wf(1) by (auto simp: okR_def)
  have bal': "balanced w (blocks q) w2 (left @ bs)" using balanced_frame [OF bal, of bs] assms(4) by simp
  have eofw: "eof (qwakeup_iunlock x) = eof x" for x by (simp add: qwakeup_iunlock_def)
  consider (all) "left = []" | (some) c where "left = [c]"
    using lf(3) by (cases left) auto
  then show ?thesis
  proof cases
    case all
    then have "length (bdata b) \<le> l" using lf(1) by simp
    with all lf(1) g b q' bal' wf show ?thesis
      by (simp add: qread_def qread_put_def qdefs BLEN_length eofw)
  next
    case some
    then have c: "wfb c" "bdata c = drop l (bdata b)" "\<not> length (bdata b) \<le> l" using lf by auto
    have n: "BLEN b - BLEN c = int (length (take l (bdata b)))"
      using c wf(1) by (simp add: BLEN_length min_def)
    have "qinv (qputback ?q c)" "qbytes (qputback ?q c) = bdata c @ bytesof bs" "eof (qputback ?q c) = eof q"
      "qstatic (qputback ?q c) = qstatic ?q" "blocks (qputback ?q c) = c # bs"
      using q' c(1) by (simp_all add: qputback_def qdefs)
    with some g b q' n assms(2) bal' c show ?thesis
      by (simp add: qread_def qread_put_def qinv_def qbytes_def eofw)
  qed
qed

text \<open>On an empty queue a reader sleeps, and the queue is marked starved so that the next
  writer wakes it; on a closed one it reads end of file, at most three times.\<close>

lemma qread_empty:
  assumes "blocks q = []"
  shows "qread q l w =
    (if \<not> hasf (state q) Qclosed then Sleep (q\<lparr>state := setf (state q) Qstarve\<rparr>, w)
     else let q = q\<lparr>eof := eof q + 1\<rparr> in
          if eof q \<le> 3 \<and> (err q = '''' \<or> err q = Ehungup) then Ret (0, []) (q, w)
          else Err (err q) (q, w))"
  using assms by (simp add: qread_def qread_get.simps [of q] qwait_def Let_def)

text \<open>\<^verbatim>\<open>qbread\<close> hands over the first block, cut to the size asked for; on a byte stream the
  rest goes back to the front of the queue.\<close>

lemma qbread_ok:
  assumes "qinv q" "memok w" "blocks q = b # bs"
  shows "okR (qbread q (int l) w) (\<lambda>r (q', w'). \<exists>nb. r = Some nb \<and> wfb nb \<and>
     bdata nb = take l (bdata b) \<and> qinv q' \<and> qstatic q' = qstatic q \<and>
     qbytes q' = (if hasf (state q) Qmsg then [] else drop l (bdata b)) @ bytesof bs \<and>
     balanced w (blocks q) w' (nb # blocks q'))"
proof -
  obtain q1 where q1: "qremove q = (Some b, q1)" by (simp add: qremove_def assms(3))
  have wf: "wfb b" "list_all wfb bs" using assms(1,3) by (simp_all add: qinv_def)
  have q': "qinv q1" "qstatic q1 = qstatic q" "state q1 = state q" "blocks q1 = bs"
    using assms(1,3) q1 by (auto simp: qinv_def qremove_def)
  let ?nb = "b\<lparr>wp := rp b + l\<rparr>"
  have le: "BLEN b = int (length (bdata b))" using wf by (simp add: BLEN_length)
  have w1: "qwait q w = Ret 1 (q, w)" using assms(3) by (simp add: qwait_def)
  show ?thesis
  proof (cases "l < length (bdata b)")
    case False
    with q1 q' w1 le wf assms(3) show ?thesis
      by (simp add: qbread_def Let_def qinv_def qbytes_def balanced_self)
  next
    case True
    define m where "m = length (bdata b) - l"
    let ?r = "bput (newb m (maddr m w)) (drop l (bdata b))"
    have len: "length (drop l (bdata b)) = m" "nat (BLEN b - int l) = m" "BLEN b - int l = int m"
      using True le by (simp_all add: m_def)
    have mv: "bmove (newb m (maddr m w)) b (rp b + l) (int m) (tick w) = Ret ?r (tick w)"
      using bmove_seg_eq [of b l m "newb m (maddr m w)" "tick w"] wf True len(1)
        newb_fill(1) [of "drop l (bdata b)" m "maddr m w"] by simp
    have nb: "wfb ?nb" "bdata ?nb = take l (bdata b)" "ibal ?nb = ibal b"
      using wf True by (simp_all add: ibal_def BALLOC_def)
    have r: "wfb ?r" "bdata ?r = drop l (bdata b)" "ibal ?r = 0"
      using newb_fill [of "drop l (bdata b)" m] len(1) by simp_all
    have "qinv (qputback q1 ?r)" "blocks (qputback q1 ?r) = ?r # bs"
      "qstatic (qputback q1 ?r) = qstatic q"
      using q' r by (simp_all add: qputback_def qinv_def)
    with q1 q' w1 le nb r True assms len(2,3) mv show ?thesis
      by (cases "hasf (state q) Qmsg")
        (simp_all add: qbread_def Let_def allocb_eq qinv_def qbytes_def balanced_def)
  qed
qed

section \<open>Writing\<close>

text \<open>A write that gets through leaves its data at the end of the queue; the writer returns
  unless the queue has reached its limit, and then it sleeps with the queue marked
  flow-controlled.\<close>

lemma qbwrite_closed:
  "\<not> bypass q \<Longrightarrow> hasf (state q) Qclosed \<Longrightarrow> wfb b \<Longrightarrow>
     qbwrite q b w = Err (err q) (q, w\<lparr>ialloc_bytes := ialloc_bytes w - ibal b\<rparr>)"
  by (simp add: qbwrite_def qbwrite_add_def freeb_eq)

lemma qbwrite_dropped:
  "\<not> bypass q \<Longrightarrow> \<not> hasf (state q) Qclosed \<Longrightarrow> noblock q \<Longrightarrow> limit q \<le> len q \<Longrightarrow> wfb b \<Longrightarrow>
     qbwrite q b w = Ret (BLEN b) (q, w\<lparr>ialloc_bytes := ialloc_bytes w - ibal b,
       noblockcnt := noblockcnt w + of_int (BLEN b)\<rparr>)"
  by (simp add: qbwrite_def qbwrite_add_def freeb_eq Let_def)

lemma qbwrite_add_ok:
  assumes "qinv q" "wfb b" "\<not> bypass q" "\<not> hasf (state q) Qclosed" "noblock q \<longrightarrow> len q < limit q"
  shows "okR (qbwrite_add q b w) (\<lambda>queued (q', w'). queued \<and> w' = w \<and>
    appended q q' (bdata b) \<and> blocks q' = blocks q @ [b] \<and> hasf (state q') Qflow = hasf (state q) Qflow)"
proof -
  let ?q1 = "q\<lparr>blocks := blocks q @ [b], len := len q + BALLOC b, dlen := dlen q + BLEN b\<rparr>"
  have nf: "\<not> (limit q \<le> len q \<and> noblock q)" using assms(5) by auto
  have "qinv ?q1" using assms(1,2) by (simp add: qinv_def)
  with assms(3,4) nf show ?thesis
    by (auto simp: qbwrite_add_def Let_def appended_def qdefs)
qed

lemma qbwrite_ok:
  assumes "qinv q" "wfb b" "\<not> bypass q" "\<not> hasf (state q) Qclosed" "noblock q \<longrightarrow> len q < limit q"
  shows "\<exists>q'. appended q q' (bdata b) \<and> blocks q' = blocks q @ [b] \<and>
    qbwrite q b w = (if noblock q \<or> len q' < limit q then Ret (BLEN b) (q', w) else Sleep (q', w)) \<and>
    (\<not> noblock q \<and> limit q \<le> len q' \<longrightarrow> hasf (state q') Qflow)"
proof -
  obtain q4 where add: "qbwrite_add q b w = Ret True (q4, w)"
    and q4: "appended q q4 (bdata b)" "blocks q4 = blocks q @ [b]"
    using qbwrite_add_ok [OF assms, of w] by (auto simp: okR_def)
  have eq: "qbwrite q b w = qbwrite_wait q4 (BLEN b) w"
    by (simp add: qbwrite_def add)
  have st: "qstatic q4 = qstatic q" using q4 by (simp add: appended_def)
  note app = q4 qstaticD [OF st] assms(4)
  let ?q5 = "q4\<lparr>state := setf (state q4) Qflow\<rparr>"
  show ?thesis
  proof (cases "noblock q \<or> len q4 < limit q")
    case True
    with app eq show ?thesis by (auto simp: qbwrite_wait_def qnotfull_def)
  next
    case False
    with app eq have "qbwrite q b w = Sleep (?q5, w)" "\<not> noblock q" "\<not> len ?q5 < limit q"
      by (auto simp: qbwrite_wait_def qnotfull_def)
    moreover have "appended q ?q5 (bdata b)" "blocks ?q5 = blocks q @ [b]" "hasf (state ?q5) Qflow"
      using app by (simp_all add: appended_def qdefs logext_def woke_def)
    ultimately show ?thesis by (intro exI [of _ ?q5]) simp
  qed
qed

declare qwrite_loop.simps [simp del] qiwrite_loop.simps [simp del]

text \<open>How a write can end: with all of it queued, or asleep with a front part of it queued.\<close>

definition wrote :: "Queue \<Rightarrow> byte list \<Rightarrow> Kern \<Rightarrow> (unit, Queue \<times> Kern) res \<Rightarrow> bool" where
  "wrote q xs w r \<longleftrightarrow> (case r of
     Ret _ (q', w') \<Rightarrow> appended q q' xs \<and> balanced w (blocks q) w' (blocks q')
   | Sleep (q', w') \<Rightarrow> (\<exists>ys zs. xs = ys @ zs \<and> appended q q' ys) \<and> hasf (state q') Qflow \<and>
       limit q \<le> len q' \<and> balanced w (blocks q) w' (blocks q')
   | _ \<Rightarrow> False)"

lemma wrote_trans:
  assumes "appended q q1 ys" "balanced w (blocks q) w1 (blocks q1)" "wrote q1 zs w1 r"
  shows "wrote q (ys @ zs) w r"
proof (cases r)
  case (Ret a s)
  with assms(3) show ?thesis
    using appended_trans [OF assms(1)] balanced_trans [OF assms(2)]
    by (cases s) (simp add: wrote_def)
next
  case (Sleep s)
  obtain q' w' where s: "s = (q', w')" by (cases s)
  with Sleep assms(3) obtain us vs where "zs = us @ vs" "appended q1 q' us"
    by (auto simp: wrote_def)
  with appended_trans [OF assms(1)] have "\<exists>us vs. ys @ zs = us @ vs \<and> appended q q' us"
    by (metis append.assoc)
  moreover have "limit q1 = limit q" using assms(1) qstaticD(1) [of q1 q] by (simp add: appended_def)
  ultimately show ?thesis
    using Sleep s assms(3) balanced_trans [OF assms(2)] by (simp add: wrote_def)
qed (use assms(3) in \<open>simp_all add: wrote_def\<close>)

lemma qwrite_loop_ok:
  "qinv q \<Longrightarrow> memok w \<Longrightarrow> \<not> bypass q \<Longrightarrow> \<not> hasf (state q) Qclosed \<Longrightarrow> \<not> noblock q \<Longrightarrow>
     wrote q (if hasf (state q) Qmsg then take Maxatomic xs else xs) w (qwrite_loop q xs w)"
proof (induction "length xs" arbitrary: q xs w rule: less_induct)
  case less
  define n where "n = (if length xs > Maxatomic then Maxatomic else length xs)"
  let ?b = "bput (newb n (maddr n w)) (take n xs)"
  have n: "length (take n xs) \<le> n" "n \<le> length xs" "take n xs = take Maxatomic xs"
    "0 < length xs - n \<longrightarrow> length (drop n xs) < length xs"
    by (auto simp: n_def Maxatomic_def)
  have fill: "bfill (newb n (maddr n w)) (take n xs) (tick w) = Ret ?b (tick w)"
    by (rule bfill_eq) (use newb_fill(1) [OF n(1)] in simp)
  obtain q' where q': "appended q q' (take n xs)" "blocks q' = blocks q @ [?b]"
    and wr: "qbwrite q ?b (tick w) =
      (if len q' < limit q then Ret (BLEN ?b) (q', tick w) else Sleep (q', tick w))"
    and fl: "limit q \<le> len q' \<longrightarrow> hasf (state q') Qflow"
    using qbwrite_ok [of q ?b "tick w"] less.prems n(1) by auto
  have bal: "balanced w (blocks q) (tick w) (blocks q')"
    using q'(2) n(1) by (simp add: balanced_def)
  have loop: "qwrite_loop q xs w = bindR (qbwrite q ?b (tick w)) (\<lambda>_ (q, w).
      if length xs - n > 0 \<and> \<not> hasf (state q) Qmsg then qwrite_loop q (drop n xs) w else Ret () (q, w))"
    using fill less.prems(2) by (simp add: qwrite_loop.simps [of q] n_def [symmetric] allocb_eq Let_def)
  have st: "qstatic q' = qstatic q" "qinv q'" using q'(1) by (simp_all add: appended_def)
  note sd = qstaticD [OF st(1)]
  consider (asleep) "limit q \<le> len q'" | (more) "len q' < limit q" "0 < length xs - n" "\<not> hasf (state q) Qmsg"
    | (fin) "len q' < limit q" "length xs - n = 0 \<or> hasf (state q) Qmsg" by linarith
  then show ?case
  proof cases
    case asleep
    have "xs = take n xs @ drop n xs" "take n xs = take n xs @ []" by simp_all
    with asleep loop wr q'(1) fl bal n(3) show ?thesis by (auto simp: wrote_def)
  next
    case more
    with less.hyps [of "drop n xs" q' "tick w"] less.prems sd st n(4)
    have "wrote q' (drop n xs) (tick w) (qwrite_loop q' (drop n xs) (tick w))" by simp
    from wrote_trans [OF q'(1) bal this] more loop wr sd show ?thesis by simp
  next
    case fin
    then have "qwrite_loop q xs w = Ret () (q', tick w)" using loop wr sd by auto
    moreover have "(if hasf (state q) Qmsg then take Maxatomic xs else xs) = take n xs"
      using fin(2) n(2,3) by auto
    ultimately show ?thesis using q'(1) bal by (simp add: wrote_def)
  qed
qed

text \<open>\<^verbatim>\<open>iallocb\<close> either fails, with nothing charged to the interrupt-time account, or gives an
  empty block that holds \<open>n\<close> bytes and is charged for.\<close>

lemma iallocb_ok:
  "iallocb n w = Halt \<and> 1000 < mp w \<or> okR (iallocb n w) (\<lambda>r w'. case r of
       None \<Rightarrow> balanced w [] w' []
     | Some b \<Rightarrow> (\<exists>p. b = inewb n p) \<and> balanced w [] w' [b] \<and> mp w' = mp w)"
  by (auto simp: iallocb_def allocb0_eq Let_def balanced_def inewb_def ibal_def BALLOC_def
      split: option.split)

text \<open>How \<^verbatim>\<open>qiwrite\<close> ends: a front part of the data is queued and its length returned, or the
  machine has run out of interrupt-time memory too often and is halted.\<close>

definition iwrote :: "Queue \<Rightarrow> byte list \<Rightarrow> int \<Rightarrow> Kern \<Rightarrow> (int, Queue \<times> Kern) res \<Rightarrow> bool" where
  "iwrote q xs k w r \<longleftrightarrow> r = Halt \<and> 1000 < mp w \<or> okR r (\<lambda>n (q', w'). \<exists>ys zs. xs = ys @ zs \<and> n = k + int (length ys) \<and>
     (ys = [] \<and> q' = q \<or> appended q q' ys) \<and> balanced w (blocks q) w' (blocks q'))"

lemma iwrote_trans:
  assumes "appended q q1 ys" "balanced w (blocks q) w1 (blocks q1)"
    "iwrote q1 zs (k + int (length ys)) w1 r" "mp w1 = mp w"
  shows "iwrote q (ys @ zs) k w r"
proof (cases "r = Halt")
  case True
  with assms(3,4) show ?thesis by (simp add: iwrote_def)
next
  case False
  with assms(3) obtain n q' w' us vs where r: "r = Ret n (q', w')" "zs = us @ vs"
    "n = k + int (length (ys @ us))" "us = [] \<and> q' = q1 \<or> appended q1 q' us"
    and bal: "balanced w1 (blocks q1) w' (blocks q')"
    by (auto simp: iwrote_def okR_def)
  have app: "appended q q' (ys @ us)" using r(4) assms(1) appended_trans [OF assms(1)] by auto
  have eq: "ys @ zs = (ys @ us) @ vs" by (simp add: r)
  show ?thesis
    unfolding iwrote_def r(1) okR_Ret prod.case
    using app eq r(3) balanced_trans [OF assms(2) bal] by blast
qed

lemma qiwrite_loop_ok:
  "qinv q \<Longrightarrow> iwrote q xs k w (qiwrite_loop q xs d k w)"
proof (induction "length xs" arbitrary: q xs d k w rule: less_induct)
  case less
  define n where "n = (if length xs > Maxatomic then Maxatomic else length xs)"
  have n: "length (take n xs) = n" "n \<le> length xs" "length (take n xs) \<le> n"
    "0 < length xs - n \<longrightarrow> length (drop n xs) < length xs"
    by (auto simp: n_def Maxatomic_def)
  consider (halt) "iallocb n w = Halt" "1000 < mp w" | (go) r w1 where "iallocb n w = Ret r w1"
    "case r of None \<Rightarrow> balanced w [] w1 []
      | Some b \<Rightarrow> (\<exists>p. b = inewb n p) \<and> balanced w [] w1 [b] \<and> mp w1 = mp w"
    using iallocb_ok [of n w] by (auto simp: okR_def)
  then show ?case
  proof cases
    case halt
    then show ?thesis
      by (simp add: iwrote_def qiwrite_loop.simps [of q xs] n_def [symmetric] Let_def)
  next
    case go
    note loop = qiwrite_loop.simps [of q xs d k w, unfolded n_def [symmetric] Let_def go(1), simplified]
    note r = go(2)
    show ?thesis
    proof (cases r)
    case None
    with r have "balanced w (blocks q) w1 (blocks q)" by (simp add: balanced_def)
    with None loop show ?thesis by (simp add: iwrote_def)
  next
    case (Some b)
    with r obtain p where b: "b = inewb n p" "balanced w [] w1 [b]" "mp w1 = mp w" by auto
    define c where "c = bput b (take n xs)"
    have c: "wfb c" "bdata c = take n xs" "ibal c = ibal b" "bfill b (take n xs) w1 = Ret c w1"
      "BLEN c = int n"
      using inewb_fill [OF n(3), of p] n(1) bfill_eq [of b "take n xs" w1]
      by (simp_all add: b c_def BLEN_length)
    have bal: "balanced w [] w1 [c]" using b c by (simp add: balanced_def)
    show ?thesis
    proof (cases "dlen q \<ge> 16 * 1024")
      case True
      with loop Some c(1,4) bal show ?thesis by (simp add: freeb_eq iwrote_def balanced_def)
    next
      case False
      define q1 where "q1 = q\<lparr>blocks := blocks q @ [c], len := len q + BALLOC c, dlen := dlen q + int n,
          state := clrf (state q) Qstarve\<rparr>"
      define dw where "dw = (d \<or> hasf (state q) Qstarve)"
      define q2 where "q2 = (if dw then q1\<lparr>log := log q @ (if kick q then [Kick] else []) @ [WakeR]\<rparr> else q1)"
      have eq: "qiwrite_loop q xs d k w = (if length xs - n > 0 \<and> \<not> hasf (state q2) Qmsg
          then qiwrite_loop q2 (drop n xs) dw (k + int n) w1 else Ret (k + int n) (q2, w1))"
        unfolding loop using False Some c(4) by (auto simp: q2_def q1_def dw_def)
      have "qinv q1" "qstatic q1 = qstatic q" using less.prems(1) c(1,5) by (simp_all add: q1_def qinv_def)
      then have app: "appended q q2 (take n xs)" and bl: "blocks q2 = blocks q @ [c]"
        by (auto simp: appended_def q2_def q1_def dw_def qdefs c(2))
      have bal2: "balanced w (blocks q) w1 (blocks q2)" using bal bl by (simp add: balanced_def algebra_simps)
      have "qinv q2" using app by (simp add: appended_def)
      with less.hyps [of "drop n xs" q2 "k + int n" w1 dw] n(1,4) b(3)
        iwrote_trans [OF app bal2, of "drop n xs" k]
      have "0 < length xs - n \<Longrightarrow> iwrote q xs k w (qiwrite_loop q2 (drop n xs) dw (k + int n) w1)"
        by simp
      moreover have "iwrote q xs k w (Ret (k + int n) (q2, w1))"
        unfolding iwrote_def okR_Ret prod.case
        by (rule disjI2, rule exI [of _ "take n xs"], rule exI [of _ "drop n xs"]) (use app bal2 n(1) in simp)
      ultimately show ?thesis unfolding eq by simp
    qed
    qed
  qed
qed

section \<open>Closing\<close>

lemma hasf_qclose [simp]:
  "hasf (clrf s (Qflow OR Qstarve)) Qclosed = hasf s Qclosed"
  "hasf (clrf s (Qflow OR Qstarve)) Qmsg = hasf s Qmsg"
  "hasf (clrf s (Qflow OR Qstarve)) Qcoalesce = hasf s Qcoalesce"
  "\<not> hasf (clrf s (Qflow OR Qstarve)) Qflow" "\<not> hasf (clrf s (Qflow OR Qstarve)) Qstarve"
  unfolding hasf_qbit unfolding qbit_defs clrf_def by (simp_all add: bit_simps)

text \<open>\<^verbatim>\<open>qclose\<close> frees everything, wakes both sides and leaves the queue closed.\<close>

lemma qclose_ok:
  assumes "qinv q"
  shows "okR (qclose (Some q) w) (\<lambda>r w'. \<exists>q'. r = Some q' \<and> qinv q' \<and> blocks q' = [] \<and>
     hasf (state q') Qclosed \<and> \<not> hasf (state q') Qflow \<and> \<not> hasf (state q') Qstarve \<and>
     err q' = Ehungup \<and> log q' = log q @ [WakeR, WakeW] \<and> limit q' = limit q \<and> inilim q' = inilim q \<and>
     balanced w (blocks q) w' [])"
  using assms by (simp add: qclose_def freeblist_eq qinv_def balanced_def)

lemma qflush_ok:
  assumes "qinv q"
  shows "okR (qflush q w) (\<lambda>_ (q', w'). qinv q' \<and> blocks q' = [] \<and> state q' = state q \<and>
     limit q' = limit q \<and> log q' = log q @ [WakeW] \<and> qstatic q' = qstatic q \<and> balanced w (blocks q) w' [])"
  using assms by (simp add: qflush_def freeblist_eq qinv_def balanced_def)

section \<open>Concrete states\<close>

text \<open>A queue of 64 bytes.\<close>

definition queue_ex :: "u32 \<Rightarrow> Queue" where
  "queue_ex msg = \<lparr>blocks = [], len = 0, dlen = 0, limit = 64, inilim = 64,
     state = setf msg Qstarve, noblock = False, eof = 0, kick = False, bypass = False, err = '''',
     log = []\<rparr>"

lemma qopen_ex: "qopen 64 msg False kern_ex = Ret (Some (queue_ex msg)) (tick kern_ex)"
  by (simp add: qopen_def kern_ex_def queue_ex_def tick_def)

lemma queue_ex_simps [simp]:
  "blocks (queue_ex m) = []" "len (queue_ex m) = 0" "limit (queue_ex m) = 64" "\<not> bypass (queue_ex m)"
  "\<not> noblock (queue_ex m)" "state (queue_ex m) = setf m Qstarve" "log (queue_ex m) = []"
  "dlen (queue_ex m) = 0" "\<not> kick (queue_ex m)"
  by (simp_all add: queue_ex_def)

lemma kern_ex_imemok [simp]: "imemok kern_ex"
  by (simp add: kern_ex_def imemok_def)

text \<open>A queue of 200 bytes that holds two blocks.\<close>

definition queue2_ex :: "u32 \<Rightarrow> byte list \<Rightarrow> byte list \<Rightarrow> Queue" where
  "queue2_ex msg xs ys = (queue_ex msg)\<lparr>blocks := [block_ex xs, block_ex ys],
     len := int (length xs + length ys) + 128, dlen := int (length xs + length ys), limit := 200,
     state := msg\<rparr>"

lemma queue2_ex_simps [simp]:
  "qinv (queue2_ex m xs ys)" "qbytes (queue2_ex m xs ys) = xs @ ys" "state (queue2_ex m xs ys) = m"
  "blocks (queue2_ex m xs ys) = [block_ex xs, block_ex ys]" "\<not> bypass (queue2_ex m xs ys)"
  "\<not> noblock (queue2_ex m xs ys)" "limit (queue2_ex m xs ys) = 200"
  "len (queue2_ex m xs ys) = int (length xs + length ys) + 128"
  "dlen (queue2_ex m xs ys) = int (length xs + length ys)"
  by (simp_all add: queue2_ex_def qinv_def qbytes_def)

section \<open>Properties\<close>

text \<open>C26. Reading a byte stream: \<^verbatim>\<open>qread\<close> returns the front of the stream, as many bytes as it says
  and no more than asked for; the rest stays in the queue in order; the byte counts of the queue
  are right again, no block is leaked or freed twice, and at least one byte is read when the
  first block holds data or the queue coalesces.\<close>

theorem qread_stream:
  assumes "qinv q" "\<not> hasf (state q) Qmsg" "blocks q \<noteq> []" "hasf (state q) Qcoalesce \<longrightarrow> qbytes q \<noteq> []"
  shows "okR (qread q (int l) w) (\<lambda>(n, xs) (q', w').
     n = int (length xs) \<and> length xs \<le> l \<and> qinv q' \<and> qstatic q' = qstatic q \<and>
     qbytes q = xs @ qbytes q' \<and> balanced w (blocks q) w' (blocks q') \<and>
     (0 < l \<and> (hasf (state q) Qcoalesce \<or> bdata (hd (blocks q)) \<noteq> []) \<longrightarrow> xs \<noteq> []))"
  by (rule qread_stream_ok [OF assms])

theorem qread_stream_witness:
  "okR (qread (queue2_ex 0 [1, 2, 3] [4]) 2 kern_ex) (\<lambda>(n, xs) (q', w').
     n = int (length xs) \<and> [1, 2, 3, 4] = xs @ qbytes q' \<and> xs \<noteq> [])"
  using qread_stream [of "queue2_ex 0 [1, 2, 3] [4]" 2 kern_ex] by (auto elim!: okR_mono)

text \<open>Reading messages: \<^verbatim>\<open>qread\<close> on a message queue takes exactly one message, cut to the size
  asked for, and leaves the others as they are.\<close>

theorem qread_message:
  assumes "qinv q" "hasf (state q) Qmsg" "\<not> hasf (state q) Qcoalesce" "blocks q = b # bs"
  shows "okR (qread q (int l) w) (\<lambda>(n, xs) (q', w').
     xs = take l (bdata b) \<and> n = int (length xs) \<and> blocks q' = bs \<and> qinv q' \<and>
     qstatic q' = qstatic q \<and> balanced w (blocks q) w' bs)"
  by (rule qread_msg_ok [OF assms])

lemma Qmsg_bits [simp]: "hasf Qmsg Qmsg" "\<not> hasf Qmsg Qcoalesce" "\<not> hasf Qmsg Qclosed"
  by (simp_all add: hasf_def qbit_defs)

theorem qread_message_witness:
  "okR (qread (queue2_ex Qmsg [1, 2, 3] [4]) 2 kern_ex) (\<lambda>(n, xs) (q', w').
     xs = [1, 2] \<and> n = 2 \<and> blocks q' = [block_ex [4]])"
  using qread_message [of "queue2_ex Qmsg [1, 2, 3] [4]" _ _ 2 kern_ex] by (auto elim!: okR_mono)

text \<open>\<^verbatim>\<open>qbread\<close> hands over the first block cut to the size asked for; on a byte stream the rest of
  it goes back to the front of the queue, on a message queue it is dropped.\<close>

theorem qbread_block:
  assumes "qinv q" "memok w" "blocks q = b # bs"
  shows "okR (qbread q (int l) w) (\<lambda>r (q', w'). \<exists>nb. r = Some nb \<and> wfb nb \<and>
     bdata nb = take l (bdata b) \<and> qinv q' \<and> qstatic q' = qstatic q \<and>
     qbytes q' = (if hasf (state q) Qmsg then [] else drop l (bdata b)) @ bytesof bs \<and>
     balanced w (blocks q) w' (nb # blocks q'))"
  by (rule qbread_ok [OF assms])

theorem qbread_block_witness:
  "okR (qbread (queue2_ex 0 [1, 2, 3] [4]) 2 kern_ex) (\<lambda>r (q', w'). qbytes q' = [3, 4])"
  using qbread_block [of "queue2_ex 0 [1, 2, 3] [4]" kern_ex _ _ 2] by (auto elim!: okR_mono)

text \<open>End of file: reading an empty open queue puts the reader to sleep with the queue marked
  starved; reading an empty closed queue returns no bytes three times, or raises the queue's
  error at once when it was hung up with a message, and raises it from the fourth time on.\<close>

theorem qread_eof:
  assumes "blocks q = []"
  shows "qread q l w =
    (if \<not> hasf (state q) Qclosed then Sleep (q\<lparr>state := setf (state q) Qstarve\<rparr>, w)
     else let q = q\<lparr>eof := eof q + 1\<rparr> in
          if eof q \<le> 3 \<and> (err q = '''' \<or> err q = Ehungup) then Ret (0, []) (q, w)
          else Err (err q) (q, w))"
  by (rule qread_empty [OF assms])

theorem qread_eof_witness:
  "qread (queue_ex 0) 7 kern_ex = Sleep ((queue_ex 0)\<lparr>state := setf (setf 0 Qstarve) Qstarve\<rparr>, kern_ex)"
  using qread_eof [of "queue_ex 0" 7 kern_ex] by simp



text \<open>C28. \<^verbatim>\<open>qiwrite\<close> queues a front part of the data, at the end of the queue and in order, and
  returns how much of it; it never sleeps, faults or panics, and halts the machine only after
  the allocator has reported a thousand failures. Memory may be short.\<close>

theorem qiwrite_outcome:
  assumes "qinv q"
  shows "qiwrite q xs w = Halt \<and> 1000 < mp w \<or>
    okR (qiwrite q xs w) (\<lambda>n (q', w'). \<exists>ys zs. xs = ys @ zs \<and> n = int (length ys) \<and>
      (ys = [] \<and> q' = q \<or> appended q q' ys) \<and> balanced w (blocks q) w' (blocks q'))"
  using qiwrite_loop_ok [OF assms, of xs 0 w False] by (simp add: qiwrite_def iwrote_def)

theorem qiwrite_outcome_witness:
  "okR (qiwrite (queue_ex 0) [5, 6] kern_ex) (\<lambda>n (q', w'). \<exists>ys zs. ([5, 6] :: byte list) = ys @ zs \<and>
     n = int (length ys))"
  using qiwrite_outcome [of "queue_ex 0" "[5, 6]" kern_ex] by (auto simp: qinv_def elim!: okR_mono)

text \<open>The interrupt-level operations on byte counts: \<^verbatim>\<open>qproduce\<close> refuses data when the queue is
  at its limit and marks it flow-controlled, otherwise it appends all of it.\<close>

theorem qproduce_appends:
  assumes "qinv q" "imemok w"
  shows "okR (qproduce q xs w) (\<lambda>r (q', w').
     if len q \<ge> limit q
     then r = -1 \<and> w' = w \<and> blocks q' = blocks q \<and> qinv q' \<and> qstatic q' = qstatic q \<and>
          hasf (state q') Qflow
     else r = int (length xs) \<and> appended q q' xs \<and> balanced w (blocks q) w' (blocks q'))"
  by (rule qproduce_ok [OF assms])

theorem qproduce_appends_witness:
  "okR (qproduce (queue_ex 0) [5] kern_ex) (\<lambda>r (q', w'). r = 1 \<and> qbytes q' = [5])"
  using qproduce_appends [of "queue_ex 0" kern_ex "[5]"]
  by (auto simp: qinv_def appended_def qbytes_def elim!: okR_mono)

text \<open>\<^verbatim>\<open>qconsume\<close> takes bytes from the first block that holds any, frees the empty blocks before
  it and the block itself when it is used up, and keeps the counts right.\<close>

theorem qconsume_takes:
  assumes "qinv q" "qbytes q \<noteq> []"
  shows "okR (qconsume q (int l) w) (\<lambda>(n, xs) (q', w').
     n = int (length xs) \<and> length xs \<le> l \<and> (0 < l \<longrightarrow> xs \<noteq> []) \<and> qinv q' \<and> qstatic q' = qstatic q \<and>
     balanced w (blocks q) w' (blocks q') \<and>
     xs = take l (bdata (hd (nonempty (blocks q)))) \<and>
     qbytes q' = (if hasf (state q) Qmsg then [] else drop l (bdata (hd (nonempty (blocks q)))))
       @ bytesof (tl (nonempty (blocks q))))"
  by (rule qconsume_ok [OF assms])

theorem qconsume_takes_witness:
  "okR (qconsume (queue2_ex 0 [] [4, 5]) 1 kern_ex) (\<lambda>(n, xs) (q', w'). xs = [4] \<and> qbytes q' = [5])"
  using qconsume_takes [of "queue2_ex 0 [] [4, 5]" 1 kern_ex] by (auto simp: nonempty_def elim!: okR_mono)

text \<open>On a queue that holds only empty blocks \<^verbatim>\<open>qconsume\<close> returns \<open>-1\<close> having unlinked the blocks
  without freeing them: an interrupt-time block stays charged to the allocation account for
  ever, and a flow-controlled writer is not restarted although the queue is now empty.\<close>

theorem qconsume_leaks:
  assumes "qinv q" "qbytes q = []" "blocks q \<noteq> []"
  shows "\<exists>q'. qconsume q l w = Ret (-1, []) (q', w) \<and> blocks q' = [] \<and> len q' = 0 \<and>
     log q' = log q \<and> hasf (state q') Qflow = hasf (state q) Qflow \<and>
     (iacct (blocks q) \<noteq> 0 \<longrightarrow> \<not> balanced w (blocks q) w (blocks q'))"
  using qconsume_empty [OF assms(1,2), of l w] by (auto simp: balanced_def)

theorem qconsume_leaks_witness:
  "\<exists>q'. qconsume (queue2_ex Qflow [] []) 9 kern_ex = Ret (-1, []) (q', kern_ex) \<and> blocks q' = [] \<and> len q' = 0 \<and>
     hasf (state q') Qflow"
  using qconsume_leaks [of "queue2_ex Qflow [] []" 9 kern_ex] by (auto simp: hasf_def qbit_defs)

text \<open>\<^verbatim>\<open>qdiscard\<close> throws away the first bytes of the stream, as many as asked for or as there
  are, and returns how many.\<close>

theorem qdiscard_drops:
  assumes "qinv q"
  shows "okR (qdiscard q (int n) w) (\<lambda>r (q', w').
     r = int (min n (length (qbytes q))) \<and> qinv q' \<and> qstatic q' = qstatic q \<and>
     qbytes q' = drop n (qbytes q) \<and> balanced w (blocks q) w' (blocks q'))"
  by (rule qdiscard_ok [OF assms])

theorem qdiscard_drops_witness:
  "okR (qdiscard (queue2_ex 0 [1, 2, 3] [4]) 2 kern_ex) (\<lambda>r (q', w'). r = 2 \<and> qbytes q' = [3, 4])"
  using qdiscard_drops [of "queue2_ex 0 [1, 2, 3] [4]" 2 kern_ex] by (auto elim!: okR_mono)

text \<open>\<^verbatim>\<open>qcopy\<close> copies the bytes at an offset of the stream, up to the size asked for, into a new
  block, and leaves the queue as it is.\<close>

theorem qcopy_copies:
  assumes "qinv q" "memok w"
  shows "okR (qcopy q l off w) (\<lambda>b (q', w'). q' = q \<and> wfb b \<and>
     bdata b = take l (drop off (qbytes q)) \<and> balanced w [] w' [b])"
  by (rule qcopy_ok [OF assms])

theorem qcopy_copies_witness:
  "okR (qcopy (queue2_ex 0 [1, 2, 3] [4]) 2 2 kern_ex) (\<lambda>b (q', w'). bdata b = [3, 4])"
  using qcopy_copies [of "queue2_ex 0 [1, 2, 3] [4]" kern_ex 2 2] by (auto elim!: okR_mono)

text \<open>\<^verbatim>\<open>qclose\<close> frees every block, leaves the queue closed and empty with no flow-control or
  starvation mark, and wakes readers and writers.\<close>

theorem qclose_frees:
  assumes "qinv q"
  shows "okR (qclose (Some q) w) (\<lambda>r w'. \<exists>q'. r = Some q' \<and> qinv q' \<and> blocks q' = [] \<and>
     hasf (state q') Qclosed \<and> \<not> hasf (state q') Qflow \<and> \<not> hasf (state q') Qstarve \<and>
     err q' = Ehungup \<and> log q' = log q @ [WakeR, WakeW] \<and> limit q' = limit q \<and> inilim q' = inilim q \<and>
     balanced w (blocks q) w' [])"
  by (rule qclose_ok [OF assms])

theorem qclose_frees_witness:
  "okR (qclose (Some (queue2_ex 0 [1] [2])) kern_ex) (\<lambda>r w'. \<exists>q'. r = Some q' \<and> blocks q' = [])"
  using qclose_frees [of "queue2_ex 0 [1] [2]" kern_ex] by (auto elim!: okR_mono)

text \<open>\<^verbatim>\<open>pullupqueue\<close> collects the first bytes in one block and does not account for the block it
  has allocated or freed: a queue of one byte asked for two loses its byte and its block, with
  both counts unchanged.\<close>

theorem pullupqueue_counts:
  assumes "qinv q" "memok w" "0 < length (qbytes q)" "length (qbytes q) < n"
  shows "okR (pullupqueue q (int n) w) (\<lambda>r (q', w'). r = [] \<and> blocks q' = [] \<and>
     len q' = len q \<and> dlen q' = dlen q \<and> \<not> qinv q')"
proof -
  have wf: "list_all wfb (blocks q)" using assms(1) by (simp add: qinv_def)
  obtain b bs where b: "blocks q = b # bs" using assms(3) by (cases "blocks q") (auto simp: qbytes_def)
  have lt: "\<not> int n \<le> BLEN b" using assms(4) b wf by (simp add: BLEN_length qbytes_def)
  have "okR (pullupblock (blocks q) (int n) w) (\<lambda>cs w'. cs = [])"
    using pullupblock_ok [OF assms(2), of "blocks q" n] assms(4) wf b
    by (auto simp: qbytes_def elim!: okR_mono)
  then obtain w' where "pullupblock (blocks q) (int n) w = Ret [] w'" by (auto simp: okR_def)
  moreover have "dlen q \<noteq> 0" using qinv_dlen [OF assms(1)] assms(3) by simp
  ultimately show ?thesis using b lt by (simp add: qinv_def)
qed

theorem pullupqueue_counts_witness:
  "okR (pullupqueue (queue2_ex 0 [1] []) 2 kern_ex) (\<lambda>r (q', w'). blocks q' = [] \<and> dlen q' = 1)"
  using pullupqueue_counts [of "queue2_ex 0 [1] []" kern_ex 2]
  by (auto simp del: pullupqueue.simps elim!: okR_mono)

end
