(* ===== verification/Queue_Conc.thy ===== *)
theory Queue_Conc
  imports Queue_Props
begin

text \<open>
  A reader, a writer and a device at work on one queue. The qlocks \<^verbatim>\<open>rlock\<close> and \<^verbatim>\<open>wlock\<close> let
  one process at a time into \<^verbatim>\<open>qread\<close> and \<^verbatim>\<open>qbwrite\<close>, so there is one reader and one writer;
  the device side (\<^verbatim>\<open>qpass\<close>, \<^verbatim>\<open>qhangup\<close>, \<^verbatim>\<open>qclose\<close>, \<^verbatim>\<open>qflush\<close>) may run at any moment.

  A step is what runs between \<^verbatim>\<open>ilock\<close> and \<^verbatim>\<open>iunlock\<close>, or one test of a condition outside
  the lock. Going to sleep takes several steps: the reader marks the queue starved under the
  lock (\<open>RArmed\<close>), and then \<^verbatim>\<open>sleep\<close> tests \<^verbatim>\<open>notempty\<close> once more before it sleeps
  (\<open>RAsleep\<close>); the writer likewise. A \<^verbatim>\<open>wakeup\<close> issued after \<^verbatim>\<open>iunlock\<close> is pending
  (\<open>rwake\<close>, \<open>wwake\<close>) until a step of its own delivers it, and has no effect on a process
  that is not asleep. A process that sleeps, or is about to, may be interrupted: \<^verbatim>\<open>sleep\<close> raises an error and
  the process leaves the queue. \<open>inp\<close> is the history of all bytes the queue has accepted, in order, each with
  a mark that says whether \<^verbatim>\<open>qclose\<close> or \<^verbatim>\<open>qflush\<close> has thrown it away since; \<open>outp\<close> is what readers have got.
\<close>

section \<open>State and steps\<close>

datatype rphase = RIdle | RArmed | RAsleep | RCopy "Block list" int nat

datatype wphase = WIdle | WCheck | WFull | WArmed | WAsleep

record QSys =
  qq :: Queue
  kk :: Kern
  rph :: rphase
  wph :: wphase
  rwake :: bool
  wwake :: bool
  inp :: "(byte \<times> bool) list"
  outp :: "byte list"

definition newev :: "kevent \<Rightarrow> Queue \<Rightarrow> Queue \<Rightarrow> bool" where
  "newev e q q' \<longleftrightarrow> e \<in> set (drop (length (log q)) (log q'))"

text \<open>The state after an operation on the queue, its wakeups pending.\<close>

definition upd :: "QSys \<Rightarrow> Queue \<Rightarrow> Kern \<Rightarrow> QSys" where
  "upd s q w = s\<lparr>qq := q, kk := w, rwake := rwake s \<or> newev WakeR (qq s) q,
     wwake := wwake s \<or> newev WakeW (qq s) q\<rparr>"

text \<open>Bytes that are accepted, the bytes not thrown away, and throwing away all but the first \<open>n\<close> of those.\<close>

definition accepted :: "byte list \<Rightarrow> (byte \<times> bool) list" where
  "accepted xs = map (\<lambda>b. (b, False)) xs"

definition live :: "(byte \<times> bool) list \<Rightarrow> byte list" where
  "live h = map fst (filter (\<lambda>x. \<not> snd x) h)"

fun throw :: "nat \<Rightarrow> (byte \<times> bool) list \<Rightarrow> (byte \<times> bool) list" where
  "throw n ((b, True) # h) = (b, True) # throw n h"
| "throw (Suc n) ((b, False) # h) = (b, False) # throw n h"
| "throw 0 ((b, False) # h) = (b, True) # throw 0 h"
| "throw n [] = []"

fun inflight :: "rphase \<Rightarrow> byte list" where
  "inflight (RCopy first n l) = bytesof first"
| "inflight _ = []"

inductive qstep :: "QSys \<Rightarrow> QSys \<Rightarrow> bool" where
  rd_get: "rph s = RIdle \<Longrightarrow> qread_get (qq s) (int l) (kk s) = Ret (Some (first, n)) (q, w) \<Longrightarrow>
    qstep s ((upd s q w)\<lparr>rph := RCopy first n l\<rparr>)"
| rd_eof: "rph s = RIdle \<Longrightarrow> qread_get (qq s) (int l) (kk s) = Ret None (q, w) \<Longrightarrow> qstep s (upd s q w)"
| rd_err: "rph s = RIdle \<Longrightarrow> qread_get (qq s) (int l) (kk s) = Err e (q, w) \<Longrightarrow> qstep s (upd s q w)"
| rd_wait: "rph s = RIdle \<Longrightarrow> qread_get (qq s) (int l) (kk s) = Sleep (q, w) \<Longrightarrow>
    qstep s ((upd s q w)\<lparr>rph := RArmed\<rparr>)"
| rd_sleep: "rph s = RArmed \<Longrightarrow> qstep s (s\<lparr>rph := if notempty (qq s) then RIdle else RAsleep\<rparr>)"
| rd_put: "rph s = RCopy first n l \<Longrightarrow> bl2mem first (int l) (kk s) = Ret (xs, left) w1 \<Longrightarrow>
    qread_put (qq s) left n xs w1 = Ret (m, ys) (q, w) \<Longrightarrow>
    qstep s ((upd s q w)\<lparr>rph := RIdle, outp := outp s @ ys\<rparr>)"
| rd_wakeup: "rwake s \<Longrightarrow>
    qstep s (s\<lparr>rwake := False, rph := if rph s = RAsleep then RIdle else rph s\<rparr>)"
| rd_intr: "rph s = RArmed \<or> rph s = RAsleep \<Longrightarrow> qstep s (s\<lparr>rph := RIdle\<rparr>)"
| wr_add: "wph s = WIdle \<Longrightarrow> wfb b \<Longrightarrow> qbwrite_add (qq s) b (kk s) = Ret True (q, w) \<Longrightarrow>
    qstep s ((upd s q w)\<lparr>wph := WCheck, inp := inp s @ accepted (bdata b)\<rparr>)"
| wr_drop: "wph s = WIdle \<Longrightarrow> wfb b \<Longrightarrow> qbwrite_add (qq s) b (kk s) = Ret False (q, w) \<Longrightarrow>
    qstep s (upd s q w)"
| wr_err: "wph s = WIdle \<Longrightarrow> wfb b \<Longrightarrow> qbwrite_add (qq s) b (kk s) = Err e (q, w) \<Longrightarrow>
    qstep s (upd s q w)"
| wr_check: "wph s = WCheck \<Longrightarrow>
    qstep s (s\<lparr>wph := if noblock (qq s) \<or> qnotfull (qq s) then WIdle else WFull\<rparr>)"
| wr_arm: "wph s = WFull \<Longrightarrow>
    qstep s ((upd s ((qq s)\<lparr>state := setf (state (qq s)) Qflow\<rparr>) (kk s))\<lparr>wph := WArmed\<rparr>)"
| wr_sleep: "wph s = WArmed \<Longrightarrow> qstep s (s\<lparr>wph := if qnotfull (qq s) then WCheck else WAsleep\<rparr>)"
| wr_wakeup: "wwake s \<Longrightarrow>
    qstep s (s\<lparr>wwake := False, wph := if wph s = WAsleep then WCheck else wph s\<rparr>)"
| wr_intr: "wph s = WArmed \<or> wph s = WAsleep \<Longrightarrow> qstep s (s\<lparr>wph := WIdle\<rparr>)"
| dv_pass: "bs \<noteq> [] \<Longrightarrow> list_all wfb bs \<Longrightarrow> qpass (qq s) bs (kk s) = Ret n (q, w) \<Longrightarrow>
    qstep s ((upd s q w)\<lparr>inp := inp s @
      (if len (qq s) \<ge> limit (qq s) \<or> hasf (state (qq s)) Qclosed then [] else accepted (bytesof bs))\<rparr>)"
| dv_hangup: "qstep s (upd s (qhangup (qq s) msg) (kk s))"
| dv_close: "qclose (Some (qq s)) (kk s) = Ret (Some q) w \<Longrightarrow>
    qstep s ((upd s q w)\<lparr>inp := throw (length (outp s @ inflight (rph s))) (inp s)\<rparr>)"

inductive qreach :: "QSys \<Rightarrow> QSys \<Rightarrow> bool" where
  start: "qreach s s"
| more: "qreach s t \<Longrightarrow> qstep t u \<Longrightarrow> qreach s u"

text \<open>The same with \<^verbatim>\<open>qflush\<close> too.\<close>

inductive qstepf :: "QSys \<Rightarrow> QSys \<Rightarrow> bool" where
  plain: "qstep s t \<Longrightarrow> qstepf s t"
| dv_flush: "qflush (qq s) (kk s) = Ret u (q, w) \<Longrightarrow>
    qstepf s ((upd s q w)\<lparr>inp := throw (length (outp s @ inflight (rph s))) (inp s)\<rparr>)"

inductive qreachf :: "QSys \<Rightarrow> QSys \<Rightarrow> bool" where
  startf: "qreachf s s"
| moref: "qreachf s t \<Longrightarrow> qstepf t u \<Longrightarrow> qreachf s u"

text \<open>A queue as \<^verbatim>\<open>qopen\<close> gives it, with nobody at work on it yet.\<close>

definition qsys0 :: "Queue \<Rightarrow> Kern \<Rightarrow> QSys" where
  "qsys0 q w = \<lparr>qq = q, kk = w, rph = RIdle, wph = WIdle, rwake = False, wwake = False,
     inp = [], outp = []\<rparr>"

section \<open>What the locked parts do\<close>

lemma live_simps [simp]: "live (h @ accepted xs) = live h @ xs" "live [] = []" "live (accepted xs) = xs"
  by (simp_all add: live_def accepted_def filter_map comp_def)

lemma live_throw: "live (throw n h) = take n (live h)" "map fst (throw n h) = map fst h"
  by (induction n h rule: throw.induct) (simp_all add: live_def)

lemma newev_log [simp]: "log q' = log q @ es \<Longrightarrow> newev e q q' = (e \<in> set es)"
  by (simp add: newev_def)

lemma newev_same [simp]: "log q' = log q \<Longrightarrow> newev e q q' = False"
  by (simp add: newev_def)

lemma woke_newev: "woke e q q' \<Longrightarrow> newev e q q'"
  by (auto simp: woke_def newev_def)

text \<open>All ways the first locked part of \<^verbatim>\<open>qread\<close> can end.\<close>

definition rget :: "Queue \<Rightarrow> int \<Rightarrow> ((Block list \<times> int) option, Queue \<times> Kern) res \<Rightarrow> bool" where
  "rget q l r \<longleftrightarrow> (case r of
     Ret (Some (first, n)) (q', w') \<Rightarrow> qinv q' \<and> qstatic q' = qstatic q \<and> state q' = state q \<and>
       log q' = log q \<and> list_all wfb first \<and> n = int (length (bytesof first)) \<and>
       qbytes q = bytesof first @ qbytes q' \<and> (length first > 1 \<longrightarrow> n \<le> l)
   | Ret None (q', w') \<Rightarrow> qinv q' \<and> qstatic q' = qstatic q \<and> state q' = state q \<and> log q' = log q \<and>
       qbytes q = [] \<and> blocks q' = [] \<and> hasf (state q) Qclosed
   | Err e (q', w') \<Rightarrow> qinv q' \<and> qstatic q' = qstatic q \<and> state q' = state q \<and> log q' = log q \<and>
       qbytes q = [] \<and> blocks q' = [] \<and> hasf (state q) Qclosed
   | Sleep (q', w') \<Rightarrow> qinv q' \<and> qstatic q' = qstatic q \<and> state q' = setf (state q) Qstarve \<and>
       log q' = log q \<and> qbytes q = [] \<and> blocks q' = [] \<and> \<not> hasf (state q) Qclosed \<and>
       (\<not> hasf (state q) Qcoalesce \<longrightarrow> len q' = len q)
   | _ \<Rightarrow> False)"

lemma qread_get_rget: "qinv q \<Longrightarrow> rget q l (qread_get q l w)"
proof (induction "length (blocks q)" arbitrary: q w rule: less_induct)
  case less
  show ?case
  proof (cases "blocks q")
    case Nil
    with less.prems show ?thesis
      by (auto simp: qread_get.simps [of q] qwait_def Let_def rget_def qdefs)
  next
    case (Cons b bs)
    have wf: "wfb b" "list_all wfb bs" and l: "BLEN b = int (length (bdata b))"
      using less.prems by (simp_all add: qinv_def Cons BLEN_length)
    let ?q = "snd (qremove q)"
    have q': "qinv ?q" "qstatic ?q = qstatic q" "state ?q = state q" "blocks ?q = bs" "log ?q = log q"
      "qbytes q = bdata b @ qbytes ?q"
      using less.prems by (simp_all add: qdefs qremove_def Cons)
    consider (one) "\<not> hasf (state q) Qcoalesce" | (skip) "hasf (state q) Qcoalesce" "bdata b = []"
      | (many) "hasf (state q) Qcoalesce" "bdata b \<noteq> []" by blast
    then show ?thesis
    proof cases
      case one
      with Cons q' wf l show ?thesis by (simp add: qread_get.simps [of q] rget_def)
    next
      case skip
      let ?w = "w\<lparr>ialloc_bytes := ialloc_bytes w - ibal b\<rparr>"
      have "qread_get q l w = qread_get ?q l ?w"
        using skip Cons l wf by (simp add: qread_get.simps [of q] freeb_eq)
      moreover have "rget ?q l (qread_get ?q l ?w)"
        using less.hyps [of ?q ?w] q' Cons by simp
      ultimately show ?thesis
        using q' skip by (simp add: rget_def split: res.splits option.splits prod.splits)
    next
      case many
      obtain took m left where c: "coalesce bs (BLEN b) l = (took, m, left)" by (metis prod_cases3)
      note sp = coalesce_spec [OF c]
      then have wf': "list_all wfb took" "list_all wfb left" using wf by simp_all
      with many Cons l wf less.prems sp c show ?thesis
        by (auto simp: qread_get.simps [of q] rget_def qdefs blocklen_length BLEN_length)
    qed
  qed
qed

text \<open>The second locked part, on a byte stream.\<close>

definition rput :: "Queue \<Rightarrow> byte list \<Rightarrow> byte list \<Rightarrow> Queue \<Rightarrow> bool" where
  "rput q flying ys q' \<longleftrightarrow> qinv q' \<and> qstatic q' = qstatic q \<and>
     flying @ qbytes q = ys @ qbytes q' \<and> hasf (state q') Qstarve = hasf (state q) Qstarve \<and>
     (blocks q \<noteq> [] \<longrightarrow> blocks q' \<noteq> []) \<and> len q \<le> len q' \<and>
     (\<exists>es. log q' = log q @ es \<and> WakeR \<notin> set es \<and>
       (if hasf (state q) Qflow \<and> len q' < half (limit q) then WakeW \<in> set es \<and> \<not> hasf (state q') Qflow
        else hasf (state q') Qflow = hasf (state q) Qflow))"

lemma qwakeup_rput:
  "qinv q' \<Longrightarrow> qstatic q' = qstatic q \<Longrightarrow> flying @ qbytes q = ys @ qbytes q' \<Longrightarrow> state q' = state q \<Longrightarrow>
     log q' = log q \<Longrightarrow> (blocks q \<noteq> [] \<longrightarrow> blocks q' \<noteq> []) \<Longrightarrow> len q \<le> len q' \<Longrightarrow> limit q' = limit q \<Longrightarrow>
     rput q flying ys (qwakeup_iunlock q')"
  by (simp add: rput_def qdefs) (auto simp: qwakeup_iunlock_def)

lemma qread_put_rput:
  assumes "qinv q" "\<not> hasf (state q) Qmsg" "list_all wfb first" "length first > 1 \<longrightarrow> length (bytesof first) \<le> l"
    "bl2mem first (int l) w = Ret (xs, left) w1" "qread_put q left n xs w1 = Ret (m, ys) (q', w')"
  shows "rput q (bytesof first) ys q'"
proof -
  have b: "xs = take l (bytesof first)" "bytesof left = drop l (bytesof first)" "list_all wfb left"
    "length left \<le> length first" "length (bytesof first) \<le> l \<longrightarrow> left = []"
    using bl2mem_ok [OF assms(3), of l w] assms(5) by simp_all
  consider (all) "left = []" | (some) c where "left = [c]"
    using b(4,5) assms(4) by (cases left; cases first) (auto split: if_splits)
  then show ?thesis
  proof cases
    case all
    with b(2) have "bytesof first = xs" by (simp add: b(1))
    moreover from all assms(6) have "q' = qwakeup_iunlock q" "ys = xs" by (simp_all add: qread_put_def)
    ultimately show ?thesis using assms(1) by (auto intro: qwakeup_rput)
  next
    case some
    then have eq: "q' = qwakeup_iunlock (qputback q c)" "ys = xs"
      using assms(2,6) by (simp_all add: qread_put_def)
    have c: "wfb c" "bdata c = drop l (bytesof first)" using some b by simp_all
    have nn: "0 \<le> BALLOC c" by (simp add: BALLOC_def)
    show ?thesis
      unfolding eq by (rule qwakeup_rput) (use assms(1) c b(1) nn in \<open>simp_all add: qputback_def qdefs\<close>)
  qed
qed

section \<open>First in, first out\<close>

definition rphok :: "rphase \<Rightarrow> bool" where
  "rphok p \<longleftrightarrow> (case p of RCopy first n l \<Rightarrow>
     list_all wfb first \<and> (length first > 1 \<longrightarrow> length (bytesof first) \<le> l) | _ \<Rightarrow> True)"

definition sysinv :: "QSys \<Rightarrow> bool" where
  "sysinv s \<longleftrightarrow> qinv (qq s) \<and> \<not> hasf (state (qq s)) Qmsg \<and> \<not> bypass (qq s) \<and> rphok (rph s) \<and>
     live (inp s) = outp s @ inflight (rph s) @ qbytes (qq s)"

lemma upd_simps [simp]:
  "qq (upd s q w) = q" "kk (upd s q w) = w" "rph (upd s q w) = rph s" "wph (upd s q w) = wph s"
  "inp (upd s q w) = inp s" "outp (upd s q w) = outp s"
  "rwake (upd s q w) = (rwake s \<or> newev WakeR (qq s) q)"
  "wwake (upd s q w) = (wwake s \<or> newev WakeW (qq s) q)"
  by (simp_all add: upd_def)

lemma rphok_simps [simp]:
  "rphok RIdle" "rphok RArmed" "rphok RAsleep"
  "rphok (RCopy first n l) \<longleftrightarrow> list_all wfb first \<and> (length first > 1 \<longrightarrow> length (bytesof first) \<le> l)"
  by (simp_all add: rphok_def)

text \<open>All ways the first part of \<^verbatim>\<open>qbwrite\<close> can end on a queue without bypass.\<close>

lemma qbwrite_add_cases:
  assumes "qinv q" "wfb b" "\<not> bypass q"
  shows "qbwrite_add q b w = Ret True (q', w') \<Longrightarrow>
      appended q q' (bdata b) \<and> blocks q' = blocks q @ [b] \<and> hasf (state q') Qflow = hasf (state q) Qflow"
    and "qbwrite_add q b w = Ret False (q', w') \<Longrightarrow> q' = q"
    and "qbwrite_add q b w = Err e (q', w') \<Longrightarrow> q' = q"
proof -
  show "qbwrite_add q b w = Ret True (q', w') \<Longrightarrow>
      appended q q' (bdata b) \<and> blocks q' = blocks q @ [b] \<and> hasf (state q') Qflow = hasf (state q) Qflow"
    using qbwrite_add_ok [OF assms, of w] assms(2,3)
    by (cases "hasf (state q) Qclosed"; cases "noblock q \<longrightarrow> len q < limit q")
       (auto simp: qbwrite_add_def freeb_eq Let_def)
  show "qbwrite_add q b w = Ret False (q', w') \<Longrightarrow> q' = q"
    "qbwrite_add q b w = Err e (q', w') \<Longrightarrow> q' = q"
    using assms(2,3) by (auto simp: qbwrite_add_def freeb_eq Let_def split: if_splits)
qed

lemma qpass_cases:
  assumes "qinv q" "bs \<noteq> []" "list_all wfb bs" "qpass q bs w = Ret n (q', w')"
  shows "if len q \<ge> limit q \<or> hasf (state q) Qclosed then q' = q
     else appended q q' (bytesof bs) \<and> blocks q' = blocks q @ bs"
  using qpass_ok [OF assms(1-3), of w] assms(4) by (auto split: if_splits)

lemma sysinv_step: "qstep s t \<Longrightarrow> sysinv s \<Longrightarrow> sysinv t"
proof (induction rule: qstep.induct)
  case (rd_get s l first n q w)
  then have "rget (qq s) (int l) (Ret (Some (first, n)) (q, w))"
    using qread_get_rget [of "qq s" "int l" "kk s"] by (simp add: sysinv_def)
  with rd_get show ?case using qstaticD [of q "qq s"] by (auto simp: sysinv_def rget_def)
next
  case (rd_eof s l q w)
  then have "rget (qq s) (int l) (Ret None (q, w))"
    using qread_get_rget [of "qq s" "int l" "kk s"] by (simp add: sysinv_def)
  with rd_eof show ?case using qstaticD [of q "qq s"] by (auto simp: sysinv_def rget_def qbytes_def)
next
  case (rd_err s l e q w)
  then have "rget (qq s) (int l) (Err e (q, w))"
    using qread_get_rget [of "qq s" "int l" "kk s"] by (simp add: sysinv_def)
  with rd_err show ?case using qstaticD [of q "qq s"] by (auto simp: sysinv_def rget_def qbytes_def)
next
  case (rd_wait s l q w)
  then have "rget (qq s) (int l) (Sleep (q, w))"
    using qread_get_rget [of "qq s" "int l" "kk s"] by (simp add: sysinv_def)
  with rd_wait show ?case using qstaticD [of q "qq s"] by (auto simp: sysinv_def rget_def qbytes_def)
next
  case (rd_put s first n l xs left w1 m ys q w)
  then have "rput (qq s) (bytesof first) ys q"
    by (intro qread_put_rput [where first = first]) (auto simp: sysinv_def)
  with rd_put show ?case using qstaticD [of q "qq s"] by (auto simp: sysinv_def rput_def)
next
  case (wr_add s b q w)
  with qbwrite_add_cases(1) [of "qq s" b "kk s" q w] qstaticD [of q "qq s"] show ?case
    by (auto simp: sysinv_def appended_def)
next
  case (wr_drop s b q w)
  with qbwrite_add_cases(2) [of "qq s" b "kk s" q w] show ?case by (auto simp: sysinv_def)
next
  case (wr_err s b e q w)
  with qbwrite_add_cases(3) [of "qq s" b "kk s" e q w] show ?case by (auto simp: sysinv_def)
next
  case (dv_pass bs s n q w)
  with qpass_cases [of "qq s" bs "kk s" n q w] qstaticD [of q "qq s"] show ?case
    by (auto simp: sysinv_def appended_def split: if_splits)
next
  case (dv_close s q w)
  with qclose_ok [of "qq s" "kk s"] show ?case
    by (auto simp: sysinv_def qbytes_def qclose_def live_throw)
qed (auto simp: sysinv_def qdefs qhangup_def)

lemma sysinv_stepf: "qstepf s t \<Longrightarrow> sysinv s \<Longrightarrow> sysinv t"
proof (induction rule: qstepf.induct)
  case (dv_flush s u q w)
  with qflush_ok [of "qq s" "kk s"] have q: "qinv q" "blocks q = []" "qstatic q = qstatic (qq s)"
    by (auto simp: sysinv_def okR_def)
  with dv_flush qstaticD [OF q(3)] show ?case by (simp add: sysinv_def qbytes_def live_throw)
qed (rule sysinv_step)

lemma sysinv_reach: "qreach s t \<Longrightarrow> sysinv s \<Longrightarrow> sysinv t"
  by (induction rule: qreach.induct) (auto intro: sysinv_step)

lemma sysinv_reachf: "qreachf s t \<Longrightarrow> sysinv s \<Longrightarrow> sysinv t"
  by (induction rule: qreachf.induct) (auto intro: sysinv_stepf)

section \<open>No lost wakeup\<close>

definition rlive :: "QSys \<Rightarrow> bool" where
  "rlive s \<longleftrightarrow> (case rph s of
     RArmed \<Rightarrow> notempty (qq s) \<or> hasf (state (qq s)) Qstarve
   | RAsleep \<Rightarrow> rwake s \<or> \<not> notempty (qq s) \<and> hasf (state (qq s)) Qstarve
   | _ \<Rightarrow> True)"

lemma appended_live:
  "appended q q' xs \<Longrightarrow> blocks q' = blocks q @ bs \<Longrightarrow> bs \<noteq> [] \<Longrightarrow>
     notempty q' \<and> (hasf (state q) Qstarve \<longrightarrow> newev WakeR q q')"
  by (auto simp: appended_def notempty_def intro: woke_newev)

lemma rlive_appended:
  assumes "rlive s" "appended (qq s) q xs" "blocks q = blocks (qq s) @ bs" "bs \<noteq> []"
    "qq t = q" "rph t = rph s" "rwake t = (rwake s \<or> newev WakeR (qq s) q)"
  shows "rlive t"
  using assms(1,5-7) appended_live [OF assms(2-4)]
  by (auto simp: rlive_def split: rphase.splits)

lemma rlive_step: "qstep s t \<Longrightarrow> sysinv s \<Longrightarrow> rlive s \<Longrightarrow> rlive t"
proof (induction rule: qstep.induct)
  case (rd_wait s l q w)
  then have "rget (qq s) (int l) (Sleep (q, w))"
    using qread_get_rget [of "qq s" "int l" "kk s"] by (simp add: sysinv_def)
  with rd_wait show ?case by (auto simp: rlive_def rget_def)
next
  case (wr_add s b q w)
  then have "appended (qq s) q (bdata b)" "blocks q = blocks (qq s) @ [b]"
    using qbwrite_add_cases(1) [of "qq s" b "kk s" q w] by (auto simp: sysinv_def)
  from rlive_appended [OF wr_add.prems(2) this] show ?case by simp
next
  case (wr_drop s b q w)
  with qbwrite_add_cases(2) [of "qq s" b "kk s" q w] show ?case
    by (auto simp: sysinv_def rlive_def split: rphase.splits)
next
  case (wr_err s b e q w)
  with qbwrite_add_cases(3) [of "qq s" b "kk s" e q w] show ?case
    by (auto simp: sysinv_def rlive_def split: rphase.splits)
next
  case (dv_pass bs s n q w)
  show ?case
  proof (cases "len (qq s) \<ge> limit (qq s) \<or> hasf (state (qq s)) Qclosed")
    case True
    with dv_pass qpass_cases [of "qq s" bs "kk s" n q w] show ?thesis
      by (auto simp: sysinv_def rlive_def split: rphase.splits)
  next
    case False
    with dv_pass qpass_cases [of "qq s" bs "kk s" n q w]
    have "appended (qq s) q (bytesof bs)" "blocks q = blocks (qq s) @ bs" by (auto simp: sysinv_def)
    from rlive_appended [OF dv_pass.prems(2) this dv_pass.hyps(1)] show ?thesis by simp
  qed
next
  case (dv_close s q w)
  with qclose_ok [of "qq s" "kk s"] have "hasf (state q) Qclosed" "log q = log (qq s) @ [WakeR, WakeW]"
    by (auto simp: sysinv_def okR_def)
  then show ?case by (auto simp: rlive_def notempty_def split: rphase.splits)
qed (auto simp: rlive_def notempty_def qhangup_def split: rphase.splits if_splits)

text \<open>The writer's side, on a queue that does not coalesce. A process about to sleep on a
  queue whose flow-control mark has been cleared meanwhile will find it not full: all blocks,
  the one in the reader's hands included, are small.\<close>

fun fblocks :: "rphase \<Rightarrow> Block list" where
  "fblocks (RCopy first n l) = first"
| "fblocks _ = []"

definition smallq :: "QSys \<Rightarrow> bool" where
  "smallq s \<longleftrightarrow> (\<forall>b \<in> set (blocks (qq s) @ fblocks (rph s)). BALLOC b < half (limit (qq s))) \<and>
     len (qq s) + blockalloclen (fblocks (rph s)) < 2 * half (limit (qq s))"

definition cfg :: "QSys \<Rightarrow> bool" where
  "cfg s \<longleftrightarrow> \<not> hasf (state (qq s)) Qcoalesce \<and> 2 \<le> limit (qq s) \<and> length (fblocks (rph s)) \<le> 1"

definition wlive :: "QSys \<Rightarrow> bool" where
  "wlive s \<longleftrightarrow> (case wph s of
     WArmed \<Rightarrow> hasf (state (qq s)) Qflow \<or> hasf (state (qq s)) Qclosed \<or> smallq s
   | WAsleep \<Rightarrow> wwake s \<or> \<not> hasf (state (qq s)) Qclosed \<and> hasf (state (qq s)) Qflow \<and>
       (half (limit (qq s)) \<le> len (qq s) \<or> (\<exists>first n l. rph s = RCopy first n l))
   | _ \<Rightarrow> True)"

lemma half_bounds: "2 \<le> x \<Longrightarrow> 0 < half x \<and> half x \<le> x \<and> 2 * half x \<le> x"
  by (auto simp: half_def)

lemma blockalloclen_mem: "0 \<le> blockalloclen bs \<and> (b \<in> set bs \<longrightarrow> BALLOC b \<le> blockalloclen bs)"
  by (induction bs) (auto simp: BALLOC_def)

lemma qread_get_single:
  assumes "\<not> hasf (state q) Qcoalesce" "qread_get q l w = Ret (Some (first, n)) (q', w')"
  shows "\<exists>b. first = [b] \<and> blocks q = b # blocks q' \<and> len q' = len q - BALLOC b \<and>
     state q' = state q \<and> limit q' = limit q"
  using assms
  by (cases "blocks q") (auto simp: qread_get.simps [of q] qwait_def qremove_def Let_def split: if_splits)

lemma bl2mem_single:
  assumes "bl2mem [b] n w = Ret (xs, left) w'" "wfb b"
  shows "left = [] \<or> (\<exists>c. left = [c] \<and> BALLOC c = BALLOC b)"
  using assms by (auto simp: Let_def BALLOC_def split: if_splits)

lemma qread_put_single:
  assumes "bl2mem first (int l) w = Ret (xs, left) w1" "qread_put q left n xs w1 = Ret (m, ys) (q', w')"
    "list_all wfb first" "length first \<le> 1" "\<not> hasf (state q) Qmsg"
  shows "BALLOC ` set (blocks q') \<subseteq> BALLOC ` set (blocks q @ first) \<and>
    len q' \<le> len q + blockalloclen first"
proof (cases first)
  case Nil
  with assms(1,2) show ?thesis by (auto simp: qread_put_def)
next
  case (Cons b bs)
  with assms(3,4) have f: "first = [b]" "wfb b" by simp_all
  have nn: "0 \<le> BALLOC b" by (simp add: BALLOC_def)
  from bl2mem_single [OF _ f(2)] assms(1) f(1)
  have "left = [] \<or> (\<exists>c. left = [c] \<and> BALLOC c = BALLOC b)" by blast
  with assms(2,5) f(1) nn show ?thesis by (auto simp: qread_put_def qputback_def)
qed

lemma passadd_flow:
  assumes "qpass q bs w = Ret n (q', w')" "\<not> (len q \<ge> limit q \<or> hasf (state q) Qclosed)" "bs \<noteq> []"
  shows "hasf (state q') Qflow = (hasf (state q) Qflow \<or> half (limit q) \<le> len q')"
  using assms
  by (auto simp: qpass_def passadd_def Let_def split: list.splits split del: if_split)
     (auto split: if_splits)

lemma cfg_step: "qstep s t \<Longrightarrow> sysinv s \<Longrightarrow> cfg s \<Longrightarrow> cfg t"
proof (induction rule: qstep.induct)
  case (rd_get s l first n q w)
  with qread_get_single [of "qq s" "int l" "kk s" first n q w] show ?case by (auto simp: cfg_def)
next
  case (rd_eof s l q w)
  then have "rget (qq s) (int l) (Ret None (q, w))"
    using qread_get_rget [of "qq s" "int l" "kk s"] by (simp add: sysinv_def)
  with rd_eof qstaticD(1) [of q "qq s"] show ?case by (simp add: cfg_def rget_def)
next
  case (rd_err s l e q w)
  then have "rget (qq s) (int l) (Err e (q, w))"
    using qread_get_rget [of "qq s" "int l" "kk s"] by (simp add: sysinv_def)
  with rd_err qstaticD(1) [of q "qq s"] show ?case by (simp add: cfg_def rget_def)
next
  case (rd_wait s l q w)
  then have "rget (qq s) (int l) (Sleep (q, w))"
    using qread_get_rget [of "qq s" "int l" "kk s"] by (simp add: sysinv_def)
  with rd_wait qstaticD(1) [of q "qq s"] show ?case by (simp add: cfg_def rget_def)
next
  case (rd_put s first n l xs left w1 m ys q w)
  then have "rput (qq s) (bytesof first) ys q"
    by (intro qread_put_rput [where first = first]) (auto simp: sysinv_def)
  with rd_put.prems(2) show ?case using qstaticD(1,9) [of q "qq s"] by (simp add: cfg_def rput_def)
next
  case (wr_add s b q w)
  with qbwrite_add_cases(1) [of "qq s" b "kk s" q w] qstaticD(1,9) [of q "qq s"] show ?case
    by (simp add: sysinv_def cfg_def appended_def)
next
  case (wr_drop s b q w)
  with qbwrite_add_cases(2) [of "qq s" b "kk s" q w] show ?case by (simp add: sysinv_def cfg_def)
next
  case (wr_err s b e q w)
  with qbwrite_add_cases(3) [of "qq s" b "kk s" e q w] show ?case by (simp add: sysinv_def cfg_def)
next
  case (dv_pass bs s n q w)
  with qpass_cases [of "qq s" bs "kk s" n q w] qstaticD(1,9) [of q "qq s"] show ?case
    by (simp add: sysinv_def cfg_def appended_def split: if_splits)
next
  case (dv_close s q w)
  then show ?case by (auto simp: cfg_def qclose_def)
qed (auto simp: cfg_def qhangup_def)

lemma wlive_armed_put:
  assumes "rput (qq s) (bytesof first) ys q" "BALLOC ` set (blocks q) \<subseteq> BALLOC ` set (blocks (qq s) @ first)"
    "len q \<le> len (qq s) + blockalloclen first" "rph s = RCopy first n l" "cfg s"
    "hasf (state (qq s)) Qflow \<or> hasf (state (qq s)) Qclosed \<or> smallq s"
    "qq t = q" "rph t = RIdle"
  shows "hasf (state q) Qflow \<or> hasf (state q) Qclosed \<or> smallq t"
proof -
  note st = qstaticD [of q "qq s"]
  have lim: "limit q = limit (qq s)" "hasf (state q) Qclosed = hasf (state (qq s)) Qclosed"
    and li: "len q = blockalloclen (blocks q)"
    using assms(1) st by (simp_all add: rput_def qinv_def)
  have h: "0 < half (limit q)" using half_bounds assms(5) lim by (simp add: cfg_def)
  show ?thesis
  proof (cases "hasf (state (qq s)) Qflow")
    case True
    show ?thesis
    proof (cases "len q < half (limit q)")
      case True
      then have "smallq t"
        using assms(7,8) h blockalloclen_mem [of "blocks q"] li by (fastforce simp: smallq_def)
      then show ?thesis by simp
    next
      case False
      with \<open>hasf (state (qq s)) Qflow\<close> assms(1) lim(1) show ?thesis by (auto simp: rput_def)
    qed
  next
    case False
    with assms(6) lim(2) consider "hasf (state q) Qclosed" | "smallq s" by blast
    then show ?thesis
    proof cases
      case 2
      then have s: "\<forall>b \<in> set (blocks (qq s) @ first). BALLOC b < half (limit q)"
        "len (qq s) + blockalloclen first < 2 * half (limit q)"
        using assms(4) lim(1) by (simp_all add: smallq_def)
      have "BALLOC b < half (limit q)" if "b \<in> set (blocks q)" for b
        using that assms(2) s(1) by (metis (no_types, lifting) image_iff imageI subsetD)
      with s(2) assms(3,7,8) have "smallq t" by (simp add: smallq_def)
      then show ?thesis by simp
    qed simp
  qed
qed

lemma wlive_asleep_put:
  assumes "rput (qq s) (bytesof first) ys q" "\<not> hasf (state (qq s)) Qclosed" "hasf (state (qq s)) Qflow"
  shows "newev WakeW (qq s) q \<or>
    \<not> hasf (state q) Qclosed \<and> hasf (state q) Qflow \<and> half (limit q) \<le> len q"
  using assms qstaticD(1,8) [of q "qq s"] by (auto simp: rput_def split: if_splits)

lemma wlive_pass:
  assumes "sysinv s" "cfg s" "wlive s" "bs \<noteq> []" "list_all wfb bs" "qpass (qq s) bs (kk s) = Ret n (q, w)"
    "qq t = q" "rph t = rph s" "wph t = wph s" "wwake t = (wwake s \<or> newev WakeW (qq s) q)"
  shows "wlive t"
proof (cases "len (qq s) \<ge> limit (qq s) \<or> hasf (state (qq s)) Qclosed")
  case True
  with assms qpass_cases [of "qq s" bs "kk s" n q w] show ?thesis
    by (auto simp: sysinv_def wlive_def smallq_def split: wphase.splits)
next
  case False
  with assms qpass_cases [of "qq s" bs "kk s" n q w]
  have a: "appended (qq s) q (bytesof bs)" "blocks q = blocks (qq s) @ bs" by (auto simp: sysinv_def)
  then have st: "limit q = limit (qq s)" "hasf (state q) Qclosed = hasf (state (qq s)) Qclosed"
    and li: "len q = blockalloclen (blocks q)" "len (qq s) \<le> len q"
    using qstaticD(1,8) [of q "qq s"] assms(1) blockalloclen_mem [of bs]
    by (simp_all add: appended_def qinv_def sysinv_def)
  have fl: "hasf (state q) Qflow = (hasf (state (qq s)) Qflow \<or> half (limit q) \<le> len q)"
    using passadd_flow [OF assms(6) False assms(4)] st(1) by simp
  have sm: "smallq t" if "smallq s" "len q < half (limit q)"
  proof -
    have F: "blockalloclen (fblocks (rph s)) < half (limit q)"
      using that assms(2) st(1) half_bounds [of "limit (qq s)"]
      by (cases "fblocks (rph s)") (auto simp: smallq_def cfg_def)
    moreover have "\<forall>b \<in> set (blocks q). BALLOC b < half (limit q)"
      using that(2) li(1) blockalloclen_mem [of "blocks q"] by (metis le_less_trans)
    ultimately show ?thesis
      using that assms(7,8) st(1) by (auto simp: smallq_def)
  qed
  show ?thesis
    using assms(3,7-10) st fl sm li(2)
    by (cases "wph s"; cases "len q < half (limit q)") (auto simp: wlive_def)
qed

lemma wlive_same:
  assumes "wlive s" "len (qq t) = len (qq s)" "limit (qq t) = limit (qq s)" "blocks (qq t) = blocks (qq s)"
    "hasf (state (qq t)) Qflow = hasf (state (qq s)) Qflow"
    "hasf (state (qq t)) Qclosed = hasf (state (qq s)) Qclosed"
    "fblocks (rph t) = fblocks (rph s)" "wph t = wph s" "wwake s \<longrightarrow> wwake t"
    "(\<exists>f n l. rph s = RCopy f n l) \<longrightarrow> (\<exists>f n l. rph t = RCopy f n l)"
  shows "wlive t"
proof -
  have "smallq t = smallq s" using assms(2-4,7) by (simp add: smallq_def)
  with assms show ?thesis by (cases "wph s") (auto simp: wlive_def)
qed

lemma wlive_step: "qstep s t \<Longrightarrow> sysinv s \<Longrightarrow> cfg s \<Longrightarrow> wlive s \<Longrightarrow> wlive t"
proof (induction rule: qstep.induct)
  case (rd_get s l first n q w)
  from qread_get_single [OF _ rd_get(2)] rd_get.prems(2)
  obtain b where b: "first = [b]" "blocks (qq s) = b # blocks q" "len q = len (qq s) - BALLOC b"
    "state q = state (qq s)" "limit q = limit (qq s)" by (auto simp: cfg_def)
  with rd_get show ?case by (auto simp: wlive_def smallq_def split: wphase.splits)
next
  case (rd_eof s l q w)
  then have r: "rget (qq s) (int l) (Ret None (q, w))" "qinv (qq s)"
    using qread_get_rget [of "qq s" "int l" "kk s"] by (simp_all add: sysinv_def)
  with rd_eof.hyps rd_eof.prems(2) have "blocks (qq s) = []"
    by (cases "blocks (qq s)") (auto simp: qread_get.simps [of "qq s"] cfg_def)
  with r have "blocks q = blocks (qq s)" "len q = len (qq s)" by (simp_all add: rget_def qinv_def)
  with r qstaticD(1) [of q "qq s"] show ?case
    by (intro wlive_same [OF rd_eof.prems(3)]) (auto simp: rget_def)
next
  case (rd_err s l e q w)
  then have r: "rget (qq s) (int l) (Err e (q, w))" "qinv (qq s)"
    using qread_get_rget [of "qq s" "int l" "kk s"] by (simp_all add: sysinv_def)
  with rd_err.hyps rd_err.prems(2) have "blocks (qq s) = []"
    by (cases "blocks (qq s)") (auto simp: qread_get.simps [of "qq s"] cfg_def)
  with r have "blocks q = blocks (qq s)" "len q = len (qq s)" by (simp_all add: rget_def qinv_def)
  with r qstaticD(1) [of q "qq s"] show ?case
    by (intro wlive_same [OF rd_err.prems(3)]) (auto simp: rget_def)
next
  case (rd_wait s l q w)
  then have r: "rget (qq s) (int l) (Sleep (q, w))" "qinv (qq s)"
    using qread_get_rget [of "qq s" "int l" "kk s"] by (simp_all add: sysinv_def)
  with rd_wait.hyps rd_wait.prems(2) have "blocks (qq s) = []"
    by (cases "blocks (qq s)") (auto simp: qread_get.simps [of "qq s"] cfg_def)
  with r have "blocks q = blocks (qq s)" "len q = len (qq s)" by (simp_all add: rget_def qinv_def)
  with r rd_wait.hyps(1) qstaticD(1) [of q "qq s"] show ?case
    by (intro wlive_same [OF rd_wait.prems(3)]) (auto simp: rget_def)
next
  case (rd_put s first n l xs left w1 m ys q w)
  have rp: "rput (qq s) (bytesof first) ys q"
    by (rule qread_put_rput [where first = first]) (use rd_put in \<open>auto simp: sysinv_def\<close>)
  have sg: "BALLOC ` set (blocks q) \<subseteq> BALLOC ` set (blocks (qq s) @ first)"
    "len q \<le> len (qq s) + blockalloclen first"
    using qread_put_single [OF rd_put.hyps(2,3)] rd_put.prems rd_put.hyps(1)
    by (auto simp: sysinv_def cfg_def)
  let ?t = "(upd s q w)\<lparr>rph := RIdle, outp := outp s @ ys\<rparr>"
  show ?case
  proof (cases "wph s")
    case WArmed
    with wlive_armed_put [OF rp sg rd_put.hyps(1) rd_put.prems(2), of ?t] rd_put.prems(3) show ?thesis
      by (simp add: wlive_def)
  next
    case WAsleep
    with wlive_asleep_put [OF rp] rd_put.prems(3) show ?thesis by (auto simp: wlive_def)
  qed (simp_all add: wlive_def)
next
  case (wr_sleep s)
  show ?case
  proof (cases "qnotfull (qq s)")
    case False
    then have f: "limit (qq s) \<le> len (qq s)" "\<not> hasf (state (qq s)) Qclosed" by (auto simp: qnotfull_def)
    have h: "half (limit (qq s)) \<le> limit (qq s)" "2 * half (limit (qq s)) \<le> limit (qq s)"
      using half_bounds [of "limit (qq s)"] wr_sleep.prems(2) by (auto simp: cfg_def)
    have "\<not> smallq s"
      using f(1) h(2) blockalloclen_mem [of "fblocks (rph s)", THEN conjunct1]
      unfolding smallq_def by linarith
    with wr_sleep f h False show ?thesis by (simp add: wlive_def)
  qed (simp add: wlive_def)
next
  case (dv_pass bs s n q w)
  show ?case by (rule wlive_pass [OF dv_pass.prems dv_pass.hyps]) simp_all
next
  case (dv_close s q w)
  then have "hasf (state q) Qclosed" "log q = log (qq s) @ [WakeR, WakeW]"
    using qclose_ok [of "qq s" "kk s"] by (auto simp: sysinv_def okR_def)
  then show ?case by (auto simp: wlive_def split: wphase.splits)
next
  case (rd_sleep s)
  show ?case by (rule wlive_same [OF rd_sleep.prems(3)]) (use rd_sleep in auto)
next
  case (rd_wakeup s)
  show ?case by (rule wlive_same [OF rd_wakeup.prems(3)]) (use rd_wakeup in auto)
next
  case (wr_drop s b q w)
  then have "q = qq s" using qbwrite_add_cases(2) [of "qq s" b "kk s" q w] by (simp add: sysinv_def)
  with wr_drop show ?case by (simp add: wlive_def)
next
  case (wr_err s b e q w)
  then have "q = qq s" using qbwrite_add_cases(3) [of "qq s" b "kk s" e q w] by (simp add: sysinv_def)
  with wr_err show ?case by (simp add: wlive_def)
next
  case (wr_wakeup s)
  then show ?case by (cases "wph s") (simp_all add: wlive_def smallq_def)
next
  case (rd_intr s)
  then show ?case by (cases "wph s") (auto simp: wlive_def smallq_def)
qed (auto simp: wlive_def qhangup_def split: wphase.splits)

section \<open>Queues from qopen\<close>

lemma qopen_fresh:
  assumes "qopen lim msg kck w0 = Ret (Some q) w"
  shows "blocks q = []" "len q = 0" "dlen q = 0" "limit q = lim" "\<not> bypass q" "\<not> noblock q"
    "hasf (state q) Qmsg = hasf msg Qmsg" "hasf (state q) Qcoalesce = hasf msg Qcoalesce"
    "hasf (state q) Qclosed = hasf msg Qclosed"
  using assms by (auto simp: qopen_def split: option.splits)

lemma qopen_sysinv:
  assumes "qopen lim msg kck w0 = Ret (Some q) w" "\<not> hasf msg Qmsg"
  shows "sysinv (qsys0 q w)" "rlive (qsys0 q w)" "wlive (qsys0 q w)"
  using qopen_fresh [OF assms(1)] assms(2)
  by (simp_all add: sysinv_def qsys0_def qdefs rlive_def wlive_def)

lemma rlive_reach: "qreach s t \<Longrightarrow> sysinv s \<Longrightarrow> rlive s \<Longrightarrow> rlive t"
  by (induction rule: qreach.induct) (auto intro: rlive_step sysinv_reach)

lemma limit_step: "qstep s t \<Longrightarrow> sysinv s \<Longrightarrow> limit (qq t) = limit (qq s)"
proof (induction rule: qstep.induct)
  case (rd_put s first n l xs left w1 m ys q w)
  then have "rput (qq s) (bytesof first) ys q"
    by (intro qread_put_rput [where first = first]) (auto simp: sysinv_def)
  then show ?case using qstaticD(1) [of q "qq s"] by (simp add: rput_def)
next
  case (wr_add s b q w)
  with qbwrite_add_cases(1) [of "qq s" b "kk s" q w] qstaticD(1) [of q "qq s"] show ?case
    by (simp add: sysinv_def appended_def)
next
  case (dv_pass bs s n q w)
  with qpass_cases [of "qq s" bs "kk s" n q w] qstaticD(1) [of q "qq s"] show ?case
    by (simp add: sysinv_def appended_def split: if_splits)
next
  case (rd_get s l first n q w)
  with qread_get_rget [of "qq s" "int l" "kk s"] qstaticD(1) [of q "qq s"] show ?case
    by (simp add: sysinv_def rget_def)
next
  case (rd_eof s l q w)
  with qread_get_rget [of "qq s" "int l" "kk s"] qstaticD(1) [of q "qq s"] show ?case
    by (simp add: sysinv_def rget_def)
next
  case (rd_err s l e q w)
  with qread_get_rget [of "qq s" "int l" "kk s"] qstaticD(1) [of q "qq s"] show ?case
    by (simp add: sysinv_def rget_def)
next
  case (rd_wait s l q w)
  with qread_get_rget [of "qq s" "int l" "kk s"] qstaticD(1) [of q "qq s"] show ?case
    by (simp add: sysinv_def rget_def)
next
  case (wr_drop s b q w)
  with qbwrite_add_cases(2) [of "qq s" b "kk s" q w] show ?case by (simp add: sysinv_def)
next
  case (wr_err s b e q w)
  with qbwrite_add_cases(3) [of "qq s" b "kk s" e q w] show ?case by (simp add: sysinv_def)
qed (auto simp: qclose_def qhangup_def)

lemma limit_reach: "qreach s t \<Longrightarrow> sysinv s \<Longrightarrow> limit (qq t) = limit (qq s)"
  by (induction rule: qreach.induct) (auto simp: limit_step sysinv_reach)

lemma wlive_reach: "qreach s t \<Longrightarrow> sysinv s \<Longrightarrow> cfg s \<Longrightarrow> wlive s \<Longrightarrow> cfg t \<and> wlive t"
  by (induction rule: qreach.induct) (auto intro: wlive_step cfg_step sysinv_reach)

lemma qsys0_simps [simp]:
  "qq (qsys0 q w) = q" "kk (qsys0 q w) = w" "rph (qsys0 q w) = RIdle" "wph (qsys0 q w) = WIdle"
  "rwake (qsys0 q w) = False" "wwake (qsys0 q w) = False" "inp (qsys0 q w) = []" "outp (qsys0 q w) = []"
  by (simp_all add: qsys0_def)

lemma qreach_trans: "qreach t u \<Longrightarrow> qreach s t \<Longrightarrow> qreach s u"
  by (induction rule: qreach.induct) (auto intro: qreach.more)

lemma qreach_reachf: "qreach s t \<Longrightarrow> qreachf s t"
  by (induction rule: qreach.induct) (auto intro: qreachf.intros qstepf.intros)

lemma qread_get_empty:
  "blocks q = [] \<Longrightarrow> \<not> hasf (state q) Qclosed \<Longrightarrow>
     qread_get q l w = Sleep (q\<lparr>state := setf (state q) Qstarve\<rparr>, w)"
  by (simp add: qread_get.simps [of q] qwait_def)

text \<open>A reader that finds nothing goes to sleep in two steps, a writer that fills the queue in
  three.\<close>

lemma reader_sleeps:
  assumes "rph s = RIdle" "qread_get (qq s) 1 (kk s) = Sleep (q, w)" "\<not> notempty q" "log q = log (qq s)"
  shows "qreach s (s\<lparr>qq := q, kk := w, rph := RAsleep\<rparr>)"
proof -
  have "qreach s ((upd s q w)\<lparr>rph := RArmed\<rparr>)"
    using qstep.rd_wait [of s 1 q w] assms by (auto intro: qreach.intros)
  from qreach.more [OF this qstep.rd_sleep] assms(3,4) show ?thesis
    by (simp add: upd_def)
qed

lemma writer_sleeps:
  assumes "wph s = WCheck" "\<not> noblock (qq s)" "\<not> qnotfull (qq s)"
  shows "qreach s (s\<lparr>qq := (qq s)\<lparr>state := setf (state (qq s)) Qflow\<rparr>, wph := WAsleep\<rparr>)"
proof -
  have "qreach s (s\<lparr>wph := WFull\<rparr>)"
    using qstep.wr_check [of s] assms by (auto intro: qreach.intros)
  from qreach.more [OF this qstep.wr_arm]
  have "qreach s (s\<lparr>qq := (qq s)\<lparr>state := setf (state (qq s)) Qflow\<rparr>, wph := WArmed\<rparr>)"
    by (simp add: upd_def)
  from qreach.more [OF this qstep.wr_sleep] assms(3) show ?thesis
    by (simp add: qnotfull_def)
qed

section \<open>Properties\<close>

text \<open>C1. First in, first out, on a queue that is not a message queue, in every interleaving of a reader, a
  writer and the device side, with hangups, flushes, closes and interrupted sleeps: of all the bytes the queue has accepted,
  those that no flush or close has thrown away are, in order, what readers have got, then what is
  in the reader's hands, then what the queue holds, and the byte counts of the queue are right.\<close>

theorem queue_fifo:
  assumes "qopen lim msg kck w0 = Ret (Some q) w" "\<not> hasf msg Qmsg" "qreachf (qsys0 q w) s"
  shows "live (inp s) = outp s @ inflight (rph s) @ qbytes (qq s) \<and> qinv (qq s)"
  using sysinv_reachf [OF assms(3) qopen_sysinv(1) [OF assms(1,2)]] by (simp add: sysinv_def)

text \<open>A run in which a writer has queued two bytes.\<close>

definition sys_written :: "u32 \<Rightarrow> byte list \<Rightarrow> QSys" where
  "sys_written msg xs = (qsys0 (queue_ex msg) (tick kern_ex))\<lparr>
     qq := (queue_ex msg)\<lparr>blocks := [block_ex xs], len := int (length xs) + 64,
       dlen := int (length xs), state := clrf (setf msg Qstarve) Qstarve, log := [WakeR]\<rparr>,
     rwake := True, wph := WCheck, inp := accepted xs\<rparr>"

lemma sys_written_reach:
  assumes "\<not> hasf msg Qclosed"
  shows "qreach (qsys0 (queue_ex msg) (tick kern_ex)) (sys_written msg xs)"
proof -
  let ?s = "qsys0 (queue_ex msg) (tick kern_ex)"
  have "qbwrite_add (queue_ex msg) (block_ex xs) (tick kern_ex)
      = Ret True ((queue_ex msg)\<lparr>blocks := [block_ex xs], len := int (length xs) + 64,
       dlen := int (length xs), state := clrf (setf msg Qstarve) Qstarve, log := [WakeR]\<rparr>, tick kern_ex)"
    using assms by (simp add: qbwrite_add_def Let_def)
  with qstep.wr_add [of ?s "block_ex xs"] have "qstep ?s (sys_written msg xs)"
    by (simp add: sys_written_def upd_def newev_def qsys0_def)
  then show ?thesis by (rule qreach.more [OF qreach.start])
qed

theorem queue_fifo_witness:
  "live (inp (sys_written 0 [1, 2])) = outp (sys_written 0 [1, 2]) @ inflight (rph (sys_written 0 [1, 2])) @
     qbytes (qq (sys_written 0 [1, 2])) \<and> qinv (qq (sys_written 0 [1, 2]))"
  using queue_fifo [OF qopen_ex _ qreach_reachf [OF sys_written_reach], of 0 "[1, 2]"] by simp

text \<open>C2. No wakeup of a reader is lost on a queue that is not a message queue, as long as it is not flushed: in every run
  of a reader, a writer and a device that passes blocks, hangs up or closes, when the reader sleeps and no wakeup
  is on its way, the queue is empty and open, and marked starved, so the next write wakes it.\<close>

theorem reader_wakeup:
  assumes "qopen lim msg kck w0 = Ret (Some q) w" "\<not> hasf msg Qmsg" "qreach (qsys0 q w) s"
    "rph s = RAsleep" "\<not> rwake s"
  shows "blocks (qq s) = [] \<and> \<not> hasf (state (qq s)) Qclosed \<and> hasf (state (qq s)) Qstarve"
  using rlive_reach [OF assms(3) qopen_sysinv(1,2) [OF assms(1,2)]] assms(4,5)
  by (auto simp: rlive_def notempty_def)

definition sys_rasleep :: "u32 \<Rightarrow> QSys" where
  "sys_rasleep msg = (qsys0 (queue_ex msg) (tick kern_ex))\<lparr>
     qq := (queue_ex msg)\<lparr>state := setf (setf msg Qstarve) Qstarve\<rparr>, rph := RAsleep\<rparr>"

lemma sys_rasleep_reach:
  assumes "\<not> hasf msg Qclosed"
  shows "qreach (qsys0 (queue_ex msg) (tick kern_ex)) (sys_rasleep msg)"
proof -
  let ?q = "(queue_ex msg)\<lparr>state := setf (setf msg Qstarve) Qstarve\<rparr>"
  have "qread_get (queue_ex msg) 1 (tick kern_ex) = Sleep (?q, tick kern_ex)"
    using assms by (simp add: qread_get_empty)
  with reader_sleeps [of "qsys0 (queue_ex msg) (tick kern_ex)" ?q "tick kern_ex"] assms show ?thesis
    by (simp add: sys_rasleep_def notempty_def qsys0_def)
qed

theorem reader_wakeup_witness:
  "blocks (qq (sys_rasleep 0)) = [] \<and> \<not> hasf (state (qq (sys_rasleep 0))) Qclosed \<and>
     hasf (state (qq (sys_rasleep 0))) Qstarve"
  using reader_wakeup [OF qopen_ex _ sys_rasleep_reach, of 0] by (simp add: sys_rasleep_def)

text \<open>C3. No wakeup of a writer is lost either, on a queue with room for two bytes or more that is not a message queue,
  does not coalesce and is not flushed: when the writer sleeps and no wakeup is on its way, the queue is open, at
  least half full or in the reader's hands, and marked flow-controlled, so that the reader
  wakes the writer when it has drained it. Reader and writer are never both asleep for good.\<close>

theorem writer_wakeup:
  assumes "qopen lim msg kck w0 = Ret (Some q) w" "\<not> hasf msg Qmsg" "\<not> hasf msg Qcoalesce" "2 \<le> lim"
    "qreach (qsys0 q w) s" "wph s = WAsleep" "\<not> wwake s"
  shows "\<not> hasf (state (qq s)) Qclosed \<and> hasf (state (qq s)) Qflow \<and>
     (half lim \<le> len (qq s) \<or> (\<exists>first n l. rph s = RCopy first n l)) \<and>
     \<not> (rph s = RAsleep \<and> \<not> rwake s)"
proof -
  note fresh = qopen_fresh [OF assms(1)]
  have "cfg (qsys0 q w)" using fresh assms(3,4) by (simp add: cfg_def)
  note inv = sysinv_reach [OF assms(5) qopen_sysinv(1) [OF assms(1,2)]]
    and live = wlive_reach [OF assms(5) qopen_sysinv(1) [OF assms(1,2)] this qopen_sysinv(3) [OF assms(1,2)]]
    and rd = rlive_reach [OF assms(5) qopen_sysinv(1,2) [OF assms(1,2)]]
  have lim: "limit (qq s) = lim" using limit_reach [OF assms(5) qopen_sysinv(1) [OF assms(1,2)]] fresh by simp
  have w: "\<not> hasf (state (qq s)) Qclosed" "hasf (state (qq s)) Qflow"
    "half lim \<le> len (qq s) \<or> (\<exists>first n l. rph s = RCopy first n l)"
    using live assms(6,7) lim by (simp_all add: wlive_def)
  have "\<not> (rph s = RAsleep \<and> \<not> rwake s)"
  proof
    assume a: "rph s = RAsleep \<and> \<not> rwake s"
    with rd have "blocks (qq s) = []" by (simp add: rlive_def notempty_def)
    with inv have "len (qq s) = 0" by (simp add: sysinv_def qinv_def)
    with w(3) a half_bounds [OF assms(4)] show False by simp
  qed
  with w show ?thesis by blast
qed

definition sys_wasleep :: "u32 \<Rightarrow> byte list \<Rightarrow> QSys" where
  "sys_wasleep msg xs = (sys_written msg xs)\<lparr>
     qq := (qq (sys_written msg xs))\<lparr>state := setf (state (qq (sys_written msg xs))) Qflow\<rparr>,
     wph := WAsleep\<rparr>"

lemma sys_written_simps [simp]:
  "wph (sys_written m xs) = WCheck" "rph (sys_written m xs) = RIdle" "rwake (sys_written m xs) = True"
  "wwake (sys_written m xs) = False" "noblock (qq (sys_written m xs)) = False"
  "limit (qq (sys_written m xs)) = 64" "len (qq (sys_written m xs)) = int (length xs) + 64"
  "blocks (qq (sys_written m xs)) = [block_ex xs]" "kk (sys_written m xs) = tick kern_ex"
  "state (qq (sys_written m xs)) = clrf (setf m Qstarve) Qstarve"
  "log (qq (sys_written m xs)) = [WakeR]"
  by (simp_all add: sys_written_def queue_ex_def)

lemma sys_wasleep_reach:
  assumes "\<not> hasf msg Qclosed"
  shows "qreach (qsys0 (queue_ex msg) (tick kern_ex)) (sys_wasleep msg xs)"
  using writer_sleeps [of "sys_written msg xs"] assms
  by (intro qreach_trans [OF _ sys_written_reach]) (auto simp: sys_wasleep_def qnotfull_def)

theorem writer_wakeup_witness:
  "\<not> hasf (state (qq (sys_wasleep 0 [7]))) Qclosed \<and> hasf (state (qq (sys_wasleep 0 [7]))) Qflow \<and>
     half 64 \<le> len (qq (sys_wasleep 0 [7]))"
  using writer_wakeup [OF qopen_ex _ _ _ sys_wasleep_reach, of 0 "[7]"]
  by (simp add: sys_wasleep_def sys_written_def)

definition sys_deadlock :: QSys where
  "sys_deadlock = (sys_wasleep Qcoalesce [])\<lparr>
     qq := (qq (sys_wasleep Qcoalesce []))\<lparr>blocks := [], len := 0, dlen := 0,
        state := setf (state (qq (sys_wasleep Qcoalesce []))) Qstarve\<rparr>,
     rwake := False, rph := RAsleep\<rparr>"

text \<open>C38. On a queue that coalesces this fails: a write of no bytes fills the queue and puts
  the writer to sleep; a reader throws the empty block away, does not wake the writer, and goes
  to sleep too. Both sleep, with the queue empty and no wakeup on its way.\<close>

theorem coalesce_deadlock:
  "qreach (qsys0 (queue_ex Qcoalesce) (tick kern_ex)) sys_deadlock \<and>
     rph sys_deadlock = RAsleep \<and> wph sys_deadlock = WAsleep \<and> \<not> rwake sys_deadlock \<and>
     \<not> wwake sys_deadlock \<and> blocks (qq sys_deadlock) = []"
proof -
  let ?s = "sys_wasleep Qcoalesce []"
  let ?t = "?s\<lparr>rwake := False\<rparr>"
  let ?q = "(qq ?s)\<lparr>blocks := [], len := 0, dlen := 0, state := setf (state (qq ?s)) Qstarve\<rparr>"
  have nc: "\<not> hasf Qcoalesce Qclosed" "hasf Qcoalesce Qcoalesce"
    by (simp_all add: hasf_def qbit_defs)
  have "qstep ?s (?s\<lparr>rwake := False, rph := RIdle\<rparr>)"
    using qstep.rd_wakeup [of ?s] by (simp add: sys_wasleep_def)
  then have r1: "qreach ?s ?t" using qreach.more [OF qreach.start] by (simp add: sys_wasleep_def sys_written_def qsys0_def)
  have fr: "freeb (block_ex []) (tick kern_ex) = Ret () (tick kern_ex)"
    by (simp add: freeb_def block_ex_def)
  have "qread_get (qq ?t) 1 (kk ?t) = qread_get (snd (qremove (qq ?t))) 1 (kk ?t)"
    using nc fr by (simp add: sys_wasleep_def qread_get.simps [of "(qq (sys_written Qcoalesce []))\<lparr>state := _\<rparr>"])
  also have "\<dots> = Sleep (?q, kk ?t)"
    using nc by (simp add: sys_wasleep_def qremove_def qread_get_empty) (simp add: sys_written_def)
  finally have "qreach ?t (?t\<lparr>qq := ?q, kk := kk ?t, rph := RAsleep\<rparr>)"
    using nc by (intro reader_sleeps) (simp_all add: sys_wasleep_def notempty_def)
  from qreach_trans [OF this qreach_trans [OF r1 sys_wasleep_reach [OF nc(1)]]] show ?thesis
    by (simp add: sys_deadlock_def sys_wasleep_def) (simp add: sys_written_def qsys0_def)
qed

text \<open>C39. With \<^verbatim>\<open>qflush\<close> a reader's wakeup can be lost: a reader has marked the queue starved
  and is about to sleep; a write clears the mark and its wakeup finds nobody asleep; a flush
  empties the queue and does not restore the mark. The reader sleeps, and the next write,
  finding no mark, leaves it asleep with data in the queue, which is open.\<close>

theorem flush_lost_wakeup:
  "\<exists>s. qreachf (qsys0 (queue_ex 0) (tick kern_ex)) s \<and> rph s = RAsleep \<and> \<not> rwake s \<and>
     qbytes (qq s) = [2] \<and> \<not> hasf (state (qq s)) Qclosed \<and> \<not> hasf (state (qq s)) Qstarve"
proof -
  let ?w = "tick kern_ex"
  define q1 where "q1 = (queue_ex 0)\<lparr>state := setf (setf 0 Qstarve) Qstarve\<rparr>"
  define q2 where "q2 = q1\<lparr>blocks := [block_ex [1]], len := 65, dlen := 1,
      state := clrf (state q1) Qstarve, log := [WakeR]\<rparr>"
  define q3 where "q3 = q2\<lparr>blocks := [], len := 0, dlen := 0, log := [WakeR, WakeW]\<rparr>"
  define q4 where "q4 = q3\<lparr>blocks := [block_ex [2]], len := 65, dlen := 1\<rparr>"
  note qs = q1_def q2_def q3_def q4_def
  define st where "st q r p rw ww i = \<lparr>qq = q, kk = ?w, rph = r, wph = p, rwake = rw, wwake = ww,
      inp = i, outp = []\<rparr>" for q r p rw ww i
  have "qread_get (queue_ex 0) 1 ?w = Sleep (q1, ?w)" by (simp add: qread_get_empty q1_def)
  then have 1: "qstep (st (queue_ex 0) RIdle WIdle False False []) (st q1 RArmed WIdle False False [])"
    using qstep.rd_wait [of "st (queue_ex 0) RIdle WIdle False False []" 1 q1 ?w]
    by (simp add: st_def upd_def newev_def q1_def)
  have "qbwrite_add q1 (block_ex [1]) ?w = Ret True (q2, ?w)"
    by (simp add: qbwrite_add_def Let_def qs)
  then have 2: "qstep (st q1 RArmed WIdle False False []) (st q2 RArmed WCheck True False [(1, False)])"
    using qstep.wr_add [of "st q1 RArmed WIdle False False []" "block_ex [1]" q2 ?w]
    by (simp add: st_def upd_def newev_def q2_def q1_def accepted_def)
  have 3: "qstep (st q2 RArmed WCheck True False [(1, False)]) (st q2 RArmed WCheck False False [(1, False)])"
    using qstep.rd_wakeup [of "st q2 RArmed WCheck True False [(1, False)]"] by (simp add: st_def)
  have fr: "freeb (block_ex [1]) ?w = Ret () ?w" by (simp add: freeb_def block_ex_def)
  have "qflush q2 ?w = Ret () (q3, ?w)" by (simp add: qflush_def fr qs)
  then have 4: "qstepf (st q2 RArmed WCheck False False [(1, False)]) (st q3 RArmed WCheck False True [(1, True)])"
    using qstepf.dv_flush [of "st q2 RArmed WCheck False False [(1, False)]" "()" q3 ?w]
    by (simp add: st_def upd_def newev_def q3_def q2_def)
  have 5: "qstep (st q3 RArmed WCheck False True [(1, True)]) (st q3 RAsleep WCheck False True [(1, True)])"
    using qstep.rd_sleep [of "st q3 RArmed WCheck False True [(1, True)]"]
    by (simp add: st_def notempty_def qs)
  have 6: "qstep (st q3 RAsleep WCheck False True [(1, True)]) (st q3 RAsleep WIdle False True [(1, True)])"
    using qstep.wr_check [of "st q3 RAsleep WCheck False True [(1, True)]"]
    by (simp add: st_def qnotfull_def qs)
  have "qbwrite_add q3 (block_ex [2]) ?w = Ret True (q4, ?w)"
    by (simp add: qbwrite_add_def Let_def qs)
  then have 7: "qstep (st q3 RAsleep WIdle False True [(1, True)]) (st q4 RAsleep WCheck False True [(1, True), (2, False)])"
    using qstep.wr_add [of "st q3 RAsleep WIdle False True [(1, True)]" "block_ex [2]" q4 ?w]
    by (simp add: st_def upd_def newev_def q4_def q3_def accepted_def)
  have "qsys0 (queue_ex 0) ?w = st (queue_ex 0) RIdle WIdle False False []"
    by (simp add: qsys0_def st_def)
  then have "qreachf (qsys0 (queue_ex 0) ?w) (st q4 RAsleep WCheck False True [(1, True), (2, False)])"
    using qreachf.startf [THEN qreachf.moref, OF plain [OF 1], THEN qreachf.moref, OF plain [OF 2],
      THEN qreachf.moref, OF plain [OF 3], THEN qreachf.moref, OF 4, THEN qreachf.moref, OF plain [OF 5],
      THEN qreachf.moref, OF plain [OF 6], THEN qreachf.moref, OF plain [OF 7]] by simp
  moreover have "qbytes q4 = [2]" by (simp add: qbytes_def q4_def)
  moreover have "\<not> hasf (state q4) Qclosed \<and> \<not> hasf (state q4) Qstarve" by (simp add: qs)
  ultimately show ?thesis by (intro exI [of _ "st q4 RAsleep WCheck False True [(1, True), (2, False)]"]) (simp add: st_def)
qed

end
