(* ===== verification/Qlocks.thy ===== *)
theory Qlocks
  imports Prelude
begin

text \<open>
  The kernel's sleeping locks, \<^verbatim>\<open>sys/src/9k/port/qlock.c\<close>: the queueing lock \<^verbatim>\<open>QLock\<close> and the
  readers-writer lock \<^verbatim>\<open>RWlock\<close>, with the processes that use them.

  Each routine runs under the spin lock \<^verbatim>\<open>use\<close> and is one atomic step. Processes are
  numbers; the list from \<^verbatim>\<open>head\<close> to \<^verbatim>\<open>tail\<close> through \<^verbatim>\<open>qnext\<close> is a list of processes, for an
  \<^verbatim>\<open>RWlock\<close> with the state (\<^verbatim>\<open>QueueingR\<close> or \<^verbatim>\<open>QueueingW\<close>) each queued in. A routine that ends
  in \<^verbatim>\<open>sched()\<close> with the caller queued answers \<open>Queued\<close>; \<^verbatim>\<open>ready(p)\<close> is part of the answer of
  the routine that calls it. \<^verbatim>\<open>up\<close> is the calling process, \<open>None\<close> for nil.
\<close>

section \<open>State\<close>

datatype pstate = Queueing | QueueingR | QueueingW

datatype lockres = Got | Queued

record QLock =
  qhead :: "nat list"
  locked :: bool
  qpc :: nat

record RWlock =
  rwhead :: "(nat \<times> pstate) list"
  wpc :: nat
  wproc :: "nat option"
  readers :: int
  writer :: bool

record Rwstats =
  n_rlock :: u32
  n_rlockq :: u32
  n_wlock :: u32
  n_wlockq :: u32
  n_qlock :: u32
  n_qlockq :: u32

section \<open>QLock\<close>

definition qlock :: "nat option \<Rightarrow> nat \<Rightarrow> QLock \<Rightarrow> Rwstats \<Rightarrow> (lockres, QLock \<times> Rwstats) res" where
  "qlock up pc q st =
     (let st = st\<lparr>n_qlock := n_qlock st + 1\<rparr> in
      if \<not> locked q then Ret Got (q\<lparr>locked := True, qpc := pc\<rparr>, st)
      else case up of
        None \<Rightarrow> Panic ''qlock''
      | Some p \<Rightarrow>
          Ret Queued (q\<lparr>qhead := qhead q @ [p]\<rparr>, st\<lparr>n_qlockq := n_qlockq st + 1\<rparr>))"

text \<open>What a queued process does when it runs again.\<close>

definition qlock_resume :: "nat \<Rightarrow> QLock \<Rightarrow> QLock" where
  "qlock_resume pc q = q\<lparr>qpc := pc\<rparr>"

text \<open>\<open>can\<close> is the answer of \<^verbatim>\<open>canlock(&q->use)\<close>.\<close>

definition canqlock :: "bool \<Rightarrow> nat \<Rightarrow> QLock \<Rightarrow> bool \<times> QLock" where
  "canqlock can pc q =
     (if \<not> can then (False, q)
      else if locked q then (False, q)
      else (True, q\<lparr>locked := True, qpc := pc\<rparr>))"

text \<open>The answer is the process made ready, if any; a call without the lock held only prints.\<close>

definition qunlock :: "QLock \<Rightarrow> nat option \<times> QLock" where
  "qunlock q =
     (case qhead q of
        p # ps \<Rightarrow> (Some p, q\<lparr>qhead := ps\<rparr>)
      | [] \<Rightarrow> (None, q\<lparr>locked := False, qpc := 0\<rparr>))"

section \<open>RWlock\<close>

definition rlock :: "nat option \<Rightarrow> RWlock \<Rightarrow> Rwstats \<Rightarrow> (lockres, RWlock \<times> Rwstats) res" where
  "rlock up q st =
     (let st = st\<lparr>n_rlock := n_rlock st + 1\<rparr> in
      if \<not> writer q \<and> rwhead q = [] then Ret Got (q\<lparr>readers := readers q + 1\<rparr>, st)
      else
        let st = st\<lparr>n_rlockq := n_rlockq st + 1\<rparr> in
        case up of
          None \<Rightarrow> Panic ''rlock''
        | Some p \<Rightarrow> Ret Queued (q\<lparr>rwhead := rwhead q @ [(p, QueueingR)]\<rparr>, st))"

definition runlock :: "RWlock \<Rightarrow> (nat option, RWlock) res" where
  "runlock q =
     (let q' = q\<lparr>readers := readers q - 1\<rparr> in
      if readers q' > 0 then Ret None q'
      else case rwhead q of
        [] \<Rightarrow> Ret None q'
      | (p, s) # ps \<Rightarrow>
          if s \<noteq> QueueingW then Panic ''runlock''
          else Ret (Some p) (q'\<lparr>rwhead := ps, writer := True\<rparr>))"

definition wlock :: "nat option \<Rightarrow> nat \<Rightarrow> RWlock \<Rightarrow> Rwstats \<Rightarrow> (lockres, RWlock \<times> Rwstats) res" where
  "wlock up pc q st =
     (let st = st\<lparr>n_wlock := n_wlock st + 1\<rparr> in
      if readers q = 0 \<and> \<not> writer q
      then Ret Got (q\<lparr>wpc := pc, wproc := up, writer := True\<rparr>, st)
      else
        let st = st\<lparr>n_wlockq := n_wlockq st + 1\<rparr> in
        case up of
          None \<Rightarrow> Panic ''wlock''
        | Some p \<Rightarrow> Ret Queued (q\<lparr>rwhead := rwhead q @ [(p, QueueingW)]\<rparr>, st))"

text \<open>The loop of \<^verbatim>\<open>wunlock\<close> that wakes the readers at the front of the queue.\<close>

fun wake_readers :: "(nat \<times> pstate) list \<Rightarrow> int \<Rightarrow> nat list \<times> int \<times> (nat \<times> pstate) list" where
  "wake_readers [] n = ([], n, [])"
| "wake_readers ((p, s) # ps) n =
     (if s = QueueingR then
        (case wake_readers ps (n + 1) of (woken, m, rest) \<Rightarrow> (p # woken, m, rest))
      else ([], n, (p, s) # ps))"

definition wunlock :: "RWlock \<Rightarrow> (nat list, RWlock) res" where
  "wunlock q =
     (case rwhead q of
        [] \<Rightarrow> Ret [] (q\<lparr>writer := False\<rparr>)
      | (p, s) # ps \<Rightarrow>
          if s = QueueingW then Ret [p] (q\<lparr>rwhead := ps\<rparr>)
          else if s \<noteq> QueueingR then Panic ''wunlock''
          else case wake_readers (rwhead q) (readers q) of (woken, n, rest) \<Rightarrow>
            Ret woken (q\<lparr>rwhead := rest, readers := n, writer := False\<rparr>))"

definition canrlock :: "RWlock \<Rightarrow> Rwstats \<Rightarrow> bool \<times> RWlock \<times> Rwstats" where
  "canrlock q st =
     (let st = st\<lparr>n_rlock := n_rlock st + 1\<rparr> in
      if \<not> writer q \<and> rwhead q = [] then (True, q\<lparr>readers := readers q + 1\<rparr>, st)
      else (False, q, st))"

section \<open>The contract of a hand-off lock\<close>

text \<open>Processes that use one lock: each is away from it, queued, or the owner. \<open>enq\<close> and
  \<open>granted\<close> record, in order, who queued and to whom the lock was handed.\<close>

datatype lphase = Away | Waiting | Owner

record 'l LSys =
  lk :: 'l
  ph :: "nat \<Rightarrow> lphase"
  enq :: "nat list"
  granted :: "nat list"

inductive lstep ::
  "('l \<Rightarrow> nat \<Rightarrow> lockres \<times> 'l) \<Rightarrow> ('l \<Rightarrow> bool \<times> 'l) \<Rightarrow> ('l \<Rightarrow> nat option \<times> 'l) \<Rightarrow>
     'l LSys \<Rightarrow> 'l LSys \<Rightarrow> bool" for acq can rel where
  l_got: "ph s p = Away \<Longrightarrow> acq (lk s) p = (Got, l) \<Longrightarrow>
    lstep acq can rel s (s\<lparr>lk := l, ph := (ph s)(p := Owner)\<rparr>)"
| l_queue: "ph s p = Away \<Longrightarrow> acq (lk s) p = (Queued, l) \<Longrightarrow>
    lstep acq can rel s (s\<lparr>lk := l, ph := (ph s)(p := Waiting), enq := enq s @ [p]\<rparr>)"
| l_can: "ph s p = Away \<Longrightarrow> can (lk s) = (b, l) \<Longrightarrow>
    lstep acq can rel s (s\<lparr>lk := l, ph := (ph s)(p := if b then Owner else Away)\<rparr>)"
| l_free: "ph s p = Owner \<Longrightarrow> rel (lk s) = (None, l) \<Longrightarrow>
    lstep acq can rel s (s\<lparr>lk := l, ph := (ph s)(p := Away)\<rparr>)"
| l_hand: "ph s p = Owner \<Longrightarrow> rel (lk s) = (Some r, l) \<Longrightarrow>
    lstep acq can rel s (s\<lparr>lk := l, ph := (ph s)(p := Away, r := Owner), granted := granted s @ [r]\<rparr>)"

definition lsys0 :: "'l \<Rightarrow> 'l LSys" where
  "lsys0 l = \<lparr>lk = l, ph = (\<lambda>_. Away), enq = [], granted = []\<rparr>"

definition lreach where
  "lreach acq can rel = (lstep acq can rel)\<^sup>*\<^sup>*"

locale handoff =
  fixes held :: "'l \<Rightarrow> bool" and wait :: "'l \<Rightarrow> nat list"
    and acq :: "'l \<Rightarrow> nat \<Rightarrow> lockres \<times> 'l" and can :: "'l \<Rightarrow> bool \<times> 'l"
    and rel :: "'l \<Rightarrow> nat option \<times> 'l"
  assumes acq_free: "\<not> held l \<Longrightarrow> \<exists>l'. acq l p = (Got, l') \<and> held l' \<and> wait l' = wait l"
    and acq_busy: "held l \<Longrightarrow> \<exists>l'. acq l p = (Queued, l') \<and> held l' \<and> wait l' = wait l @ [p]"
    and can_law: "can l = (b, l') \<Longrightarrow>
      wait l' = wait l \<and> (if b then \<not> held l \<and> held l' else held l' = held l)"
    and rel_hand: "held l \<Longrightarrow> wait l = r # rs \<Longrightarrow> \<exists>l'. rel l = (Some r, l') \<and> held l' \<and> wait l' = rs"
    and rel_free: "held l \<Longrightarrow> wait l = [] \<Longrightarrow> \<exists>l'. rel l = (None, l') \<and> \<not> held l' \<and> wait l' = []"
begin

definition linv :: "'l LSys \<Rightarrow> bool" where
  "linv s \<longleftrightarrow> (if held (lk s) then \<exists>p. \<forall>r. ph s r = Owner \<longleftrightarrow> r = p
      else (\<forall>r. ph s r \<noteq> Owner) \<and> wait (lk s) = []) \<and>
    distinct (wait (lk s)) \<and> (\<forall>r. ph s r = Waiting \<longleftrightarrow> r \<in> set (wait (lk s))) \<and>
    enq s = granted s @ wait (lk s)"

lemma linv_step: "lstep acq can rel s t \<Longrightarrow> linv s \<Longrightarrow> linv t"
proof (induction rule: lstep.induct)
  case (l_got s p l)
  with acq_free [of "lk s" p] acq_busy [of "lk s" p] show ?case
    by (cases "held (lk s)") (auto simp: linv_def)
next
  case (l_queue s p l)
  then have h: "held (lk s)" "held l" "wait l = wait (lk s) @ [p]"
    using acq_free [of "lk s" p] acq_busy [of "lk s" p] by (cases "held (lk s)"; auto)+
  obtain o1 where "\<forall>r. ph s r = Owner \<longleftrightarrow> r = o1" using l_queue.prems h(1) by (auto simp: linv_def)
  moreover from this l_queue.hyps(1) have "o1 \<noteq> p" by (metis lphase.distinct(3))
  moreover have "p \<notin> set (wait (lk s))"
    using l_queue.prems l_queue.hyps(1) unfolding linv_def by (metis lphase.distinct(1))
  ultimately show ?case using l_queue h by (auto simp: linv_def)
next
  case (l_can s p b l)
  show ?case
  proof (cases b)
    case True
    with l_can can_law [of "lk s" b l] show ?thesis by (auto simp: linv_def)
  next
    case False
    have "(ph s)(p := Away) = ph s" using l_can.hyps(1) by (simp add: fun_upd_idem)
    with False l_can can_law [of "lk s" b l] show ?thesis by (simp add: linv_def)
  qed
next
  case (l_free s p l)
  then have h: "held (lk s)" by (auto simp: linv_def split: if_splits)
  moreover have w: "wait (lk s) = []"
    using l_free.hyps(2) rel_hand [OF h] by (cases "wait (lk s)") auto
  ultimately show ?case using rel_free [OF h w] l_free by (auto simp: linv_def)
next
  case (l_hand s p r l)
  then have h: "held (lk s)" by (auto simp: linv_def split: if_splits)
  obtain rs where w: "wait (lk s) = r # rs" "held l" "wait l = rs"
    using l_hand.hyps(2) rel_hand [OF h] rel_free [OF h] by (cases "wait (lk s)") auto
  moreover have "ph s r = Waiting" "\<forall>x. ph s x = Owner \<longleftrightarrow> x = p"
    using l_hand.prems l_hand.hyps(1) h w(1) by (auto simp: linv_def)
  moreover have "p \<notin> set (wait (lk s))"
    using l_hand.prems l_hand.hyps(1) unfolding linv_def by (metis lphase.distinct(5))
  ultimately show ?case using l_hand.prems h by (auto simp: linv_def)
qed

lemma linv_reach: "lreach acq can rel s t \<Longrightarrow> linv s \<Longrightarrow> linv t"
  unfolding lreach_def by (induction rule: rtranclp_induct) (auto intro: linv_step)

lemma linv_start: "\<not> held l \<Longrightarrow> wait l = [] \<Longrightarrow> linv (lsys0 l)"
  by (simp add: linv_def lsys0_def)

lemma mutex:
  assumes "lreach acq can rel (lsys0 l) s" "\<not> held l" "wait l = []"
  shows "ph s p = Owner \<Longrightarrow> ph s r = Owner \<Longrightarrow> p = r"
    and "enq s = granted s @ wait (lk s)"
    and "ph s p = Waiting \<Longrightarrow> p \<in> set (wait (lk s)) \<and> (\<exists>r. ph s r = Owner)"
  using linv_reach [OF assms(1) linv_start [OF assms(2,3)]]
  by (auto simp: linv_def split: if_splits)

end

section \<open>QLock keeps the contract\<close>

definition kq_acq :: "QLock \<times> Rwstats \<Rightarrow> nat \<Rightarrow> lockres \<times> QLock \<times> Rwstats" where
  "kq_acq l p = (case qlock (Some p) p (fst l) (snd l) of Ret r l' \<Rightarrow> (r, l') | _ \<Rightarrow> (Queued, l))"

definition kq_can :: "QLock \<times> Rwstats \<Rightarrow> bool \<times> QLock \<times> Rwstats" where
  "kq_can l = (case canqlock True 0 (fst l) of (b, q) \<Rightarrow> (b, q, snd l))"

definition kq_rel :: "QLock \<times> Rwstats \<Rightarrow> nat option \<times> QLock \<times> Rwstats" where
  "kq_rel l = (case qunlock (fst l) of (r, q) \<Rightarrow> (r, q, snd l))"

interpretation kq: handoff "\<lambda>l. locked (fst l)" "\<lambda>l. qhead (fst l)" kq_acq kq_can kq_rel
  by unfold_locales
     (auto simp: kq_acq_def kq_can_def kq_rel_def qlock_def canqlock_def qunlock_def Let_def split: if_splits)

section \<open>Readers and writers\<close>

datatype rwphase = RwAway | RwWaitR | RwWaitW | Reading | Writing

record RWSys =
  rwl :: RWlock
  rws :: Rwstats
  rwp :: "nat \<Rightarrow> rwphase"
  rwenq :: "nat list"
  rwgranted :: "nat list"

fun grant :: "rwphase \<Rightarrow> rwphase" where
  "grant RwWaitR = Reading"
| "grant RwWaitW = Writing"
| "grant x = x"

inductive rwstep :: "RWSys \<Rightarrow> RWSys \<Rightarrow> bool" where
  r_got: "rwp s p = RwAway \<Longrightarrow> rlock (Some p) (rwl s) (rws s) = Ret Got (q, st) \<Longrightarrow>
    rwstep s (s\<lparr>rwl := q, rws := st, rwp := (rwp s)(p := Reading)\<rparr>)"
| r_queue: "rwp s p = RwAway \<Longrightarrow> rlock (Some p) (rwl s) (rws s) = Ret Queued (q, st) \<Longrightarrow>
    rwstep s (s\<lparr>rwl := q, rws := st, rwp := (rwp s)(p := RwWaitR), rwenq := rwenq s @ [p]\<rparr>)"
| r_can: "rwp s p = RwAway \<Longrightarrow> canrlock (rwl s) (rws s) = (b, q, st) \<Longrightarrow>
    rwstep s (s\<lparr>rwl := q, rws := st, rwp := (rwp s)(p := if b then Reading else RwAway)\<rparr>)"
| w_got: "rwp s p = RwAway \<Longrightarrow> wlock (Some p) pc (rwl s) (rws s) = Ret Got (q, st) \<Longrightarrow>
    rwstep s (s\<lparr>rwl := q, rws := st, rwp := (rwp s)(p := Writing)\<rparr>)"
| w_queue: "rwp s p = RwAway \<Longrightarrow> wlock (Some p) pc (rwl s) (rws s) = Ret Queued (q, st) \<Longrightarrow>
    rwstep s (s\<lparr>rwl := q, rws := st, rwp := (rwp s)(p := RwWaitW), rwenq := rwenq s @ [p]\<rparr>)"
| r_rel: "rwp s p = Reading \<Longrightarrow> runlock (rwl s) = Ret None q \<Longrightarrow>
    rwstep s (s\<lparr>rwl := q, rwp := (rwp s)(p := RwAway)\<rparr>)"
| r_hand: "rwp s p = Reading \<Longrightarrow> runlock (rwl s) = Ret (Some r) q \<Longrightarrow>
    rwstep s (s\<lparr>rwl := q, rwp := (rwp s)(p := RwAway, r := Writing), rwgranted := rwgranted s @ [r]\<rparr>)"
| w_rel: "rwp s p = Writing \<Longrightarrow> wunlock (rwl s) = Ret woken q \<Longrightarrow>
    rwstep s (s\<lparr>rwl := q, rwgranted := rwgranted s @ woken,
      rwp := (\<lambda>r. if r = p then RwAway else if r \<in> set woken then grant (rwp s r) else rwp s r)\<rparr>)"

definition rwsys0 :: "Rwstats \<Rightarrow> RWSys" where
  "rwsys0 st = \<lparr>rwl = \<lparr>rwhead = [], wpc = 0, wproc = None, readers = 0, writer = False\<rparr>, rws = st,
     rwp = (\<lambda>_. RwAway), rwenq = [], rwgranted = []\<rparr>"

definition rwreach :: "RWSys \<Rightarrow> RWSys \<Rightarrow> bool" where
  "rwreach = rwstep\<^sup>*\<^sup>*"

fun waits :: "rwphase \<Rightarrow> pstate \<Rightarrow> bool" where
  "waits RwWaitR x = (x = QueueingR)"
| "waits RwWaitW x = (x = QueueingW)"
| "waits _ x = False"

text \<open>Who queues is whom the queue holds.\<close>

definition queued :: "RWSys \<Rightarrow> bool" where
  "queued s \<longleftrightarrow> distinct (map fst (rwhead (rwl s))) \<and>
     (\<forall>p x. (p, x) \<in> set (rwhead (rwl s)) \<longleftrightarrow> waits (rwp s p) x) \<and>
     rwenq s = rwgranted s @ map fst (rwhead (rwl s))"

definition rdset :: "RWSys \<Rightarrow> nat set" where
  "rdset s = {p. rwp s p = Reading}"

definition rwinv :: "RWSys \<Rightarrow> bool" where
  "rwinv s \<longleftrightarrow> queued s \<and> finite (rdset s) \<and> readers (rwl s) = int (card (rdset s)) \<and>
     (if writer (rwl s) then readers (rwl s) = 0 \<and> (\<exists>p. \<forall>r. rwp s r = Writing \<longleftrightarrow> r = p)
      else (\<forall>r. rwp s r \<noteq> Writing) \<and> (readers (rwl s) = 0 \<longrightarrow> rwhead (rwl s) = []) \<and>
           (rwhead (rwl s) \<noteq> [] \<longrightarrow> snd (hd (rwhead (rwl s))) = QueueingW))"

lemma wake_readers_spec:
  "wake_readers ps n = (woken, m, rest) \<Longrightarrow>
     \<exists>front. ps = front @ rest \<and> woken = map fst front \<and> m = n + int (length front) \<and>
       (\<forall>x \<in> set front. snd x = QueueingR) \<and> (rest \<noteq> [] \<longrightarrow> snd (hd rest) \<noteq> QueueingR)"
proof (induction ps n arbitrary: woken m rest rule: wake_readers.induct)
  case (2 p s ps n)
  show ?case
  proof (cases "s = QueueingR")
    case True
    obtain wk m' rest' where w: "wake_readers ps (n + 1) = (wk, m', rest')" by (metis prod_cases3)
    with 2 True obtain front where f: "ps = front @ rest'" "wk = map fst front"
      "m' = n + 1 + int (length front)" "\<forall>x \<in> set front. snd x = QueueingR"
      "rest' \<noteq> [] \<longrightarrow> snd (hd rest') \<noteq> QueueingR" by blast
    with 2(2) True w show ?thesis by (intro exI [of _ "(p, s) # front"]) auto
  qed (use 2(2) in auto)
qed simp

lemma rdset_upd:
  assumes "rwp t = (rwp s)(p := x)" "rwp s p = RwAway" "finite (rdset s)"
  shows "rdset t = (if x = Reading then insert p (rdset s) else rdset s)" "p \<notin> rdset s"
  using assms by (auto simp: rdset_def)

lemma queued_notin:
  "queued s \<Longrightarrow> rwp s p \<notin> {RwWaitR, RwWaitW} \<Longrightarrow> p \<notin> fst ` set (rwhead (rwl s))"
  by (cases "rwp s p") (auto simp: queued_def)

lemma queued_add:
  assumes "queued s" "rwp s p = RwAway" "rwhead (rwl t) = rwhead (rwl s) @ [(p, x)]"
    "rwp t = (rwp s)(p := y)" "waits y x" "rwenq t = rwenq s @ [p]" "rwgranted t = rwgranted s"
  shows "queued t"
proof -
  have np: "p \<notin> fst ` set (rwhead (rwl s))" using queued_notin [OF assms(1)] assms(2) by simp
  have y: "waits y z = (z = x)" for z using assms(5) by (cases y) auto
  have "(a, b) \<in> set (rwhead (rwl s)) = waits (rwp s a) b" for a b
    using assms(1) by (simp add: queued_def)
  with np assms y show ?thesis by (auto simp: queued_def)
qed

lemma queued_same:
  assumes "queued s" "rwp s p \<notin> {RwWaitR, RwWaitW}" "rwhead (rwl t) = rwhead (rwl s)"
    "rwp t = (rwp s)(p := x)" "rwenq t = rwenq s" "rwgranted t = rwgranted s" "x \<notin> {RwWaitR, RwWaitW}"
  shows "queued t"
proof -
  have "waits x z = False" "waits (rwp s p) z = False" for z
    using assms(2,7) by (cases x; cases "rwp s p"; simp)+
  moreover have "(a, b) \<in> set (rwhead (rwl s)) = waits (rwp s a) b" for a b
    using assms(1) by (simp add: queued_def)
  ultimately show ?thesis using assms(1,3-6) by (simp add: queued_def)
qed

text \<open>The processes at the front of the queue are let in, and the one that let them in
  leaves.\<close>

lemma queued_grant:
  assumes "queued s" "rwp s p \<notin> {RwWaitR, RwWaitW}" "rwhead (rwl s) = front @ rwhead (rwl t)"
    "rwp t = (\<lambda>r. if r = p then RwAway else if r \<in> fst ` set front then grant (rwp s r) else rwp s r)"
    "rwenq t = rwenq s" "rwgranted t = rwgranted s @ map fst front"
  shows "queued t"
proof -
  have m: "(a, b) \<in> set (rwhead (rwl s)) = waits (rwp s a) b" for a b
    using assms(1) by (simp add: queued_def)
  have d: "distinct (map fst (front @ rwhead (rwl t)))" using assms(1,3) by (simp add: queued_def)
  then have dj: "fst ` set front \<inter> fst ` set (rwhead (rwl t)) = {}" by simp
  have "(a, b) \<in> set (rwhead (rwl t)) \<longleftrightarrow> waits (rwp t a) b" for a b
  proof (cases "a \<in> fst ` set front")
    case True
    then have "(a, b) \<notin> set (rwhead (rwl t))" using dj by force
    moreover have "\<not> waits (grant x) b" for x by (cases x) simp_all
    ultimately show ?thesis using True by (simp add: assms(4))
  next
    case False
    then have "(a, b) \<in> set (rwhead (rwl t)) \<longleftrightarrow> (a, b) \<in> set (rwhead (rwl s))"
      by (force simp: assms(3))
    then show ?thesis using False m assms(2) by (cases "rwp s a") (auto simp: assms(4))
  qed
  with d assms(1,3,5,6) show ?thesis by (simp add: queued_def)
qed

lemma rwinv_got:
  assumes "rwinv s" "rwp s p = RwAway" "\<not> writer (rwl s)" "rwhead (rwl s) = []"
    "rwl t = (rwl s)\<lparr>readers := readers (rwl s) + 1\<rparr>" "rwp t = (rwp s)(p := Reading)"
    "rwenq t = rwenq s" "rwgranted t = rwgranted s"
  shows "rwinv t"
proof -
  have "queued t" by (rule queued_same [of s p]) (use assms in \<open>auto simp: rwinv_def\<close>)
  moreover have "rdset t = insert p (rdset s)" "p \<notin> rdset s" using assms(2,6) by (auto simp: rdset_def)
  ultimately show ?thesis using assms by (auto simp: rwinv_def)
qed

lemma rwinv_queue:
  assumes "rwinv s" "rwp s p = RwAway" "rwl t = (rwl s)\<lparr>rwhead := rwhead (rwl s) @ [(p, x)]\<rparr>"
    "rwp t = (rwp s)(p := y)" "waits y x" "rwenq t = rwenq s @ [p]" "rwgranted t = rwgranted s"
    "writer (rwl s) \<or> readers (rwl s) \<noteq> 0 \<and> (rwhead (rwl s) = [] \<longrightarrow> x = QueueingW)"
  shows "rwinv t"
proof -
  have "queued t" by (rule queued_add [of s p _ x y]) (use assms in \<open>auto simp: rwinv_def\<close>)
  moreover have "y \<noteq> Reading" "y \<noteq> Writing" using assms(5) by auto
  moreover have "rdset t = rdset s" using assms(2,4) \<open>y \<noteq> Reading\<close> by (auto simp: rdset_def)
  moreover have "(\<forall>r. rwp t r = Writing \<longleftrightarrow> rwp s r = Writing)"
    using assms(2,4) \<open>y \<noteq> Writing\<close> by auto
  ultimately show ?thesis
    using assms(1,3,8) by (cases "rwhead (rwl s)") (auto simp: rwinv_def)
qed

lemma rwinv_rel:
  assumes "rwinv s" "rwp s p = Reading" "rwp t = (rwp s)(p := RwAway)"
    "rwl t = (rwl s)\<lparr>readers := readers (rwl s) - 1\<rparr>" "rwenq t = rwenq s" "rwgranted t = rwgranted s"
    "readers (rwl s) > 1 \<or> rwhead (rwl s) = []"
  shows "rwinv t"
proof -
  have "queued t" by (rule queued_same [of s p]) (use assms in \<open>auto simp: rwinv_def\<close>)
  moreover have rd: "rdset t = rdset s - {p}" "p \<in> rdset s" using assms(2,3) by (auto simp: rdset_def)
  moreover have "finite (rdset s)" using assms(1) by (simp add: rwinv_def)
  moreover from this rd have "int (card (rdset t)) = int (card (rdset s)) - 1"
    using card_Suc_Diff1 [of "rdset s" p] by simp
  moreover have "\<not> writer (rwl s)"
    using assms(1) rd(2) calculation(4) by (auto simp: rwinv_def)
  ultimately show ?thesis using assms by (auto simp: rwinv_def)
qed

lemma rwinv_hand:
  assumes "rwinv s" "rwp s p = Reading" "readers (rwl s) \<le> 1" "rwhead (rwl s) = (r, QueueingW) # ps"
    "rwp t = (rwp s)(p := RwAway, r := Writing)"
    "rwl t = (rwl s)\<lparr>readers := readers (rwl s) - 1, rwhead := ps, writer := True\<rparr>"
    "rwenq t = rwenq s" "rwgranted t = rwgranted s @ [r]"
  shows "rwinv t"
proof -
  have fin: "finite (rdset s)" "p \<in> rdset s" "readers (rwl s) = int (card (rdset s))" "queued s"
    using assms(1,2) by (simp_all add: rwinv_def rdset_def)
  then have "card (rdset s) = 1" using assms(3) by (metis card_0_eq empty_iff le_antisym less_one linorder_not_le of_nat_1 of_nat_le_iff)
  then have one: "rdset s = {p}" "readers (rwl s) = 1" using fin by (auto simp: card_1_singleton_iff)
  have r: "waits (rwp s r) QueueingW" using fin(4) assms(4) unfolding queued_def by (metis list.set_intros(1))
  then have "rwp s r = RwWaitW" by (cases "rwp s r") simp_all
  moreover have nw: "\<not> writer (rwl s)" using assms(1) one(2) by (auto simp: rwinv_def)
  moreover have "rwp t = (\<lambda>x. if x = p then RwAway else if x \<in> fst ` set [(r, QueueingW)] then grant (rwp s x) else rwp s x)"
    using assms(2,5) calculation(1) by (auto simp: fun_eq_iff)
  ultimately have "queued t"
    by (intro queued_grant [OF fin(4), of p "[(r, QueueingW)]"]) (use assms in auto)
  moreover have "rdset t = {}" using one(1) assms(5) by (auto simp: rdset_def)
  moreover have "\<forall>x. rwp t x = Writing \<longleftrightarrow> x = r"
    using assms(1,5) nw by (auto simp: rwinv_def)
  ultimately show ?thesis using one(2) assms(6) by (auto simp: rwinv_def)
qed

lemma rwinv_wrel:
  assumes "rwinv s" "rwp s p = Writing" "wunlock (rwl s) = Ret woken q"
    "rwp t = (\<lambda>r. if r = p then RwAway else if r \<in> set woken then grant (rwp s r) else rwp s r)"
    "rwl t = q" "rwenq t = rwenq s" "rwgranted t = rwgranted s @ woken"
  shows "rwinv t"
proof -
  have w: "writer (rwl s)" "readers (rwl s) = 0" "rdset s = {}" "\<forall>r. rwp s r = Writing \<longleftrightarrow> r = p" "queued s"
    using assms(1,2) by (auto simp: rwinv_def split: if_splits)
  have m: "(a, b) \<in> set (rwhead (rwl s)) = waits (rwp s a) b" for a b
    using w(5) by (simp add: queued_def)
  have front: "queued t" if "rwhead (rwl s) = front @ rwhead q" "woken = map fst front" for front
    by (rule queued_grant [OF w(5), of p front]) (use that assms in auto)
  show ?thesis
  proof (cases "rwhead (rwl s)")
    case Nil
    then have q: "woken = []" "q = (rwl s)\<lparr>writer := False\<rparr>" using assms(3) by (simp_all add: wunlock_def)
    with Nil have "queued t" by (intro front [of "[]"]) simp_all
    with q Nil w assms(4,5) show ?thesis by (auto simp: rwinv_def rdset_def)
  next
    case (Cons h ps)
    obtain r x where h: "h = (r, x)" by (cases h)
    have rx: "waits (rwp s r) x" using m [of r x] Cons h by simp
    have rp: "r \<noteq> p" using rx assms(2) by auto
    show ?thesis
    proof (cases "x = QueueingW")
      case True
      then have q: "woken = [r]" "q = (rwl s)\<lparr>rwhead := ps\<rparr>" using assms(3) Cons h by (simp_all add: wunlock_def)
      with Cons h have "queued t" by (intro front [of "[h]"]) simp_all
      moreover have "rwp s r = RwWaitW" using rx True by (cases "rwp s r") simp_all
      ultimately show ?thesis
        using q w assms(4,5) rp by (auto simp: rwinv_def rdset_def)
    next
      case False
      then have x: "x = QueueingR" using assms(3) Cons h by (auto simp: wunlock_def split: if_splits)
      obtain wk n rest where wr: "wake_readers (rwhead (rwl s)) (readers (rwl s)) = (wk, n, rest)"
        by (metis prod_cases3)
      then have q: "woken = wk" "q = (rwl s)\<lparr>rwhead := rest, readers := n, writer := False\<rparr>"
        using assms(3) Cons h x by (simp_all add: wunlock_def)
      obtain fr where f: "rwhead (rwl s) = fr @ rest" "wk = map fst fr" "n = int (length fr)"
        "\<forall>y \<in> set fr. snd y = QueueingR" "rest \<noteq> [] \<longrightarrow> snd (hd rest) \<noteq> QueueingR"
        using wake_readers_spec [OF wr] w(2) by auto
      have qt: "queued t" using f q by (intro front [of fr]) simp_all
      have rd: "rwp s a = RwWaitR" if "a \<in> fst ` set fr" for a
      proof -
        from that f(4) have "(a, QueueingR) \<in> set fr" by force
        with m [of a QueueingR] f(1) show ?thesis by (cases "rwp s a") auto
      qed
      then have "p \<notin> fst ` set fr" using assms(2) by fastforce
      then have rs: "rdset t = fst ` set fr"
        using assms(4) rd w(3,4) q(1) f(2) by (auto simp: rdset_def split: if_splits)
      have "distinct (map fst fr)" using w(5) f(1) by (simp add: queued_def)
      then have card: "card (rdset t) = length fr" "finite (rdset t)"
        unfolding rs by (metis distinct_card length_map list.set_map) simp
      have nW: "rwp t a \<noteq> Writing" for a
        using assms(4) rd w(4) q(1) f(2) by auto
      have fne: "fr \<noteq> []" using f(1,5) Cons h x by auto
      have "snd (hd rest) = QueueingW" if "rest \<noteq> []"
      proof -
        obtain a b where ab: "hd rest = (a, b)" by (cases "hd rest")
        with that have "(a, b) \<in> set (rwhead (rwl s))" by (simp add: f(1)) (metis list.set_sel(1))
        with m f(5) that ab show ?thesis by (cases "rwp s a") auto
      qed
      with qt card nW fne f(3) q(2) assms(5) show ?thesis by (simp add: rwinv_def)
    qed
  qed
qed

lemma rwinv_rws: "rwinv (s\<lparr>rws := st\<rparr>) = rwinv s"
  by (simp add: rwinv_def queued_def rdset_def)

lemma rwinv_step: "rwstep s t \<Longrightarrow> rwinv s \<Longrightarrow> rwinv t"
proof (induction rule: rwstep.induct)
  case (r_got s p q st)
  then show ?case
    by - (rule rwinv_got [of s p], auto simp: rlock_def Let_def split: if_splits)
next
  case (r_queue s p q st)
  then have "q = (rwl s)\<lparr>rwhead := rwhead (rwl s) @ [(p, QueueingR)]\<rparr>" "writer (rwl s) \<or> rwhead (rwl s) \<noteq> []"
    by (auto simp: rlock_def Let_def split: if_splits)
  with r_queue show ?case
    by - (rule rwinv_queue [of s p _ QueueingR RwWaitR], auto simp: rwinv_def split: if_splits)
next
  case (r_can s p b q st)
  show ?case
  proof (cases b)
    case True
    with r_can show ?thesis
      by - (rule rwinv_got [of s p], auto simp: canrlock_def Let_def split: if_splits)
  next
    case False
    have "(rwp s)(p := RwAway) = rwp s" using r_can.hyps(1) by (simp add: fun_upd_idem)
    moreover have "q = rwl s" using False r_can.hyps(2) by (auto simp: canrlock_def Let_def split: if_splits)
    ultimately show ?thesis using False r_can.prems rwinv_rws [of st s] by simp
  qed
next
  case (w_got s p pc q st)
  then have q: "q = (rwl s)\<lparr>wpc := pc, wproc := Some p, writer := True\<rparr>" "readers (rwl s) = 0" "\<not> writer (rwl s)"
    by (auto simp: wlock_def Let_def split: if_splits)
  let ?t = "s\<lparr>rwl := q, rws := st, rwp := (rwp s)(p := Writing)\<rparr>"
  have "queued ?t" by (rule queued_same [of s p]) (use w_got q in \<open>auto simp: rwinv_def\<close>)
  with w_got q show ?case by (auto simp: rwinv_def rdset_def)
next
  case (w_queue s p pc q st)
  then have "q = (rwl s)\<lparr>rwhead := rwhead (rwl s) @ [(p, QueueingW)]\<rparr>" "readers (rwl s) \<noteq> 0 \<or> writer (rwl s)"
    by (auto simp: wlock_def Let_def split: if_splits)
  with w_queue show ?case
    by - (rule rwinv_queue [of s p _ QueueingW RwWaitW], auto)
next
  case (r_rel s p q)
  then show ?case
    by - (rule rwinv_rel [of s p], auto simp: runlock_def Let_def split: if_splits list.splits)
next
  case (r_hand s p r q)
  then obtain ps where "rwhead (rwl s) = (r, QueueingW) # ps" "readers (rwl s) \<le> 1"
    "q = (rwl s)\<lparr>readers := readers (rwl s) - 1, rwhead := ps, writer := True\<rparr>"
    by (auto simp: runlock_def Let_def split: if_splits list.splits)
  with r_hand show ?case by - (rule rwinv_hand [of s p r ps], auto)
next
  case (w_rel s p woken q)
  show ?case by (rule rwinv_wrel [OF w_rel.prems w_rel.hyps]) simp_all
qed

lemma rwinv_start: "rwinv (rwsys0 st)"
  by (simp add: rwinv_def rwsys0_def queued_def rdset_def)

lemma rwinv_reach: "rwreach (rwsys0 st) s \<Longrightarrow> rwinv s"
  unfolding rwreach_def
  by (induction rule: rtranclp_induct) (auto intro: rwinv_step rwinv_start)

section \<open>Properties\<close>

text \<open>C4. Mutual exclusion and fairness of the queueing lock: in every run of processes that
  lock, try to lock and unlock, at most one owns the lock; the lock is handed out in the order
  in which processes queued; and while a process waits, some process owns the lock and will
  hand it on.\<close>

theorem qlock_mutex:
  assumes "lreach kq_acq kq_can kq_rel (lsys0 (q, st)) s" "\<not> locked q" "qhead q = []"
  shows "(\<forall>p r. ph s p = Owner \<and> ph s r = Owner \<longrightarrow> p = r) \<and>
     enq s = granted s @ qhead (fst (lk s)) \<and>
     (\<forall>p. ph s p = Waiting \<longrightarrow> p \<in> set (qhead (fst (lk s))) \<and> (\<exists>r. ph s r = Owner))"
  using kq.mutex [OF assms(1)] assms(2,3) by auto

definition qlock_ex :: QLock where
  "qlock_ex = \<lparr>qhead = [], locked = False, qpc = 0\<rparr>"

definition stats_ex :: Rwstats where
  "stats_ex = \<lparr>n_rlock = 0, n_rlockq = 0, n_wlock = 0, n_wlockq = 0, n_qlock = 0, n_qlockq = 0\<rparr>"

text \<open>Process 1 has the lock, process 2 waits for it.\<close>

definition lsys_ex :: "(QLock \<times> Rwstats) LSys" where
  "lsys_ex = \<lparr>lk = (\<lparr>qhead = [2], locked = True, qpc = 1\<rparr>, stats_ex\<lparr>n_qlock := 2, n_qlockq := 1\<rparr>),
     ph = (\<lambda>_. Away)(1 := Owner, 2 := Waiting), enq = [2], granted = []\<rparr>"

lemma lsys_ex_reach: "lreach kq_acq kq_can kq_rel (lsys0 (qlock_ex, stats_ex)) lsys_ex"
proof -
  let ?s = "lsys0 (qlock_ex, stats_ex)"
  let ?l = "(qlock_ex\<lparr>locked := True, qpc := 1\<rparr>, stats_ex\<lparr>n_qlock := 1\<rparr>)"
  let ?t = "?s\<lparr>lk := ?l, ph := (\<lambda>_. Away)(1 := Owner)\<rparr>"
  have "lstep kq_acq kq_can kq_rel ?s ?t"
    using lstep.l_got [of ?s 1 kq_acq ?l kq_can kq_rel]
    by (simp add: lsys0_def kq_acq_def qlock_def qlock_ex_def stats_ex_def)
  moreover have "lstep kq_acq kq_can kq_rel ?t lsys_ex"
    using lstep.l_queue [of ?t 2 kq_acq "lk lsys_ex" kq_can kq_rel]
    by (simp add: lsys0_def kq_acq_def qlock_def qlock_ex_def stats_ex_def lsys_ex_def)
  ultimately show ?thesis by (simp add: lreach_def)
qed

theorem qlock_mutex_witness:
  "enq lsys_ex = granted lsys_ex @ qhead (fst (lk lsys_ex)) \<and> 2 \<in> set (qhead (fst (lk lsys_ex))) \<and>
     (\<exists>r. ph lsys_ex r = Owner)"
proof -
  have "ph lsys_ex 2 = Waiting" by (simp add: lsys_ex_def)
  moreover have "\<not> locked qlock_ex" "qhead qlock_ex = []" by (simp_all add: qlock_ex_def)
  ultimately show ?thesis using qlock_mutex [OF lsys_ex_reach] by blast
qed

text \<open>C5. Exclusion of the readers-writer lock: a writer excludes every reader and every other
  writer, the reader count is the number of readers, and the lock is handed out in the order
  in which processes queued.\<close>

theorem rwlock_exclusion:
  assumes "rwreach (rwsys0 st) s"
  shows "(\<forall>p r. rwp s p = Writing \<longrightarrow> rwp s r \<noteq> Reading \<and> (rwp s r = Writing \<longrightarrow> r = p)) \<and>
     readers (rwl s) = int (card {p. rwp s p = Reading}) \<and>
     rwenq s = rwgranted s @ map fst (rwhead (rwl s))"
proof -
  have inv: "rwinv s" by (rule rwinv_reach [OF assms])
  then have "queued s" "finite (rdset s)" "readers (rwl s) = int (card (rdset s))"
    by (simp_all add: rwinv_def)
  moreover have "rwp s r \<noteq> Reading \<and> (rwp s r = Writing \<longrightarrow> r = p)" if "rwp s p = Writing" for p r
  proof -
    from inv that have "writer (rwl s)" by (auto simp: rwinv_def split: if_splits)
    with inv have "rdset s = {}" "\<exists>p. \<forall>r. rwp s r = Writing \<longleftrightarrow> r = p" by (auto simp: rwinv_def)
    with that show ?thesis by (auto simp: rdset_def)
  qed
  ultimately show ?thesis by (auto simp: queued_def rdset_def)
qed

text \<open>C34. The panics of \<^verbatim>\<open>runlock\<close> and \<^verbatim>\<open>wunlock\<close> are unreachable when they are called by a
  process that has the lock, and nobody waits for a lock nobody has.\<close>

theorem rwlock_no_panic:
  assumes "rwreach (rwsys0 st) s"
  shows "(rwp s p = Reading \<longrightarrow> (\<exists>r q. runlock (rwl s) = Ret r q)) \<and>
     (rwp s p = Writing \<longrightarrow> (\<exists>woken q. wunlock (rwl s) = Ret woken q)) \<and>
     (rwhead (rwl s) \<noteq> [] \<longrightarrow> (\<exists>r. rwp s r \<in> {Reading, Writing}))"
proof -
  have inv: "rwinv s" by (rule rwinv_reach [OF assms])
  have "\<exists>r q. runlock (rwl s) = Ret r q" if "rwp s p = Reading"
  proof -
    have "p \<in> rdset s" "finite (rdset s)" using that inv by (simp_all add: rdset_def rwinv_def)
    then have "card (rdset s) > 0" by (auto simp: card_gt_0_iff)
    with inv have "\<not> writer (rwl s)" by (auto simp: rwinv_def)
    with inv show ?thesis
      by (cases "rwhead (rwl s)") (auto simp: rwinv_def runlock_def Let_def)
  qed
  moreover have "\<exists>woken q. wunlock (rwl s) = Ret woken q" if "rwp s p = Writing"
  proof (cases "rwhead (rwl s)")
    case (Cons h ps)
    obtain r x where h: "h = (r, x)" by (cases h)
    have "waits (rwp s r) x" using inv Cons h unfolding rwinv_def queued_def by (metis list.set_intros(1))
    then have "x \<noteq> Queueing" by (cases "rwp s r") auto
    with Cons h show ?thesis by (cases x) (auto simp: wunlock_def split: prod.splits)
  qed (simp add: wunlock_def)
  moreover have "\<exists>r. rwp s r \<in> {Reading, Writing}" if "rwhead (rwl s) \<noteq> []"
  proof (cases "writer (rwl s)")
    case True
    with inv show ?thesis by (auto simp: rwinv_def)
  next
    case False
    with inv that have "card (rdset s) \<noteq> 0" by (auto simp: rwinv_def)
    then have "rdset s \<noteq> {}" by auto
    then show ?thesis by (auto simp: rdset_def)
  qed
  ultimately show ?thesis by blast
qed

text \<open>Process 1 reads, process 2 waits to write.\<close>

definition rw_ex :: RWSys where
  "rw_ex = \<lparr>rwl = \<lparr>rwhead = [(2, QueueingW)], wpc = 0, wproc = None, readers = 1, writer = False\<rparr>,
     rws = stats_ex\<lparr>n_rlock := 1, n_wlock := 1, n_wlockq := 1\<rparr>,
     rwp = (\<lambda>_. RwAway)(1 := Reading, 2 := RwWaitW), rwenq = [2], rwgranted = []\<rparr>"

lemma rw_ex_reach: "rwreach (rwsys0 stats_ex) rw_ex"
proof -
  let ?s = "rwsys0 stats_ex"
  let ?q = "(rwl ?s)\<lparr>readers := 1\<rparr>" and ?st = "stats_ex\<lparr>n_rlock := 1\<rparr>"
  let ?t = "?s\<lparr>rwl := ?q, rws := ?st, rwp := (\<lambda>_. RwAway)(1 := Reading)\<rparr>"
  have "rwstep ?s ?t"
    using rwstep.r_got [of ?s 1 ?q ?st] by (simp add: rwsys0_def rlock_def stats_ex_def)
  moreover have "rwstep ?t rw_ex"
    using rwstep.w_queue [of ?t 2 0 "rwl rw_ex" "rws rw_ex"]
    by (simp add: rwsys0_def wlock_def stats_ex_def rw_ex_def)
  ultimately show ?thesis by (simp add: rwreach_def)
qed

theorem rwlock_exclusion_witness:
  "readers (rwl rw_ex) = int (card {p. rwp rw_ex p = Reading}) \<and>
     rwenq rw_ex = rwgranted rw_ex @ map fst (rwhead (rwl rw_ex))"
  using rwlock_exclusion [OF rw_ex_reach] by blast

theorem rwlock_no_panic_witness:
  "\<exists>r q. runlock (rwl rw_ex) = Ret r q"
  using rwlock_no_panic [OF rw_ex_reach, of 1] by (simp add: rw_ex_def)

text \<open>\<^verbatim>\<open>wproc\<close>, declared as the writing process, is not the writer after a hand-off: it is
  set only on the path of \<^verbatim>\<open>wlock\<close> that finds the lock free.\<close>

theorem wproc_stale:
  "\<exists>s. rwreach (rwsys0 stats_ex) s \<and> rwp s 2 = Writing \<and> writer (rwl s) \<and> wproc (rwl s) \<noteq> Some 2"
proof -
  let ?q = "(rwl rw_ex)\<lparr>readers := 0, rwhead := [], writer := True\<rparr>"
  let ?t = "rw_ex\<lparr>rwl := ?q, rwp := (rwp rw_ex)(1 := RwAway, 2 := Writing), rwgranted := [2]\<rparr>"
  have "rwstep rw_ex ?t"
    using rwstep.r_hand [of rw_ex 1 2 ?q] by (simp add: rw_ex_def runlock_def)
  then have "rwreach (rwsys0 stats_ex) ?t" using rw_ex_reach by (simp add: rwreach_def)
  then show ?thesis by (intro exI [of _ ?t]) (simp add: rw_ex_def)
qed

end
