(* ===== verification/User_Locks.thy ===== *)
theory User_Locks
  imports Qlocks
begin

text \<open>
  The sleeping locks of user programs, \<^verbatim>\<open>sys/src/libc/9sys/qlock.c\<close>: \<^verbatim>\<open>QLock\<close>, \<^verbatim>\<open>RWLock\<close> and the
  condition variable \<^verbatim>\<open>Rendez\<close>, which processes in shared memory wait for in the kernel's
  \<^verbatim>\<open>rendezvous\<close>.

  A process queues in a slot (\<^verbatim>\<open>QLp\<close>) of the pool \<^verbatim>\<open>ql\<close>; a slot is its index, a list linked
  through \<^verbatim>\<open>next\<close> a list of indices. What runs under the spin lock is one step, the claim of a slot
  included. An operation that makes the caller wait answers with the slot it waits in; one that
  wakes a process answers with the slot it goes on to meet it at. \<^verbatim>\<open>rendezvous(tag, v)\<close> returns
  when two processes have called it with the same tag. \<^verbatim>\<open>abort()\<close> is a \<open>Panic\<close>.
\<close>

section \<open>State\<close>

datatype qlstate = Queuing | QueuingR | QueuingW | Sleeping

record QLp =
  inuse :: bool
  qlst :: qlstate

record Ql =
  qlp :: nat
  qlx :: "QLp list"

record UQLock =
  ulocked :: bool
  uhead :: "nat list"

record URWLock =
  ureaders :: int
  uwriter :: bool
  urwhead :: "nat list"

text \<open>\<open>rl\<close>: the condition variable has its lock set.\<close>

record Rendez =
  rl :: bool
  rhead :: "nat list"

section \<open>The pool of slots\<close>

text \<open>The scan: from the slot after the last one claimed, around the end of the array, until it is
  back at that slot. An index past the end does not occur.\<close>

function getqlp_scan :: "QLp list \<Rightarrow> nat \<Rightarrow> nat \<Rightarrow> nat option" where
  "getqlp_scan xs op p =
     (if p > length xs \<or> op \<ge> length xs then None
      else
        let p = (if p = length xs then 0 else p) in
        if p = op then None
        else if \<not> inuse (xs ! p) then Some p
        else getqlp_scan xs op (p + 1))"
  by pat_completeness auto
termination
  by (relation "measure (\<lambda>(xs, op, p). if p \<le> op then op - p else length xs - p + op + 1)")
     (auto split: if_splits)

definition getqlp :: "Ql \<Rightarrow> (nat \<times> Ql) option" where
  "getqlp ql =
     (case getqlp_scan (qlx ql) (qlp ql) (qlp ql + 1) of
        None \<Rightarrow> None
      | Some p \<Rightarrow> Some (p, ql\<lparr>qlp := p, qlx := (qlx ql)[p := (qlx ql ! p)\<lparr>inuse := True\<rparr>]\<rparr>))"

definition setst :: "nat \<Rightarrow> qlstate \<Rightarrow> Ql \<Rightarrow> Ql" where
  "setst p s ql = ql\<lparr>qlx := (qlx ql)[p := (qlx ql ! p)\<lparr>qlst := s\<rparr>]\<rparr>"

text \<open>\<^verbatim>\<open>mp->inuse = 0\<close>, what a process does once it has been woken.\<close>

definition unuse :: "nat \<Rightarrow> Ql \<Rightarrow> Ql" where
  "unuse p ql = ql\<lparr>qlx := (qlx ql)[p := (qlx ql ! p)\<lparr>inuse := False\<rparr>]\<rparr>"

section \<open>QLock\<close>

definition uqlock :: "UQLock \<Rightarrow> Ql \<Rightarrow> (nat option, UQLock \<times> Ql) res" where
  "uqlock q ql =
     (if \<not> ulocked q then Ret None (q\<lparr>ulocked := True\<rparr>, ql)
      else case getqlp ql of
        None \<Rightarrow> Panic ''abort''
      | Some (mp, ql) \<Rightarrow> Ret (Some mp) (q\<lparr>uhead := uhead q @ [mp]\<rparr>, setst mp Queuing ql))"

definition uqunlock :: "UQLock \<Rightarrow> nat option \<times> UQLock" where
  "uqunlock q =
     (case uhead q of
        p # ps \<Rightarrow> (Some p, q\<lparr>uhead := ps\<rparr>)
      | [] \<Rightarrow> (None, q\<lparr>ulocked := False\<rparr>))"

definition ucanqlock :: "bool \<Rightarrow> UQLock \<Rightarrow> bool \<times> UQLock" where
  "ucanqlock can q =
     (if \<not> can then (False, q)
      else if \<not> ulocked q then (True, q\<lparr>ulocked := True\<rparr>)
      else (False, q))"

section \<open>RWLock\<close>

definition urlock :: "URWLock \<Rightarrow> Ql \<Rightarrow> (nat option, URWLock \<times> Ql) res" where
  "urlock q ql =
     (if \<not> uwriter q \<and> urwhead q = [] then Ret None (q\<lparr>ureaders := ureaders q + 1\<rparr>, ql)
      else case getqlp ql of
        None \<Rightarrow> Panic ''abort''
      | Some (mp, ql) \<Rightarrow> Ret (Some mp) (q\<lparr>urwhead := urwhead q @ [mp]\<rparr>, setst mp QueuingR ql))"

definition ucanrlock :: "URWLock \<Rightarrow> bool \<times> URWLock" where
  "ucanrlock q =
     (if \<not> uwriter q \<and> urwhead q = [] then (True, q\<lparr>ureaders := ureaders q + 1\<rparr>) else (False, q))"

definition urunlock :: "URWLock \<Rightarrow> Ql \<Rightarrow> (nat option, URWLock) res" where
  "urunlock q ql =
     (if ureaders q \<le> 0 then Panic ''abort''
      else
        let q' = q\<lparr>ureaders := ureaders q - 1\<rparr> in
        if ureaders q' > 0 then Ret None q'
        else case urwhead q of
          [] \<Rightarrow> Ret None q'
        | p # ps \<Rightarrow>
            if qlst (qlx ql ! p) \<noteq> QueuingW then Panic ''abort''
            else Ret (Some p) (q'\<lparr>urwhead := ps, uwriter := True\<rparr>))"

definition uwlock :: "URWLock \<Rightarrow> Ql \<Rightarrow> (nat option, URWLock \<times> Ql) res" where
  "uwlock q ql =
     (if ureaders q = 0 \<and> \<not> uwriter q then Ret None (q\<lparr>uwriter := True\<rparr>, ql)
      else case getqlp ql of
        None \<Rightarrow> Panic ''abort''
      | Some (mp, ql) \<Rightarrow> Ret (Some mp) (q\<lparr>urwhead := urwhead q @ [mp]\<rparr>, setst mp QueuingW ql))"

definition ucanwlock :: "URWLock \<Rightarrow> bool \<times> URWLock" where
  "ucanwlock q =
     (if ureaders q = 0 \<and> \<not> uwriter q then (True, q\<lparr>uwriter := True\<rparr>) else (False, q))"

fun uwake_readers :: "QLp list \<Rightarrow> nat list \<Rightarrow> int \<Rightarrow> nat list \<times> int \<times> nat list" where
  "uwake_readers xs [] n = ([], n, [])"
| "uwake_readers xs (p # ps) n =
     (if qlst (xs ! p) = QueuingR then
        (case uwake_readers xs ps (n + 1) of (woken, m, rest) \<Rightarrow> (p # woken, m, rest))
      else ([], n, p # ps))"

definition uwunlock :: "URWLock \<Rightarrow> Ql \<Rightarrow> (nat list, URWLock) res" where
  "uwunlock q ql =
     (if \<not> uwriter q then Panic ''abort''
      else case urwhead q of
        [] \<Rightarrow> Ret [] (q\<lparr>uwriter := False\<rparr>)
      | p # ps \<Rightarrow>
          if qlst (qlx ql ! p) = QueuingW then Ret [p] (q\<lparr>urwhead := ps\<rparr>)
          else if qlst (qlx ql ! p) \<noteq> QueuingR then Panic ''abort''
          else case uwake_readers (qlx ql) (urwhead q) (ureaders q) of (woken, n, rest) \<Rightarrow>
            Ret woken (q\<lparr>urwhead := rest, ureaders := n, uwriter := False\<rparr>))"

section \<open>Rendez\<close>

text \<open>\<^verbatim>\<open>rsleep\<close> answers with the slot of the process that gets the lock, if any, which it goes on to
  meet, and the slot it then waits in itself.\<close>

definition rsleep :: "Rendez \<Rightarrow> UQLock \<Rightarrow> Ql \<Rightarrow> (nat option \<times> nat, Rendez \<times> UQLock \<times> Ql) res" where
  "rsleep r q ql =
     (if \<not> rl r then Panic ''abort''
      else if \<not> ulocked q then Panic ''abort''
      else case getqlp ql of
        None \<Rightarrow> Panic ''abort''
      | Some (me, ql) \<Rightarrow>
          let ql = setst me Sleeping ql; r = r\<lparr>rhead := rhead r @ [me]\<rparr> in
          (case uhead q of
             t # ts \<Rightarrow> Ret (Some t, me) (r, q\<lparr>uhead := ts\<rparr>, ql)
           | [] \<Rightarrow> Ret (None, me) (r, q\<lparr>ulocked := False\<rparr>, ql)))"

definition rwakeup :: "Rendez \<Rightarrow> UQLock \<Rightarrow> Ql \<Rightarrow> (bool, Rendez \<times> UQLock \<times> Ql) res" where
  "rwakeup r q ql =
     (if \<not> rl r then Panic ''abort''
      else if \<not> ulocked q then Panic ''abort''
      else case rhead r of
        [] \<Rightarrow> Ret False (r, q, ql)
      | t # ts \<Rightarrow> Ret True (r\<lparr>rhead := ts\<rparr>, q\<lparr>uhead := t # uhead q\<rparr>, setst t Queuing ql))"

function rwakeupall_loop :: "Rendez \<Rightarrow> UQLock \<Rightarrow> Ql \<Rightarrow> int \<Rightarrow> (int, Rendez \<times> UQLock \<times> Ql) res" where
  "rwakeupall_loop r q ql i =
     (case rwakeup r q ql of
        Ret True (r, q, ql) \<Rightarrow> rwakeupall_loop r q ql (i + 1)
      | Ret False s \<Rightarrow> Ret i s
      | Panic e \<Rightarrow> Panic e
      | _ \<Rightarrow> Fault)"
  by pat_completeness auto
termination
  by (relation "measure (\<lambda>(r, q, ql, i). length (rhead r))")
     (auto simp: rwakeup_def split: if_splits list.splits)

definition rwakeupall :: "Rendez \<Rightarrow> UQLock \<Rightarrow> Ql \<Rightarrow> (int, Rendez \<times> UQLock \<times> Ql) res" where
  "rwakeupall r q ql = rwakeupall_loop r q ql 0"


section \<open>Claiming a slot\<close>

declare getqlp_scan.simps [simp del] rwakeupall_loop.simps [simp del]

lemma getqlp_scan_Some:
  "getqlp_scan xs op p = Some s \<Longrightarrow> s < length xs \<and> s \<noteq> op \<and> \<not> inuse (xs ! s)"
proof (induction xs op p rule: getqlp_scan.induct)
  case (1 xs op p)
  let ?p = "if p = length xs then 0 else p"
  show ?case
  proof (cases "getqlp_scan xs op (?p + 1) = Some s \<and> \<not> (p > length xs \<or> op \<ge> length xs) \<and> ?p \<noteq> op \<and> inuse (xs ! ?p)")
    case True
    then show ?thesis using "1.IH" [OF _ refl] by simp
  next
    case False
    with "1.prems" show ?thesis
      by (subst (asm) getqlp_scan.simps) (auto simp: Let_def split: if_splits)
  qed
qed

text \<open>The slots a scan visits.\<close>

definition visits :: "nat \<Rightarrow> nat \<Rightarrow> nat \<Rightarrow> nat set" where
  "visits n op p = (if p \<le> op then {p..<op} else {p..<n} \<union> {0..<op})"

lemma getqlp_scan_None:
  "getqlp_scan xs op p = None \<Longrightarrow> op < length xs \<Longrightarrow> p \<le> length xs \<Longrightarrow> s \<in> visits (length xs) op p \<Longrightarrow>
     inuse (xs ! s)"
proof (induction xs op p rule: getqlp_scan.induct)
  case (1 xs op p)
  let ?p = "if p = length xs then 0 else p"
  show ?case
  proof (cases "?p = op \<or> s = ?p")
    case True
    with "1.prems" show ?thesis
      by (subst (asm) getqlp_scan.simps) (auto simp: Let_def visits_def split: if_splits)
  next
    case False
    with "1.prems" have "getqlp_scan xs op (?p + 1) = None" "inuse (xs ! ?p)"
      by (subst (asm) getqlp_scan.simps, auto simp: Let_def split: if_splits)+
    moreover have "s \<in> visits (length xs) op (?p + 1)" "?p + 1 \<le> length xs"
      using False "1.prems" by (auto simp: visits_def split: if_splits)
    ultimately show ?thesis using "1.IH" [of ?p] False "1.prems" by auto
  qed
qed

definition qlinv :: "Ql \<Rightarrow> bool" where
  "qlinv ql \<longleftrightarrow> qlp ql < length (qlx ql)"

lemma getqlp_Some:
  assumes "getqlp ql = Some (s, ql')"
  shows "s < length (qlx ql)" "\<not> inuse (qlx ql ! s)" "qlinv ql'"
    "qlx ql' = (qlx ql)[s := (qlx ql ! s)\<lparr>inuse := True\<rparr>]"
  using assms getqlp_scan_Some [of "qlx ql" "qlp ql" "qlp ql + 1" s]
  by (auto simp: getqlp_def qlinv_def split: option.splits)

lemma getqlp_None:
  assumes "qlinv ql" "getqlp ql = None" "s < length (qlx ql)" "s \<noteq> qlp ql"
  shows "inuse (qlx ql ! s)"
proof -
  have "s \<in> visits (length (qlx ql)) (qlp ql) (qlp ql + 1)" using assms(3,4) by (auto simp: visits_def)
  moreover have "getqlp_scan (qlx ql) (qlp ql) (qlp ql + 1) = None"
    using assms(2) by (auto simp: getqlp_def split: option.splits)
  ultimately show ?thesis using getqlp_scan_None assms(1) by (simp add: qlinv_def Suc_leI)
qed

section \<open>Waking everybody\<close>

lemma rwakeupall_loop_ok:
  "rl r \<Longrightarrow> ulocked q \<Longrightarrow> okR (rwakeupall_loop r q ql i) (\<lambda>n (r', q', ql'). n = i + int (length (rhead r)) \<and>
     rhead r' = [] \<and> rl r' \<and> ulocked q' \<and> uhead q' = rev (rhead r) @ uhead q)"
proof (induction "rhead r" arbitrary: r q ql i)
  case Nil
  then show ?case by (simp add: rwakeupall_loop.simps [of r] rwakeup_def)
next
  case (Cons t ts)
  let ?r = "r\<lparr>rhead := ts\<rparr>" and ?q = "q\<lparr>uhead := t # uhead q\<rparr>"
  have "rwakeupall_loop r q ql i = rwakeupall_loop ?r ?q (setst t Queuing ql) (i + 1)"
    using Cons.prems by (simp add: rwakeupall_loop.simps [of r] rwakeup_def Cons.hyps(2) [symmetric])
  with Cons.hyps(1) [of ?r ?q "setst t Queuing ql" "i + 1"] Cons.prems show ?case
    by (auto simp: Cons.hyps(2) [symmetric] elim!: okR_mono)
qed


section \<open>Processes that share a lock and a condition variable\<close>

text \<open>A process is away, owns the lock, waits at the rendezvous of its slot, or has handed the lock
  on and waits at the rendezvous of the slot it hands it to (and, if it is in \<^verbatim>\<open>rsleep\<close>, then waits
  in a slot of its own); a process just woken still has to give back its slot.\<close>

datatype uphase = UAway | UOwner | UWait nat | UHand nat "nat option" | UWoken nat

record USys =
  ulk :: UQLock
  urz :: Rendez
  upl :: Ql
  uph :: "nat \<Rightarrow> uphase"

inductive ustep :: "USys \<Rightarrow> USys \<Rightarrow> bool" where
  u_got: "uph s p = UAway \<Longrightarrow> uqlock (ulk s) (upl s) = Ret None (q, ql) \<Longrightarrow>
    ustep s (s\<lparr>ulk := q, upl := ql, uph := (uph s)(p := UOwner)\<rparr>)"
| u_queue: "uph s p = UAway \<Longrightarrow> uqlock (ulk s) (upl s) = Ret (Some me) (q, ql) \<Longrightarrow>
    ustep s (s\<lparr>ulk := q, upl := ql, uph := (uph s)(p := UWait me)\<rparr>)"
| u_can: "uph s p = UAway \<Longrightarrow> ucanqlock c (ulk s) = (b, q) \<Longrightarrow>
    ustep s (s\<lparr>ulk := q, uph := (uph s)(p := if b then UOwner else UAway)\<rparr>)"
| u_free: "uph s p = UOwner \<Longrightarrow> uqunlock (ulk s) = (None, q) \<Longrightarrow>
    ustep s (s\<lparr>ulk := q, uph := (uph s)(p := UAway)\<rparr>)"
| u_hand: "uph s p = UOwner \<Longrightarrow> uqunlock (ulk s) = (Some t, q) \<Longrightarrow>
    ustep s (s\<lparr>ulk := q, uph := (uph s)(p := UHand t None)\<rparr>)"
| u_sleep: "uph s p = UOwner \<Longrightarrow> rsleep (urz s) (ulk s) (upl s) = Ret (None, me) (r, q, ql) \<Longrightarrow>
    ustep s (s\<lparr>urz := r, ulk := q, upl := ql, uph := (uph s)(p := UWait me)\<rparr>)"
| u_sleep_hand: "uph s p = UOwner \<Longrightarrow> rsleep (urz s) (ulk s) (upl s) = Ret (Some t, me) (r, q, ql) \<Longrightarrow>
    ustep s (s\<lparr>urz := r, ulk := q, upl := ql, uph := (uph s)(p := UHand t (Some me))\<rparr>)"
| u_wake: "uph s p = UOwner \<Longrightarrow> rwakeup (urz s) (ulk s) (upl s) = Ret b (r, q, ql) \<Longrightarrow>
    ustep s (s\<lparr>urz := r, ulk := q, upl := ql\<rparr>)"
| u_meet: "uph s p = UHand t m \<Longrightarrow> uph s r = UWait t \<Longrightarrow>
    ustep s (s\<lparr>uph := (uph s)(p := case m of None \<Rightarrow> UAway | Some me \<Rightarrow> UWait me, r := UWoken t)\<rparr>)"
| u_woken: "uph s p = UWoken t \<Longrightarrow>
    ustep s (s\<lparr>upl := unuse t (upl s), uph := (uph s)(p := UOwner)\<rparr>)"

definition usys0 :: "nat \<Rightarrow> qlstate \<Rightarrow> USys" where
  "usys0 n x = \<lparr>ulk = \<lparr>ulocked = False, uhead = []\<rparr>, urz = \<lparr>rl = True, rhead = []\<rparr>,
     upl = \<lparr>qlp = 0, qlx = replicate n \<lparr>inuse = False, qlst = x\<rparr>\<rparr>, uph = (\<lambda>_. UAway)\<rparr>"

definition ureach :: "USys \<Rightarrow> USys \<Rightarrow> bool" where
  "ureach = ustep\<^sup>*\<^sup>*"

text \<open>The process with the lock: it owns it, is handing it on, or has just got it.\<close>

fun tok :: "uphase \<Rightarrow> bool" where
  "tok UOwner = True"
| "tok (UHand t m) = True"
| "tok (UWoken t) = True"
| "tok _ = False"

text \<open>The slot a process occupies.\<close>

fun slotof :: "uphase \<Rightarrow> nat option" where
  "slotof (UWait a) = Some a"
| "slotof (UHand t m) = m"
| "slotof (UWoken a) = Some a"
| "slotof _ = None"

definition uqueued :: "USys \<Rightarrow> nat set" where
  "uqueued s = set (uhead (ulk s)) \<union> set (rhead (urz s))"

definition waitset :: "(nat \<Rightarrow> uphase) \<Rightarrow> nat set" where
  "waitset f = {a. \<exists>p. f p = UWait a}"

text \<open>Who waits, given what the process with the lock is doing: the processes in the queues, but
  for the one being handed the lock and the one that is about to wait.\<close>

fun uwaits :: "uphase \<Rightarrow> nat set \<Rightarrow> nat set \<Rightarrow> bool" where
  "uwaits (UHand t m) W L = (t \<notin> L \<and> set_option m \<subseteq> L \<and> W = insert t L - set_option m)"
| "uwaits (UWoken a) W L = (W = L \<and> a \<notin> L)"
| "uwaits _ W L = (W = L)"

definition utoken :: "USys \<Rightarrow> bool" where
  "utoken s \<longleftrightarrow> (if ulocked (ulk s)
     then \<exists>p. (\<forall>r. tok (uph s r) \<longleftrightarrow> r = p) \<and> uwaits (uph s p) (waitset (uph s)) (uqueued s)
     else (\<forall>r. \<not> tok (uph s r)) \<and> uhead (ulk s) = [] \<and> waitset (uph s) = uqueued s)"

definition uslots :: "USys \<Rightarrow> bool" where
  "uslots s \<longleftrightarrow> (\<forall>p r a. uph s p = UWait a \<longrightarrow> uph s r = UWait a \<longrightarrow> p = r) \<and>
     (\<forall>p a. slotof (uph s p) = Some a \<longrightarrow> a < length (qlx (upl s)) \<and> inuse (qlx (upl s) ! a))"

definition uinv :: "USys \<Rightarrow> bool" where
  "uinv s \<longleftrightarrow> utoken s \<and> uslots s \<and> distinct (uhead (ulk s) @ rhead (urz s))"

lemma uslotsD:
  "uslots s \<Longrightarrow> slotof (uph s p) = Some a \<Longrightarrow> a < length (qlx (upl s)) \<and> inuse (qlx (upl s) ! a)"
  by (simp add: uslots_def)

lemma uinv_start: "uinv (usys0 n x)"
  by (simp add: uinv_def utoken_def uslots_def usys0_def uqueued_def waitset_def)

lemma waitset_upd:
  "waitset (f(p := x)) = {a. x = UWait a} \<union> {a. \<exists>r. r \<noteq> p \<and> f r = UWait a}"
  by (auto simp: waitset_def split: if_splits)

lemma waitset_split: "waitset f = {a. f p = UWait a} \<union> {a. \<exists>r. r \<noteq> p \<and> f r = UWait a}"
  using waitset_upd [of f p "f p"] by simp

lemma waitset_other:
  "(\<And>a. f p \<noteq> UWait a) \<Longrightarrow> (\<And>a. x \<noteq> UWait a) \<Longrightarrow> waitset (f(p := x)) = waitset f"
  using waitset_split [of f p] by (simp add: waitset_upd)

lemma waitset_add: "(\<And>a. f p \<noteq> UWait a) \<Longrightarrow> waitset (f(p := UWait a)) = insert a (waitset f)"
  using waitset_split [of f p] by (simp add: waitset_upd)

lemma waitset_rem:
  assumes "f p = UWait a" "\<And>r. f r = UWait a \<Longrightarrow> r = p" "\<And>b. x \<noteq> UWait b"
  shows "waitset (f(p := x)) = waitset f - {a}"
proof -
  have "{b. x = UWait b} = {}" using assms(3) by simp
  moreover have "{b. f p = UWait b} = {a}" using assms(1) by auto
  moreover have "a \<notin> {a. \<exists>r. r \<noteq> p \<and> f r = UWait a}" using assms(2) by blast
  ultimately show ?thesis unfolding waitset_upd waitset_split [of f p] by simp
qed

lemma uwaits_insert:
  assumes "uwaits x W L" "\<And>m. x \<noteq> UHand a m" "slotof x \<noteq> Some a"
  shows "uwaits x (insert a W) (insert a L)"
proof (cases x)
  case (UHand t m)
  with assms have "t \<noteq> a" "a \<notin> set_option m" by auto
  with UHand assms(1) show ?thesis by auto
qed (use assms in auto)

text \<open>Every queued slot is occupied, so a claim gives a slot that is in no queue.\<close>

lemma uqueued_used:
  assumes "uinv s" "a \<in> uqueued s"
  shows "\<exists>p. slotof (uph s p) = Some a"
proof (cases "ulocked (ulk s)")
  case True
  with assms(1) obtain p where "uwaits (uph s p) (waitset (uph s)) (uqueued s)"
    by (auto simp: uinv_def utoken_def)
  with assms(2) have "a \<in> waitset (uph s) \<or> slotof (uph s p) = Some a" by (cases "uph s p") auto
  then show ?thesis by (auto simp: waitset_def) (metis slotof.simps(1))
next
  case False
  with assms have "a \<in> waitset (uph s)" by (simp add: uinv_def utoken_def)
  then show ?thesis by (auto simp: waitset_def) (metis slotof.simps(1))
qed

lemma getqlp_fresh:
  assumes "uinv s" "getqlp (upl s) = Some (me, ql)"
  shows "me < length (qlx (upl s))" "slotof (uph s p) \<noteq> Some me" "me \<notin> uqueued s" "me \<notin> waitset (uph s)"
    "length (qlx (setst me x ql)) = length (qlx (upl s))"
    "inuse (qlx (setst me x ql) ! a) = (inuse (qlx (upl s) ! a) \<or> a = me)"
proof -
  note g = getqlp_Some [OF assms(2)]
  show "me < length (qlx (upl s))" by (rule g)
  show *: "slotof (uph s p) \<noteq> Some me" for p using assms(1) g(2) by (auto simp: uinv_def uslots_def)
  show "me \<notin> uqueued s" using uqueued_used [OF assms(1)] * by blast
  show "me \<notin> waitset (uph s)" using * by (auto simp: waitset_def) (metis slotof.simps(1))
  show "length (qlx (setst me x ql)) = length (qlx (upl s))" by (simp add: setst_def g(4))
  show "inuse (qlx (setst me x ql) ! a) = (inuse (qlx (upl s) ! a) \<or> a = me)"
    using g(1) by (auto simp: setst_def g(4) nth_list_update)
qed

lemma setst_inuse [simp]:
  "length (qlx (setst t x ql)) = length (qlx ql)" "inuse (qlx (setst t x ql) ! a) = inuse (qlx ql ! a)"
proof -
  show "length (qlx (setst t x ql)) = length (qlx ql)" by (simp add: setst_def)
  show "inuse (qlx (setst t x ql) ! a) = inuse (qlx ql ! a)"
    by (cases "t < length (qlx ql)") (auto simp: setst_def nth_list_update list_update_beyond)
qed

lemma uinv_tok:
  assumes "uinv s" "tok (uph s p)"
  shows "\<And>r. tok (uph s r) \<longleftrightarrow> r = p" "ulocked (ulk s)" "uwaits (uph s p) (waitset (uph s)) (uqueued s)" "uslots s"
proof -
  have l: "ulocked (ulk s)" using assms by (auto simp: uinv_def utoken_def split: if_splits)
  then obtain h where h: "\<forall>r. tok (uph s r) \<longleftrightarrow> r = h" "uwaits (uph s h) (waitset (uph s)) (uqueued s)"
    using assms(1) by (auto simp: uinv_def utoken_def)
  moreover have "h = p" using h(1) assms(2) by simp
  ultimately show "\<And>r. tok (uph s r) \<longleftrightarrow> r = p" "ulocked (ulk s)" "uslots s"
    "uwaits (uph s p) (waitset (uph s)) (uqueued s)"
    using l assms(1) by (simp_all add: uinv_def)
qed

text \<open>A step of the process with the lock: what is left to show when it has moved on to the phase
  \<open>x\<close>, the lock still held.\<close>

lemma uinv_moved:
  assumes "uinv s" "tok (uph s p)" "tok x" "ulocked q" "distinct (uhead q @ rhead r)"
    "uwaits x (waitset (uph s)) (set (uhead q) \<union> set (rhead r))"
    "length (qlx ql) = length (qlx (upl s))"
    "\<And>a. inuse (qlx (upl s) ! a) \<Longrightarrow> inuse (qlx ql ! a)"
    "\<And>a. slotof x = Some a \<Longrightarrow> a < length (qlx ql) \<and> inuse (qlx ql ! a)"
  shows "uinv (s\<lparr>urz := r, ulk := q, upl := ql, uph := (uph s)(p := x)\<rparr>)"
proof -
  have nw: "\<And>a. uph s p \<noteq> UWait a" "\<And>a. x \<noteq> UWait a" using assms(2,3) by auto
  have one: "tok (uph s r) \<longleftrightarrow> r = p" for r
    using assms(1,2) by (auto simp: uinv_def utoken_def split: if_splits)
  have "utoken (s\<lparr>urz := r, ulk := q, upl := ql, uph := (uph s)(p := x)\<rparr>)"
    using assms(3,4,6) one by (auto simp: utoken_def uqueued_def waitset_other [of "uph s" p x, OF nw] intro!: exI [of _ p])
  moreover have "uslots (s\<lparr>urz := r, ulk := q, upl := ql, uph := (uph s)(p := x)\<rparr>)"
    using assms(1,7,8,9) nw by (auto simp: uinv_def uslots_def)
  ultimately show ?thesis using assms(5) by (simp add: uinv_def)
qed

lemma uinv_got:
  assumes "uinv s" "uph s p = UAway" "\<not> ulocked (ulk s)"
  shows "uinv (s\<lparr>ulk := (ulk s)\<lparr>ulocked := True\<rparr>, uph := (uph s)(p := UOwner)\<rparr>)"
proof -
  have "waitset ((uph s)(p := UOwner)) = waitset (uph s)" by (rule waitset_other) (simp_all add: assms(2))
  with assms show ?thesis by (auto simp: uinv_def utoken_def uslots_def uqueued_def)
qed

lemma uinv_queue:
  assumes "uinv s" "uph s p = UAway" "ulocked (ulk s)" "getqlp (upl s) = Some (me, ql)"
  shows "uinv (s\<lparr>ulk := (ulk s)\<lparr>uhead := uhead (ulk s) @ [me]\<rparr>, upl := setst me Queuing ql,
    uph := (uph s)(p := UWait me)\<rparr>)" (is "uinv ?t")
proof -
  note f = getqlp_fresh [OF assms(1,4)]
  have w: "waitset (uph ?t) = insert me (waitset (uph s))" using waitset_add [of "uph s" p me] assms(2) by simp
  obtain h where h: "\<forall>r. tok (uph s r) \<longleftrightarrow> r = h" "uwaits (uph s h) (waitset (uph s)) (uqueued s)"
    using assms(1,3) by (auto simp: uinv_def utoken_def)
  have "h \<noteq> p" using h(1) assms(2) by (metis tok.simps(4))
  have q: "uqueued ?t = insert me (uqueued s)" by (auto simp: uqueued_def)
  have nt: "uph s h \<noteq> UHand me m" for m using h(2) f(4) by (cases m) auto
  have "uwaits (uph s h) (insert me (waitset (uph s))) (insert me (uqueued s))"
    by (rule uwaits_insert [OF h(2) nt f(2)])
  then have "utoken ?t" using h(1) \<open>h \<noteq> p\<close> assms(2,3) w q by (auto simp: utoken_def intro!: exI [of _ h])
  moreover have "uph s r \<noteq> UWait me" for r using f(2) [of r] by auto
  then have "uslots ?t" using assms(1) f by (auto simp: uinv_def uslots_def)
  moreover have "distinct (uhead (ulk ?t) @ rhead (urz ?t))"
    using assms(1) f(3) by (auto simp: uinv_def uqueued_def)
  ultimately show ?thesis by (simp add: uinv_def)
qed

text \<open>The process with the lock gives it up with nobody queued for it, and waits itself or not.\<close>

lemma uinv_release:
  assumes "uinv s" "uph s p = UOwner" "uhead (ulk s) = []" "\<And>a. x = UWait a \<longleftrightarrow> m = Some a" "\<not> tok x" "slotof x = m"
    "set_option m \<inter> waitset (uph s) = {}" "length (qlx ql) = length (qlx (upl s))"
    "\<And>a. inuse (qlx (upl s) ! a) \<Longrightarrow> inuse (qlx ql ! a)"
    "\<And>a. m = Some a \<Longrightarrow> a < length (qlx ql) \<and> inuse (qlx ql ! a) \<and> a \<notin> uqueued s"
    "rhead r = rhead (urz s) @ (case m of None \<Rightarrow> [] | Some a \<Rightarrow> [a])"
  shows "uinv (s\<lparr>urz := r, ulk := (ulk s)\<lparr>ulocked := False\<rparr>, upl := ql, uph := (uph s)(p := x)\<rparr>)" (is "uinv ?t")
proof -
  have one: "\<And>r. tok (uph s r) \<longleftrightarrow> r = p" and W: "waitset (uph s) = uqueued s"
    using uinv_tok [of s p] assms(1,2) by simp_all
  have "waitset ((uph s)(p := x)) = set_option m \<union> waitset (uph s)"
    unfolding waitset_upd waitset_split [of "uph s" p] using assms(2,4) by auto
  also have "\<dots> = uqueued ?t" unfolding W using assms(3,11) by (auto simp: uqueued_def split: option.splits)
  finally have "utoken ?t" using one assms(3,5) by (simp add: utoken_def)
  moreover have "\<And>r a. x = UWait a \<Longrightarrow> uph s r \<noteq> UWait a" using assms(4,7) by (auto simp: waitset_def)
  then have "uslots ?t" using assms(1,6,8,9,10) by (auto simp: uinv_def uslots_def)
  moreover have "distinct (uhead (ulk ?t) @ rhead (urz ?t))"
    using assms(1,3,10,11) by (auto simp: uinv_def uqueued_def split: option.splits)
  ultimately show ?thesis by (simp add: uinv_def)
qed

lemma uinv_meet:
  assumes "uinv s" "uph s p = UHand t m" "uph s r = UWait t"
  shows "uinv (s\<lparr>uph := (uph s)(p := case m of None \<Rightarrow> UAway | Some me \<Rightarrow> UWait me, r := UWoken t)\<rparr>)" (is "uinv ?t")
proof -
  let ?x = "case m of None \<Rightarrow> UAway | Some me \<Rightarrow> UWait me" and ?f = "uph s"
  have one: "\<And>r. tok (uph s r) \<longleftrightarrow> r = p" and l: "ulocked (ulk s)" and W: "t \<notin> uqueued s"
    "set_option m \<subseteq> uqueued s" "waitset ?f = insert t (uqueued s) - set_option m"
    and sl: "uslots s"
    using uinv_tok [of s p] assms(1,2) by simp_all
  have "r \<noteq> p" using assms(2,3) by auto
  have x: "waitset (?f(p := ?x)) = set_option m \<union> waitset ?f"
    unfolding waitset_upd waitset_split [of ?f p] using assms(2) by (auto split: option.splits)
  have inj: "(?f(p := ?x)) u = UWait t \<Longrightarrow> u = r" for u
    using sl assms(3) W(1,2) by (auto simp: uslots_def split: if_splits option.splits)
  have "waitset (uph ?t) = set_option m \<union> waitset ?f - {t}"
    using waitset_rem [of "?f(p := ?x)" r t "UWoken t"] inj \<open>r \<noteq> p\<close> assms(3) x by simp
  also have "\<dots> = uqueued s" using W by auto
  finally have "utoken ?t" using one l W(1) \<open>r \<noteq> p\<close>
    by (auto simp: utoken_def uqueued_def split: option.splits intro!: exI [of _ r])
  moreover have "\<And>u a. m = Some a \<Longrightarrow> ?f u \<noteq> UWait a" using W by (auto simp: waitset_def)
  then have "uslots ?t" using sl assms(2,3) uslotsD [OF sl, of p] uslotsD [OF sl, of r]
    by (auto simp: uslots_def split: option.splits)
  ultimately show ?thesis using assms(1) by (simp add: uinv_def)
qed

lemma uinv_woken:
  assumes "uinv s" "uph s p = UWoken t"
  shows "uinv (s\<lparr>upl := unuse t (upl s), uph := (uph s)(p := UOwner)\<rparr>)" (is "uinv ?t")
proof -
  have one: "\<And>r. tok (uph s r) \<longleftrightarrow> r = p" and l: "ulocked (ulk s)" and W: "t \<notin> uqueued s"
    "waitset (uph s) = uqueued s" and sl: "uslots s"
    using uinv_tok [of s p] assms(1,2) by simp_all
  have w: "waitset ((uph s)(p := UOwner)) = waitset (uph s)" by (rule waitset_other) (simp_all add: assms(2))
  have tk: "utoken ?t" using one l W by (auto simp: utoken_def w uqueued_def intro!: exI [of _ p])
  have "slotof (uph s u) \<noteq> Some t" if "u \<noteq> p" for u
  proof
    assume a: "slotof (uph s u) = Some t"
    then have "uph s u = UWait t" using one [of u] that by (cases "uph s u") auto
    with W show False by (auto simp: waitset_def)
  qed
  moreover have "t < length (qlx (upl s))" using uslotsD [OF sl, of p t] assms(2) by simp
  ultimately have "uslots ?t" using sl by (auto simp: uslots_def unuse_def nth_list_update)
  with tk show ?thesis using assms(1) by (simp add: uinv_def)
qed

text \<open>Every step keeps the invariant.\<close>

lemma uinv_step: "ustep s t \<Longrightarrow> uinv s \<Longrightarrow> uinv t"
proof (induction rule: ustep.induct)
  case (u_got s p q ql)
  then show ?case using uinv_got [of s p] by (auto simp: uqlock_def split: if_splits option.splits)
next
  case (u_queue s p me q ql)
  then show ?case using uinv_queue [of s p me] by (auto simp: uqlock_def split: if_splits option.splits)
next
  case (u_can s p c b q)
  have "(uph s)(p := UAway) = uph s" using u_can.hyps(1) by (simp add: fun_upd_idem)
  with u_can show ?case using uinv_got [of s p] by (auto simp: ucanqlock_def split: if_splits)
next
  case (u_free s p q)
  have "uhead (ulk s) = []" "q = (ulk s)\<lparr>ulocked := False\<rparr>"
    using u_free.hyps(2) by (auto simp: uqunlock_def split: list.splits)
  with uinv_release [OF u_free.prems u_free.hyps(1), of UAway None "upl s" "urz s"] show ?case by simp
next
  case (u_hand s p t q)
  have h: "uhead (ulk s) = t # uhead q" "ulocked q = ulocked (ulk s)"
    using u_hand.hyps(2) by (auto simp: uqunlock_def split: list.splits)
  have k: "ulocked (ulk s)" "waitset (uph s) = uqueued s"
    using uinv_tok [OF u_hand.prems, of p] u_hand.hyps(1) by simp_all
  have "distinct (uhead (ulk s) @ rhead (urz s))" using u_hand.prems by (simp add: uinv_def)
  with uinv_moved [OF u_hand.prems, of p "UHand t None" q "urz s" "upl s"] u_hand.hyps(1) h k show ?case
    by (simp add: uqueued_def)
next
  case (u_sleep s p me r q ql)
  then obtain ql' where g: "getqlp (upl s) = Some (me, ql')" "ql = setst me Sleeping ql'" "uhead (ulk s) = []"
    "q = (ulk s)\<lparr>ulocked := False\<rparr>" "r = (urz s)\<lparr>rhead := rhead (urz s) @ [me]\<rparr>"
    by (auto simp: rsleep_def Let_def split: if_splits option.splits list.splits)
  note f = getqlp_fresh [OF u_sleep.prems g(1)]
  have "uinv (s\<lparr>urz := r, ulk := (ulk s)\<lparr>ulocked := False\<rparr>, upl := ql, uph := (uph s)(p := UWait me)\<rparr>)"
    by (rule uinv_release [OF u_sleep.prems u_sleep.hyps(1) g(3), of _ "Some me"])
       (use f g(2,5) in auto)
  with g(4) show ?case by simp
next
  case (u_sleep_hand s p t me r q ql)
  then obtain ql' where g: "getqlp (upl s) = Some (me, ql')" "ql = setst me Sleeping ql'"
    "uhead (ulk s) = t # uhead q" "ulocked q = ulocked (ulk s)" "r = (urz s)\<lparr>rhead := rhead (urz s) @ [me]\<rparr>"
    by (auto simp: rsleep_def Let_def split: if_splits option.splits list.splits)
  note f = getqlp_fresh [OF u_sleep_hand.prems g(1)]
  have k: "ulocked (ulk s)" "waitset (uph s) = uqueued s" "distinct (uhead (ulk s) @ rhead (urz s))"
    using uinv_tok [OF u_sleep_hand.prems, of p] u_sleep_hand by (simp_all add: uinv_def)
  have "me \<notin> insert t (set (uhead q) \<union> set (rhead (urz s)))" using f(3) g(3) by (auto simp: uqueued_def)
  then have "uwaits (UHand t (Some me)) (waitset (uph s)) (set (uhead q) \<union> set (rhead r))"
    using k g(3,5) by (auto simp: uqueued_def)
  moreover have "distinct (uhead q @ rhead r)" using k(3) f(3) g(3,5) by (auto simp: uqueued_def)
  ultimately show ?case
    using uinv_moved [OF u_sleep_hand.prems, of p "UHand t (Some me)" q r ql] u_sleep_hand.hyps(1) f g k(1) by auto
next
  case (u_wake s p b r q ql)
  have k: "ulocked (ulk s)" "waitset (uph s) = uqueued s" "distinct (uhead (ulk s) @ rhead (urz s))"
    using uinv_tok [OF u_wake.prems, of p] u_wake by (simp_all add: uinv_def)
  have "(uph s)(p := UOwner) = uph s" using u_wake.hyps(1) by (simp add: fun_upd_idem)
  moreover have "uinv (s\<lparr>urz := r, ulk := q, upl := ql, uph := (uph s)(p := UOwner)\<rparr>)"
    by (rule uinv_moved [OF u_wake.prems])
       (use u_wake.hyps k in \<open>auto simp: rwakeup_def uqueued_def split: if_splits list.splits\<close>)
  ultimately show ?case by simp
next
  case (u_meet s p t m r)
  show ?case by (rule uinv_meet [OF u_meet.prems u_meet.hyps])
next
  case (u_woken s p t)
  show ?case by (rule uinv_woken [OF u_woken.prems u_woken.hyps])
qed

lemma uinv_reach: "ureach (usys0 n x) s \<Longrightarrow> uinv s"
  unfolding ureach_def by (induction rule: rtranclp_induct) (auto intro: uinv_step uinv_start)

section \<open>RWLock does what the kernel's does\<close>

fun kst :: "qlstate \<Rightarrow> pstate" where
  "kst QueuingR = QueueingR"
| "kst QueuingW = QueueingW"
| "kst _ = Queueing"

text \<open>The lock \<open>q\<close> of a program, whose waiting processes are in slots of \<open>ql\<close>, and a lock \<open>k\<close> of
  the kernel, whose waiting processes have those slots as their names.\<close>

definition rwrel :: "URWLock \<Rightarrow> Ql \<Rightarrow> RWlock \<Rightarrow> bool" where
  "rwrel q ql k \<longleftrightarrow> readers k = ureaders q \<and> writer k = uwriter q \<and>
     rwhead k = map (\<lambda>a. (a, kst (qlst (qlx ql ! a)))) (urwhead q) \<and>
     (\<forall>a \<in> set (urwhead q). a < length (qlx ql) \<and> inuse (qlx ql ! a))"

lemma kst_eq [simp]: "kst x = QueueingR \<longleftrightarrow> x = QueuingR" "kst x = QueueingW \<longleftrightarrow> x = QueuingW"
  "QueueingW = kst x \<longleftrightarrow> x = QueuingW"
  by (cases x; simp)+

lemma rwrel_queue:
  assumes "rwrel q ql k" "getqlp ql = Some (me, ql1)"
  shows "rwrel (q\<lparr>urwhead := urwhead q @ [me]\<rparr>) (setst me x ql1) (k\<lparr>rwhead := rwhead k @ [(me, kst x)]\<rparr>)"
proof -
  note g = getqlp_Some [OF assms(2)]
  have "a \<noteq> me" if "a \<in> set (urwhead q)" for a using assms(1) g(2) that by (auto simp: rwrel_def)
  with assms(1) g(1) show ?thesis
    by (auto simp: rwrel_def setst_def g(4) nth_list_update)
qed

lemma uwake_readers_eq:
  "wake_readers (map (\<lambda>a. (a, kst (qlst (xs ! a)))) ps) n =
     (case uwake_readers xs ps n of (w, m, rest) \<Rightarrow> (w, m, map (\<lambda>a. (a, kst (qlst (xs ! a)))) rest))"
  by (induction ps arbitrary: n) (auto split: prod.splits)

lemma uwake_readers_sub: "uwake_readers xs ps n = (w, m, rest) \<Longrightarrow> set rest \<subseteq> set ps"
  by (induction ps arbitrary: n w m rest) (fastforce split: if_splits prod.splits)+

lemma rw_unlock_sim:
  assumes "rwrel q ql k"
  shows "urunlock q ql = Ret r q' \<Longrightarrow> \<exists>k'. runlock k = Ret r k' \<and> rwrel q' ql k'"
    and "uwunlock q ql = Ret ws q' \<Longrightarrow> \<exists>k'. wunlock k = Ret ws k' \<and> rwrel q' ql k'"
proof -
  show "urunlock q ql = Ret r q' \<Longrightarrow> \<exists>k'. runlock k = Ret r k' \<and> rwrel q' ql k'"
    using assms by (cases "urwhead q") (auto simp: urunlock_def runlock_def Let_def rwrel_def split: if_splits)
  assume u: "uwunlock q ql = Ret ws q'"
  show "\<exists>k'. wunlock k = Ret ws k' \<and> rwrel q' ql k'"
  proof (cases "urwhead q")
    case Nil
    with u assms show ?thesis by (auto simp: uwunlock_def wunlock_def rwrel_def split: if_splits)
  next
    case (Cons p ps)
    show ?thesis
    proof (cases "qlst (qlx ql ! p) = QueuingR")
      case True
      obtain w n rest where w: "uwake_readers (qlx ql) (urwhead q) (ureaders q) = (w, n, rest)"
        by (metis prod.exhaust)
      have "wake_readers (rwhead k) (readers k) = (w, n, map (\<lambda>a. (a, kst (qlst (qlx ql ! a)))) rest)"
        using uwake_readers_eq [of "qlx ql" "urwhead q" "ureaders q"] w assms by (simp add: rwrel_def)
      with True Cons u w assms uwake_readers_sub [OF w] show ?thesis
        by (auto simp: uwunlock_def wunlock_def rwrel_def simp del: wake_readers.simps uwake_readers.simps split: if_splits)
    next
      case False
      with Cons u assms show ?thesis by (auto simp: uwunlock_def wunlock_def rwrel_def split: if_splits)
    qed
  qed
qed

lemma rw_lock_sim:
  assumes "rwrel q ql k"
  shows "urlock q ql = Ret r (q', ql') \<Longrightarrow>
      \<exists>k' st'. rlock (Some (the r)) k st = Ret (if r = None then Got else Queued) (k', st') \<and> rwrel q' ql' k'"
    and "uwlock q ql = Ret r (q', ql') \<Longrightarrow>
      \<exists>k' st'. wlock (Some (the r)) pc k st = Ret (if r = None then Got else Queued) (k', st') \<and> rwrel q' ql' k'"
    and "ucanrlock q = (b, q') \<Longrightarrow> \<exists>k' st'. canrlock k st = (b, k', st') \<and> rwrel q' ql k'"
proof -
  have e: "rwhead k = [] \<longleftrightarrow> urwhead q = []" "writer k = uwriter q" "readers k = ureaders q"
    using assms by (auto simp: rwrel_def)
  show "urlock q ql = Ret r (q', ql') \<Longrightarrow>
      \<exists>k' st'. rlock (Some (the r)) k st = Ret (if r = None then Got else Queued) (k', st') \<and> rwrel q' ql' k'"
    using assms e rwrel_queue [OF assms, of _ _ QueuingR]
    by (auto simp: urlock_def rlock_def Let_def split: if_splits option.splits) (simp_all add: rwrel_def)
  show "uwlock q ql = Ret r (q', ql') \<Longrightarrow>
      \<exists>k' st'. wlock (Some (the r)) pc k st = Ret (if r = None then Got else Queued) (k', st') \<and> rwrel q' ql' k'"
    using assms e rwrel_queue [OF assms, of _ _ QueuingW]
    by (auto simp: uwlock_def wlock_def Let_def split: if_splits option.splits) (simp_all add: rwrel_def)
  show "ucanrlock q = (b, q') \<Longrightarrow> \<exists>k' st'. canrlock k st = (b, k', st') \<and> rwrel q' ql k'"
    using assms e by (auto simp: ucanrlock_def canrlock_def Let_def rwrel_def split: if_splits)
qed


section \<open>Properties\<close>

text \<open>C21. The lock and the condition variable of a program, in every run of processes that lock, try to
  lock, unlock, sleep and wake up: at most one process has the lock (owns it, is handing it on or
  has just got it); no two processes ever share a slot, so a wakeup reaches the process it is
  meant for; a process that hands the lock on always finds the other at the rendezvous; and
  while a process is queued for the lock some process has it.\<close>

theorem user_qlock_mutex:
  assumes "ureach (usys0 n x) s"
  shows "(\<forall>p r. tok (uph s p) \<and> tok (uph s r) \<longrightarrow> p = r) \<and>
     (\<forall>p r a. slotof (uph s p) = Some a \<and> slotof (uph s r) = Some a \<longrightarrow> p = r) \<and>
     (\<forall>p t m. uph s p = UHand t m \<longrightarrow> (\<exists>r. uph s r = UWait t)) \<and>
     (uhead (ulk s) \<noteq> [] \<longrightarrow> (\<exists>p. tok (uph s p)))"
proof (intro conjI allI impI)
  have i: "uinv s" by (rule uinv_reach [OF assms])
  show "p = r" if "tok (uph s p) \<and> tok (uph s r)" for p r using uinv_tok(1) [OF i, of p r] that by simp
  show "\<exists>p. tok (uph s p)" if "uhead (ulk s) \<noteq> []" using i that by (auto simp: uinv_def utoken_def split: if_splits)
  show "\<exists>r. uph s r = UWait t" if "uph s p = UHand t m" for p t m
    using uinv_tok(3) [OF i, of p] that by (auto simp: waitset_def)
  have w: "False" if "tok (uph s p)" "slotof (uph s p) = Some a" "uph s r = UWait a" for p r a
    using uinv_tok(3) [OF i that(1)] that by (cases "uph s p") (auto simp: waitset_def)
  show "p = r" if "slotof (uph s p) = Some a \<and> slotof (uph s r) = Some a" for p r a
  proof (cases "tok (uph s p) \<or> tok (uph s r)")
    case True
    then show ?thesis using w [of p a r] w [of r a p] that uinv_tok(1) [OF i, of p r]
      by (cases "uph s p"; cases "uph s r") auto
  next
    case False
    then have "uph s p = UWait a" "uph s r = UWait a" using that by (cases "uph s p"; cases "uph s r"; simp)+
    with i show ?thesis by (simp add: uinv_def uslots_def)
  qed
qed

text \<open>Process 1 has the lock and process 2 waits for it in slot 1 of a pool of four.\<close>

definition usys_ex :: USys where
  "usys_ex = \<lparr>ulk = \<lparr>ulocked = True, uhead = [1]\<rparr>, urz = \<lparr>rl = True, rhead = []\<rparr>,
     upl = \<lparr>qlp = 1, qlx = (replicate 4 \<lparr>inuse = False, qlst = Queuing\<rparr>)[1 := \<lparr>inuse = True, qlst = Queuing\<rparr>]\<rparr>,
     uph = (\<lambda>_. UAway)(1 := UOwner, 2 := UWait 1)\<rparr>"

lemma usys_ex_reach: "ureach (usys0 4 Queuing) usys_ex"
proof -
  let ?s = "usys0 4 Queuing"
  let ?t = "?s\<lparr>ulk := \<lparr>ulocked = True, uhead = []\<rparr>, upl := upl ?s, uph := (uph ?s)(1 := UOwner)\<rparr>"
  have "ustep ?s ?t" by (rule u_got) (simp_all add: usys0_def uqlock_def)
  moreover have "getqlp_scan (qlx (upl ?s)) 0 1 = Some 1"
    by (simp add: getqlp_scan.simps usys0_def)
  then have "uqlock (ulk ?t) (upl ?t) = Ret (Some 1) (ulk usys_ex, upl usys_ex)"
    by (simp add: uqlock_def getqlp_def usys_ex_def setst_def) (simp add: usys0_def numeral_eq_Suc setst_def)
  then have "ustep ?t (?t\<lparr>ulk := ulk usys_ex, upl := upl usys_ex, uph := (uph ?t)(2 := UWait 1)\<rparr>)"
    by (intro u_queue) (simp_all add: usys0_def)
  moreover have "?t\<lparr>ulk := ulk usys_ex, upl := upl usys_ex, uph := (uph ?t)(2 := UWait 1)\<rparr> = usys_ex"
    by (simp add: usys_ex_def usys0_def)
  ultimately show ?thesis by (simp add: ureach_def)
qed

theorem user_qlock_mutex_witness: "\<exists>p. tok (uph usys_ex p)"
proof -
  have "uhead (ulk usys_ex) \<noteq> []" by (simp add: usys_ex_def)
  then show ?thesis using user_qlock_mutex [OF usys_ex_reach] by blast
qed

text \<open>C22. The readers-writer lock of a program decides as the kernel's does: whatever it grants, queues or
  hands on, the kernel's lock in the corresponding state grants, queues or hands on to the same
  processes, and the states correspond again.\<close>

theorem rwlock_user_kernel:
  assumes "rwrel q ql k"
  shows "(\<forall>r q' ql'. urlock q ql = Ret r (q', ql') \<longrightarrow>
       (\<exists>k' st'. rlock (Some (the r)) k st = Ret (if r = None then Got else Queued) (k', st') \<and> rwrel q' ql' k')) \<and>
     (\<forall>r q' ql'. uwlock q ql = Ret r (q', ql') \<longrightarrow>
       (\<exists>k' st'. wlock (Some (the r)) pc k st = Ret (if r = None then Got else Queued) (k', st') \<and> rwrel q' ql' k')) \<and>
     (\<forall>b q'. ucanrlock q = (b, q') \<longrightarrow> (\<exists>k' st'. canrlock k st = (b, k', st') \<and> rwrel q' ql k')) \<and>
     (\<forall>r q'. urunlock q ql = Ret r q' \<longrightarrow> (\<exists>k'. runlock k = Ret r k' \<and> rwrel q' ql k')) \<and>
     (\<forall>ws q'. uwunlock q ql = Ret ws q' \<longrightarrow> (\<exists>k'. wunlock k = Ret ws k' \<and> rwrel q' ql k'))"
  using rw_lock_sim [OF assms] rw_unlock_sim [OF assms] by blast

definition urw_ex :: URWLock where
  "urw_ex = \<lparr>ureaders = 1, uwriter = False, urwhead = [1]\<rparr>"

theorem rwlock_user_kernel_witness:
  "\<exists>k'. runlock \<lparr>rwhead = [(1, QueueingW)], wpc = 0, wproc = None, readers = 1, writer = False\<rparr> = Ret (Some 1) k'"
proof -
  let ?ql = "setst 1 QueuingW (upl usys_ex)"
  let ?k = "\<lparr>rwhead = [(1, QueueingW)], wpc = 0, wproc = None, readers = 1, writer = False\<rparr>"
  have "rwrel urw_ex ?ql ?k" by (simp add: rwrel_def urw_ex_def setst_def usys_ex_def)
  moreover have "urunlock urw_ex ?ql = Ret (Some 1) \<lparr>ureaders = 0, uwriter = True, urwhead = []\<rparr>"
    by (simp add: urunlock_def urw_ex_def setst_def usys_ex_def)
  ultimately show ?thesis using rwlock_user_kernel [of urw_ex ?ql ?k] by blast
qed

text \<open>\<^verbatim>\<open>rwakeupall\<close> called with the lock held moves every sleeping process to the front of the lock's
  queue and returns how many; since each goes in front of the one before, they get the lock in
  the reverse of the order in which they went to sleep.\<close>

theorem rwakeupall_reverses:
  assumes "rl r" "ulocked q"
  shows "okR (rwakeupall r q ql) (\<lambda>n (r', q', ql'). n = int (length (rhead r)) \<and> rhead r' = [] \<and>
     ulocked q' \<and> uhead q' = rev (rhead r) @ uhead q)"
  using rwakeupall_loop_ok [OF assms, of ql 0] by (auto simp: rwakeupall_def elim!: okR_mono)

theorem rwakeupall_reverses_witness:
  "okR (rwakeupall \<lparr>rl = True, rhead = [5, 6, 7]\<rparr> \<lparr>ulocked = True, uhead = [9]\<rparr> (upl usys_ex))
     (\<lambda>n (r', q', ql'). n = 3 \<and> uhead q' = [7, 6, 5, 9])"
  using rwakeupall_reverses [of "\<lparr>rl = True, rhead = [5, 6, 7]\<rparr>" "\<lparr>ulocked = True, uhead = [9]\<rparr>" "upl usys_ex"]
  by (auto elim!: okR_mono)

text \<open>\<^verbatim>\<open>getqlp\<close> scans every slot but the one claimed last: it claims a free one if there is such a slot,
  and aborts the program exactly when all of those are in use.\<close>

theorem getqlp_exact:
  assumes "qlp ql < length (qlx ql)"
  shows "(getqlp ql = None \<longleftrightarrow> (\<forall>a < length (qlx ql). a \<noteq> qlp ql \<longrightarrow> inuse (qlx ql ! a))) \<and>
     (\<forall>a ql'. getqlp ql = Some (a, ql') \<longrightarrow> a < length (qlx ql) \<and> \<not> inuse (qlx ql ! a) \<and> qlp ql' = a \<and>
        inuse (qlx ql' ! a))"
proof -
  have n: "getqlp_scan (qlx ql) (qlp ql) (qlp ql + 1) = Some a \<Longrightarrow>
      a < length (qlx ql) \<and> a \<noteq> qlp ql \<and> \<not> inuse (qlx ql ! a)" for a
    by (rule getqlp_scan_Some)
  have "getqlp ql = None \<longleftrightarrow> (\<forall>a < length (qlx ql). a \<noteq> qlp ql \<longrightarrow> inuse (qlx ql ! a))"
    using getqlp_None [of ql] assms n by (auto simp: qlinv_def getqlp_def split: option.splits)
  moreover have "a < length (qlx ql) \<and> \<not> inuse (qlx ql ! a) \<and> qlp ql' = a \<and> inuse (qlx ql' ! a)"
    if "getqlp ql = Some (a, ql')" for a ql'
    using that n by (auto simp: getqlp_def split: option.splits)
  ultimately show ?thesis by blast
qed

theorem getqlp_exact_witness: "\<exists>r. getqlp (upl usys_ex) = Some r"
proof -
  have "qlp (upl usys_ex) < length (qlx (upl usys_ex))" by (simp add: usys_ex_def)
  note e = getqlp_exact [OF this]
  have "2 < length (qlx (upl usys_ex)) \<and> 2 \<noteq> qlp (upl usys_ex) \<and> \<not> inuse (qlx (upl usys_ex) ! 2)"
    by (simp add: usys_ex_def)
  with e have "getqlp (upl usys_ex) \<noteq> None" by blast
  then show ?thesis by auto
qed

end
