(* ===== verification/Queue_Stream.thy ===== *)
theory Queue_Stream
  imports Queue_Props
begin

text \<open>
  The contract a queue offers its clients, as an interface: what is put in comes out, once and
  in order. Clients of a first-in first-out channel are proved against the locales \<open>channel\<close> and
  \<open>fifo\<close>, which adds that reads make progress; they are interpreted on the byte-stream operations \<^verbatim>\<open>qiwrite\<close> and \<^verbatim>\<open>qread\<close>, and on the block
  operations \<^verbatim>\<open>qpass\<close> and \<^verbatim>\<open>qget\<close> that drivers use.
\<close>

section \<open>The interface\<close>

datatype 'a chanop = Put "'a list" | Get nat

text \<open>Run a sequence of operations; the result is all that was accepted, all that came out,
  and the state at the end. An operation that does not return changes nothing.\<close>

fun runops ::
  "('s \<Rightarrow> 'a list \<Rightarrow> ('a list \<times> 's) option) \<Rightarrow> ('s \<Rightarrow> nat \<Rightarrow> ('a list \<times> 's) option) \<Rightarrow>
     'a chanop list \<Rightarrow> 's \<Rightarrow> 'a list \<times> 'a list \<times> 's" where
  "runops put get [] s = ([], [], s)"
| "runops put get (Put xs # ops) s =
     (case put s xs of
        None \<Rightarrow> runops put get ops s
      | Some (ys, s') \<Rightarrow> (case runops put get ops s' of (i, out, t) \<Rightarrow> (ys @ i, out, t)))"
| "runops put get (Get n # ops) s =
     (case get s n of
        None \<Rightarrow> runops put get ops s
      | Some (xs, s') \<Rightarrow> (case runops put get ops s' of (i, out, t) \<Rightarrow> (i, xs @ out, t)))"

locale channel =
  fixes inv :: "'s \<Rightarrow> bool" and content :: "'s \<Rightarrow> 'a list"
    and put :: "'s \<Rightarrow> 'a list \<Rightarrow> ('a list \<times> 's) option"
    and get :: "'s \<Rightarrow> nat \<Rightarrow> ('a list \<times> 's) option"
  assumes put_law: "inv s \<Longrightarrow> put s xs = Some (ys, s') \<Longrightarrow>
      inv s' \<and> content s' = content s @ ys \<and> (\<exists>zs. xs = ys @ zs)"
    and get_law: "inv s \<Longrightarrow> get s n = Some (xs, s') \<Longrightarrow>
      inv s' \<and> content s = xs @ content s' \<and> length xs \<le> n"
begin

lemma runops_fifo:
  "inv s \<Longrightarrow> runops put get ops s = (i, out, t) \<Longrightarrow> inv t \<and> content s @ i = out @ content t"
proof (induction ops arbitrary: s i out t)
  case Nil
  then show ?case by simp
next
  case (Cons op ops)
  show ?case
  proof (cases op)
    case (Put xs)
    show ?thesis
    proof (cases "put s xs")
      case None
      with Put Cons show ?thesis by simp
    next
      case (Some r)
      obtain ys s' where r: "r = (ys, s')" by (cases r)
      with Some put_law [OF Cons.prems(1)] have s': "inv s'" "content s' = content s @ ys" by auto
      obtain i' where "runops put get ops s' = (i', out, t)" "i = ys @ i'"
        using Cons.prems(2) Put Some r by (auto split: prod.splits)
      with Cons.IH [OF s'(1)] s' show ?thesis by simp
    qed
  next
    case (Get n)
    show ?thesis
    proof (cases "get s n")
      case None
      with Get Cons show ?thesis by simp
    next
      case (Some r)
      obtain xs s' where r: "r = (xs, s')" by (cases r)
      with Some get_law [OF Cons.prems(1)] have s': "inv s'" "content s = xs @ content s'" by auto
      obtain out' where "runops put get ops s' = (i, out', t)" "out = xs @ out'"
        using Cons.prems(2) Get Some r by (auto split: prod.splits)
      with Cons.IH [OF s'(1)] s' show ?thesis by simp
    qed
  qed
qed

end

text \<open>A channel that can be drained: a read returns something when there is something. Reading often
  enough delivers everything.\<close>

locale fifo = channel +
  assumes get_some: "inv s \<Longrightarrow> content s \<noteq> [] \<Longrightarrow> 0 < n \<Longrightarrow> \<exists>xs s'. get s n = Some (xs, s') \<and> xs \<noteq> []"
begin

lemma drain:
  "inv s \<Longrightarrow> 0 < n \<Longrightarrow> length (content s) \<le> k \<Longrightarrow>
     \<exists>t. runops put get (replicate k (Get n)) s = ([], content s, t) \<and> inv t \<and> content t = []"
proof (induction k arbitrary: s)
  case (Suc k)
  show ?case
  proof (cases "content s = []")
    case False
    with get_some [OF Suc.prems(1) _ Suc.prems(2)] obtain xs s' where g: "get s n = Some (xs, s')" "xs \<noteq> []"
      by blast
    with get_law [OF Suc.prems(1) g(1)] Suc.prems(3)
    have s': "inv s'" "content s = xs @ content s'" "length (content s') \<le> k"
      by (cases xs; simp)+
    with Suc.IH [OF s'(1) Suc.prems(2) s'(3)] g(1) show ?thesis by auto
  next
    case True
    show ?thesis
    proof (cases "get s n")
      case None
      with Suc.IH [OF Suc.prems(1,2)] True show ?thesis by simp
    next
      case (Some r)
      obtain xs s' where r: "r = (xs, s')" by (cases r)
      with Some get_law [OF Suc.prems(1)] True have "inv s'" "xs = []" "content s' = []" by auto
      with Suc.IH [OF _ Suc.prems(2), of s'] Some r True show ?thesis by auto
    qed
  qed
qed simp

end

section \<open>Byte streams: qiwrite and qread\<close>

definition stream_inv :: "Queue \<times> Kern \<Rightarrow> bool" where
  "stream_inv s \<longleftrightarrow> (case s of (q, w) \<Rightarrow>
     qinv q \<and> \<not> hasf (state q) Qmsg \<and> hasf (state q) Qcoalesce)"

definition stream_put :: "Queue \<times> Kern \<Rightarrow> byte list \<Rightarrow> (byte list \<times> Queue \<times> Kern) option" where
  "stream_put s xs = (case s of (q, w) \<Rightarrow>
     case qiwrite q xs w of Ret n t \<Rightarrow> Some (take (nat n) xs, t) | _ \<Rightarrow> None)"

definition stream_get :: "Queue \<times> Kern \<Rightarrow> nat \<Rightarrow> (byte list \<times> Queue \<times> Kern) option" where
  "stream_get s n = (case s of (q, w) \<Rightarrow>
     case qread q (int n) w of Ret (k, xs) t \<Rightarrow> Some (xs, t) | _ \<Rightarrow> None)"

lemma stream_put_law:
  assumes "stream_inv s" "stream_put s xs = Some (ys, t)"
  shows "stream_inv t \<and> qbytes (fst t) = qbytes (fst s) @ ys \<and> (\<exists>zs. xs = ys @ zs)"
proof -
  obtain q w q' w' where s: "s = (q, w)" "t = (q', w')" by (cases s; cases t)
  with assms obtain n where r: "qiwrite q xs w = Ret n (q', w')" "ys = take (nat n) xs"
    by (auto simp: stream_put_def split: res.splits)
  have "iwrote q xs 0 w (Ret n (q', w'))"
    using qiwrite_loop_ok [of q xs 0 w False] assms(1) s r by (simp add: stream_inv_def qiwrite_def)
  then obtain us vs where u: "xs = us @ vs" "n = int (length us)" "us = [] \<and> q' = q \<or> appended q q' us"
    by (auto simp: iwrote_def)
  then have "ys = us" using r(2) by simp
  with u assms(1) s qstaticD [of q' q] show ?thesis
    by (auto simp: stream_inv_def appended_def)
qed

text \<open>A read from a queue that holds no bytes returns none, if it returns.\<close>

lemma qread_get_nodata:
  "qinv q \<Longrightarrow> qbytes q = [] \<Longrightarrow> hasf (state q) Qcoalesce \<Longrightarrow> qread_get q l w = Ret r (q', w') \<Longrightarrow>
     r = None \<and> qinv q' \<and> qbytes q' = [] \<and> qstatic q' = qstatic q"
proof (induction "length (blocks q)" arbitrary: q w rule: less_induct)
  case less
  show ?case
  proof (cases "blocks q")
    case Nil
    with less.prems show ?thesis
      by (auto simp: qread_get.simps [of q] qwait_def Let_def qdefs split: if_splits)
  next
    case (Cons b bs)
    have wf: "wfb b" "bdata b = []" "BLEN b = 0"
      using less.prems(1,2) Cons by (simp_all add: qdefs BLEN_length)
    let ?q = "snd (qremove q)"
    have q': "qinv ?q" "qstatic ?q = qstatic q" "state ?q = state q" "qbytes ?q = []"
      "length (blocks ?q) < length (blocks q)"
      using less.prems(1,2) Cons by (simp_all add: qdefs qremove_def)
    have "qread_get ?q l (w\<lparr>ialloc_bytes := ialloc_bytes w - ibal b\<rparr>) = Ret r (q', w')"
      using less.prems(3,4) Cons wf by (simp add: qread_get.simps [of q] freeb_eq)
    with less.hyps [OF q'(5,1,4)] q' less.prems(3) show ?thesis by simp
  qed
qed

lemma stream_get_law:
  assumes "stream_inv s" "stream_get s n = Some (xs, t)"
  shows "stream_inv t \<and> qbytes (fst s) = xs @ qbytes (fst t) \<and> length xs \<le> n"
proof -
  obtain q w q' w' where s: "s = (q, w)" "t = (q', w')" by (cases s; cases t)
  with assms obtain k where r: "qread q (int n) w = Ret (k, xs) (q', w')"
    by (auto simp: stream_get_def split: res.splits)
  from assms(1) s have i: "qinv q" "\<not> hasf (state q) Qmsg" "hasf (state q) Qcoalesce"
    by (simp_all add: stream_inv_def)
  show ?thesis
  proof (cases "qbytes q = []")
    case True
    obtain o1 q1 w1 where g: "qread_get q (int n) w = Ret o1 (q1, w1)"
      using r by (auto simp: qread_def)
    with qread_get_nodata [OF i(1) True i(3) g] r True s i qstaticD [of q' q]
    show ?thesis by (auto simp: qread_def stream_inv_def)
  next
    case False
    then have "blocks q \<noteq> []" by (auto simp: qbytes_def)
    with qread_stream_ok [OF i(1,2), of n w] False r s i qstaticD [of q' q]
    show ?thesis by (simp add: stream_inv_def)
  qed
qed

lemma stream_get_some:
  assumes "stream_inv s" "qbytes (fst s) \<noteq> []" "0 < n"
  shows "\<exists>xs t. stream_get s n = Some (xs, t) \<and> xs \<noteq> []"
proof -
  obtain q w where s: "s = (q, w)" by (cases s)
  with assms have i: "qinv q" "\<not> hasf (state q) Qmsg" "hasf (state q) Qcoalesce" "blocks q \<noteq> []"
    by (auto simp: stream_inv_def qbytes_def)
  from qread_stream_ok [OF i(1,2,4), of n w] i(3) assms(2,3) s show ?thesis
    by (auto simp: stream_get_def okR_def)
qed

interpretation qs: fifo stream_inv "\<lambda>s. qbytes (fst s)" stream_put stream_get
  using stream_put_law stream_get_law stream_get_some by unfold_locales blast+

section \<open>Blocks: qpass and qget\<close>

definition blk_inv :: "Queue \<times> Kern \<Rightarrow> bool" where
  "blk_inv s = qinv (fst s)"

text \<open>\<^verbatim>\<open>qpass\<close> takes a string of blocks or none of it.\<close>

definition blk_put :: "Queue \<times> Kern \<Rightarrow> Block list \<Rightarrow> (Block list \<times> Queue \<times> Kern) option" where
  "blk_put s bs = (case s of (q, w) \<Rightarrow>
     if bs = [] \<or> \<not> list_all wfb bs then None else
     case qpass q bs w of
       Ret n t \<Rightarrow> Some (if len q \<ge> limit q \<or> hasf (state q) Qclosed then [] else bs, t)
     | _ \<Rightarrow> None)"

definition blk_get :: "Queue \<times> Kern \<Rightarrow> nat \<Rightarrow> (Block list \<times> Queue \<times> Kern) option" where
  "blk_get s n = (case s of (q, w) \<Rightarrow>
     if n = 0 then None else
     case qget q w of Ret (Some b) t \<Rightarrow> Some ([b], t) | Ret None t \<Rightarrow> Some ([], t) | _ \<Rightarrow> None)"

lemma blk_put_law:
  assumes "blk_inv s" "blk_put s bs = Some (cs, t)"
  shows "blk_inv t \<and> blocks (fst t) = blocks (fst s) @ cs \<and> (\<exists>ds. bs = cs @ ds)"
proof -
  obtain q w q' w' where s: "s = (q, w)" "t = (q', w')" by (cases s; cases t)
  with assms have "qinv q" "bs \<noteq> []" "list_all wfb bs"
    by (auto simp: blk_put_def blk_inv_def split: if_splits)
  from qpass_ok [OF this, of w] this(1) assms(2) s show ?thesis
    by (auto simp: blk_put_def blk_inv_def okR_def appended_def split: if_splits res.splits)
qed

lemma blk_get_law:
  assumes "blk_inv s" "blk_get s n = Some (cs, t)"
  shows "blk_inv t \<and> blocks (fst s) = cs @ blocks (fst t) \<and> length cs \<le> n"
proof -
  obtain q w where s: "s = (q, w)" by (cases s)
  with assms(1) have "qinv q" by (simp add: blk_inv_def)
  from qget_ok [OF this, of w] assms(2) s show ?thesis
    by (auto simp: blk_get_def blk_inv_def okR_def split: if_splits option.splits)
qed

lemma blk_get_some:
  assumes "blk_inv s" "blocks (fst s) \<noteq> []" "0 < n"
  shows "\<exists>cs t. blk_get s n = Some (cs, t) \<and> cs \<noteq> []"
proof -
  obtain q w where s: "s = (q, w)" by (cases s)
  with assms show ?thesis by (auto simp: blk_get_def qget_def split: list.split)
qed

interpretation qb: fifo blk_inv "\<lambda>s. blocks (fst s)" blk_put blk_get
  using blk_put_law blk_get_law blk_get_some by unfold_locales blast+


section \<open>Properties\<close>

text \<open>C24. A byte stream, which is a queue that coalesces blocks and is no message queue, is first in, first out over any sequence of writes and reads: what was in the
  queue at first, followed by every byte the writes accepted, is what the reads returned, followed
  by what is still in the queue. The writes are those of interrupt handlers, which may accept less
  than they are given when memory is short or the queue is full.\<close>

theorem stream_fifo:
  assumes "qinv q" "\<not> hasf (state q) Qmsg" "hasf (state q) Qcoalesce"
    "runops stream_put stream_get ops (q, w) = (accepted, returned, (q', w'))"
  shows "qbytes q @ accepted = returned @ qbytes q' \<and> qinv q'"
proof -
  have "stream_inv (q, w)" using assms(1-3) by (simp add: stream_inv_def)
  from qs.runops_fifo [OF this assms(4)] show ?thesis by (simp add: stream_inv_def)
qed

lemma Qcoalesce_bits [simp]: "hasf Qcoalesce Qcoalesce" "\<not> hasf Qcoalesce Qmsg"
  by (simp_all add: hasf_def qbit_defs)

theorem stream_fifo_witness:
  "\<exists>i out q' w'. runops stream_put stream_get [Put [7, 8], Get 3, Get 9] (queue2_ex Qcoalesce [1, 2] [3, 4], kern_ex) =
     (i, out, (q', w')) \<and> [1, 2, 3, 4] @ i = out @ qbytes q'"
proof -
  obtain i out q' w' where
    r: "runops stream_put stream_get [Put [7, 8], Get 3, Get 9] (queue2_ex Qcoalesce [1, 2] [3, 4], kern_ex) =
      (i, out, (q', w'))"
    by (metis prod.exhaust)
  from stream_fifo [OF _ _ _ r] have "[1, 2, 3, 4] @ i = out @ qbytes q'" by simp
  with r show ?thesis by blast
qed

text \<open>C25. Everything queued is delivered: on a byte stream (a queue that coalesces blocks and is no message queue), as
  many reads as there are bytes, of any positive size, return all of them in order and leave no byte in the queue.\<close>

theorem stream_drains:
  assumes "qinv q" "\<not> hasf (state q) Qmsg" "hasf (state q) Qcoalesce" "0 < n"
  shows "\<exists>q' w'. runops stream_put stream_get (replicate (length (qbytes q)) (Get n)) (q, w) =
     ([], qbytes q, (q', w')) \<and> qinv q' \<and> qbytes q' = []"
proof -
  have "stream_inv (q, w)" using assms(1-3) by (simp add: stream_inv_def)
  from qs.drain [OF this assms(4) order.refl] show ?thesis by (auto simp: stream_inv_def)
qed

theorem stream_drains_witness:
  "\<exists>q' w'. runops stream_put stream_get [Get 3, Get 3, Get 3, Get 3] (queue2_ex Qcoalesce [1, 2] [3, 4], kern_ex) =
     ([], [1, 2, 3, 4], (q', w')) \<and> qbytes q' = []"
proof -
  have "replicate (length (qbytes (queue2_ex Qcoalesce [1, 2] [3, 4]))) (Get 3) = [Get 3, Get 3, Get 3, Get 3]"
    by simp
  with stream_drains [of "queue2_ex Qcoalesce [1, 2] [3, 4]" 3 kern_ex] show ?thesis
    by (auto simp del: runops.simps)
qed

end
