(* ===== verification/Wire.thy ===== *)
theory Wire
  imports Prelude
begin

text \<open>
  Numbers and strings on the wire: the macros \<^verbatim>\<open>PBIT8\<close> to \<^verbatim>\<open>PBIT64\<close> and \<^verbatim>\<open>GBIT8\<close> to \<^verbatim>\<open>GBIT64\<close>
  of \<^verbatim>\<open>sys/include/fcall.h\<close>, which the 9P message and directory codecs share, over a memory
  buffer whose pointers are offsets. Reading or writing outside the buffer is a \<open>Fault\<close>.
\<close>

named_theorems wire \<open>evaluation of the wire primitives\<close>

section \<open>Little-endian numbers\<close>

definition le16 :: "u16 \<Rightarrow> byte list" where
  "le16 v = [ucast v, ucast (drop_bit 8 v)]"

definition le32 :: "u32 \<Rightarrow> byte list" where
  "le32 v = [ucast v, ucast (drop_bit 8 v), ucast (drop_bit 16 v), ucast (drop_bit 24 v)]"

definition le64 :: "u64 \<Rightarrow> byte list" where
  "le64 v = [ucast v, ucast (drop_bit 8 v), ucast (drop_bit 16 v), ucast (drop_bit 24 v),
     ucast (drop_bit 32 v), ucast (drop_bit 40 v), ucast (drop_bit 48 v), ucast (drop_bit 56 v)]"

definition get16 :: "byte list \<Rightarrow> u16" where
  "get16 xs = ucast (xs ! 0) OR push_bit 8 (ucast (xs ! 1))"

definition get32 :: "byte list \<Rightarrow> u32" where
  "get32 xs = ucast (xs ! 0) OR push_bit 8 (ucast (xs ! 1)) OR push_bit 16 (ucast (xs ! 2)) OR
     push_bit 24 (ucast (xs ! 3))"

text \<open>The low half is converted to \<^verbatim>\<open>u32int\<close>, the high half shifted as a \<^verbatim>\<open>vlong\<close>.\<close>

definition get64 :: "byte list \<Rightarrow> u64" where
  "get64 xs = ucast (get32 xs) OR push_bit 32 (ucast (get32 (drop 4 xs)))"

lemma length_le [simp]: "length (le16 a) = 2" "length (le32 b) = 4" "length (le64 c) = 8"
  by (simp_all add: le16_def le32_def le64_def)

lemma get_le16 [simp]: "get16 (le16 v) = v"
  by (intro bit_word_eqI) (auto simp: get16_def le16_def bit_simps)

lemma get_le32 [simp]: "get32 (le32 v) = v"
proof (intro bit_word_eqI)
  fix n assume "n < LENGTH(32)"
  then consider "n < 8" | "8 \<le> n" "n < 16" | "16 \<le> n" "n < 24" | "24 \<le> n" "n < 32" by force
  then show "bit (get32 (le32 v)) n = bit v n"
    by cases (auto simp: get32_def le32_def bit_simps)
qed

lemma get_le64 [simp]: "get64 (le64 v) = v"
proof -
  have "drop 4 (le64 v) = le32 (ucast (drop_bit 32 v))"
    by (simp add: le64_def le32_def) (auto intro!: bit_word_eqI simp: bit_simps)
  moreover have "get32 (le64 v) = ucast v"
  proof -
    have "take 4 (le64 v) = le32 (ucast v)"
      by (simp add: le64_def le32_def) (auto intro!: bit_word_eqI simp: bit_simps)
    moreover have "get32 (take 4 xs) = get32 xs" for xs by (simp add: get32_def)
    ultimately show ?thesis by (metis get_le32)
  qed
  ultimately show ?thesis
    by (intro bit_word_eqI) (auto simp: get64_def bit_simps)
qed

section \<open>Memory\<close>

text \<open>\<open>poke off xs\<close> stores bytes at an offset of the buffer, \<open>rd p n\<close> loads \<open>n\<close> of them; \<open>wr xs\<close>
  stores at the write pointer and advances it, as \<^verbatim>\<open>PBIT32(p, v); p += BIT32SZ\<close> does.\<close>

definition poke :: "nat \<Rightarrow> byte list \<Rightarrow> byte list \<Rightarrow> (unit, byte list) res" where
  "poke off xs b = (if off + length xs \<le> length b then Ret () (overwrite off xs b) else Fault)"

definition rd :: "nat \<Rightarrow> nat \<Rightarrow> byte list \<Rightarrow> (byte list, byte list) res" where
  "rd p n b = (if p + n \<le> length b then Ret (seg p n b) b else Fault)"

definition GBIT8 :: "nat \<Rightarrow> byte list \<Rightarrow> (byte, byte list) res" where
  "GBIT8 p b = bindR (rd p 1 b) (\<lambda>xs b. Ret (hd xs) b)"

definition GBIT16 :: "nat \<Rightarrow> byte list \<Rightarrow> (u16, byte list) res" where
  "GBIT16 p b = bindR (rd p 2 b) (\<lambda>xs b. Ret (get16 xs) b)"

definition GBIT32 :: "nat \<Rightarrow> byte list \<Rightarrow> (u32, byte list) res" where
  "GBIT32 p b = bindR (rd p 4 b) (\<lambda>xs b. Ret (get32 xs) b)"

definition GBIT64 :: "nat \<Rightarrow> byte list \<Rightarrow> (u64, byte list) res" where
  "GBIT64 p b = bindR (rd p 8 b) (\<lambda>xs b. Ret (get64 xs) b)"

type_synonym wstate = "nat \<times> byte list"

definition wr :: "byte list \<Rightarrow> wstate \<Rightarrow> (unit, wstate) res" where
  "wr xs s = (case s of (p, b) \<Rightarrow>
     if p + length xs \<le> length b then Ret () (p + length xs, overwrite p xs b) else Fault)"

text \<open>Storing at an offset of its own, and moving the write pointer.\<close>

definition pokew :: "nat \<Rightarrow> byte list \<Rightarrow> wstate \<Rightarrow> (unit, wstate) res" where
  "pokew off xs s = (case s of (p, b) \<Rightarrow>
     if off + length xs \<le> length b then Ret () (p, overwrite off xs b) else Fault)"

definition adv :: "nat \<Rightarrow> wstate \<Rightarrow> (unit, wstate) res" where
  "adv n s = (case s of (p, b) \<Rightarrow> Ret () (p + n, b))"

definition andthen :: "(wstate \<Rightarrow> (unit, wstate) res) \<Rightarrow> (wstate \<Rightarrow> (unit, wstate) res) \<Rightarrow>
    wstate \<Rightarrow> (unit, wstate) res" where
  "andthen m k s = bindR (m s) (\<lambda>_ s. k s)"

lemma overwrite_overwrite:
  "p + length xs + length ys \<le> length b \<Longrightarrow>
     overwrite (p + length xs) ys (overwrite p xs b) = overwrite p (xs @ ys) b"
  by (simp add: overwrite_def ac_simps)

text \<open>Storing twice in a row is storing once.\<close>

lemma wr_wr [wire]: "andthen (wr xs) (wr ys) = wr (xs @ ys)"
proof
  fix s :: wstate
  obtain p b where s: "s = (p, b)" by (cases s)
  show "andthen (wr xs) (wr ys) s = wr (xs @ ys) s"
    by (auto simp: andthen_def wr_def s overwrite_overwrite)
qed

section \<open>What lies at an offset\<close>

text \<open>\<open>at p b xs\<close>: the buffer \<open>b\<close> holds \<open>xs\<close> at offset \<open>p\<close>.\<close>

definition at :: "nat \<Rightarrow> byte list \<Rightarrow> byte list \<Rightarrow> bool" where
  "at p b xs \<longleftrightarrow> p + length xs \<le> length b \<and> seg p (length xs) b = xs"

lemma at_append: "at p b (xs @ ys) \<longleftrightarrow> at p b xs \<and> at (p + length xs) b ys"
proof
  assume a: "at p b (xs @ ys)"
  then have "take (length xs + length ys) (drop p b) = xs @ ys" "p + length xs + length ys \<le> length b"
    by (simp_all add: at_def seg_def add.assoc)
  moreover have "take (length xs) (take (length xs + length ys) (drop p b)) = take (length xs) (drop p b)"
    by simp
  moreover have "drop (length xs) (take (length xs + length ys) (drop p b)) = take (length ys) (drop (p + length xs) b)"
    by (simp add: drop_take add.commute)
  ultimately show "at p b xs \<and> at (p + length xs) b ys" by (simp add: at_def seg_def)
next
  assume a: "at p b xs \<and> at (p + length xs) b ys"
  have "seg p (length xs) b @ seg (p + length xs) (length xs + length ys - length xs) b
      = seg p (length xs + length ys) b" by (rule seg_append_drop) simp
  with a show "at p b (xs @ ys)" by (simp add: at_def)
qed

lemma at_Nil [simp]: "at p b [] \<longleftrightarrow> p \<le> length b"
  by (simp add: at_def)

lemma at_rd: "at p b xs \<Longrightarrow> n = length xs \<Longrightarrow> rd p n b = Ret xs b"
  by (simp add: at_def rd_def)

lemma at_GBIT [wire]:
  "at p b [v8] \<Longrightarrow> GBIT8 p b = Ret v8 b" "at p b (le16 v16) \<Longrightarrow> GBIT16 p b = Ret v16 b"
  "at p b (le32 v32) \<Longrightarrow> GBIT32 p b = Ret v32 b" "at p b (le64 v64) \<Longrightarrow> GBIT64 p b = Ret v64 b"
  by (simp_all add: GBIT8_def GBIT16_def GBIT32_def GBIT64_def at_rd)

lemma at_len: "at p b xs \<Longrightarrow> p + length xs \<le> length b"
  by (simp add: at_def)

lemma at_overwrite: "p + length xs \<le> length b \<Longrightarrow> at p (overwrite p xs b) xs"
  by (simp add: at_def seg_def overwrite_def)

lemma nth_overwrite:
  "off + length ys \<le> length b \<Longrightarrow> overwrite off ys b ! i =
     (if off \<le> i \<and> i < off + length ys then ys ! (i - off) else b ! i)"
proof -
  assume le: "off + length ys \<le> length b"
  consider "i < off" | "off \<le> i" "i < off + length ys" | "off + length ys \<le> i" by linarith
  then show ?thesis
    by cases (use le in \<open>auto simp: overwrite_def nth_append\<close>)
qed

lemma at_nth: "at p b xs \<longleftrightarrow> p + length xs \<le> length b \<and> (\<forall>i < length xs. b ! (p + i) = xs ! i)"
  by (auto simp: at_def seg_def list_eq_iff_nth_eq)

text \<open>Storing elsewhere changes nothing here.\<close>

lemma at_overwrite_other:
  "off + length ys \<le> length b \<Longrightarrow> p + length xs \<le> off \<or> off + length ys \<le> p \<Longrightarrow>
     at p (overwrite off ys b) xs = at p b xs"
proof -
  assume a: "off + length ys \<le> length b" "p + length xs \<le> off \<or> off + length ys \<le> p"
  have "overwrite off ys b ! (p + i) = b ! (p + i)" if "i < length xs" for i
    using a(2) that by (subst nth_overwrite [OF a(1)]) auto
  with a(1) show ?thesis by (simp add: at_nth)
qed

lemma rd_le [simp]:
  "p + 1 \<le> length b \<Longrightarrow> GBIT8 p b = Ret (b ! p) b"
  "p + 2 \<le> length b \<Longrightarrow> GBIT16 p b = Ret (get16 (seg p 2 b)) b"
  "p + 4 \<le> length b \<Longrightarrow> GBIT32 p b = Ret (get32 (seg p 4 b)) b"
  "p + 8 \<le> length b \<Longrightarrow> GBIT64 p b = Ret (get64 (seg p 8 b)) b"
  by (simp_all add: GBIT8_def GBIT16_def GBIT32_def GBIT64_def rd_def seg_def hd_drop_conv_nth)

end
