(* ===== verification/Fcalls.thy ===== *)
theory Fcalls
  imports Wire
begin

text \<open>
  9P messages: \<^verbatim>\<open>sys/include/fcall.h\<close>, \<^verbatim>\<open>sys/src/libc/9sys/convS2M.c\<close> and
  \<^verbatim>\<open>sys/src/libc/9sys/convM2S.c\<close>.

  The record \<open>Fcall\<close> has the fields of the C structure, those of the union side by side: each
  message type uses one branch of it. It is polymorphic in its pointers. A caller of
  \<^verbatim>\<open>convS2M\<close> gives strings (\<open>None\<close> for nil, the bytes before the final NUL otherwise) and data;
  \<^verbatim>\<open>convM2S\<close> answers with offsets into the message, which it changes in place: \<^verbatim>\<open>gstring\<close> moves
  each string down over its count to make room for a NUL. A \<^verbatim>\<open>uint\<close> is a 32-bit word and wraps.
  The array \<^verbatim>\<open>wname\<close> is a list; indexing it past its end is a \<open>Fault\<close>.
\<close>

section \<open>Data\<close>

record Qid =
  qtype :: byte
  qvers :: u32
  qpath :: u64

record ('s, 'd) Fcall =
  ftype :: byte
  fid :: u32
  tag :: u16
  msize :: u32
  version :: 's
  oldtag :: u16
  ename :: 's
  qid :: Qid
  iounit :: u32
  aqid :: Qid
  afid :: u32
  uname :: 's
  aname :: 's
  perm :: u32
  name :: 's
  mode :: byte
  newfid :: u32
  nwname :: u16
  wname :: "'s list"
  nwqid :: u16
  wqid :: "Qid list"
  offset :: u64
  count :: u32
  data :: 'd
  nstat :: u16
  stat :: 'd

type_synonym sfcall = "(byte list option, byte list) Fcall"
type_synonym pfcall = "(nat, nat) Fcall"

abbreviation Tversion :: byte where "Tversion \<equiv> 100"
abbreviation Rversion :: byte where "Rversion \<equiv> 101"
abbreviation Tauth :: byte where "Tauth \<equiv> 102"
abbreviation Rauth :: byte where "Rauth \<equiv> 103"
abbreviation Tattach :: byte where "Tattach \<equiv> 104"
abbreviation Rattach :: byte where "Rattach \<equiv> 105"
abbreviation Rerror :: byte where "Rerror \<equiv> 107"
abbreviation Tflush :: byte where "Tflush \<equiv> 108"
abbreviation Rflush :: byte where "Rflush \<equiv> 109"
abbreviation Twalk :: byte where "Twalk \<equiv> 110"
abbreviation Rwalk :: byte where "Rwalk \<equiv> 111"
abbreviation Topen :: byte where "Topen \<equiv> 112"
abbreviation Ropen :: byte where "Ropen \<equiv> 113"
abbreviation Tcreate :: byte where "Tcreate \<equiv> 114"
abbreviation Rcreate :: byte where "Rcreate \<equiv> 115"
abbreviation Tread :: byte where "Tread \<equiv> 116"
abbreviation Rread :: byte where "Rread \<equiv> 117"
abbreviation Twrite :: byte where "Twrite \<equiv> 118"
abbreviation Rwrite :: byte where "Rwrite \<equiv> 119"
abbreviation Tclunk :: byte where "Tclunk \<equiv> 120"
abbreviation Rclunk :: byte where "Rclunk \<equiv> 121"
abbreviation Tremove :: byte where "Tremove \<equiv> 122"
abbreviation Rremove :: byte where "Rremove \<equiv> 123"
abbreviation Tstat :: byte where "Tstat \<equiv> 124"
abbreviation Rstat :: byte where "Rstat \<equiv> 125"
abbreviation Twstat :: byte where "Twstat \<equiv> 126"
abbreviation Rwstat :: byte where "Rwstat \<equiv> 127"

definition MAXWELEM :: nat where "MAXWELEM = 16"

definition QIDSZ :: nat where "QIDSZ = 13"

section \<open>Structure to message\<close>

text \<open>The string goes in before its count, as in the source.\<close>

definition pstring :: "byte list option \<Rightarrow> wstate \<Rightarrow> (unit, wstate) res" where
  "pstring s st = (case st of (p, b) \<Rightarrow>
     (case s of
        None \<Rightarrow> andthen (pokew p (le16 0)) (adv 2) st
      | Some cs \<Rightarrow>
          andthen (pokew (p + 2) cs)
            (andthen (pokew p (le16 (of_nat (length cs)))) (adv (length cs + 2))) st))"

definition pqid :: "Qid \<Rightarrow> wstate \<Rightarrow> (unit, wstate) res" where
  "pqid q = andthen (wr [qtype q]) (andthen (wr (le32 (qvers q))) (wr (le64 (qpath q))))"

definition stringsz :: "byte list option \<Rightarrow> u32" where
  "stringsz s = (case s of None \<Rightarrow> 2 | Some cs \<Rightarrow> 2 + of_nat (length cs))"

text \<open>\<open>None\<close> is a read past the end of the array \<^verbatim>\<open>wname\<close>.\<close>

fun wnamesz :: "byte list option list \<Rightarrow> nat \<Rightarrow> u32 option" where
  "wnamesz ws 0 = Some 0"
| "wnamesz [] (Suc n) = None"
| "wnamesz (w # ws) (Suc n) = map_option (\<lambda>k. stringsz w + k) (wnamesz ws n)"

definition sizeS2M :: "sfcall \<Rightarrow> u32 option" where
  "sizeS2M f =
     (let n = 4 + 1 + 2; t = ftype f in
      if t = Tversion then Some (n + 4 + stringsz (version f))
      else if t = Tflush then Some (n + 2)
      else if t = Tauth then Some (n + 4 + stringsz (uname f) + stringsz (aname f))
      else if t = Tattach then Some (n + 4 + 4 + stringsz (uname f) + stringsz (aname f))
      else if t = Twalk then map_option (\<lambda>k. n + 4 + 4 + 2 + k) (wnamesz (wname f) (unat (nwname f)))
      else if t = Topen then Some (n + 4 + 1)
      else if t = Tcreate then Some (n + 4 + stringsz (name f) + 4 + 1)
      else if t = Tread then Some (n + 4 + 8 + 4)
      else if t = Twrite then Some (n + 4 + 8 + 4 + count f)
      else if t = Tclunk \<or> t = Tremove then Some (n + 4)
      else if t = Tstat then Some (n + 4)
      else if t = Twstat then Some (n + 4 + 2 + ucast (nstat f))
      else if t = Rversion then Some (n + 4 + stringsz (version f))
      else if t = Rerror then Some (n + stringsz (ename f))
      else if t = Rflush then Some n
      else if t = Rauth then Some (n + 13)
      else if t = Rattach then Some (n + 13)
      else if t = Rwalk then Some (n + 2 + ucast (nwqid f) * 13)
      else if t = Ropen \<or> t = Rcreate then Some (n + 13 + 4)
      else if t = Rread then Some (n + 4 + count f)
      else if t = Rwrite then Some (n + 4)
      else if t = Rclunk then Some n
      else if t = Rremove then Some n
      else if t = Rstat then Some (n + 2 + ucast (nstat f))
      else if t = Rwstat then Some n
      else Some 0)"

text \<open>\<^verbatim>\<open>memmove(p, d, n); p += n\<close>: a source shorter than \<open>n\<close> is a \<open>Fault\<close>.\<close>

definition pdata :: "byte list \<Rightarrow> nat \<Rightarrow> wstate \<Rightarrow> (unit, wstate) res" where
  "pdata d n st = (if n \<le> length d then wr (take n d) st else Fault)"

fun pstrings :: "byte list option list \<Rightarrow> nat \<Rightarrow> wstate \<Rightarrow> (unit, wstate) res" where
  "pstrings ws 0 st = Ret () st"
| "pstrings [] (Suc n) st = Fault"
| "pstrings (w # ws) (Suc n) st = bindR (pstring w st) (\<lambda>_ st. pstrings ws n st)"

fun pqids :: "Qid list \<Rightarrow> nat \<Rightarrow> wstate \<Rightarrow> (unit, wstate) res" where
  "pqids qs 0 st = Ret () st"
| "pqids [] (Suc n) st = Fault"
| "pqids (q # qs) (Suc n) st = bindR (pqid q st) (\<lambda>_ st. pqids qs n st)"

text \<open>The \<^verbatim>\<open>switch\<close> of \<^verbatim>\<open>convS2M\<close>; the answer \<open>False\<close> is its \<^verbatim>\<open>return 0\<close>.\<close>

definition brk :: "(wstate \<Rightarrow> (unit, wstate) res) \<Rightarrow> wstate \<Rightarrow> (bool, wstate) res" where
  "brk m st = (case m st of Ret _ s \<Rightarrow> Ret True s | _ \<Rightarrow> Fault)"

definition s2m_switch :: "sfcall \<Rightarrow> wstate \<Rightarrow> (bool, wstate) res" where
  "s2m_switch f st =
     (let t = ftype f in
      if t = Tversion then brk (andthen (wr (le32 (msize f))) (pstring (version f))) st
      else if t = Tflush then brk (wr (le16 (oldtag f))) st
      else if t = Tauth then
        brk (andthen (wr (le32 (afid f))) (andthen (pstring (uname f)) (pstring (aname f)))) st
      else if t = Tattach then
        brk (andthen (wr (le32 (fid f))) (andthen (wr (le32 (afid f)))
          (andthen (pstring (uname f)) (pstring (aname f))))) st
      else if t = Twalk then
        (case andthen (wr (le32 (fid f))) (andthen (wr (le32 (newfid f))) (wr (le16 (nwname f)))) st of
           Ret _ st \<Rightarrow>
             if unat (nwname f) > MAXWELEM then Ret False st
             else brk (pstrings (wname f) (unat (nwname f))) st
         | _ \<Rightarrow> Fault)
      else if t = Topen then brk (andthen (wr (le32 (fid f))) (wr [mode f])) st
      else if t = Tcreate then
        brk (andthen (wr (le32 (fid f))) (andthen (pstring (name f))
          (andthen (wr (le32 (perm f))) (wr [mode f])))) st
      else if t = Tread then
        brk (andthen (wr (le32 (fid f))) (andthen (wr (le64 (offset f))) (wr (le32 (count f))))) st
      else if t = Twrite then
        brk (andthen (wr (le32 (fid f))) (andthen (wr (le64 (offset f)))
          (andthen (wr (le32 (count f))) (pdata (data f) (unat (count f)))))) st
      else if t = Tclunk \<or> t = Tremove then brk (wr (le32 (fid f))) st
      else if t = Tstat then brk (wr (le32 (fid f))) st
      else if t = Twstat then
        brk (andthen (wr (le32 (fid f))) (andthen (wr (le16 (nstat f)))
          (pdata (stat f) (unat (nstat f))))) st
      else if t = Rversion then brk (andthen (wr (le32 (msize f))) (pstring (version f))) st
      else if t = Rerror then brk (pstring (ename f)) st
      else if t = Rflush then Ret True st
      else if t = Rauth then brk (pqid (aqid f)) st
      else if t = Rattach then brk (pqid (qid f)) st
      else if t = Rwalk then
        (case wr (le16 (nwqid f)) st of
           Ret _ st \<Rightarrow>
             if unat (nwqid f) > MAXWELEM then Ret False st
             else brk (pqids (wqid f) (unat (nwqid f))) st
         | _ \<Rightarrow> Fault)
      else if t = Ropen \<or> t = Rcreate then brk (andthen (pqid (qid f)) (wr (le32 (iounit f)))) st
      else if t = Rread then
        brk (andthen (wr (le32 (count f))) (pdata (data f) (unat (count f)))) st
      else if t = Rwrite then brk (wr (le32 (count f))) st
      else if t = Rclunk then Ret True st
      else if t = Rremove then Ret True st
      else if t = Rstat then
        brk (andthen (wr (le16 (nstat f))) (pdata (stat f) (unat (nstat f)))) st
      else if t = Rwstat then Ret True st
      else Ret False st)"

text \<open>The buffer at \<^verbatim>\<open>ap\<close> has \<^verbatim>\<open>nap\<close> bytes.\<close>

definition convS2M :: "sfcall \<Rightarrow> byte list \<Rightarrow> (u32, byte list) res" where
  "convS2M f ap =
     (case sizeS2M f of
        None \<Rightarrow> Fault
      | Some sz \<Rightarrow>
          if sz = 0 then Ret 0 ap
          else if unat sz > length ap then Ret 0 ap
          else
            (case andthen (wr (le32 sz)) (andthen (wr [ftype f]) (wr (le16 (tag f)))) (0, ap) of
               Ret _ st \<Rightarrow>
                 (case s2m_switch f st of
                    Ret ok (p, b) \<Rightarrow> if \<not> ok \<or> unat sz \<noteq> p then Ret 0 b else Ret sz b
                  | _ \<Rightarrow> Fault)
             | _ \<Rightarrow> Fault))"

section \<open>Message to structure\<close>

text \<open>\<open>None\<close> is nil; otherwise the offset of the string, now NUL-terminated, and the new read
  pointer.\<close>

definition gstring :: "nat \<Rightarrow> byte list \<Rightarrow> ((nat \<times> nat) option, byte list) res" where
  "gstring p b =
     (if p + 2 > length b then Ret None b
      else bindR (GBIT16 p b) (\<lambda>n b.
        let n = unat n; p = p + 2 - 1 in
        if p + n + 1 > length b then Ret None b
        else bindR (rd (p + 1) n b) (\<lambda>xs b.
          bindR (poke p xs b) (\<lambda>_ b.
          bindR (poke (p + n) [0] b) (\<lambda>_ b.
          Ret (Some (p, p + (n + 1))) b)))))"

definition gqid :: "nat \<Rightarrow> byte list \<Rightarrow> ((Qid \<times> nat) option, byte list) res" where
  "gqid p b =
     (if p + QIDSZ > length b then Ret None b
      else bindR (GBIT8 p b) (\<lambda>ty b.
        bindR (GBIT32 (p + 1) b) (\<lambda>v b.
        bindR (GBIT64 (p + 1 + 4) b) (\<lambda>pa b.
        Ret (Some (\<lparr>qtype = ty, qvers = v, qpath = pa\<rparr>, p + 1 + 4 + 8)) b))))"

text \<open>The loops over names and qids: \<^verbatim>\<open>wname[i]\<close> is set for each string read.\<close>

fun gstrings :: "nat \<Rightarrow> nat \<Rightarrow> nat \<Rightarrow> nat list \<Rightarrow> byte list \<Rightarrow> (nat list \<times> nat option, byte list) res" where
  "gstrings i 0 p ws b = Ret (ws, Some p) b"
| "gstrings i (Suc k) p ws b =
     bindR (gstring p b) (\<lambda>r b.
       case r of
         None \<Rightarrow> Ret (ws, None) b
       | Some (s, p) \<Rightarrow> if i < length ws then gstrings (Suc i) k p (ws[i := s]) b else Fault)"

fun gqids :: "nat \<Rightarrow> nat \<Rightarrow> nat \<Rightarrow> Qid list \<Rightarrow> byte list \<Rightarrow> (Qid list \<times> nat option, byte list) res" where
  "gqids i 0 p qs b = Ret (qs, Some p) b"
| "gqids i (Suc k) p qs b =
     bindR (gqid p b) (\<lambda>r b.
       case r of
         None \<Rightarrow> Ret (qs, None) b
       | Some (q, p) \<Rightarrow> if i < length qs then gqids (Suc i) k p (qs[i := q]) b else Fault)"

text \<open>Pieces of the \<^verbatim>\<open>switch\<close> of \<^verbatim>\<open>convM2S\<close>. An answer \<open>(None, f)\<close> stands for \<^verbatim>\<open>return 0\<close> and for
  leaving the \<^verbatim>\<open>switch\<close> with \<^verbatim>\<open>p\<close> nil, which returns 0 too; \<open>f\<close> is the structure so far.\<close>

type_synonym m2s = "nat \<Rightarrow> pfcall \<Rightarrow> byte list \<Rightarrow> (nat option \<times> pfcall, byte list) res"

text \<open>\<^verbatim>\<open>if(p+n > ep) return 0\<close>\<close>

definition need :: "nat \<Rightarrow> m2s \<Rightarrow> m2s" where
  "need n k p f b = (if p + n > length b then Ret (None, f) b else k p f b)"

text \<open>\<^verbatim>\<open>f->x = GBIT32(p); p += BIT32SZ\<close>, and the same for the other widths.\<close>

definition g8 :: "(byte \<Rightarrow> pfcall \<Rightarrow> pfcall) \<Rightarrow> m2s \<Rightarrow> m2s" where
  "g8 u k p f b = bindR (GBIT8 p b) (\<lambda>v b. k (p + 1) (u v f) b)"

definition g16 :: "(u16 \<Rightarrow> pfcall \<Rightarrow> pfcall) \<Rightarrow> m2s \<Rightarrow> m2s" where
  "g16 u k p f b = bindR (GBIT16 p b) (\<lambda>v b. k (p + 2) (u v f) b)"

definition g32 :: "(u32 \<Rightarrow> pfcall \<Rightarrow> pfcall) \<Rightarrow> m2s \<Rightarrow> m2s" where
  "g32 u k p f b = bindR (GBIT32 p b) (\<lambda>v b. k (p + 4) (u v f) b)"

definition g64 :: "(u64 \<Rightarrow> pfcall \<Rightarrow> pfcall) \<Rightarrow> m2s \<Rightarrow> m2s" where
  "g64 u k p f b = bindR (GBIT64 p b) (\<lambda>v b. k (p + 8) (u v f) b)"

definition gstr :: "(nat \<Rightarrow> pfcall \<Rightarrow> pfcall) \<Rightarrow> m2s \<Rightarrow> m2s" where
  "gstr u k p f b = bindR (gstring p b) (\<lambda>r b.
     case r of None \<Rightarrow> Ret (None, f) b | Some (s, p) \<Rightarrow> k p (u s f) b)"

definition gq :: "(Qid \<Rightarrow> pfcall \<Rightarrow> pfcall) \<Rightarrow> m2s \<Rightarrow> m2s" where
  "gq u k p f b = bindR (gqid p b) (\<lambda>r b.
     case r of None \<Rightarrow> Ret (None, f) b | Some (q, p) \<Rightarrow> k p (u q f) b)"

definition stop :: m2s where
  "stop p f b = Ret (Some p, f) b"

text \<open>\<^verbatim>\<open>if(p+n > ep) return 0; f->data = p; p += n\<close>\<close>

definition gdata :: "(pfcall \<Rightarrow> nat) \<Rightarrow> (nat \<Rightarrow> pfcall \<Rightarrow> pfcall) \<Rightarrow> m2s" where
  "gdata n u p f b =
     (if p + n f > length b then Ret (None, f) b else Ret (Some (p + n f), u p f) b)"

text \<open>The replies, the second half of the switch.\<close>

definition m2s_reply :: m2s where
  "m2s_reply p f b =
     (let t = ftype f in
      if t = Rversion then
        need 4 (g32 (\<lambda>v f. f\<lparr>msize := v\<rparr>) (gstr (\<lambda>s f. f\<lparr>version := s\<rparr>) stop)) p f b
      else if t = Rerror then gstr (\<lambda>s f. f\<lparr>ename := s\<rparr>) stop p f b
      else if t = Rflush then stop p f b
      else if t = Rauth then gq (\<lambda>q f. f\<lparr>aqid := q\<rparr>) stop p f b
      else if t = Rattach then gq (\<lambda>q f. f\<lparr>qid := q\<rparr>) stop p f b
      else if t = Rwalk then
        need 2 (g16 (\<lambda>v f. f\<lparr>nwqid := v\<rparr>) (\<lambda>p f b.
          if unat (nwqid f) > MAXWELEM then Ret (None, f) b
          else bindR (gqids 0 (unat (nwqid f)) p (wqid f) b) (\<lambda>(qs, p) b.
            Ret (p, f\<lparr>wqid := qs\<rparr>) b))) p f b
      else if t = Ropen \<or> t = Rcreate then
        gq (\<lambda>q f. f\<lparr>qid := q\<rparr>) (need 4 (g32 (\<lambda>v f. f\<lparr>iounit := v\<rparr>) stop)) p f b
      else if t = Rread then
        need 4 (g32 (\<lambda>v f. f\<lparr>count := v\<rparr>)
          (gdata (\<lambda>f. unat (count f)) (\<lambda>q f. f\<lparr>data := q\<rparr>))) p f b
      else if t = Rwrite then need 4 (g32 (\<lambda>v f. f\<lparr>count := v\<rparr>) stop) p f b
      else if t = Rclunk \<or> t = Rremove then stop p f b
      else if t = Rstat then
        need 2 (g16 (\<lambda>v f. f\<lparr>nstat := v\<rparr>)
          (gdata (\<lambda>f. unat (nstat f)) (\<lambda>q f. f\<lparr>stat := q\<rparr>))) p f b
      else if t = Rwstat then stop p f b
      else Ret (None, f) b)"

definition m2s_switch :: m2s where
  "m2s_switch p f b =
     (let t = ftype f in
      if t = Tversion then
        need 4 (g32 (\<lambda>v f. f\<lparr>msize := v\<rparr>) (gstr (\<lambda>s f. f\<lparr>version := s\<rparr>) stop)) p f b
      else if t = Tflush then need 2 (g16 (\<lambda>v f. f\<lparr>oldtag := v\<rparr>) stop) p f b
      else if t = Tauth then
        need 4 (g32 (\<lambda>v f. f\<lparr>afid := v\<rparr>) (gstr (\<lambda>s f. f\<lparr>uname := s\<rparr>)
          (gstr (\<lambda>s f. f\<lparr>aname := s\<rparr>) stop))) p f b
      else if t = Tattach then
        need 4 (g32 (\<lambda>v f. f\<lparr>fid := v\<rparr>) (need 4 (g32 (\<lambda>v f. f\<lparr>afid := v\<rparr>)
          (gstr (\<lambda>s f. f\<lparr>uname := s\<rparr>) (gstr (\<lambda>s f. f\<lparr>aname := s\<rparr>) stop))))) p f b
      else if t = Twalk then
        need (4 + 4 + 2) (g32 (\<lambda>v f. f\<lparr>fid := v\<rparr>) (g32 (\<lambda>v f. f\<lparr>newfid := v\<rparr>)
          (g16 (\<lambda>v f. f\<lparr>nwname := v\<rparr>) (\<lambda>p f b.
            if unat (nwname f) > MAXWELEM then Ret (None, f) b
            else bindR (gstrings 0 (unat (nwname f)) p (wname f) b) (\<lambda>(ws, p) b.
              Ret (p, f\<lparr>wname := ws\<rparr>) b))))) p f b
      else if t = Topen then
        need (4 + 1) (g32 (\<lambda>v f. f\<lparr>fid := v\<rparr>) (g8 (\<lambda>v f. f\<lparr>mode := v\<rparr>) stop)) p f b
      else if t = Tcreate then
        need 4 (g32 (\<lambda>v f. f\<lparr>fid := v\<rparr>) (gstr (\<lambda>s f. f\<lparr>name := s\<rparr>)
          (need (4 + 1) (g32 (\<lambda>v f. f\<lparr>perm := v\<rparr>) (g8 (\<lambda>v f. f\<lparr>mode := v\<rparr>) stop))))) p f b
      else if t = Tread then
        need (4 + 8 + 4) (g32 (\<lambda>v f. f\<lparr>fid := v\<rparr>) (g64 (\<lambda>v f. f\<lparr>offset := v\<rparr>)
          (g32 (\<lambda>v f. f\<lparr>count := v\<rparr>) stop))) p f b
      else if t = Twrite then
        need (4 + 8 + 4) (g32 (\<lambda>v f. f\<lparr>fid := v\<rparr>) (g64 (\<lambda>v f. f\<lparr>offset := v\<rparr>)
          (g32 (\<lambda>v f. f\<lparr>count := v\<rparr>)
            (gdata (\<lambda>f. unat (count f)) (\<lambda>q f. f\<lparr>data := q\<rparr>))))) p f b
      else if t = Tclunk \<or> t = Tremove then need 4 (g32 (\<lambda>v f. f\<lparr>fid := v\<rparr>) stop) p f b
      else if t = Tstat then need 4 (g32 (\<lambda>v f. f\<lparr>fid := v\<rparr>) stop) p f b
      else if t = Twstat then
        need (4 + 2) (g32 (\<lambda>v f. f\<lparr>fid := v\<rparr>) (g16 (\<lambda>v f. f\<lparr>nstat := v\<rparr>)
          (gdata (\<lambda>f. unat (nstat f)) (\<lambda>q f. f\<lparr>stat := q\<rparr>)))) p f b
      else m2s_reply p f b)"

definition convM2S :: "byte list \<Rightarrow> pfcall \<Rightarrow> (u32 \<times> pfcall, byte list) res" where
  "convM2S ap f =
     (if 4 + 1 + 2 > length ap then Ret (0, f) ap
      else bindR (GBIT32 0 ap) (\<lambda>sz b.
        if sz < 4 + 1 + 2 then Ret (0, f) b
        else bindR (GBIT8 4 b) (\<lambda>ty b.
          bindR (GBIT16 (4 + 1) b) (\<lambda>tg b.
          bindR (m2s_switch (4 + 1 + 2) (f\<lparr>ftype := ty, tag := tg\<rparr>) b) (\<lambda>(po, f) b.
          case po of
            None \<Rightarrow> Ret (0, f) b
          | Some p \<Rightarrow>
              if p > length b then Ret (0, f) b
              else if unat sz = p then Ret (sz, f) b
              else Ret (0, f) b)))))"

end
