(* ===== verification/Fcall_Props.thy ===== *)
theory Fcall_Props
  imports Fcalls
begin

text \<open>
  Correctness of the 9P message codec. \<open>encode\<close> gives the bytes of a message as the protocol
  lays them out; \<^verbatim>\<open>convS2M\<close> is shown to store exactly those, \<^verbatim>\<open>convM2S\<close> to read them back, and
  to be safe on every buffer whatever it holds.
\<close>

section \<open>The layout of messages\<close>

definition estr :: "byte list option \<Rightarrow> byte list" where
  "estr s = (case s of None \<Rightarrow> le16 0 | Some cs \<Rightarrow> le16 (of_nat (length cs)) @ cs)"

definition eqid :: "Qid \<Rightarrow> byte list" where
  "eqid q = [qtype q] @ le32 (qvers q) @ le64 (qpath q)"

definition payload :: "sfcall \<Rightarrow> byte list" where
  "payload f =
     (let t = ftype f in
      if t = Tversion \<or> t = Rversion then le32 (msize f) @ estr (version f)
      else if t = Tflush then le16 (oldtag f)
      else if t = Tauth then le32 (afid f) @ estr (uname f) @ estr (aname f)
      else if t = Tattach then le32 (fid f) @ le32 (afid f) @ estr (uname f) @ estr (aname f)
      else if t = Twalk then le32 (fid f) @ le32 (newfid f) @ le16 (nwname f) @
        concat (map estr (take (unat (nwname f)) (wname f)))
      else if t = Topen then le32 (fid f) @ [mode f]
      else if t = Tcreate then le32 (fid f) @ estr (name f) @ le32 (perm f) @ [mode f]
      else if t = Tread then le32 (fid f) @ le64 (offset f) @ le32 (count f)
      else if t = Twrite then le32 (fid f) @ le64 (offset f) @ le32 (count f) @
        take (unat (count f)) (data f)
      else if t = Tclunk \<or> t = Tremove \<or> t = Tstat then le32 (fid f)
      else if t = Twstat then le32 (fid f) @ le16 (nstat f) @ take (unat (nstat f)) (stat f)
      else if t = Rerror then estr (ename f)
      else if t = Rauth then eqid (aqid f)
      else if t = Rattach then eqid (qid f)
      else if t = Rwalk then le16 (nwqid f) @ concat (map eqid (take (unat (nwqid f)) (wqid f)))
      else if t = Ropen \<or> t = Rcreate then eqid (qid f) @ le32 (iounit f)
      else if t = Rread then le32 (count f) @ take (unat (count f)) (data f)
      else if t = Rwrite then le32 (count f)
      else if t = Rstat then le16 (nstat f) @ take (unat (nstat f)) (stat f)
      else [])"

definition encode :: "sfcall \<Rightarrow> byte list" where
  "encode f = le32 (of_nat (7 + length (payload f))) @ [ftype f] @ le16 (tag f) @ payload f"

definition mtypes :: "byte list" where
  "mtypes = [Tversion, Rversion, Tauth, Rauth, Tattach, Rattach, Rerror, Tflush, Rflush, Twalk, Rwalk,
     Topen, Ropen, Tcreate, Rcreate, Tread, Rread, Twrite, Rwrite, Tclunk, Rclunk, Tremove, Rremove,
     Tstat, Rstat, Twstat, Rwstat]"

text \<open>What a caller of \<^verbatim>\<open>convS2M\<close> must provide: a message type of the protocol, no more than
  \<^verbatim>\<open>MAXWELEM\<close> names or qids, and buffers as long as their counts say.\<close>

definition valid :: "sfcall \<Rightarrow> bool" where
  "valid f \<longleftrightarrow> ftype f \<in> set mtypes \<and> length (wname f) = MAXWELEM \<and> length (wqid f) = MAXWELEM \<and>
     (ftype f = Twalk \<longrightarrow> unat (nwname f) \<le> MAXWELEM) \<and>
     (ftype f = Rwalk \<longrightarrow> unat (nwqid f) \<le> MAXWELEM) \<and>
     (ftype f \<in> {Twrite, Rread} \<longrightarrow> unat (count f) \<le> length (data f)) \<and>
     (ftype f \<in> {Twstat, Rstat} \<longrightarrow> unat (nstat f) \<le> length (stat f))"

section \<open>convS2M stores the message\<close>

lemma length_eqid [simp]: "length (eqid q) = 13"
  by (simp add: eqid_def)

lemma pstring_wr [wire]: "pstring s = wr (estr s)"
proof
  fix st :: wstate
  obtain p b where st: "st = (p, b)" by (cases st)
  have ow: "overwrite p xs (overwrite (p + length xs) ys b) = overwrite p (xs @ ys) b"
    if "p + length xs + length ys \<le> length b" for xs ys :: "byte list"
    using that by (simp add: overwrite_def ac_simps)
  show "pstring s st = wr (estr s) st"
    using ow [of "le16 x" for x]
    by (auto simp: pstring_def st estr_def andthen_def pokew_def adv_def wr_def split: option.split)
qed

lemma pqid_wr [wire]: "pqid q = wr (eqid q)"
  by (simp add: pqid_def eqid_def wr_wr)

lemma pdata_wr [wire]: "n \<le> length d \<Longrightarrow> pdata d n = wr (take n d)"
  by (simp add: pdata_def fun_eq_iff)

lemma wr_bind: "bindR (wr xs s) (\<lambda>_ s. wr ys s) = wr (xs @ ys) s"
  using wr_wr [of xs ys] by (metis andthen_def)

lemma pstrings_wr [wire]:
  "n \<le> length ws \<Longrightarrow> p \<le> length b \<Longrightarrow> pstrings ws n (p, b) = wr (concat (map estr (take n ws))) (p, b)"
proof (induction n arbitrary: ws p b)
  case 0
  then show ?case by (simp add: wr_def)
next
  case (Suc n)
  then obtain w ws' where ws: "ws = w # ws'" "n \<le> length ws'" by (cases ws) auto
  show ?case
  proof (cases "p + length (estr w) \<le> length b")
    case True
    with Suc.IH [OF ws(2)] have "pstrings ws (Suc n) (p, b) =
        bindR (wr (estr w) (p, b)) (\<lambda>_ s. wr (concat (map estr (take n ws'))) s)"
      by (simp add: ws pstring_wr) (simp add: wr_def)
    then show ?thesis by (simp add: wr_bind ws)
  next
    case False
    then show ?thesis by (simp add: ws pstring_wr) (simp add: wr_def)
  qed
qed

lemma pqids_wr [wire]:
  "n \<le> length qs \<Longrightarrow> p \<le> length b \<Longrightarrow> pqids qs n (p, b) = wr (concat (map eqid (take n qs))) (p, b)"
proof (induction n arbitrary: qs p b)
  case 0
  then show ?case by (simp add: wr_def)
next
  case (Suc n)
  then obtain q qs' where qs: "qs = q # qs'" "n \<le> length qs'" by (cases qs) auto
  show ?case
  proof (cases "p + length (eqid q) \<le> length b")
    case True
    with Suc.IH [OF qs(2)] have "pqids qs (Suc n) (p, b) =
        bindR (wr (eqid q) (p, b)) (\<lambda>_ s. wr (concat (map eqid (take n qs'))) s)"
      by (simp add: qs pqid_wr) (simp add: wr_def)
    then show ?thesis by (simp add: wr_bind qs)
  next
    case False
    then show ?thesis by (simp add: qs pqid_wr) (simp add: wr_def)
  qed
qed

text \<open>A header, a check that passes, and a loop.\<close>

lemma wr_then_loop:
  assumes "\<And>p b. p \<le> length b \<Longrightarrow> m (p, b) = wr ys (p, b)"
  shows "(case wr xs s of Ret _ st \<Rightarrow> brk m st | _ \<Rightarrow> Fault) = brk (wr (xs @ ys)) s"
proof (cases "fst s + length xs \<le> length (snd s)")
  case True
  obtain p b where s: "s = (p, b)" by (cases s)
  have "m (p + length xs, overwrite p xs b) = wr ys (p + length xs, overwrite p xs b)"
    by (rule assms) (use True s in simp)
  moreover have "wr (xs @ ys) s = bindR (wr xs s) (\<lambda>_ s. wr ys s)" by (simp add: wr_bind)
  ultimately show ?thesis using True s by (simp add: brk_def wr_def)
next
  case False
  then show ?thesis by (cases s) (simp add: brk_def wr_def)
qed

lemma s2m_switch_wr:
  assumes "valid f" "fst st \<le> length (snd st)"
  shows "s2m_switch f st = brk (wr (payload f)) st"
proof -
  obtain p b where st: "st = (p, b)" "p \<le> length b" using assms(2) by (cases st) simp
  have nil: "brk (wr []) st = Ret True st" using st by (simp add: brk_def wr_def)
  have walk: "(case wr xs st of Ret _ st \<Rightarrow> if MAXWELEM < unat (nwname f) then Ret False st
          else brk (pstrings (wname f) (unat (nwname f))) st | _ \<Rightarrow> Fault)
      = brk (wr (xs @ concat (map estr (take (unat (nwname f)) (wname f))))) st"
    if "ftype f = Twalk" for xs
  proof -
    have n: "unat (nwname f) \<le> MAXWELEM" "\<not> MAXWELEM < unat (nwname f)" using that assms(1) by (auto simp: valid_def)
    show ?thesis
      unfolding if_not_P [OF n(2)]
      by (rule wr_then_loop, rule pstrings_wr) (use n assms(1) in \<open>auto simp: valid_def\<close>)
  qed
  have qids: "(case wr xs st of Ret _ st \<Rightarrow> if MAXWELEM < unat (nwqid f) then Ret False st
          else brk (pqids (wqid f) (unat (nwqid f))) st | _ \<Rightarrow> Fault)
      = brk (wr (xs @ concat (map eqid (take (unat (nwqid f)) (wqid f))))) st"
    if "ftype f = Rwalk" for xs
  proof -
    have n: "unat (nwqid f) \<le> MAXWELEM" "\<not> MAXWELEM < unat (nwqid f)" using that assms(1) by (auto simp: valid_def)
    show ?thesis
      unfolding if_not_P [OF n(2)]
      by (rule wr_then_loop, rule pqids_wr) (use n assms(1) in \<open>auto simp: valid_def\<close>)
  qed
  have "ftype f \<in> set mtypes" using assms(1) by (simp add: valid_def)
  moreover have "ftype f = Twrite \<or> ftype f = Rread \<Longrightarrow> unat (count f) \<le> length (data f)"
    "ftype f = Twstat \<or> ftype f = Rstat \<Longrightarrow> unat (nstat f) \<le> length (stat f)"
    "ftype f = Twalk \<Longrightarrow> \<not> MAXWELEM < unat (nwname f)" "ftype f = Rwalk \<Longrightarrow> \<not> MAXWELEM < unat (nwqid f)"
    using assms(1) by (auto simp: valid_def)
  ultimately show ?thesis
    unfolding mtypes_def set_simps insert_iff empty_iff s2m_switch_def payload_def Let_def
    by (elim disjE) (simp_all add: wire nil walk qids)
qed

lemma stringsz_len: "stringsz s = of_nat (length (estr s))"
  by (simp add: stringsz_def estr_def split: option.split)

lemma wnamesz_len:
  "n \<le> length ws \<Longrightarrow> wnamesz ws n = Some (of_nat (length (concat (map estr (take n ws)))))"
proof (induction n arbitrary: ws)
  case (Suc n)
  then show ?case by (cases ws) (simp_all add: stringsz_len)
qed simp

lemma length_concat_const: "\<forall>x \<in> set xs. length (g x) = k \<Longrightarrow> length (concat (map g xs)) = length xs * k"
  by (induction xs) simp_all

text \<open>The size computed beforehand is the size of the message, as a 32-bit number.\<close>

lemma sizeS2M_len:
  assumes "valid f"
  shows "sizeS2M f = Some (of_nat (7 + length (payload f)))"
proof -
  have "ftype f \<in> set mtypes" using assms by (simp add: valid_def)
  moreover have "ftype f = Twrite \<or> ftype f = Rread \<Longrightarrow> min (length (data f)) (unat (count f)) = unat (count f)"
    "ftype f = Twstat \<or> ftype f = Rstat \<Longrightarrow> min (length (stat f)) (unat (nstat f)) = unat (nstat f)"
    "ftype f = Twalk \<Longrightarrow> wnamesz (wname f) (unat (nwname f)) =
        Some (of_nat (length (concat (map estr (take (unat (nwname f)) (wname f))))))"
    using assms by (auto simp: valid_def wnamesz_len)
  moreover have "length (concat (map eqid (take (unat (nwqid f)) (wqid f)))) = unat (nwqid f) * 13" if "ftype f = Rwalk"
    using that assms length_concat_const [of "take (unat (nwqid f)) (wqid f)" eqid 13] by (simp add: valid_def)
  ultimately show ?thesis
    unfolding mtypes_def set_simps insert_iff empty_iff sizeS2M_def payload_def Let_def
    by (elim disjE) (simp_all add: stringsz_len of_nat_unat)
qed

lemma convS2M_eq:
  assumes "valid f" "7 + length (payload f) < 2 ^ 32"
  shows "convS2M f ap =
    (if length (encode f) \<le> length ap
     then Ret (of_nat (length (encode f))) (overwrite 0 (encode f) ap) else Ret 0 ap)"
proof -
  define n where "n = 7 + length (payload f)"
  let ?h = "le32 (of_nat n) @ [ftype f] @ le16 (tag f)"
  have n: "n < 2 ^ 32" "0 < n" "7 \<le> n" using assms(2) by (simp_all add: n_def)
  have sz: "unat (of_nat n :: u32) = n" "(of_nat n :: u32) \<noteq> 0"
    using n by (auto simp: unat_of_nat word_of_nat_eq_0_iff dest: nat_dvd_not_less)
  have enc: "encode f = ?h @ payload f" "length (encode f) = n" by (simp_all add: encode_def n_def)
  note size = sizeS2M_len [OF assms(1), folded n_def]
  show ?thesis
  proof (cases "n \<le> length ap")
    case True
    have h: "andthen (wr (le32 (of_nat n))) (andthen (wr [ftype f]) (wr (le16 (tag f)))) (0, ap)
        = Ret () (7, overwrite 0 ?h ap)"
      unfolding wr_wr using True n(3) by (simp add: wr_def)
    have "brk (wr (payload f)) (7, overwrite 0 ?h ap) = Ret True (n, overwrite 0 (encode f) ap)"
      using True overwrite_overwrite [of 0 ?h "payload f" ap] by (simp add: brk_def wr_def enc(1) n_def)
    moreover have "s2m_switch f (7, overwrite 0 ?h ap) = brk (wr (payload f)) (7, overwrite 0 ?h ap)"
      by (rule s2m_switch_wr [OF assms(1)]) (use True n(3) in simp)
    ultimately show ?thesis
      unfolding convS2M_def size using True sz h enc(2) by simp
  next
    case False
    then show ?thesis
      unfolding convS2M_def size using sz enc(2) by simp
  qed
qed

section \<open>convM2S is safe\<close>

text \<open>\<open>safe m k\<close>: with \<open>m\<close> bytes left in the buffer, \<open>k\<close> reads and writes inside it only, keeps
  its size, and keeps the arrays of the structure at their size.\<close>

definition arrs :: "pfcall \<Rightarrow> bool" where
  "arrs f \<longleftrightarrow> length (wname f) = MAXWELEM \<and> length (wqid f) = MAXWELEM"

definition safe :: "nat \<Rightarrow> m2s \<Rightarrow> bool" where
  "safe m k \<longleftrightarrow> (\<forall>p f b. arrs f \<longrightarrow> p + m \<le> length b \<longrightarrow>
     okR (k p f b) (\<lambda>(po, f') b'. length b' = length b \<and> arrs f'))"

lemma safeD:
  "safe m k \<Longrightarrow> arrs f \<Longrightarrow> p + m \<le> length b \<Longrightarrow> length b = n \<Longrightarrow>
     okR (k p f b) (\<lambda>(po, f') b'. length b' = n \<and> arrs f')"
  by (auto simp: safe_def)

lemma gstring_ok:
  "okR (gstring p b) (\<lambda>r b'. length b' = length b \<and>
     (case r of None \<Rightarrow> True | Some (s, q) \<Rightarrow> p < s \<and> s < q \<and> q \<le> length b))"
  by (auto simp: gstring_def Let_def rd_def poke_def)

lemma gqid_ok:
  "okR (gqid p b) (\<lambda>r b'. b' = b \<and> (case r of None \<Rightarrow> True | Some (s, q) \<Rightarrow> q \<le> length b))"
  by (auto simp: gqid_def QIDSZ_def)

lemma safe_stop: "safe m stop"
  by (simp add: safe_def stop_def)

lemma safe_need: "safe n k \<Longrightarrow> safe m (need n k)"
  by (simp add: safe_def need_def)

lemma safe_g:
  "1 \<le> m \<Longrightarrow> safe (m - 1) k \<Longrightarrow> (\<And>v f. arrs (u8 v f) = arrs f) \<Longrightarrow> safe m (g8 u8 k)"
  "2 \<le> m \<Longrightarrow> safe (m - 2) k \<Longrightarrow> (\<And>v f. arrs (u16 v f) = arrs f) \<Longrightarrow> safe m (g16 u16 k)"
  "4 \<le> m \<Longrightarrow> safe (m - 4) k \<Longrightarrow> (\<And>v f. arrs (u32 v f) = arrs f) \<Longrightarrow> safe m (g32 u32 k)"
  "8 \<le> m \<Longrightarrow> safe (m - 8) k \<Longrightarrow> (\<And>v f. arrs (u64 v f) = arrs f) \<Longrightarrow> safe m (g64 u64 k)"
  by (simp_all add: safe_def g8_def g16_def g32_def g64_def)

lemma safe_gstr:
  assumes "safe 0 k" "\<And>v f. arrs (u v f) = arrs f"
  shows "safe m (gstr u k)"
  unfolding safe_def
proof (intro allI impI)
  fix p f and b :: "byte list" assume a: "arrs f" "p + m \<le> length b"
  show "okR (gstr u k p f b) (\<lambda>(po, f') b'. length b' = length b \<and> arrs f')"
    unfolding gstr_def okR_bindR
    by (rule okR_mono [OF gstring_ok])
       (use a assms(2) in \<open>auto split: option.splits intro!: safeD [OF assms(1)]\<close>)
qed

lemma safe_gq:
  assumes "safe 0 k" "\<And>v f. arrs (u v f) = arrs f"
  shows "safe m (gq u k)"
  unfolding safe_def
proof (intro allI impI)
  fix p f and b :: "byte list" assume a: "arrs f" "p + m \<le> length b"
  show "okR (gq u k p f b) (\<lambda>(po, f') b'. length b' = length b \<and> arrs f')"
    unfolding gq_def okR_bindR
    by (rule okR_mono [OF gqid_ok])
       (use a assms(2) in \<open>auto split: option.splits intro!: safeD [OF assms(1)]\<close>)
qed

lemma safe_gdata: "(\<And>v f. arrs (u v f) = arrs f) \<Longrightarrow> safe m (gdata n u)"
  by (simp add: safe_def gdata_def)

text \<open>Where the references of a decoded message point, on success: a string lies below the end \<open>q\<close> of the message with a NUL
  after it, data and directory entries lie below it with all their bytes.\<close>

definition nulbelow :: "nat \<Rightarrow> byte list \<Rightarrow> nat \<Rightarrow> bool" where
  "nulbelow q b s \<longleftrightarrow> (\<exists>k. s + k < q \<and> b ! (s + k) = 0)"

definition strrefs :: "pfcall \<Rightarrow> nat list" where
  "strrefs f = (let t = ftype f in
     if t = Tversion \<or> t = Rversion then [version f]
     else if t = Rerror then [ename f]
     else if t = Tauth \<or> t = Tattach then [uname f, aname f]
     else if t = Twalk then take (unat (nwname f)) (wname f)
     else if t = Tcreate then [name f] else [])"

definition datarefs :: "pfcall \<Rightarrow> (nat \<times> nat) list" where
  "datarefs f = (let t = ftype f in
     if t = Twrite \<or> t = Rread then [(data f, unat (count f))]
     else if t = Twstat \<or> t = Rstat then [(stat f, unat (nstat f))] else [])"

definition inmessage :: "nat \<Rightarrow> pfcall \<Rightarrow> byte list \<Rightarrow> bool" where
  "inmessage q f b \<longleftrightarrow> list_all (nulbelow q b) (strrefs f) \<and> list_all (\<lambda>(p, n). p + n \<le> q) (datarefs f)"

lemma nulbelow_later: "nulbelow p b s \<Longrightarrow> take p b' = take p b \<Longrightarrow> p \<le> q \<Longrightarrow> nulbelow q b' s"
proof -
  assume a: "nulbelow p b s" "take p b' = take p b" "p \<le> q"
  then obtain k where k: "s + k < p" "b ! (s + k) = 0" by (auto simp: nulbelow_def)
  then have "b' ! (s + k) = b ! (s + k)" using arg_cong [OF a(2), of "\<lambda>v. v ! (s + k)"] by simp
  then show ?thesis using k a(3) by (auto simp: nulbelow_def intro!: exI [of _ k])
qed

lemma gstring_Some:
  assumes "gstring p b = Ret (Some (s, q)) b'"
  shows "nulbelow q b' s \<and> p < q \<and> length b' = length b \<and> take p b' = take p b"
  using assms
  by (auto simp: gstring_def Let_def rd_def poke_def nulbelow_def nth_append overwrite_def split: if_splits intro!: exI [of _ "q - 1 - s"])

lemma m2s_elims:
  "need n k p f b = Ret (Some q, f') b' \<Longrightarrow> (k p f b = Ret (Some q, f') b' \<Longrightarrow> P) \<Longrightarrow> P"
  "g8 u8 k p f b = Ret (Some q, f') b' \<Longrightarrow> (\<And>v. k (p + 1) (u8 v f) b = Ret (Some q, f') b' \<Longrightarrow> P) \<Longrightarrow> P"
  "g16 u16 k p f b = Ret (Some q, f') b' \<Longrightarrow> (\<And>v. k (p + 2) (u16 v f) b = Ret (Some q, f') b' \<Longrightarrow> P) \<Longrightarrow> P"
  "g32 u32 k p f b = Ret (Some q, f') b' \<Longrightarrow> (\<And>v. k (p + 4) (u32 v f) b = Ret (Some q, f') b' \<Longrightarrow> P) \<Longrightarrow> P"
  "g64 u64 k p f b = Ret (Some q, f') b' \<Longrightarrow> (\<And>v. k (p + 8) (u64 v f) b = Ret (Some q, f') b' \<Longrightarrow> P) \<Longrightarrow> P"
  by (auto simp: need_def g8_def g16_def g32_def g64_def GBIT8_def GBIT16_def GBIT32_def GBIT64_def rd_def split: if_splits)

lemma gstr_elim:
  assumes "gstr u k p f b = Ret (Some q, f') b'"
  obtains s p1 b1 where "k p1 (u s f) b1 = Ret (Some q, f') b'" "nulbelow p1 b1 s" "p < p1" "take p b1 = take p b"
proof -
  obtain r b1 where r: "gstring p b = Ret r b1" using gstring_ok [of p b] by (auto simp: okR_def)
  with assms obtain s p1 where "r = Some (s, p1)" "k p1 (u s f) b1 = Ret (Some q, f') b'"
    by (cases r) (auto simp: gstr_def)
  then show ?thesis using that gstring_Some [of p b s p1 b1] r by simp
qed

lemma gq_elim:
  "gq u k p f b = Ret (Some q, f') b' \<Longrightarrow> (\<And>v p1. k p1 (u v f) b = Ret (Some q, f') b' \<Longrightarrow> P) \<Longrightarrow> P"
  using gqid_ok [of p b] by (auto simp: gq_def okR_def split: option.splits)

lemma gend_elim:
  "stop p f b = Ret (Some q, f') b' \<Longrightarrow> (q = p \<Longrightarrow> f' = f \<Longrightarrow> b' = b \<Longrightarrow> P) \<Longrightarrow> P"
  "gdata n u p f b = Ret (Some q, f') b' \<Longrightarrow> (q = p + n f \<Longrightarrow> f' = u p f \<Longrightarrow> b' = b \<Longrightarrow> P) \<Longrightarrow> P"
  by (auto simp: stop_def gdata_def split: if_splits)

lemma gstrings_Some:
  "gstrings i k p ws b = Ret (ws', Some q) b' \<Longrightarrow> i + k \<le> length ws \<Longrightarrow>
     p \<le> q \<and> take p b' = take p b \<and> take i ws' = take i ws \<and> length ws' = length ws \<and> list_all (nulbelow q b') (take k (drop i ws'))"
proof (induction k arbitrary: i p ws b)
  case (Suc k)
  from Suc.prems(1) obtain s p1 b1 where g: "gstring p b = Ret (Some (s, p1)) b1" "gstrings (Suc i) k p1 (ws[i := s]) b1 = Ret (ws', Some q) b'"
    using Suc.prems(2) by (cases "gstring p b") (auto split: option.splits)
  have s: "nulbelow p1 b1 s" "p < p1" "length b1 = length b" "take p b1 = take p b" using gstring_Some [OF g(1)] by simp_all
  have ih: "p1 \<le> q" "take p1 b' = take p1 b1" "take (Suc i) ws' = take (Suc i) (ws[i := s])" "length ws' = length ws"
      "list_all (nulbelow q b') (take k (drop (Suc i) ws'))"
    using Suc.IH [OF g(2)] Suc.prems(2) by simp_all
  have i: "i < length ws'" "ws' ! i = s" "take i ws' = take i ws"
  proof -
    show "i < length ws'" using ih(4) Suc.prems(2) by simp
    have "take (Suc i) ws' ! i = take (Suc i) (ws[i := s]) ! i" by (simp only: ih(3))
    then show "ws' ! i = s" using Suc.prems(2) by simp
    have "take i (take (Suc i) ws') = take i (take (Suc i) (ws[i := s]))" by (simp only: ih(3))
    then show "take i ws' = take i ws" by (simp add: min_def)
  qed
  have "take (Suc k) (drop i ws') = s # take k (drop (Suc i) ws')" using i by (simp add: Cons_nth_drop_Suc [symmetric])
  moreover have "nulbelow q b' s" by (rule nulbelow_later [OF s(1) ih(2,1)])
  moreover have "take p b' = take p b" using arg_cong [OF ih(2), of "take p"] s(2,4) by (simp add: min_def)
  ultimately show ?case using ih i s(2) by simp
qed simp

lemma walk_elim:
  assumes "(if unat (nwname f) > MAXWELEM then Ret (None, f) b
     else bindR (gstrings 0 (unat (nwname f)) p (wname f) b) (\<lambda>(ws, p) b. Ret (p, f\<lparr>wname := ws\<rparr>) b)) = Ret (Some q, f') b'" "arrs f"
  shows "f' = f\<lparr>wname := wname f'\<rparr> \<and> list_all (nulbelow q b') (take (unat (nwname f)) (wname f'))"
  using assms gstrings_Some [of 0 "unat (nwname f)" p "wname f" b]
  by (cases "gstrings 0 (unat (nwname f)) p (wname f) b") (auto simp: arrs_def split: if_splits)

lemma refs_reply:
  assumes "m2s_reply p f b = Ret (Some q, f') b'" "arrs f"
  shows "inmessage q f' b' \<and> ftype f' = ftype f"
  using assms unfolding m2s_reply_def Let_def
  by (auto simp: inmessage_def strrefs_def datarefs_def Let_def elim!: m2s_elims gend_elim gq_elim gstr_elim split: if_splits)

lemma refs_switch:
  assumes "m2s_switch p f b = Ret (Some q, f') b'" "arrs f"
  shows "inmessage q f' b' \<and> ftype f' = ftype f"
proof (cases "ftype f = Twalk")
  case True
  define gw :: m2s where "gw = (\<lambda>p f b. if unat (nwname f) > MAXWELEM then Ret (None, f) b
     else bindR (gstrings 0 (unat (nwname f)) p (wname f) b) (\<lambda>(ws, p) b. Ret (p, f\<lparr>wname := ws\<rparr>) b))"
  have "need (4 + 4 + 2) (g32 (\<lambda>v f. f\<lparr>fid := v\<rparr>) (g32 (\<lambda>v f. f\<lparr>newfid := v\<rparr>) (g16 (\<lambda>v f. f\<lparr>nwname := v\<rparr>) gw))) p f b = Ret (Some q, f') b'"
    using assms(1) True by (simp add: m2s_switch_def gw_def)
  then obtain v va vb p1 where g: "gw p1 (f\<lparr>fid := v, newfid := va, nwname := vb\<rparr>) b = Ret (Some q, f') b'" by (elim m2s_elims)
  define f1 where "f1 = f\<lparr>fid := v, newfid := va, nwname := vb\<rparr>"
  note w = g [folded f1_def, unfolded gw_def]
  have w2: "arrs f1" "ftype f1 = Twalk" using assms(2) True by (simp_all add: f1_def arrs_def)
  from walk_elim [OF w w2(1)] have e: "f' = f1\<lparr>wname := wname f'\<rparr>" "list_all (nulbelow q b') (take (unat (nwname f1)) (wname f'))" by blast+
  have "ftype f' = Twalk" "nwname f' = nwname f1" using w2(2) by (subst e(1), simp)+
  then show ?thesis using e(2) True by (simp add: inmessage_def strrefs_def datarefs_def Let_def)
next
  case False
  then show ?thesis using assms unfolding m2s_switch_def Let_def
    by (auto simp: inmessage_def strrefs_def datarefs_def Let_def elim!: m2s_elims gend_elim gq_elim gstr_elim nulbelow_later
        dest: refs_reply split: if_splits)
qed

lemma gstrings_ok:
  "i + k \<le> length ws \<Longrightarrow>
     okR (gstrings i k p ws b) (\<lambda>(ws', r) b'. length ws' = length ws \<and> length b' = length b)"
proof (induction k arbitrary: i p ws b)
  case (Suc k)
  show ?case
    unfolding gstrings.simps okR_bindR
    by (rule okR_mono [OF gstring_ok])
       (use Suc.prems in \<open>auto split: option.splits intro!: okR_mono [OF Suc.IH]\<close>)
qed simp

lemma gqids_ok:
  "i + k \<le> length qs \<Longrightarrow>
     okR (gqids i k p qs b) (\<lambda>(qs', r) b'. length qs' = length qs \<and> length b' = length b)"
proof (induction k arbitrary: i p qs b)
  case (Suc k)
  show ?case
    unfolding gqids.simps okR_bindR
    by (rule okR_mono [OF gqid_ok])
       (use Suc.prems in \<open>auto split: option.splits intro!: okR_mono [OF Suc.IH]\<close>)
qed simp

lemma safe_walk:
  "safe m (\<lambda>p f b. if unat (nwname f) > MAXWELEM then Ret (None, f) b
     else bindR (gstrings 0 (unat (nwname f)) p (wname f) b) (\<lambda>(ws, p) b. Ret (p, f\<lparr>wname := ws\<rparr>) b))"
  by (auto simp: safe_def arrs_def intro!: okR_mono [OF gstrings_ok])

lemma safe_rwalk:
  "safe m (\<lambda>p f b. if unat (nwqid f) > MAXWELEM then Ret (None, f) b
     else bindR (gqids 0 (unat (nwqid f)) p (wqid f) b) (\<lambda>(qs, p) b. Ret (p, f\<lparr>wqid := qs\<rparr>) b))"
  by (auto simp: safe_def arrs_def intro!: okR_mono [OF gqids_ok])

lemma arrs_upd [simp]:
  "arrs (f\<lparr>ftype := a\<rparr>) = arrs f" "arrs (f\<lparr>tag := b\<rparr>) = arrs f" "arrs (f\<lparr>msize := c\<rparr>) = arrs f"
  "arrs (f\<lparr>version := d\<rparr>) = arrs f" "arrs (f\<lparr>oldtag := e\<rparr>) = arrs f" "arrs (f\<lparr>afid := c\<rparr>) = arrs f"
  "arrs (f\<lparr>uname := d\<rparr>) = arrs f" "arrs (f\<lparr>aname := d\<rparr>) = arrs f" "arrs (f\<lparr>fid := c\<rparr>) = arrs f"
  "arrs (f\<lparr>newfid := c\<rparr>) = arrs f" "arrs (f\<lparr>nwname := e\<rparr>) = arrs f" "arrs (f\<lparr>mode := a\<rparr>) = arrs f"
  "arrs (f\<lparr>name := d\<rparr>) = arrs f" "arrs (f\<lparr>perm := c\<rparr>) = arrs f" "arrs (f\<lparr>offset := g\<rparr>) = arrs f"
  "arrs (f\<lparr>count := c\<rparr>) = arrs f" "arrs (f\<lparr>data := d\<rparr>) = arrs f" "arrs (f\<lparr>nstat := e\<rparr>) = arrs f"
  "arrs (f\<lparr>stat := d\<rparr>) = arrs f" "arrs (f\<lparr>ename := d\<rparr>) = arrs f" "arrs (f\<lparr>aqid := q\<rparr>) = arrs f"
  "arrs (f\<lparr>qid := q\<rparr>) = arrs f" "arrs (f\<lparr>nwqid := e\<rparr>) = arrs f" "arrs (f\<lparr>iounit := c\<rparr>) = arrs f"
  by (simp_all add: arrs_def)

lemmas safe_rules = safe_stop safe_need safe_g safe_gstr safe_gq safe_gdata safe_walk safe_rwalk

lemma safe_switch: "safe 0 m2s_switch"
proof -
  have *: "safe 0 (\<lambda>p f b. if c f then k p f b else k' p f b)" if "safe 0 k" "safe 0 k'" for c k k'
    using that by (simp add: safe_def)
  show ?thesis
    unfolding m2s_switch_def m2s_reply_def Let_def
    by (intro * safe_rules) (simp_all add: safe_def)
qed

section \<open>convM2S reads the message back\<close>

definition cstr :: "byte list option \<Rightarrow> byte list" where
  "cstr s = (case s of None \<Rightarrow> [] | Some cs \<Rightarrow> cs)"

lemma estr_cstr: "estr s = le16 (of_nat (length (cstr s))) @ cstr s"
  by (simp add: estr_def cstr_def split: option.split)

text \<open>A string of the buffer has been moved down by one and terminated; nothing else changed.\<close>

definition moved :: "nat \<Rightarrow> byte list option \<Rightarrow> byte list \<Rightarrow> byte list \<Rightarrow> bool" where
  "moved p s b b' \<longleftrightarrow> length b' = length b \<and> at (p + 1) b' (cstr s @ [0]) \<and>
     (\<forall>q xs. q + length xs \<le> p + 1 \<or> p + length (estr s) \<le> q \<longrightarrow> at q b' xs = at q b xs)"

lemma moved_at: "moved p s b b' \<Longrightarrow> q + length xs \<le> p + 1 \<or> p + length (estr s) \<le> q \<Longrightarrow> at q b' xs = at q b xs"
  by (auto simp: moved_def)

lemma gstring_at:
  assumes "at p b (estr s)" "length (cstr s) < 2 ^ 16"
  shows "\<exists>b'. gstring p b = Ret (Some (p + 1, p + length (estr s))) b' \<and> moved p s b b'"
proof -
  let ?cs = "cstr s"
  have a: "at p b (le16 (of_nat (length ?cs)))" "at (p + 2) b ?cs"
    using assms(1) by (simp_all add: estr_cstr at_append)
  have n: "unat (of_nat (length ?cs) :: u16) = length ?cs" using assms(2) by (simp add: unat_of_nat)
  have le: "p + 2 + length ?cs \<le> length b" using at_len [OF a(2)] by simp
  define b' where "b' = overwrite (p + 1) (?cs @ [0]) b"
  have "gstring p b = Ret (Some (p + 1, p + length (estr s))) b'"
    using le at_GBIT(2) [OF a(1)] at_rd [OF a(2)] overwrite_overwrite [of "p + 1" ?cs "[0]" b]
    by (simp add: gstring_def Let_def n poke_def b'_def estr_cstr)
  moreover have "moved p s b b'"
    using le at_overwrite [of "p + 1" "?cs @ [0]" b] at_overwrite_other [of "p + 1" "?cs @ [0]" b]
    by (simp add: moved_def b'_def estr_cstr)
  ultimately show ?thesis by blast
qed

lemma gstr_at:
  assumes "at p b (estr s)" "length (cstr s) < 2 ^ 16"
  shows "\<exists>b'. moved p s b b' \<and> (\<forall>u k f. gstr u k p f b = k (p + length (estr s)) (u (p + 1) f) b')"
  using gstring_at [OF assms] by (auto simp: gstr_def)

lemma gqid_at [wire]: "at p b (eqid q) \<Longrightarrow> gqid p b = Ret (Some (q, p + 13)) b"
proof -
  assume a: "at p b (eqid q)"
  have "at p b [qtype q]" "at (p + 1) b (le32 (qvers q))" "at (p + 5) b (le64 (qpath q))"
    using a unfolding eqid_def at_append by (simp_all add: ac_simps)
  with at_len [OF a] show ?thesis by (simp add: gqid_def QIDSZ_def wire ac_simps del: rd_le)
qed

lemma gstrings_at:
  "at p b (concat (map estr ss)) \<Longrightarrow> \<forall>s \<in> set ss. length (cstr s) < 2 ^ 16 \<Longrightarrow> i + length ss \<le> length ws \<Longrightarrow>
   \<exists>b' ws'. gstrings i (length ss) p ws b = Ret (ws', Some (p + length (concat (map estr ss)))) b' \<and>
     length b' = length b \<and> length ws' = length ws \<and> (\<forall>j < i. ws' ! j = ws ! j) \<and>
     (\<forall>j < length ss. at (ws' ! (i + j)) b' (cstr (ss ! j) @ [0])) \<and>
     (\<forall>q xs. q + length xs \<le> p + 1 \<or> p + length (concat (map estr ss)) \<le> q \<longrightarrow> at q b' xs = at q b xs)"
proof (induction ss arbitrary: i p ws b)
  case (Cons s ss)
  let ?p = "p + length (estr s)"
  from Cons.prems have a: "at p b (estr s)" "at ?p b (concat (map estr ss))" "length (cstr s) < 2 ^ 16"
    by (simp_all add: at_append)
  obtain b1 where b1: "gstring p b = Ret (Some (p + 1, ?p)) b1" "moved p s b b1"
    using gstring_at [OF a(1,3)] by blast
  have "at ?p b1 (concat (map estr ss))" using moved_at [OF b1(2)] a(2) by simp
  from Cons.IH [OF this, of "Suc i" "ws[i := p + 1]"] Cons.prems(2,3)
  obtain b' ws' where r: "gstrings (Suc i) (length ss) ?p (ws[i := p + 1]) b1 =
      Ret (ws', Some (?p + length (concat (map estr ss)))) b'"
    and l: "length b' = length b1" "length ws' = length ws" and old: "\<forall>j < Suc i. ws' ! j = ws[i := p + 1] ! j"
    and new: "\<forall>j < length ss. at (ws' ! (Suc i + j)) b' (cstr (ss ! j) @ [0])"
    and fr: "\<forall>q xs. q + length xs \<le> ?p + 1 \<or> ?p + length (concat (map estr ss)) \<le> q \<longrightarrow> at q b' xs = at q b1 xs"
    by auto
  have i: "i < length ws" using Cons.prems(3) by simp
  have "at (p + 1) b' (cstr s @ [0])"
    using b1(2) fr by (simp add: moved_def estr_cstr)
  moreover have "ws' ! i = p + 1" using old i by simp
  ultimately have "at (ws' ! (i + j)) b' (cstr ((s # ss) ! j) @ [0])" if "j < length (s # ss)" for j
    using new that by (cases j) auto
  moreover have "at q b' xs = at q b xs"
    if "q + length xs \<le> p + 1 \<or> p + length (concat (map estr (s # ss))) \<le> q" for q xs
    using that fr moved_at [OF b1(2), of q xs] by (auto simp: estr_cstr)
  moreover have "gstrings i (length (s # ss)) p ws b =
      Ret (ws', Some (p + length (concat (map estr (s # ss))))) b'"
    using r b1(1) i by simp
  moreover have "\<forall>j < i. ws' ! j = ws ! j" using old by auto
  ultimately show ?case using l b1(2) by (auto simp: moved_def)
qed simp

lemma gqids_at:
  "at p b (concat (map eqid qs)) \<Longrightarrow> i + length qs \<le> length ws \<Longrightarrow>
   \<exists>ws'. gqids i (length qs) p ws b = Ret (ws', Some (p + length (concat (map eqid qs)))) b \<and>
     length ws' = length ws \<and> (\<forall>j < i. ws' ! j = ws ! j) \<and> (\<forall>j < length qs. ws' ! (i + j) = qs ! j)"
proof (induction qs arbitrary: i p ws)
  case (Cons q qs)
  from Cons.prems have a: "at p b (eqid q)" "at (p + 13) b (concat (map eqid qs))"
    by (simp_all add: at_append)
  from Cons.IH [OF a(2), of "Suc i" "ws[i := q]"] Cons.prems(2)
  obtain ws' where r: "gqids (Suc i) (length qs) (p + 13) (ws[i := q]) b =
      Ret (ws', Some (p + 13 + length (concat (map eqid qs)))) b"
    and l: "length ws' = length ws" and old: "\<forall>j < Suc i. ws' ! j = ws[i := q] ! j"
    and new: "\<forall>j < length qs. ws' ! (Suc i + j) = qs ! j" by auto
  have i: "i < length ws" using Cons.prems(2) by simp
  have "ws' ! (i + j) = (q # qs) ! j" if "j < length (q # qs)" for j
    using new old i that by (cases j) auto
  with r l old i gqid_at [OF a(1)] show ?case by (auto simp: add.assoc)
qed simp

text \<open>\<open>agrees f g b\<close>: the structure \<open>g\<close>, whose pointers lead into the buffer \<open>b\<close>, says what \<open>f\<close>
  says. A nil string comes back as an empty one.\<close>

definition strat :: "byte list \<Rightarrow> nat \<Rightarrow> byte list option \<Rightarrow> bool" where
  "strat b q s \<longleftrightarrow> at q b (cstr s @ [0])"

definition agrees :: "sfcall \<Rightarrow> pfcall \<Rightarrow> byte list \<Rightarrow> bool" where
  "agrees f g b \<longleftrightarrow> ftype g = ftype f \<and> tag g = tag f \<and>
     (let t = ftype f in
      if t = Tversion \<or> t = Rversion then msize g = msize f \<and> strat b (version g) (version f)
      else if t = Tflush then oldtag g = oldtag f
      else if t = Tauth then afid g = afid f \<and> strat b (uname g) (uname f) \<and> strat b (aname g) (aname f)
      else if t = Tattach then fid g = fid f \<and> afid g = afid f \<and> strat b (uname g) (uname f) \<and>
        strat b (aname g) (aname f)
      else if t = Twalk then fid g = fid f \<and> newfid g = newfid f \<and> nwname g = nwname f \<and>
        (\<forall>j < unat (nwname f). strat b (wname g ! j) (wname f ! j))
      else if t = Topen then fid g = fid f \<and> mode g = mode f
      else if t = Tcreate then fid g = fid f \<and> strat b (name g) (name f) \<and> perm g = perm f \<and> mode g = mode f
      else if t = Tread then fid g = fid f \<and> offset g = offset f \<and> count g = count f
      else if t = Twrite then fid g = fid f \<and> offset g = offset f \<and> count g = count f \<and>
        at (data g) b (take (unat (count f)) (data f))
      else if t = Tclunk \<or> t = Tremove \<or> t = Tstat then fid g = fid f
      else if t = Twstat then fid g = fid f \<and> nstat g = nstat f \<and> at (stat g) b (take (unat (nstat f)) (stat f))
      else if t = Rerror then strat b (ename g) (ename f)
      else if t = Rauth then aqid g = aqid f
      else if t = Rattach then qid g = qid f
      else if t = Rwalk then nwqid g = nwqid f \<and> (\<forall>j < unat (nwqid f). wqid g ! j = wqid f ! j)
      else if t = Ropen \<or> t = Rcreate then qid g = qid f \<and> iounit g = iounit f
      else if t = Rread then count g = count f \<and> at (data g) b (take (unat (count f)) (data f))
      else if t = Rwrite then count g = count f
      else if t = Rstat then nstat g = nstat f \<and> at (stat g) b (take (unat (nstat f)) (stat f))
      else True)"

text \<open>Strings whose length the protocol can express.\<close>

definition strok :: "sfcall \<Rightarrow> bool" where
  "strok f \<longleftrightarrow> (\<forall>s \<in> {version f, ename f, uname f, aname f, name f} \<union> set (wname f).
     length (cstr s) < 2 ^ 16)"

definition reads :: "sfcall \<Rightarrow> pfcall \<Rightarrow> byte list \<Rightarrow> bool" where
  "reads f g b \<longleftrightarrow> (\<exists>g' b'. m2s_switch 7 g b = Ret (Some (7 + length (payload f)), g') b' \<and>
     length b' = length b \<and> agrees f g' b')"

lemma need_go: "p + n \<le> length b \<Longrightarrow> need n k p f b = k p f b"
  by (simp add: need_def)

lemma g_at [wire]:
  "at p b [v8] \<Longrightarrow> g8 u8 k p f b = k (p + 1) (u8 v8 f) b"
  "at p b (le16 v16) \<Longrightarrow> g16 u16 k p f b = k (p + 2) (u16 v16 f) b"
  "at p b (le32 v32) \<Longrightarrow> g32 u32 k p f b = k (p + 4) (u32 v32 f) b"
  "at p b (le64 v64) \<Longrightarrow> g64 u64 k p f b = k (p + 8) (u64 v64 f) b"
  "at p b (eqid q) \<Longrightarrow> gq uq k p f b = k (p + 13) (uq q f) b"
  by (simp_all add: g8_def g16_def g32_def g64_def gq_def wire)

lemmas m2s_eval = m2s_switch_def m2s_reply_def Let_def payload_def at_append need_go g_at stop_def gdata_def

lemma reads_version:
  assumes "at 7 b (payload f)" "ftype f = Tversion \<or> ftype f = Rversion" "ftype g = ftype f" "tag g = tag f" "strok f"
  shows "reads f g b"
proof -
  from assms(1,2) have a: "at 7 b (le32 (msize f))" "at 11 b (estr (version f))"
    by (auto simp: payload_def at_append)
  obtain b' where b': "moved 11 (version f) b b'"
    "gstr u k 11 h b = k (11 + length (estr (version f))) (u 12 h) b'" for u k h
    using gstr_at [OF a(2)] assms(5) by (auto simp: strok_def)
  from assms(2) show ?thesis
    using a at_len [OF a(2)] b' assms(3,4) unfolding reads_def
    by (elim disjE) (simp_all add: m2s_eval agrees_def strat_def moved_def)
qed

lemma two_strings:
  assumes "at p b (estr s)" "at (p + length (estr s)) b (estr t)" "length (cstr s) < 2 ^ 16" "length (cstr t) < 2 ^ 16"
  obtains b' where "length b' = length b" "at (p + 1) b' (cstr s @ [0])"
    "at (p + length (estr s) + 1) b' (cstr t @ [0])"
    "\<And>u v f. gstr u (gstr v stop) p f b =
       Ret (Some (p + length (estr s) + length (estr t)), v (p + length (estr s) + 1) (u (p + 1) f)) b'"
proof -
  obtain b1 where b1: "moved p s b b1"
    "\<And>u k f. gstr u k p f b = k (p + length (estr s)) (u (p + 1) f) b1"
    using gstr_at [OF assms(1,3)] by auto
  have "at (p + length (estr s)) b1 (estr t)" using moved_at [OF b1(1)] assms(2) by simp
  then obtain b2 where b2: "moved (p + length (estr s)) t b1 b2"
    "\<And>u k f. gstr u k (p + length (estr s)) f b1 =
       k (p + length (estr s) + length (estr t)) (u (p + length (estr s) + 1) f) b2"
    using gstr_at [OF _ assms(4)] by blast
  have "at (p + 1) b2 (cstr s @ [0])"
    using b1(1) moved_at [OF b2(1), of "p + 1" "cstr s @ [0]"] by (simp add: moved_def estr_cstr)
  then show ?thesis
    using that [of b2] b1 b2 by (simp add: moved_def stop_def)
qed

lemma reads_auth:
  assumes "at 7 b (payload f)" "ftype f = Tauth" "ftype g = ftype f" "tag g = tag f" "strok f"
  shows "reads f g b"
proof -
  from assms(1,2) have a: "at 7 b (le32 (afid f))" "at 11 b (estr (uname f))"
    "at (11 + length (estr (uname f))) b (estr (aname f))"
    by (simp_all add: payload_def at_append)
  from two_strings [OF a(2,3)] assms(5) obtain b' where "length b' = length b"
    "strat b' 12 (uname f)" "strat b' (11 + length (estr (uname f)) + 1) (aname f)"
    "gstr u (gstr v stop) 11 h b = Ret (Some (11 + length (estr (uname f)) + length (estr (aname f))),
       v (11 + length (estr (uname f)) + 1) (u 12 h)) b'" for u v h
    by (auto simp: strok_def strat_def)
  with assms(2-4) a at_len [OF a(2)] show ?thesis
    unfolding reads_def by (simp add: m2s_eval agrees_def)
qed

lemma reads_attach:
  assumes "at 7 b (payload f)" "ftype f = Tattach" "ftype g = ftype f" "tag g = tag f" "strok f"
  shows "reads f g b"
proof -
  from assms(1,2) have a: "at 7 b (le32 (fid f))" "at 11 b (le32 (afid f))" "at 15 b (estr (uname f))"
    "at (15 + length (estr (uname f))) b (estr (aname f))"
    by (simp_all add: payload_def at_append)
  from two_strings [OF a(3,4)] assms(5) obtain b' where "length b' = length b"
    "strat b' 16 (uname f)" "strat b' (15 + length (estr (uname f)) + 1) (aname f)"
    "gstr u (gstr v stop) 15 h b = Ret (Some (15 + length (estr (uname f)) + length (estr (aname f))),
       v (15 + length (estr (uname f)) + 1) (u 16 h)) b'" for u v h
    by (auto simp: strok_def strat_def)
  with assms(2-4) a at_len [OF a(3)] show ?thesis
    unfolding reads_def by (simp add: m2s_eval agrees_def)
qed

lemma reads_error:
  assumes "at 7 b (payload f)" "ftype f = Rerror" "ftype g = ftype f" "tag g = tag f" "strok f"
  shows "reads f g b"
proof -
  from assms(1,2) have a: "at 7 b (estr (ename f))" by (simp add: payload_def)
  obtain b' where b': "moved 7 (ename f) b b'"
    "gstr u k 7 h b = k (7 + length (estr (ename f))) (u 8 h) b'" for u k h
    using gstr_at [OF a] assms(5) by (auto simp: strok_def)
  with assms(2-4) show ?thesis
    unfolding reads_def by (simp add: m2s_eval agrees_def strat_def moved_def)
qed

lemma reads_create:
  assumes "at 7 b (payload f)" "ftype f = Tcreate" "ftype g = ftype f" "tag g = tag f" "strok f"
  shows "reads f g b"
proof -
  define m where "m = 11 + length (estr (name f))"
  from assms(1,2) have a: "at 7 b (le32 (fid f))" "at 11 b (estr (name f))"
    "at m b (le32 (perm f))" "at (m + 4) b [mode f]"
    by (simp_all add: payload_def at_append m_def add.assoc add.commute [of 4])
  obtain b' where b': "moved 11 (name f) b b'" "gstr u k 11 h b = k m (u 12 h) b'" for u k h
    using gstr_at [OF a(2)] assms(5) by (auto simp: strok_def m_def)
  have "at m b' (le32 (perm f))" "at (m + 4) b' [mode f]" "length b' = length b"
    using a b'(1) by (auto simp: moved_at [OF b'(1)] m_def) (simp add: moved_def)
  with assms(2-4) a at_len [OF a(2)] at_len [OF a(4)] b' show ?thesis
    unfolding reads_def
    by (simp add: m2s_switch_def m2s_reply_def need_go g_at stop_def agrees_def strat_def)
       (simp add: moved_def payload_def m_def)
qed

lemma reads_walk:
  assumes "at 7 b (payload f)" "ftype f = Twalk" "ftype g = ftype f" "tag g = tag f" "strok f" "valid f" "arrs g"
  shows "reads f g b"
proof -
  define ss where "ss = take (unat (nwname f)) (wname f)"
  have n: "length ss = unat (nwname f)" "\<not> MAXWELEM < unat (nwname f)" "0 + length ss \<le> length (wname g)"
    "\<forall>s \<in> set ss. length (cstr s) < 2 ^ 16" "\<forall>j < unat (nwname f). ss ! j = wname f ! j"
    using assms(2,5-7) by (auto simp: valid_def ss_def arrs_def strok_def dest: in_set_takeD)
  from assms(1,2) have a: "at 7 b (le32 (fid f))" "at 11 b (le32 (newfid f))" "at 15 b (le16 (nwname f))"
    "at 17 b (concat (map estr ss))"
    by (simp_all add: payload_def at_append ss_def)
  obtain b' ws where r: "gstrings 0 (unat (nwname f)) 17 (wname g) b = Ret (ws, Some (17 + length (concat (map estr ss)))) b'"
    "length b' = length b" "\<forall>j < unat (nwname f). strat b' (ws ! j) (wname f ! j)"
    using gstrings_at [OF a(4) n(4,3)] n(1,5) by (auto simp: strat_def)
  show ?thesis
    unfolding reads_def using assms(2-4) a at_len [OF a(4)] r n(2)
    by (simp add: m2s_switch_def m2s_reply_def need_go g_at agrees_def) (simp add: payload_def ss_def)
qed

lemma reads_rwalk:
  assumes "at 7 b (payload f)" "ftype f = Rwalk" "ftype g = ftype f" "tag g = tag f" "valid f" "arrs g"
  shows "reads f g b"
proof -
  define qs where "qs = take (unat (nwqid f)) (wqid f)"
  have n: "length qs = unat (nwqid f)" "\<not> MAXWELEM < unat (nwqid f)" "0 + length qs \<le> length (wqid g)"
    "\<forall>j < unat (nwqid f). qs ! j = wqid f ! j"
    using assms(2,5,6) by (auto simp: valid_def qs_def arrs_def)
  from assms(1,2) have a: "at 7 b (le16 (nwqid f))" "at 9 b (concat (map eqid qs))"
    by (simp_all add: payload_def at_append qs_def)
  obtain ws where r: "gqids 0 (unat (nwqid f)) 9 (wqid g) b = Ret (ws, Some (9 + length (concat (map eqid qs)))) b"
    "\<forall>j < unat (nwqid f). ws ! j = wqid f ! j"
    using gqids_at [OF a(2) n(3)] n(1,4) by auto
  show ?thesis
    unfolding reads_def using assms(2-4) a at_len [OF a(2)] r n(2)
    by (simp add: m2s_switch_def m2s_reply_def need_go g_at agrees_def) (simp add: payload_def qs_def)
qed

lemma reads_fixed:
  assumes "at 7 b (payload f)" "ftype g = ftype f" "tag g = tag f" "valid f"
    "ftype f \<in> {Tflush, Topen, Tread, Twrite, Tclunk, Tremove, Tstat, Twstat, Rflush, Rauth, Rattach, Ropen,
       Rcreate, Rread, Rwrite, Rclunk, Rremove, Rstat, Rwstat}"
  shows "reads f g b"
proof -
  have d: "ftype f = Twrite \<or> ftype f = Rread \<Longrightarrow> min (length (data f)) (unat (count f)) = unat (count f)"
    "ftype f = Twstat \<or> ftype f = Rstat \<Longrightarrow> min (length (stat f)) (unat (nstat f)) = unat (nstat f)"
    using assms(4) by (auto simp: valid_def)
  have le: "7 + length (payload f) \<le> length b" using at_len [OF assms(1)] .
  show ?thesis
    using assms(5,1,2,3) d le unfolding reads_def insert_iff empty_iff
    by (elim disjE) (auto simp: m2s_eval agrees_def)
qed

lemma reads_payload:
  assumes "valid f" "strok f" "at 7 b (payload f)" "ftype g = ftype f" "tag g = tag f" "arrs g"
  shows "reads f g b"
proof -
  have "ftype f \<in> set mtypes" using assms(1) by (simp add: valid_def)
  then consider "ftype f = Tversion \<or> ftype f = Rversion" | "ftype f = Tauth" | "ftype f = Tattach"
    | "ftype f = Rerror" | "ftype f = Tcreate" | "ftype f = Twalk" | "ftype f = Rwalk"
    | "ftype f \<in> {Tflush, Topen, Tread, Twrite, Tclunk, Tremove, Tstat, Twstat, Rflush, Rauth, Rattach, Ropen,
       Rcreate, Rread, Rwrite, Rclunk, Rremove, Rstat, Rwstat}"
    unfolding mtypes_def by auto
  then show ?thesis
  proof cases
    case 1 show ?thesis by (rule reads_version [OF assms(3) 1 assms(4,5,2)])
  next
    case 2 show ?thesis by (rule reads_auth [OF assms(3) 2 assms(4,5,2)])
  next
    case 3 show ?thesis by (rule reads_attach [OF assms(3) 3 assms(4,5,2)])
  next
    case 4 show ?thesis by (rule reads_error [OF assms(3) 4 assms(4,5,2)])
  next
    case 5 show ?thesis by (rule reads_create [OF assms(3) 5 assms(4,5,2)])
  next
    case 6 show ?thesis by (rule reads_walk [OF assms(3) 6 assms(4,5,2,1,6)])
  next
    case 7 show ?thesis by (rule reads_rwalk [OF assms(3) 7 assms(4,5,1,6)])
  next
    case 8 show ?thesis by (rule reads_fixed [OF assms(3,4,5,1) 8])
  qed
qed

lemma convM2S_encode:
  assumes "valid f" "strok f" "arrs g" "at 0 b (encode f)" "length (encode f) < 2 ^ 32"
  shows "\<exists>g' b'. convM2S b g = Ret (of_nat (length (encode f)), g') b' \<and> length b' = length b \<and> agrees f g' b'"
proof -
  define n where "n = length (encode f)"
  have nl: "n = 7 + length (payload f)" by (simp add: n_def encode_def)
  have "at 0 b (le32 (of_nat n) @ [ftype f] @ le16 (tag f) @ payload f)"
    using assms(4) by (simp add: encode_def nl)
  then have a: "at 0 b (le32 (of_nat n))" "at 4 b [ftype f]" "at 5 b (le16 (tag f))" "at 7 b (payload f)"
    unfolding at_append by simp_all
  have n: "n < 2 ^ 32" "7 \<le> n" "n \<le> length b"
    using assms(5) at_len [OF a(4)] by (simp_all add: n_def [symmetric] nl)
  have sz: "unat (of_nat n :: u32) = n" using n(1) by (simp add: unat_of_nat)
  then have ge: "\<not> (of_nat n :: u32) < 7" using n(2) by (simp add: word_less_nat_alt)
  have "reads f (g\<lparr>ftype := ftype f, tag := tag f\<rparr>) b"
    by (rule reads_payload [OF assms(1,2) a(4)]) (use assms(3) in simp_all)
  then obtain g' b' where r: "m2s_switch 7 (g\<lparr>ftype := ftype f, tag := tag f\<rparr>) b = Ret (Some n, g') b'"
    "length b' = length b" "agrees f g' b'"
    by (auto simp: reads_def nl)
  have "convM2S b g = Ret (of_nat n, g') b'"
    using n(2,3) ge r(1,2) sz
    by (simp add: convM2S_def at_GBIT(3) [OF a(1)] at_GBIT(1) [OF a(2)] at_GBIT(2) [OF a(3)] del: rd_le)
  with r show ?thesis by (simp add: n_def [symmetric])
qed

section \<open>Properties\<close>


text \<open>A \<^verbatim>\<open>Tversion\<close> as the first message of a session.\<close>

definition tversion_ex :: sfcall where
  "tversion_ex = \<lparr>ftype = Tversion, fid = 0, tag = 0xffff, msize = 8192,
     version = Some [0x39, 0x50, 0x32, 0x30, 0x30, 0x30], oldtag = 0, ename = None,
     qid = \<lparr>qtype = 0, qvers = 0, qpath = 0\<rparr>, iounit = 0, aqid = \<lparr>qtype = 0, qvers = 0, qpath = 0\<rparr>,
     afid = 0, uname = None, aname = None, perm = 0, name = None, mode = 0, newfid = 0, nwname = 0,
     wname = replicate 16 None, nwqid = 0, wqid = replicate 16 \<lparr>qtype = 0, qvers = 0, qpath = 0\<rparr>,
     offset = 0, count = 0, data = [], nstat = 0, stat = []\<rparr>"

definition fcall_ex :: pfcall where
  "fcall_ex = \<lparr>ftype = 0, fid = 0, tag = 0, msize = 0, version = 0, oldtag = 0, ename = 0,
     qid = \<lparr>qtype = 0, qvers = 0, qpath = 0\<rparr>, iounit = 0, aqid = \<lparr>qtype = 0, qvers = 0, qpath = 0\<rparr>,
     afid = 0, uname = 0, aname = 0, perm = 0, name = 0, mode = 0, newfid = 0, nwname = 0,
     wname = replicate 16 0, nwqid = 0, wqid = replicate 16 \<lparr>qtype = 0, qvers = 0, qpath = 0\<rparr>,
     offset = 0, count = 0, data = 0, nstat = 0, stat = 0\<rparr>"

lemma tversion_valid: "valid tversion_ex" "strok tversion_ex" "length (encode tversion_ex) = 19"
  by (simp_all add: valid_def strok_def tversion_ex_def mtypes_def MAXWELEM_def cstr_def
      encode_def payload_def estr_def)


text \<open>C6. Round trip: what \<^verbatim>\<open>convS2M\<close> stores, \<^verbatim>\<open>convM2S\<close> accepts, whatever structure it is given to
  fill in, and it reads back the same message, strings NUL-terminated in place.\<close>

theorem fcall_roundtrip:
  assumes "valid f" "strok f" "length (encode f) < 2 ^ 32" "length (encode f) \<le> length ap"
    "length (wname g) = MAXWELEM" "length (wqid g) = MAXWELEM"
  shows "\<exists>b g' b'. convS2M f ap = Ret (of_nat (length (encode f))) b \<and>
     convM2S b g = Ret (of_nat (length (encode f)), g') b' \<and> agrees f g' b'"
proof -
  have "convS2M f ap = Ret (of_nat (length (encode f))) (overwrite 0 (encode f) ap)"
    using convS2M_eq [OF assms(1)] assms(3,4) by (simp add: encode_def)
  moreover have "at 0 (overwrite 0 (encode f) ap) (encode f)"
    by (rule at_overwrite) (use assms(4) in simp)
  moreover have "arrs g" using assms(5,6) by (simp add: arrs_def)
  ultimately show ?thesis using convM2S_encode [OF assms(1,2) _ _ assms(3)] by blast
qed

theorem fcall_roundtrip_witness:
  "\<exists>b g' b'. convS2M tversion_ex (replicate 32 0) = Ret 19 b \<and>
     convM2S b fcall_ex = Ret (19, g') b' \<and> agrees tversion_ex g' b'"
  using fcall_roundtrip [OF tversion_valid(1,2), of "replicate 32 0" fcall_ex]
  by (simp add: tversion_valid(3) fcall_ex_def MAXWELEM_def)

text \<open>C8. \<^verbatim>\<open>convM2S\<close> is safe on every buffer, whatever an attacker put in it: it terminates, never
  reads or writes outside the buffer, never indexes outside the arrays of the structure, and
  answers 0 or the size that the first four bytes of the message say, which lies within the buffer. Then every
  string of the message that the structure points to begins and ends with its NUL inside the message, and the
  data and the directory entry it points to lie inside it with all their bytes.\<close>

theorem convM2S_safe:
  assumes "length (wname f) = MAXWELEM" "length (wqid f) = MAXWELEM"
  shows "okR (convM2S ap f) (\<lambda>(n, f') b. length b = length ap \<and>
     (n = 0 \<or> 7 \<le> unat n \<and> unat n \<le> length ap \<and> n = get32 (take 4 ap) \<and> inmessage (unat n) f' b))"
proof -
  have a: "arrs f" using assms by (simp add: arrs_def)
  show ?thesis
  proof (cases "length ap < 7 \<or> get32 (take 4 ap) < 7")
    case True
    then show ?thesis by (auto simp: convM2S_def GBIT32_def rd_def seg_def)
  next
    case False
    let ?sz = "get32 (take 4 ap)"
    obtain ty tg where g: "GBIT8 4 ap = Ret ty ap" "GBIT16 5 ap = Ret tg ap" using False by (simp add: GBIT8_def GBIT16_def rd_def)
    define f1 where "f1 = f\<lparr>ftype := ty, tag := tg\<rparr>"
    have a1: "arrs f1" using a by (simp add: f1_def arrs_def)
    obtain po f2 b where sw: "m2s_switch 7 f1 ap = Ret (po, f2) b" "length b = length ap"
      using safeD [OF safe_switch a1, of 7 ap] False by (auto simp: okR_def)
    have run: "convM2S ap f = (case po of None \<Rightarrow> Ret (0, f2) b | Some p \<Rightarrow> if p > length b then Ret (0, f2) b else if unat ?sz = p then Ret (?sz, f2) b else Ret (0, f2) b)"
      using False g sw(1) by (simp add: convM2S_def GBIT32_def rd_def seg_def f1_def)
    have "inmessage q f2 b" if "po = Some q" for q using refs_switch [OF _ a1, of 7 ap q f2 b] sw(1) that by simp
    moreover have "7 \<le> unat ?sz" using False by (simp add: word_less_nat_alt)
    ultimately show ?thesis unfolding run using sw(2) by (auto split: option.splits)
  qed
qed

theorem convM2S_safe_witness:
  "let m = [19, 0, 0, 0, 100, 255, 255, 0, 32, 0, 0, 6, 0, 57, 80, 50, 48, 48, 48] in
   okR (convM2S m fcall_ex) (\<lambda>(n, f') b. length b = 19 \<and> (n = 0 \<or> n = 19 \<and> inmessage 19 f' b))"
proof -
  have "get32 [19, 0, 0, 0] = 19" by (simp add: get32_def)
  then show ?thesis unfolding Let_def
    by (intro okR_mono [OF convM2S_safe [of fcall_ex]]) (auto simp: fcall_ex_def MAXWELEM_def)
qed

text \<open>A message of a type the protocol does not have is refused by both, without a byte
  stored or moved.\<close>

theorem fcall_bad_type:
  assumes "ftype f \<notin> set mtypes" "b ! 4 \<notin> set mtypes" "7 \<le> length b"
  shows "convS2M f ap = Ret 0 ap \<and> (\<exists>g'. convM2S b g = Ret (0, g') b)"
  using assms
  by (auto simp: convS2M_def sizeS2M_def Let_def mtypes_def convM2S_def m2s_switch_def m2s_reply_def)

theorem fcall_bad_type_witness:
  "convS2M (tversion_ex\<lparr>ftype := 106\<rparr>) [1, 2, 3] = Ret 0 [1, 2, 3] \<and>
     (\<exists>g'. convM2S [9, 0, 0, 0, 106, 0, 0, 0, 0] fcall_ex = Ret (0, g') [9, 0, 0, 0, 106, 0, 0, 0, 0])"
  by (rule fcall_bad_type) (simp_all add: mtypes_def)

text \<open>C40. The size of a \<^verbatim>\<open>Twrite\<close> is computed in 32 bits and can wrap: with a count of
  \<^verbatim>\<open>0xfffffff0\<close> it comes out as 7, the check against the buffer passes, and \<^verbatim>\<open>convS2M\<close> goes on
  to copy the data beyond the end of the buffer.\<close>

theorem convS2M_overflow:
  assumes "ftype f = Twrite" "count f = 0xfffffff0" "7 \<le> length ap" "length ap < 2 ^ 31"
  shows "sizeS2M f = Some 7 \<and> convS2M f ap = Fault"
proof -
  have sz: "sizeS2M f = Some 7" using assms(1,2) by (simp add: sizeS2M_def)
  have cnt: "unat (count f) = 0xfffffff0" using assms(2) by simp
  let ?h = "andthen (wr (le32 7)) (andthen (wr [ftype f]) (wr (le16 (tag f)))) (0, ap)"
  have h: "?h = Ret () (7, overwrite 0 (le32 7 @ [ftype f] @ le16 (tag f)) ap)"
    unfolding wr_wr using assms(3) by (simp add: wr_def)
  have "brk (andthen (wr (le32 (fid f))) (andthen (wr (le64 (offset f)))
      (andthen (wr (le32 (count f))) (pdata (data f) (unat (count f)))))) (7, b) = Fault"
    if "length b < 2 ^ 31" for b
    using that by (auto simp: brk_def andthen_def wr_def pdata_def cnt)
  moreover have "length (overwrite 0 (le32 7 @ [ftype f] @ le16 (tag f)) ap) < 2 ^ 31"
    using assms(3,4) by simp
  ultimately have "s2m_switch f (7, overwrite 0 (le32 7 @ [ftype f] @ le16 (tag f)) ap) = Fault"
    using assms(1) by (simp add: s2m_switch_def)
  with sz h assms(3) show ?thesis by (simp add: convS2M_def)
qed

theorem convS2M_overflow_witness:
  "convS2M (tversion_ex\<lparr>ftype := Twrite, count := 0xfffffff0\<rparr>) [0, 0, 0, 0, 0, 0, 0, 0] = Fault"
  using convS2M_overflow [of "tversion_ex\<lparr>ftype := Twrite, count := 0xfffffff0\<rparr>" "[0, 0, 0, 0, 0, 0, 0, 0]"]
  by simp

text \<open>A string of 65536 bytes is stored with a count of 0: \<^verbatim>\<open>convS2M\<close> reports success and
  \<^verbatim>\<open>convM2S\<close> refuses the message.\<close>

theorem long_string_unreadable:
  assumes "valid f" "ftype f = Rerror" "ename f = Some cs" "length cs = 2 ^ 16" "2 ^ 16 + 9 \<le> length ap"
  shows "\<exists>b g' b'. convS2M f ap = Ret (of_nat (2 ^ 16 + 9)) b \<and> convM2S b g = Ret (0, g') b'"
proof -
  have "(of_nat (length cs) :: u16) = 0" unfolding assms(4) by (simp only: word_of_nat_eq_0_iff) simp
  then have p: "payload f = le16 0 @ cs" using assms(2,3) by (simp add: payload_def estr_def)
  have e: "encode f = le32 (of_nat (2 ^ 16 + 9)) @ [ftype f] @ le16 (tag f) @ le16 0 @ cs" "length (encode f) = 2 ^ 16 + 9"
    using assms(4) by (simp_all add: encode_def p)
  let ?b = "overwrite 0 (encode f) ap"
  have s: "convS2M f ap = Ret (of_nat (2 ^ 16 + 9)) ?b"
    using convS2M_eq [OF assms(1), of ap] assms(4,5) e(2) p by simp
  have l: "length ?b = length ap" using assms(5) e(2) by simp
  have "at 0 ?b (encode f)" by (rule at_overwrite) (use assms(5) e(2) in simp)
  then have a: "at 0 ?b (le32 (of_nat (2 ^ 16 + 9)))" "at 4 ?b [ftype f]" "at 5 ?b (le16 (tag f))" "at 7 ?b (le16 0)"
    unfolding e(1) at_append by simp_all
  obtain b' where g: "gstring 7 ?b = Ret (Some (8, 9)) b'" "length b' = length ?b"
    using gstring_at [of 7 ?b None] a(4) by (auto simp: estr_def cstr_def moved_def)
  have "convM2S ?b g = Ret (0, g\<lparr>ftype := ftype f, tag := tag f, ename := 8\<rparr>) b'"
    using g l assms(2,5)
    by (simp add: convM2S_def at_GBIT(3) [OF a(1)] at_GBIT(1) [OF a(2)] at_GBIT(2) [OF a(3)]
        m2s_switch_def m2s_reply_def gstr_def stop_def del: rd_le)
  with s show ?thesis by blast
qed

theorem long_string_unreadable_witness:
  "\<exists>b g' b'. convS2M (tversion_ex\<lparr>ftype := Rerror, ename := Some (replicate (2 ^ 16) 0x61)\<rparr>) (replicate (2 ^ 17) 0)
      = Ret (of_nat (2 ^ 16 + 9)) b \<and> convM2S b fcall_ex = Ret (0, g') b'"
proof (rule long_string_unreadable)
  show "length (replicate (2 ^ 16) (0x61 :: byte)) = 2 ^ 16" by (rule length_replicate)
  show "2 ^ 16 + 9 \<le> length (replicate (2 ^ 17) (0 :: byte))" by (subst length_replicate) simp
qed (simp_all add: valid_def mtypes_def tversion_ex_def MAXWELEM_def)

end
