(* ===== verification/Dirs.thy ===== *)
theory Dirs
  imports Fcall_Props
begin

text \<open>
  Directory entries on the wire: \<^verbatim>\<open>sys/src/libc/9sys/convD2M.c\<close> and
  \<^verbatim>\<open>sys/src/libc/9sys/convM2D.c\<close>. A \<open>Dir\<close> given to \<^verbatim>\<open>convD2M\<close> holds strings (\<open>None\<close> for nil);
  one filled in by \<^verbatim>\<open>convM2D\<close> holds references: to the empty string constant when the caller
  gave no room for strings, or to an offset of the string memory \<^verbatim>\<open>strs\<close>, which the model keeps as
  its state. The message itself is only read.
\<close>

section \<open>Data\<close>

record 's Dir =
  dtype :: u16
  ddev :: u32
  dqid :: Qid
  dmode :: u32
  datime :: u32
  dmtime :: u32
  dlength :: u64
  dname :: 's
  duid :: 's
  dgid :: 's
  dmuid :: 's

datatype sref = Unset | Nullstring | Strs nat

definition STATFIXLEN :: nat where "STATFIXLEN = 2 + QIDSZ + 5 * 2 + 4 * 4 + 1 * 8"

lemma STATFIXLEN_49: "STATFIXLEN = 49"
  by (simp add: STATFIXLEN_def QIDSZ_def)

section \<open>Directory to message\<close>

definition svs :: "byte list option Dir \<Rightarrow> byte list option list" where
  "svs d = [dname d, duid d, dgid d, dmuid d]"

fun nsv :: "byte list option \<Rightarrow> nat" where
  "nsv None = 0"
| "nsv (Some cs) = length cs"

definition sizeD2M :: "byte list option Dir \<Rightarrow> u32" where
  "sizeD2M d = of_nat (STATFIXLEN + sum_list (map nsv (svs d)))"

text \<open>The loop over the four strings; the answer \<open>False\<close> is \<^verbatim>\<open>return 0\<close>.\<close>

fun d2m_strings :: "byte list option list \<Rightarrow> wstate \<Rightarrow> (bool, wstate) res" where
  "d2m_strings [] st = Ret True st"
| "d2m_strings (s # ss) st =
     (if fst st + nsv s + 2 > length (snd st) then Ret False st
      else case andthen (wr (le16 (of_nat (nsv s)))) (wr (case s of None \<Rightarrow> [] | Some cs \<Rightarrow> cs)) st of
        Ret _ st \<Rightarrow> d2m_strings ss st
      | _ \<Rightarrow> Fault)"

text \<open>The sums of string lengths, \<^verbatim>\<open>int\<close>s in the code, are exact: that is what they are as long as the strings of
  an entry have less than 2 GiB in all. The 16-bit counts are truncated as \<^verbatim>\<open>PBIT16\<close> truncates them.\<close>

definition convD2M :: "byte list option Dir \<Rightarrow> byte list \<Rightarrow> (nat, byte list) res" where
  "convD2M d buf =
     (if length buf < 2 then Ret 0 buf
      else
        let ss = STATFIXLEN + sum_list (map nsv (svs d)) in
        case wr (le16 (of_nat (ss - 2))) (0, buf) of
          Ret _ st \<Rightarrow>
            if ss > length buf then Ret 2 (snd st)
            else
              (case andthen (wr (le16 (dtype d))) (andthen (wr (le32 (ddev d)))
                (andthen (wr [qtype (dqid d)]) (andthen (wr (le32 (qvers (dqid d))))
                (andthen (wr (le64 (qpath (dqid d)))) (andthen (wr (le32 (dmode d)))
                (andthen (wr (le32 (datime d))) (andthen (wr (le32 (dmtime d)))
                (wr (le64 (dlength d)))))))))) st of
                 Ret _ st \<Rightarrow>
                   (case d2m_strings (svs d) st of
                      Ret ok (p, b) \<Rightarrow> if \<not> ok \<or> ss \<noteq> p then Ret 0 b else Ret p b
                    | _ \<Rightarrow> Fault)
               | _ \<Rightarrow> Fault)
        | _ \<Rightarrow> Fault)"

section \<open>Message to directory\<close>

text \<open>Use what was read from the message.\<close>

definition look :: "('a, byte list) res \<Rightarrow> ('a \<Rightarrow> ('b, 's) res) \<Rightarrow> ('b, 's) res" where
  "look m k = (case m of Ret v _ \<Rightarrow> k v | _ \<Rightarrow> Fault)"

fun stat_strings :: "nat \<Rightarrow> nat \<Rightarrow> byte list \<Rightarrow> (nat option, unit) res" where
  "stat_strings 0 p buf = Ret (Some p) ()"
| "stat_strings (Suc k) p buf =
     (if p + 2 > length buf then Ret None ()
      else look (GBIT16 p buf) (\<lambda>n. stat_strings k (p + (2 + unat n)) buf))"

definition statcheck :: "byte list \<Rightarrow> (int, unit) res" where
  "statcheck buf =
     (if length buf < STATFIXLEN then Ret (-1) ()
      else look (GBIT16 0 buf) (\<lambda>n.
        if length buf \<noteq> 2 + unat n then Ret (-1) ()
        else bindR (stat_strings 4 (STATFIXLEN - 4 * 2) buf) (\<lambda>r _.
          if r = Some (length buf) then Ret 0 () else Ret (-1) ())))"

text \<open>The loop of \<^verbatim>\<open>convM2D\<close>: \<open>so\<close> is the offset \<^verbatim>\<open>strs\<close> has advanced to, the state the string
  memory (\<open>None\<close> when the caller passed nil).\<close>

fun m2d_strings ::
  "nat \<Rightarrow> nat \<Rightarrow> nat \<Rightarrow> byte list \<Rightarrow> byte list option \<Rightarrow> ((nat list \<times> nat) option, byte list option) res" where
  "m2d_strings 0 p so buf strs = Ret (Some ([], p)) strs"
| "m2d_strings (Suc k) p so buf strs =
     (if p + 2 > length buf then Ret None strs
      else look (GBIT16 p buf) (\<lambda>n.
        let ns = unat n; p = p + 2 in
        if p + ns > length buf then Ret None strs
        else case strs of
          None \<Rightarrow> m2d_strings k (p + ns) so buf strs
        | Some m \<Rightarrow>
            look (rd p ns buf) (\<lambda>xs.
            look (poke so xs m) (\<lambda>_.
            let m = overwrite so xs m in
            look (poke (so + ns) [0] m) (\<lambda>_.
            let m = overwrite (so + ns) [0] m in
            bindR (m2d_strings k (p + ns) (so + ns + 1) buf (Some m)) (\<lambda>r strs.
            Ret (map_option (\<lambda>(sv, p). (so # sv, p)) r) strs))))))"

definition convM2D :: "byte list \<Rightarrow> sref Dir \<Rightarrow> byte list option \<Rightarrow> (nat \<times> sref Dir, byte list option) res" where
  "convM2D buf d strs =
     (if length buf < STATFIXLEN then Ret (0, d) strs
      else
        look (GBIT16 2 buf) (\<lambda>ty. look (GBIT32 4 buf) (\<lambda>dv. look (GBIT8 8 buf) (\<lambda>qt.
        look (GBIT32 9 buf) (\<lambda>qv. look (GBIT64 13 buf) (\<lambda>qp. look (GBIT32 21 buf) (\<lambda>mo.
        look (GBIT32 25 buf) (\<lambda>at. look (GBIT32 29 buf) (\<lambda>mt. look (GBIT64 33 buf) (\<lambda>ln.
        let d = d\<lparr>dtype := ty, ddev := dv, dqid := \<lparr>qtype = qt, qvers = qv, qpath = qp\<rparr>, dmode := mo,
                 datime := at, dmtime := mt, dlength := ln\<rparr> in
        bindR (m2d_strings 4 41 0 buf strs) (\<lambda>r strs.
        case r of
          None \<Rightarrow> Ret (0, d) strs
        | Some (sv, p) \<Rightarrow>
            Ret (p, if strs \<noteq> None
                    then d\<lparr>dname := Strs (sv ! 0), duid := Strs (sv ! 1), dgid := Strs (sv ! 2),
                           dmuid := Strs (sv ! 3)\<rparr>
                    else d\<lparr>dname := Nullstring, duid := Nullstring, dgid := Nullstring,
                           dmuid := Nullstring\<rparr>) strs)))))))))))"

section \<open>The layout of an entry\<close>

text \<open>The protocol has an entry for a \<open>Dir\<close> when its size and, with it, the lengths of its strings are below 64K;
  only then are the counts below the numbers they stand for.\<close>

definition edir :: "byte list option Dir \<Rightarrow> byte list" where
  "edir d = le16 (dtype d) @ le32 (ddev d) @ eqid (dqid d) @ le32 (dmode d) @ le32 (datime d) @
     le32 (dmtime d) @ le64 (dlength d) @ concat (map estr (svs d))"

definition estat :: "byte list option Dir \<Rightarrow> byte list" where
  "estat d = le16 (of_nat (length (edir d))) @ edir d"

lemma nsv_cstr: "nsv s = length (cstr s)"
  by (cases s) (simp_all add: cstr_def)

lemma length_estr: "length (estr s) = 2 + nsv s"
  by (simp add: estr_cstr nsv_cstr)

lemma length_estat: "length (estat d) = STATFIXLEN + sum_list (map nsv (svs d))"
  by (simp add: estat_def edir_def svs_def length_estr STATFIXLEN_49)

lemma d2m_strings_wr:
  "p + length (concat (map estr ss)) \<le> length b \<Longrightarrow>
     d2m_strings ss (p, b) =
       Ret True (p + length (concat (map estr ss)), overwrite p (concat (map estr ss)) b)"
proof (induction ss arbitrary: p b)
  case (Cons s ss)
  have w: "andthen (wr (le16 (of_nat (nsv s)))) (wr (case s of None \<Rightarrow> [] | Some cs \<Rightarrow> cs)) (p, b)
      = Ret () (p + length (estr s), overwrite p (estr s) b)"
    unfolding wr_wr using Cons.prems
    by (cases s) (simp_all add: wr_def estr_def)
  have "p + nsv s + 2 \<le> length b" using Cons.prems by (simp add: length_estr)
  moreover have "d2m_strings ss (p + length (estr s), overwrite p (estr s) b) =
      Ret True (p + length (estr s) + length (concat (map estr ss)),
        overwrite (p + length (estr s)) (concat (map estr ss)) (overwrite p (estr s) b))"
    by (rule Cons.IH) (use Cons.prems in simp)
  ultimately show ?case
    using w Cons.prems overwrite_overwrite [of p "estr s" "concat (map estr ss)" b] by (simp add: add.assoc)
qed simp

section \<open>Reading entries\<close>

lemma look_Ret [simp]: "look (Ret v s) k = k v"
  by (simp add: look_def)

text \<open>Reading stays inside the message, and the string memory is large enough when it is nearly
  as large as the message.\<close>

lemma m2d_strings_ok:
  "p \<le> length buf \<Longrightarrow> (\<forall>m. strs = Some m \<longrightarrow> so + (length buf - p) \<le> length m + 1) \<Longrightarrow>
     okR (m2d_strings k p so buf strs) (\<lambda>r strs'. map_option length strs' = map_option length strs \<and>
       (case r of None \<Rightarrow> True | Some (sv, q) \<Rightarrow> p + 2 * k \<le> q \<and> q \<le> length buf))"
proof (induction k arbitrary: p so strs)
  case (Suc k)
  show ?case
  proof (cases "p + 2 \<le> length buf")
    case True
    define ns where "ns = unat (get16 (seg p 2 buf))"
    have g: "GBIT16 p buf = Ret (get16 (seg p 2 buf)) buf" using True by simp
    show ?thesis
    proof (cases "p + 2 + ns \<le> length buf")
      case fits: True
      show ?thesis
      proof (cases strs)
        case None
        with Suc.IH [of "p + 2 + ns" None so] True fits g show ?thesis
          by (auto simp: ns_def Let_def elim!: okR_mono split: option.splits)
      next
        case (Some m)
        have room: "so + ns + 1 \<le> length m" using Suc.prems Some fits by simp
        have rd: "rd (p + 2) ns buf = Ret (seg (p + 2) ns buf) buf" using fits by (simp add: rd_def)
        have l: "length (seg (p + 2) ns buf) = ns" using fits by simp
        define m' where "m' = overwrite (so + ns) [0] (overwrite so (seg (p + 2) ns buf) m)"
        have lm: "length m' = length m" using room l by (simp add: m'_def)
        have eq: "m2d_strings (Suc k) p so buf strs =
            bindR (m2d_strings k (p + 2 + ns) (so + ns + 1) buf (Some m')) (\<lambda>r strs.
              Ret (map_option (\<lambda>(sv, p). (so # sv, p)) r) strs)"
          using True fits g rd room l Some
          by (simp add: ns_def [symmetric] Let_def poke_def m'_def look_def del: rd_le)
        have IH: "okR (m2d_strings k (p + 2 + ns) (so + ns + 1) buf (Some m')) (\<lambda>r strs'.
            map_option length strs' = map_option length (Some m') \<and>
            (case r of None \<Rightarrow> True | Some (sv, q) \<Rightarrow> p + 2 + ns + 2 * k \<le> q \<and> q \<le> length buf))"
          by (rule Suc.IH) (use fits Suc.prems Some lm in auto)
        show ?thesis
          unfolding eq okR_bindR okR_Ret
          by (rule okR_mono [OF IH]) (use Some lm in \<open>auto split: option.splits\<close>)
      qed
    qed (use True g in \<open>simp add: ns_def Let_def\<close>)
  qed simp
qed simp

lemma stat_strings_le: "stat_strings k p buf = Ret (Some q) () \<Longrightarrow> p \<le> q"
proof (induction k arbitrary: p)
  case (Suc k)
  then have "p + 2 \<le> length buf" by (auto split: if_splits)
  with Suc show ?case by fastforce
qed simp

text \<open>\<^verbatim>\<open>statcheck\<close> walks over the strings the way \<^verbatim>\<open>convM2D\<close> does.\<close>

lemma stat_m2d:
  assumes "stat_strings k p buf = Ret (Some q) ()" "q \<le> length buf"
    "m2d_strings k p so buf strs = Ret r strs'"
  shows "\<exists>sv. r = Some (sv, q)"
  using assms
proof (induction k arbitrary: p so strs r strs')
  case (Suc k)
  define ns where "ns = unat (get16 (seg p 2 buf))"
  have le: "p + 2 \<le> length buf" using Suc.prems(1) by (auto split: if_splits)
  then have st: "stat_strings k (p + (2 + ns)) buf = Ret (Some q) ()"
    using Suc.prems(1) by (simp add: ns_def)
  then have fit: "p + 2 + ns \<le> length buf" using stat_strings_le Suc.prems(2) by fastforce
  show ?case
  proof (cases strs)
    case None
    with Suc.prems(3) le fit have "m2d_strings k (p + 2 + ns) so buf None = Ret r strs'"
      by (simp add: ns_def Let_def)
    with Suc.IH [of "p + 2 + ns"] st Suc.prems(2) show ?thesis by (simp add: add.assoc)
  next
    case (Some m)
    from Suc.prems(3) le fit Some obtain m' r' where
      "m2d_strings k (p + 2 + ns) (so + ns + 1) buf (Some m') = Ret r' strs'"
      "r = map_option (\<lambda>(sv, p). (so # sv, p)) r'"
      by (auto simp: ns_def Let_def rd_def look_def split: res.splits)
    with Suc.IH [of "p + 2 + ns" "so + ns + 1" "Some m'" r' strs'] st Suc.prems(2) show ?thesis
      by (auto simp: add.assoc)
  qed
qed auto

lemma at_estr: "at p b (estr s) \<longleftrightarrow> at p b (le16 (of_nat (nsv s))) \<and> at (p + 2) b (cstr s)"
  by (simp add: estr_cstr at_append nsv_cstr)

lemma m2d_strings_at:
  "at p buf (concat (map estr ss)) \<Longrightarrow> \<forall>s \<in> set ss. nsv s < 2 ^ 16 \<Longrightarrow>
   so + sum_list (map (\<lambda>s. nsv s + 1) ss) \<le> length m \<Longrightarrow>
   \<exists>sv m'. m2d_strings (length ss) p so buf (Some m) =
       Ret (Some (sv, p + length (concat (map estr ss)))) (Some m') \<and>
     length m' = length m \<and> (\<forall>j < length ss. at (sv ! j) m' (cstr (ss ! j) @ [0])) \<and>
     (\<forall>q xs. q + length xs \<le> so \<longrightarrow> at q m' xs = at q m xs)"
proof (induction ss arbitrary: p so m)
  case (Cons s ss)
  let ?p = "p + length (estr s)" and ?n = "nsv s"
  from Cons.prems have a: "at p buf (le16 (of_nat ?n))" "at (p + 2) buf (cstr s)"
    "at ?p buf (concat (map estr ss))" and n: "?n < 2 ^ 16"
    by (simp_all add: at_append at_estr)
  have u: "unat (of_nat ?n :: u16) = ?n" using n by (simp add: unat_of_nat)
  have le: "p + 2 + ?n \<le> length buf" using at_len [OF a(2)] by (simp add: nsv_cstr)
  define m1 where "m1 = overwrite so (cstr s @ [0]) m"
  have room: "so + ?n + 1 \<le> length m" using Cons.prems(3) by simp
  have l: "length (cstr s) = ?n" by (simp add: nsv_cstr)
  have m1: "length m1 = length m" "at so m1 (cstr s @ [0])" "overwrite (so + ?n) [0] (overwrite so (cstr s) m) = m1"
    using room l at_overwrite [of so "cstr s @ [0]" m] overwrite_overwrite [of so "cstr s" "[0]" m]
    by (simp_all add: m1_def)
  have fr: "at q m1 xs = at q m xs" if "q + length xs \<le> so" for q xs
    unfolding m1_def by (rule at_overwrite_other) (use that room l in auto)
  obtain sv m' where r: "m2d_strings (length ss) ?p (so + ?n + 1) buf (Some m1) =
       Ret (Some (sv, ?p + length (concat (map estr ss)))) (Some m')" "length m' = length m1"
     "\<forall>j < length ss. at (sv ! j) m' (cstr (ss ! j) @ [0])"
     "\<forall>q xs. q + length xs \<le> so + ?n + 1 \<longrightarrow> at q m' xs = at q m1 xs"
    using Cons.IH [OF a(3), of "so + ?n + 1" m1] Cons.prems(2,3) m1(1) by auto
  have "p + length (estr s) = p + 2 + ?n" by (simp add: length_estr)
  then have "m2d_strings (length (s # ss)) p so buf (Some m) =
      Ret (Some (so # sv, ?p + length (concat (map estr ss)))) (Some m')"
    using le at_GBIT(2) [OF a(1)] at_rd [OF a(2), of ?n] room l u r(1) m1(3)
    by (simp add: Let_def poke_def)
  moreover have "at so m' (cstr s @ [0])" using r(4) m1(2) l by simp
  then have "at ((so # sv) ! j) m' (cstr ((s # ss) ! j) @ [0])" if "j < length (s # ss)" for j
    using r(3) that by (cases j) auto
  ultimately show ?case using r(2,4) m1(1) fr by (auto simp: add.assoc)
qed simp

lemma stat_strings_at:
  "at p buf (concat (map estr ss)) \<Longrightarrow> \<forall>s \<in> set ss. nsv s < 2 ^ 16 \<Longrightarrow>
     stat_strings (length ss) p buf = Ret (Some (p + length (concat (map estr ss)))) ()"
proof (induction ss arbitrary: p)
  case (Cons s ss)
  from Cons.prems have a: "at p buf (le16 (of_nat (nsv s)))" "at (p + length (estr s)) buf (concat (map estr ss))"
    and n: "nsv s < 2 ^ 16"
    by (simp_all add: at_append at_estr)
  have "unat (of_nat (nsv s) :: u16) = nsv s" using n by (simp add: unat_of_nat)
  with at_len [OF a(1)] at_GBIT(2) [OF a(1)] Cons.IH [OF a(2)] Cons.prems(2) show ?case
    by (simp add: length_estr add.assoc)
qed simp

lemma convD2M_eq:
  "convD2M d buf =
     (if length buf < 2 then Ret 0 buf
      else if length (estat d) > length buf then Ret 2 (overwrite 0 (le16 (of_nat (length (edir d)))) buf)
      else Ret (length (estat d)) (overwrite 0 (estat d) buf))"
proof -
  define ss where "ss = STATFIXLEN + sum_list (map nsv (svs d))"
  have ss: "length (estat d) = ss" "ss - 2 = length (edir d)"
    using length_estat [of d] by (simp_all add: ss_def estat_def)
  let ?c = "le16 (of_nat (length (edir d)))"
  let ?h = "le16 (dtype d) @ le32 (ddev d) @ eqid (dqid d) @ le32 (dmode d) @ le32 (datime d) @
     le32 (dmtime d) @ le64 (dlength d)"
  let ?s = "concat (map estr (svs d))"
  have e: "estat d = ?c @ ?h @ ?s" by (simp add: estat_def edir_def)
  have lh: "length ?h = 39" by simp
  have "wr ?c (0, buf) = Ret () (2, overwrite 0 ?c buf)" if "2 \<le> length buf"
    using that by (simp add: wr_def)
  moreover have "wr ?h (2, overwrite 0 ?c buf) = Ret () (41, overwrite 0 (?c @ ?h) buf)"
    if "ss \<le> length buf"
  proof -
    have "41 \<le> length buf" using that ss(1) e lh by simp
    then show ?thesis
      using overwrite_overwrite [of 0 ?c ?h buf] by (simp add: wr_def numeral_2_eq_2)
  qed
  moreover have "d2m_strings (svs d) (41, overwrite 0 (?c @ ?h) buf) = Ret True (ss, overwrite 0 (estat d) buf)"
    if "ss \<le> length buf"
  proof -
    have l: "41 + length ?s = ss" using ss(1) e by simp
    have "d2m_strings (svs d) (41, overwrite 0 (?c @ ?h) buf) =
        Ret True (41 + length ?s, overwrite 41 ?s (overwrite 0 (?c @ ?h) buf))"
      by (rule d2m_strings_wr) (use that l in simp)
    moreover have "overwrite 41 ?s (overwrite 0 (?c @ ?h) buf) = overwrite 0 (estat d) buf"
      using overwrite_overwrite [of 0 "?c @ ?h" ?s buf] that l e by simp
    ultimately show ?thesis unfolding l by simp
  qed
  ultimately show ?thesis
    unfolding convD2M_def ss_def [symmetric] ss Let_def wr_wr
    by (simp add: eqid_def)
qed

section \<open>Properties\<close>

definition dir_ex :: "byte list option Dir" where
  "dir_ex = \<lparr>dtype = 0x4d, ddev = 3, dqid = \<lparr>qtype = 0x80, qvers = 1, qpath = 9\<rparr>, dmode = 0x800001ed,
     datime = 5, dmtime = 6, dlength = 0, dname = Some [0x2f], duid = Some [0x67, 0x6c], dgid = None,
     dmuid = Some []\<rparr>"

lemma dir_ex_length: "length (edir dir_ex) = 50" "length (estat dir_ex) = 52"
  by (simp_all add: edir_def estat_def svs_def estr_def dir_ex_def)

text \<open>C32. For an entry whose size the 16-bit count of the protocol can express, \<^verbatim>\<open>convD2M\<close> stores the entry as
  the protocol lays it out when it fits; when it does not, it stores the size needed and returns the size
  of that count, so that the caller can read the size from the buffer and try again; with no room for the count it
  returns 0 and stores nothing.\<close>

theorem convD2M_refines:
  assumes "length (edir d) < 2 ^ 16"
  shows "convD2M d buf =
     (if length buf < 2 then Ret 0 buf
      else if length (estat d) > length buf then Ret 2 (overwrite 0 (le16 (of_nat (length (edir d)))) buf)
      else Ret (length (estat d)) (overwrite 0 (estat d) buf)) \<and>
    (2 \<le> length buf \<longrightarrow> (\<exists>n b. convD2M d buf = Ret n b \<and> length b = length buf \<and>
       GBIT16 0 b = Ret (of_nat (length (edir d))) b \<and> unat (of_nat (length (edir d)) :: u16) + 2 = length (estat d)))"
proof (intro conjI impI)
  assume big: "2 \<le> length buf"
  let ?c = "le16 (of_nat (length (edir d)))"
  let ?b = "if length (estat d) > length buf then overwrite 0 ?c buf else overwrite 0 (estat d) buf"
  have "at 0 ?b ?c"
    using big at_overwrite [of 0 ?c buf] at_overwrite [of 0 "estat d" buf] by (auto simp: estat_def at_append)
  then have "GBIT16 0 ?b = Ret (of_nat (length (edir d))) ?b" by (rule at_GBIT)
  moreover have "length ?b = length buf" using big by auto
  moreover have "unat (of_nat (length (edir d)) :: u16) + 2 = length (estat d)"
    using assms by (simp add: unat_of_nat estat_def)
  ultimately show "\<exists>n b. convD2M d buf = Ret n b \<and> length b = length buf \<and>
      GBIT16 0 b = Ret (of_nat (length (edir d))) b \<and> unat (of_nat (length (edir d)) :: u16) + 2 = length (estat d)"
    using big convD2M_eq [of d buf] by (intro exI [of _ "if length (estat d) > length buf then 2 else length (estat d)"] exI [of _ ?b]) auto
qed (rule convD2M_eq)

theorem convD2M_refines_witness:
  "convD2M dir_ex (replicate 60 0) = Ret 52 (overwrite 0 (estat dir_ex) (replicate 60 0)) \<and>
   (\<exists>b. convD2M dir_ex (replicate 10 0) = Ret 2 b \<and> GBIT16 0 b = Ret 50 b)"
  using convD2M_refines [of dir_ex "replicate 60 0"] convD2M_refines [of dir_ex "replicate 10 0"]
  by (simp add: dir_ex_length) (elim conjE exE, simp)

text \<open>The strings of an entry that was accepted lie inside the string memory.\<close>

lemma look_RetD: "look m k = Ret a s \<Longrightarrow> \<exists>v t. m = Ret v t \<and> k v = Ret a s"
  by (cases m) (simp_all add: look_def)

lemma m2d_strings_refs:
  "m2d_strings k p so bf (Some m) = Ret (Some (sv, q)) strs' \<Longrightarrow>
     \<exists>m'. strs' = Some m' \<and> length m' = length m \<and> length sv = k \<and> list_all (\<lambda>i. i < length m) sv"
proof (induction k arbitrary: p so m sv q strs')
  case (Suc k)
  from Suc.prems show ?case
    by (auto simp: Let_def poke_def dest!: look_RetD Suc.IH split: if_splits)
qed simp

lemma convM2D_refs:
  assumes "length buf \<le> length strs + 42"
  shows "\<exists>m d' strs'. convM2D buf d (Some strs) = Ret (m, d') (Some strs') \<and>
     (m = 0 \<or> (\<exists>i. duid d' = Strs i \<and> i < length strs'))"
proof (cases "length buf < STATFIXLEN")
  case False
  have ok: "okR (m2d_strings 4 41 0 buf (Some strs)) (\<lambda>r strs'. map_option length strs' = Some (length strs))"
    by (rule okR_mono [OF m2d_strings_ok]) (use False assms in \<open>auto simp: STATFIXLEN_49\<close>)
  then obtain r strs' where r: "m2d_strings 4 41 0 buf (Some strs) = Ret r (Some strs')" by (auto simp: okR_def)
  have u: "\<exists>i. Strs (sv ! 1) = Strs i \<and> i < length strs'" if "r = Some (sv, q)" for sv q
    using m2d_strings_refs [of 4 41 0 buf strs sv q] r that by (auto simp: list_all_length)
  show ?thesis unfolding convM2D_def using False r u
    by (auto simp: STATFIXLEN_49 Let_def split: option.split)
qed (simp add: convM2D_def)

text \<open>C33. \<^verbatim>\<open>convM2D\<close> is safe on every message, with string memory about as large as the message or
  with none: it reads inside the message and writes inside the string memory, and what it
  answers is 0 or the size of an entry that lies inside the message.\<close>

theorem convM2D_safe:
  assumes "\<forall>m. strs = Some m \<longrightarrow> length buf \<le> length m + 42"
  shows "okR (convM2D buf d strs) (\<lambda>(n, d') strs'. map_option length strs' = map_option length strs \<and>
     (n = 0 \<or> STATFIXLEN \<le> n \<and> n \<le> length buf))"
proof (cases "length buf < STATFIXLEN")
  case False
  have ok: "okR (m2d_strings 4 41 0 buf strs) (\<lambda>r strs'. map_option length strs' = map_option length strs \<and>
      (case r of None \<Rightarrow> True | Some (sv, q) \<Rightarrow> 41 + 2 * 4 \<le> q \<and> q \<le> length buf))"
    by (rule m2d_strings_ok) (use False assms in \<open>auto simp: STATFIXLEN_49\<close>)
  show ?thesis
    unfolding convM2D_def using False
    by (auto simp: STATFIXLEN_49 Let_def intro!: okR_mono [OF ok] split: option.splits)
qed (simp add: convM2D_def)

definition dir_null :: "sref Dir" where
  "dir_null = \<lparr>dtype = 0, ddev = 0, dqid = \<lparr>qtype = 0, qvers = 0, qpath = 0\<rparr>, dmode = 0, datime = 0,
     dmtime = 0, dlength = 0, dname = Unset, duid = Unset, dgid = Unset, dmuid = Unset\<rparr>"

theorem convM2D_safe_witness:
  "okR (convM2D (replicate 60 7) dir_null (Some (replicate 18 0)))
     (\<lambda>(n, d') strs'. map_option length strs' = map_option length (Some (replicate 18 (0 :: byte))) \<and>
       (n = 0 \<or> STATFIXLEN \<le> n \<and> n \<le> length (replicate 60 (7 :: byte))))"
  by (rule convM2D_safe) simp

text \<open>A message that passes \<^verbatim>\<open>statcheck\<close> is one entry exactly: \<^verbatim>\<open>convM2D\<close> accepts it and
  consumes all of it.\<close>

theorem statcheck_accepts:
  assumes "statcheck buf = Ret 0 ()" "\<forall>m. strs = Some m \<longrightarrow> length buf \<le> length m + 42"
  shows "\<exists>d' strs'. convM2D buf d strs = Ret (length buf, d') strs'"
proof -
  have big: "49 \<le> length buf" using assms(1) by (auto simp: statcheck_def STATFIXLEN_49 split: if_splits)
  then have "2 \<le> length buf" by simp
  with assms(1) have st: "stat_strings 4 41 buf = Ret (Some (length buf)) ()"
    by (auto simp: statcheck_def STATFIXLEN_49 split: if_splits)
  have "okR (m2d_strings 4 41 0 buf strs) (\<lambda>r strs'. map_option length strs' = map_option length strs \<and>
      (case r of None \<Rightarrow> True | Some (sv, q) \<Rightarrow> 41 + 2 * 4 \<le> q \<and> q \<le> length buf))"
    by (rule m2d_strings_ok) (use big assms(2) in auto)
  then obtain r strs' where m: "m2d_strings 4 41 0 buf strs = Ret r strs'" by (auto simp: okR_def)
  from stat_m2d [OF st _ this] obtain sv where "r = Some (sv, length buf)" by auto
  with m big show ?thesis by (simp add: convM2D_def STATFIXLEN_49 Let_def)
qed

theorem statcheck_accepts_witness:
  "statcheck (47 # replicate 48 0) = Ret 0 () \<and>
   (\<exists>d' strs'. convM2D (47 # replicate 48 0) dir_null None = Ret (49, d') strs')"
proof -
  have "statcheck (47 # replicate 48 0) = Ret 0 ()" by code_simp
  with statcheck_accepts [of "47 # replicate 48 0" None dir_null] show ?thesis by simp
qed

text \<open>C31. Round trip: what \<^verbatim>\<open>convD2M\<close> stores passes \<^verbatim>\<open>statcheck\<close>, and \<^verbatim>\<open>convM2D\<close> reads the same entry
  back, its strings NUL-terminated in the memory provided; entries whose size the 16-bit count
  can express.\<close>

theorem dir_roundtrip:
  assumes "length (edir d) < 2 ^ 16" "length buf = length (estat d)" "length (estat d) \<le> length m + 45"
  shows "\<exists>b d' m'. convD2M d buf = Ret (length (estat d)) b \<and> statcheck b = Ret 0 () \<and>
     convM2D b d0 (Some m) = Ret (length (estat d), d') (Some m') \<and>
     dtype d' = dtype d \<and> ddev d' = ddev d \<and> dqid d' = dqid d \<and> dmode d' = dmode d \<and>
     datime d' = datime d \<and> dmtime d' = dmtime d \<and> dlength d' = dlength d \<and>
     (\<exists>s1 s2 s3 s4. dname d' = Strs s1 \<and> strat m' s1 (dname d) \<and> duid d' = Strs s2 \<and> strat m' s2 (duid d) \<and>
        dgid d' = Strs s3 \<and> strat m' s3 (dgid d) \<and> dmuid d' = Strs s4 \<and> strat m' s4 (dmuid d))"
proof -
  let ?b = "overwrite 0 (estat d) buf"
  have len: "length (estat d) = length (edir d) + 2" by (simp add: estat_def)
  have l49: "length (estat d) = 49 + sum_list (map nsv (svs d))" by (simp add: length_estat STATFIXLEN_49)
  have lb: "length ?b = length (estat d)" using assms(2) by simp
  have D: "convD2M d buf = Ret (length (estat d)) ?b"
    using assms(2) len convD2M_eq [of d buf] by simp
  have small: "\<forall>s \<in> set (svs d). nsv s < 2 ^ 16" using l49 len assms(1) by (auto simp: svs_def)
  have "at 0 ?b (estat d)" by (rule at_overwrite) (use assms(2) in simp)
  then have "at 0 ?b (le16 (of_nat (length (edir d))) @ le16 (dtype d) @ le32 (ddev d) @ ([qtype (dqid d)] @
      le32 (qvers (dqid d)) @ le64 (qpath (dqid d))) @ le32 (dmode d) @ le32 (datime d) @
     le32 (dmtime d) @ le64 (dlength d) @ concat (map estr (svs d)))"
    by (simp add: estat_def edir_def eqid_def)
  then have a: "at 0 ?b (le16 (of_nat (length (edir d))))" "at 2 ?b (le16 (dtype d))" "at 4 ?b (le32 (ddev d))"
    "at 8 ?b [qtype (dqid d)]" "at 9 ?b (le32 (qvers (dqid d)))" "at 13 ?b (le64 (qpath (dqid d)))"
    "at 21 ?b (le32 (dmode d))" "at 25 ?b (le32 (datime d))" "at 29 ?b (le32 (dmtime d))"
    "at 33 ?b (le64 (dlength d))" "at 41 ?b (concat (map estr (svs d)))"
    unfolding at_append by (simp_all del: add_2_eq_Suc add_2_eq_Suc')
  have ls: "41 + length (concat (map estr (svs d))) = length (estat d)" "length (svs d) = 4"
    using l49 by (simp_all add: svs_def length_estr)
  have u: "unat (of_nat (length (edir d)) :: u16) = length (edir d)" using assms(1) by (simp add: unat_of_nat)
  have S: "statcheck ?b = Ret 0 ()"
    using stat_strings_at [OF a(11) small] at_GBIT(2) [OF a(1)] u len lb ls l49
    by (simp add: statcheck_def STATFIXLEN_49)
  have room: "0 + sum_list (map (\<lambda>s. nsv s + 1) (svs d)) \<le> length m"
    using assms(3) l49 by (simp add: svs_def)
  obtain sv m' where r: "m2d_strings 4 41 0 ?b (Some m) = Ret (Some (sv, length (estat d))) (Some m')"
    "\<forall>j < 4. at (sv ! j) m' (cstr (svs d ! j) @ [0])"
    using m2d_strings_at [OF a(11) small room] ls by auto
  have st: "strat m' (sv ! 0) (dname d)" "strat m' (sv ! 1) (duid d)" "strat m' (sv ! 2) (dgid d)"
    "strat m' (sv ! 3) (dmuid d)"
    using r(2) [rule_format, of 0] r(2) [rule_format, of 1] r(2) [rule_format, of 2] r(2) [rule_format, of 3]
    by (simp_all add: strat_def svs_def numeral_2_eq_2 numeral_3_eq_3)
  have "49 \<le> length ?b" using l49 lb by simp
  then have "convM2D ?b d0 (Some m) = Ret (length (estat d), d0\<lparr>dtype := dtype d, ddev := ddev d,
      dqid := \<lparr>qtype = qtype (dqid d), qvers = qvers (dqid d), qpath = qpath (dqid d)\<rparr>, dmode := dmode d,
      datime := datime d, dmtime := dmtime d, dlength := dlength d, dname := Strs (sv ! 0),
      duid := Strs (sv ! 1), dgid := Strs (sv ! 2), dmuid := Strs (sv ! 3)\<rparr>) (Some m')"
    using r(1) unfolding convM2D_def at_GBIT(2) [OF a(2)] at_GBIT(3) [OF a(3)] at_GBIT(1) [OF a(4)]
      at_GBIT(3) [OF a(5)] at_GBIT(4) [OF a(6)] at_GBIT(3) [OF a(7)] at_GBIT(3) [OF a(8)]
      at_GBIT(3) [OF a(9)] at_GBIT(4) [OF a(10)]
    by (simp add: STATFIXLEN_49 Let_def)
  with D S st show ?thesis by simp
qed

theorem dir_roundtrip_witness:
  "\<exists>b d' m'. convD2M dir_ex (replicate 52 0) = Ret 52 b \<and> statcheck b = Ret 0 () \<and>
     convM2D b dir_null (Some (replicate 7 0)) = Ret (52, d') (Some m') \<and> dqid d' = dqid dir_ex"
  using dir_roundtrip [of dir_ex "replicate 52 0" "replicate 7 0" dir_null] by (simp add: dir_ex_length) blast

end
