(* ===== verification/Runes.thy ===== *)
theory Runes
  imports Prelude
begin

text \<open>
  Text: the conversion between Unicode characters (\<^verbatim>\<open>Rune\<close>) and UTF-8, \<^verbatim>\<open>sys/src/libc/port/rune.c\<close>,
  and the functions on UTF-8 strings built on it (\<^verbatim>\<open>utflen.c\<close>, \<^verbatim>\<open>utfnlen.c\<close>, \<^verbatim>\<open>utfrune.c\<close>,
  \<^verbatim>\<open>utfrrune.c\<close>, \<^verbatim>\<open>utfecpy.c\<close>).

  A string is the memory from the pointer on, a list of bytes; the answer \<open>None\<close> is a read past its
  end. \<^verbatim>\<open>Rune\<close> is a 32-bit unsigned number.
\<close>

section \<open>Constants\<close>

definition Bit :: "nat \<Rightarrow> nat" where "Bit i = 7 - i"

definition Bitx :: nat where "Bitx = Bit 1"

definition T :: "nat \<Rightarrow> u32" where "T i = (push_bit (Bit i + 1) 1 - 1) XOR 0xFF"

definition RuneX :: "nat \<Rightarrow> u32" where "RuneX i = push_bit (Bit i + (i - 1) * Bitx) 1 - 1"

definition Tx :: u32 where "Tx = T 1"

definition Rune1 :: u32 where "Rune1 = push_bit (Bit 0 + 0 * Bitx) 1 - 1"

definition Maskx :: u32 where "Maskx = push_bit Bitx 1 - 1"

definition Testx :: u32 where "Testx = Maskx XOR 0xFF"

definition SurrogateMin :: u32 where "SurrogateMin = 0xD800"

definition SurrogateMax :: u32 where "SurrogateMax = 0xDFFF"

definition UTFmax :: nat where "UTFmax = 4"

definition Runesync :: u32 where "Runesync = 0x80"

definition Runeself :: u32 where "Runeself = 0x80"

definition Runeerror :: u32 where "Runeerror = 0xFFFD"

definition Runemax :: u32 where "Runemax = 0x10FFFF"

section \<open>rune.c\<close>

text \<open>The loop of \<^verbatim>\<open>chartorune\<close>; the answer is the rune and the number of bytes.\<close>

function chartorune_loop :: "byte list \<Rightarrow> u32 \<Rightarrow> nat \<Rightarrow> u32 \<Rightarrow> (u32 \<times> nat) option" where
  "chartorune_loop str c0 i l =
     (if i < UTFmax then
        if i \<ge> length str then None
        else
          let c = ucast (str ! i) XOR Tx in
          if c AND Testx \<noteq> 0 then Some (Runeerror, 1)
          else
            let l = push_bit Bitx l OR c in
            if c0 < T (i + 2) then
              let l = l AND RuneX (i + 1) in
              if (if i = 1 then c0 < T 2 \<or> l \<le> Rune1 else l \<le> RuneX i \<or> l > Runemax) then Some (Runeerror, 1)
              else if i = 2 \<and> SurrogateMin \<le> l \<and> l \<le> SurrogateMax then Some (Runeerror, 1)
              else Some (l, i + 1)
            else chartorune_loop str c0 (i + 1) l
      else Some (Runeerror, 1))"
  by pat_completeness auto
termination
  by (relation "measure (\<lambda>(str, c0, i, l). UTFmax - i)") auto

definition chartorune :: "byte list \<Rightarrow> (u32 \<times> nat) option" where
  "chartorune str =
     (case str of
        [] \<Rightarrow> None
      | b # _ \<Rightarrow>
          let c0 = ucast b in
          if c0 < Tx then Some (c0, 1) else chartorune_loop str c0 1 c0)"

text \<open>\<^verbatim>\<open>runetochar\<close> answers with the bytes it stores; their number is its result.\<close>

function runetochar_loop :: "nat \<Rightarrow> u32 \<Rightarrow> byte list" where
  "runetochar_loop i c =
     (if i < UTFmax + 1 then
        let c = (if i = 3 then
                   let c = (if c > Runemax then Runeerror else c) in
                   if SurrogateMin \<le> c \<and> c \<le> SurrogateMax then Runeerror else c
                 else c) in
        if c \<le> RuneX i \<or> i = UTFmax then
          ucast (T i OR drop_bit ((i - 1) * Bitx) c) #
          map (\<lambda>j. ucast (Tx OR (drop_bit ((i - j - 1) * Bitx) c AND Maskx))) [1..<i]
        else runetochar_loop (i + 1) c
      else [])"
  by pat_completeness auto
termination
  by (relation "measure (\<lambda>(i, c). UTFmax + 1 - i)") auto

definition runetochar :: "u32 \<Rightarrow> byte list" where
  "runetochar c = (if c \<le> Rune1 then [ucast c] else runetochar_loop 2 c)"

definition runelen :: "u32 \<Rightarrow> nat" where
  "runelen c = length (runetochar c)"

function runenlen_one :: "nat \<Rightarrow> u32 \<Rightarrow> nat" where
  "runenlen_one i c =
     (if i < UTFmax + 1 then if c \<le> RuneX i \<or> i = UTFmax then i else runenlen_one (i + 1) c else 0)"
  by pat_completeness auto
termination
  by (relation "measure (\<lambda>(i, c). UTFmax + 1 - i)") auto

text \<open>The \<open>nrune\<close> runes at \<^verbatim>\<open>r\<close> are the list.\<close>

fun runenlen :: "u32 list \<Rightarrow> nat" where
  "runenlen [] = 0"
| "runenlen (c # cs) = (if c \<le> Rune1 then 1 else runenlen_one 2 c) + runenlen cs"

function fullrune_loop :: "nat \<Rightarrow> u32 \<Rightarrow> int \<Rightarrow> bool" where
  "fullrune_loop i c n =
     (if i < UTFmax + 1 then if c < T i then n \<ge> int i - 1 else fullrune_loop (i + 1) c n
      else n \<ge> int UTFmax)"
  by pat_completeness auto
termination
  by (relation "measure (\<lambda>(i, c, n). UTFmax + 1 - i)") auto

definition fullrune :: "byte list \<Rightarrow> int \<Rightarrow> bool option" where
  "fullrune str n =
     (if n \<le> 0 then Some False
      else case str of
        [] \<Rightarrow> None
      | b # _ \<Rightarrow>
          let c = ucast b in
          Some (if c < Tx then True else fullrune_loop 3 c n))"

section \<open>UTF-8 strings\<close>

text \<open>\<^verbatim>\<open>chartorune\<close> never answers with no bytes, so the loops over a string end.\<close>

declare chartorune_loop.simps [simp del] runetochar_loop.simps [simp del] runenlen_one.simps [simp del]
  fullrune_loop.simps [simp del]

lemma chartorune_loop_pos: "chartorune_loop str c0 i l = Some (r, n) \<Longrightarrow> 0 < n"
proof (induction str c0 i l rule: chartorune_loop.induct)
  case (1 str c0 i l)
  show ?case
    using "1.prems" by (subst (asm) chartorune_loop.simps) (auto simp: Let_def split: if_splits dest: "1.IH")
qed

lemma chartorune_pos: "chartorune str = Some (r, n) \<Longrightarrow> 0 < n"
  by (auto simp: chartorune_def Let_def split: list.splits if_splits dest: chartorune_loop_pos)

function utflen :: "byte list \<Rightarrow> nat option" where
  "utflen s =
     (case s of
        [] \<Rightarrow> None
      | b # s' \<Rightarrow>
          if ucast b < Runeself then
            if b = 0 then Some 0 else map_option Suc (utflen s')
          else case chartorune s of
            None \<Rightarrow> None
          | Some (r, n) \<Rightarrow> if n > length s then None else map_option Suc (utflen (drop n s)))"
  by pat_completeness auto
termination
  by (relation "measure length") (auto dest: chartorune_pos)


text \<open>\<^verbatim>\<open>es - s\<close> is \<open>m\<close>.\<close>

function utfnlen :: "byte list \<Rightarrow> int \<Rightarrow> nat option" where
  "utfnlen s m =
     (if m \<le> 0 then Some 0
      else case s of
        [] \<Rightarrow> None
      | b # s' \<Rightarrow>
          if ucast b < Runeself then
            if b = 0 then Some 0 else map_option Suc (utfnlen s' (m - 1))
          else case fullrune s m of
            None \<Rightarrow> None
          | Some False \<Rightarrow> Some 0
          | Some True \<Rightarrow>
              (case chartorune s of
                 None \<Rightarrow> None
               | Some (r, n) \<Rightarrow> map_option Suc (utfnlen (drop n s) (m - int n))))"
  by pat_completeness auto
termination
  by (relation "measure (\<lambda>(s, m). nat m)") (auto dest: chartorune_pos)

text \<open>A search answers with an offset, nil, or a read past the end of the memory.\<close>

datatype search = Found nat | Nil_found | Past

fun later :: "nat \<Rightarrow> search \<Rightarrow> search" where
  "later k (Found i) = Found (i + k)"
| "later k x = x"

text \<open>The character is converted to \<^verbatim>\<open>char\<close>; \<open>c = 0\<close> finds the end of the string.\<close>

fun strchr :: "byte list \<Rightarrow> u32 \<Rightarrow> search" where
  "strchr [] c = Past"
| "strchr (b # s) c =
     (if c = 0 then if b = 0 then Found 0 else later 1 (strchr s c)
      else if b = 0 then Nil_found
      else if b = ucast c then Found 0
      else later 1 (strchr s c))"

function utfrune :: "byte list \<Rightarrow> u32 \<Rightarrow> search" where
  "utfrune s c =
     (if c < Runesync then strchr s c
      else case s of
        [] \<Rightarrow> Past
      | b # s' \<Rightarrow>
          if ucast b < Runeself then
            if b = 0 then Nil_found
            else if ucast b = c then Found 0
            else later 1 (utfrune s' c)
          else case chartorune s of
            None \<Rightarrow> Past
          | Some (r, n) \<Rightarrow> if r = c then Found 0 else later n (utfrune (drop n s) c))"
  by pat_completeness auto
termination
  by (relation "measure (\<lambda>(s, c). length s)") (auto dest: chartorune_pos)

text \<open>\<^verbatim>\<open>utfecpy\<close> copies the string \<open>from\<close> to the \<open>n = e - to\<close> bytes at \<^verbatim>\<open>to\<close> and answers with the offset of
  the end; \<open>memccpy\<close> copies up to a NUL or until the room is used up.\<close>

fun memccpy :: "byte list \<Rightarrow> byte \<Rightarrow> nat \<Rightarrow> (byte list \<times> bool) option" where
  "memccpy from c 0 = Some ([], False)"
| "memccpy [] c (Suc n) = None"
| "memccpy (b # from) c (Suc n) =
     (if b = c then Some ([b], True) else map_option (\<lambda>(xs, f). (b # xs, f)) (memccpy from c n))"

text \<open>The loop that backs up to the start of a character: \<open>end\<close> is the offset.\<close>

fun back_up :: "byte list \<Rightarrow> nat \<Rightarrow> nat" where
  "back_up m 0 = 0"
| "back_up m (Suc e) = (if m ! e AND 0xC0 = 0x80 then back_up m e else e)"

definition utfecpy :: "nat \<Rightarrow> byte list \<Rightarrow> (byte list \<times> nat) option" where
  "utfecpy n from =
     (if n = 0 then Some ([], 0)
      else case memccpy from 0 n of
        None \<Rightarrow> None
      | Some (m, True) \<Rightarrow> Some (m, length m - 1)
      | Some (m, False) \<Rightarrow> let e = back_up m n in Some (m[e := 0], e))"

section \<open>What the codec computes\<close>

declare utflen.simps [simp del] utfnlen.simps [simp del] utfrune.simps [simp del]

lemma rune_consts [simp]:
  "Bitx = 6" "Tx = 0x80" "T 2 = 0xC0" "T 3 = 0xE0" "T 4 = 0xF0" "T 5 = 0xF8" "RuneX 2 = 0x7FF"
  "RuneX 3 = 0xFFFF" "RuneX 4 = 0x1FFFFF" "Rune1 = 0x7F" "Maskx = 0x3F" "Testx = 0xC0" "UTFmax = 4"
  by (simp_all add: Bitx_def Bit_def Tx_def T_def RuneX_def Rune1_def Maskx_def Testx_def UTFmax_def)

lemmas rune_defs = Runeerror_def Runemax_def SurrogateMin_def SurrogateMax_def Runeself_def Runesync_def

end
