(* ===== verification/Devs.thy ===== *)
theory Devs
  imports Dirs Queue_Props Runes
begin

text \<open>
  The generic device code, \<^verbatim>\<open>sys/src/9k/port/dev.c\<close>, that device drivers with a small directory share:
  walking, reading a directory, stat and open by means of a generator of directory entries.

  A \<open>Chan\<close> has the fields of \<^verbatim>\<open>struct Chan\<close> that this code touches (\<^verbatim>\<open>dev\<close> as the device character,
  \<^verbatim>\<open>path\<close> as its string); what the driver hangs on \<^verbatim>\<open>aux\<close> is the state of the driver's own model. A
  table is its zeroth entry, which must be there, and the rest. Strings are bytes. \<open>Env\<close> holds what
  the code reads from elsewhere: the two user names and the clocks, the same during one call.

  The loops over a generator end only if the generator does, so they are partial functions and \<open>None\<close>
  means that the loop runs for ever. What is promised of a generator is the locale \<open>table\<close>; that the
  loops end, and with what, is proved there once for all generators that keep the promise.
\<close>

section \<open>Data\<close>

record Chan =
  cflag :: u16
  cmode :: u16
  coffset :: int
  cqid :: Qid
  ciounit :: u32
  cdri :: nat
  cdc :: "u32 option"
  cdevno :: u32
  cpath :: "byte list option"

record Dirtab =
  tname :: "byte list"
  tqid :: Qid
  tlength :: u64
  tperm :: u32

type_synonym tabl = "Dirtab \<times> Dirtab list"

record Env =
  eve :: "byte list"
  upuser :: "byte list"
  secs :: u32
  kerndate :: u32

type_synonym entry = "byte list option Dir"

text \<open>The index argument of a generator: \<^verbatim>\<open>DEVDOTDOT\<close> or a number; and its result: -1, 0, or 1 with
  the entry filled in.\<close>

datatype gidx = DEVDOTDOT | Index nat

datatype gres = Gend | Gskip | Gent entry

type_synonym gener = "Chan \<Rightarrow> byte list option \<Rightarrow> tabl option \<Rightarrow> gidx \<Rightarrow> gres"

definition COPEN :: u16 where "COPEN = 0x0001"

definition CMSG :: u16 where "CMSG = 0x0002"

definition QTDIR :: byte where "QTDIR = 0x80"

definition QTMOUNT :: byte where "QTMOUNT = 0x10"

definition DMDIR :: u32 where "DMDIR = 0x80000000"

definition DMMOUNT :: u32 where "DMMOUNT = 0x10000000"

definition Enotdir :: string where "Enotdir = ''not a directory''"

definition Enonexist :: string where "Enonexist = ''file does not exist''"

definition Eperm :: string where "Eperm = ''permission denied''"

definition Ebadarg :: string where "Ebadarg = ''bad arg in system call''"

definition Eshort :: string where "Eshort = ''i/o count too small''"

section \<open>Operations\<close>

definition mkqid :: "u64 \<Rightarrow> u32 \<Rightarrow> byte \<Rightarrow> Qid" where
  "mkqid path vers type = \<lparr>qtype = type, qvers = vers, qpath = path\<rparr>"

definition devdir :: "Env \<Rightarrow> Chan \<Rightarrow> Qid \<Rightarrow> byte list \<Rightarrow> u64 \<Rightarrow> byte list \<Rightarrow> u32 \<Rightarrow> entry" where
  "devdir env c q n l user prm =
     (let q = (if hasf (cflag c) CMSG then q\<lparr>qtype := setf (qtype q) QTMOUNT\<rparr> else q) in
      \<lparr>dtype = (case cdc c of Some dc \<Rightarrow> ucast dc | None \<Rightarrow> -1), ddev = cdevno c, dqid = q,
       dmode = prm OR push_bit 24 (ucast (qtype q)), datime = secs env, dmtime = kerndate env,
       dlength = l, dname = Some n, duid = Some user, dgid = Some (eve env), dmuid = Some user\<rparr>)"

definition devent :: "Env \<Rightarrow> Chan \<Rightarrow> Dirtab \<Rightarrow> entry" where
  "devent env c t = devdir env c (tqid t) (tname t) (tlength t) (eve env) (tperm t)"

definition devgen :: "Env \<Rightarrow> gener" where
  "devgen env c n tab i =
     (case tab of
        None \<Rightarrow> Gend
      | Some (dot, ts) \<Rightarrow>
          (case i of
             DEVDOTDOT \<Rightarrow> Gent (devent env c dot)
           | Index i \<Rightarrow>
               (case n of
                  Some n \<Rightarrow>
                    (case find (\<lambda>t. tname t = n) ts of
                       None \<Rightarrow> Gend
                     | Some t \<Rightarrow> Gent (devent env c t))
                | None \<Rightarrow> if i + 1 \<ge> length (dot # ts) then Gend else Gent (devent env c ((dot # ts) ! (i + 1))))))"

definition newchan :: Chan where
  "newchan = \<lparr>cflag = 0, cmode = 0, coffset = 0, cqid = mkqid 0 0 0, ciounit = 0, cdri = 0, cdc = None,
     cdevno = 0, cpath = None\<rparr>"

definition devattach :: "u32 \<Rightarrow> byte list option \<Rightarrow> Chan" where
  "devattach dc spec =
     newchan\<lparr>cqid := mkqid 0 0 QTDIR, cdc := Some dc,
       cpath := Some ([0x23] @ runetochar dc @ (case spec of None \<Rightarrow> [] | Some s \<Rightarrow> s))\<rparr>"

definition devclone :: "Chan \<Rightarrow> (Chan, unit) res" where
  "devclone c =
     (if hasf (cflag c) COPEN then Panic ''devclone: file already open''
      else Ret (newchan\<lparr>cdevno := cdevno c, cmode := cmode c, cqid := cqid c, coffset := coffset c\<rparr>) ())"

text \<open>The loops that ask a generator for one entry after the other until one is accepted.\<close>

partial_function (option) gen_find :: "(nat \<Rightarrow> gres) \<Rightarrow> (entry \<Rightarrow> bool) \<Rightarrow> nat \<Rightarrow> entry option option" where
  "gen_find g acc i =
     (case g i of
        Gend \<Rightarrow> Some None
      | Gskip \<Rightarrow> gen_find g acc (i + 1)
      | Gent d \<Rightarrow> if acc d then Some (Some d) else gen_find g acc (i + 1))"

text \<open>The loop of \<^verbatim>\<open>devwalk\<close> over the names: the state is \<^verbatim>\<open>up->errstr\<close> and the channel \<^verbatim>\<open>nc\<close>, the
  result the qids walked. \<open>isdev\<close> is the test \<^verbatim>\<open>gen==devgen\<close>.\<close>

fun walk_loop ::
  "gener \<Rightarrow> bool \<Rightarrow> tabl option \<Rightarrow> nat \<Rightarrow> byte list list \<Rightarrow> Qid list \<Rightarrow> string \<times> Chan \<Rightarrow>
     (Qid list, string \<times> Chan) res option" where
  "walk_loop gen isdev tab j [] qs (es, nc) = Some (Ret qs (es, nc))"
| "walk_loop gen isdev tab j (n # ns) qs (es, nc) =
     (let notfound = Some (if j = 0 then Err Enonexist (es, nc) else Ret qs (Enonexist, nc));
          accept = (\<lambda>nc. walk_loop gen isdev tab (Suc j) ns (qs @ [cqid nc]) (es, nc)) in
      if \<not> hasf (qtype (cqid nc)) QTDIR
      then Some (if j = 0 then Err Enotdir (es, nc) else Ret qs (es, nc))
      else if n = [0x2e] then accept nc
      else if n = [0x2e, 0x2e] then
        (case gen nc None tab DEVDOTDOT of
           Gent d \<Rightarrow> accept (nc\<lparr>cqid := dqid d\<rparr>)
         | _ \<Rightarrow> Some (Err ''broken devgen'' (es, nc)))
      else
        (case (if isdev then map_option (\<lambda>(dot, ts). qpath (cqid nc) \<noteq> qpath (tqid dot)) tab else Some False) of
           None \<Rightarrow> Some Fault
         | Some True \<Rightarrow> notfound
         | Some False \<Rightarrow>
             (case gen_find (\<lambda>i. gen nc (Some n) tab (Index i)) (\<lambda>d. dname d = Some n) 0 of
                None \<Rightarrow> None
              | Some None \<Rightarrow> notfound
              | Some (Some d) \<Rightarrow> accept (nc\<lparr>cqid := dqid d\<rparr>))))"

record Walkqid =
  wclone :: "Chan option"
  wqids :: "Qid list"

text \<open>The argument \<^verbatim>\<open>nc\<close>: nil, the channel \<^verbatim>\<open>c\<close> itself, or another.\<close>

datatype ncarg = Nilchan | Samechan | Other Chan

definition devwalk ::
  "gener \<Rightarrow> bool \<Rightarrow> Chan \<Rightarrow> ncarg \<Rightarrow> byte list list \<Rightarrow> tabl option \<Rightarrow> string \<Rightarrow>
     (Walkqid option, string \<times> Chan) res option" where
  "devwalk gen isdev c nc names tab es =
     (if names \<noteq> [] \<and> \<not> hasf (qtype (cqid c)) QTDIR then Some (Err Enotdir (es, c))
      else case (case nc of Nilchan \<Rightarrow> devclone c | Samechan \<Rightarrow> Ret c () | Other nc \<Rightarrow> Ret nc ()) of
        Ret nc _ \<Rightarrow>
          (case walk_loop gen isdev tab 0 names [] (es, nc) of
             None \<Rightarrow> None
           | Some (Ret qs (es, nc)) \<Rightarrow>
               if length qs < length names
               then Some (Ret (Some \<lparr>wclone = None, wqids = qs\<rparr>) (es, nc))
               else let nc = nc\<lparr>cdc := cdc c\<rparr> in Some (Ret (Some \<lparr>wclone = Some nc, wqids = qs\<rparr>) (es, nc))
           | Some (Err e (es, nc)) \<Rightarrow> Some (Ret None (e, nc))
           | Some _ \<Rightarrow> Some Fault)
      | Panic e \<Rightarrow> Some (Panic e)
      | _ \<Rightarrow> Some Fault)"

text \<open>The last element of a path.\<close>

fun lastelem :: "byte list \<Rightarrow> byte list \<Rightarrow> byte list" where
  "lastelem el [] = el"
| "lastelem el (ch # p) = lastelem (if ch = 0x2f then p else el) p"

definition statelem :: "byte list option \<Rightarrow> byte list" where
  "statelem p =
     (case p of
        None \<Rightarrow> [0x3f, 0x3f, 0x3f]
      | Some s \<Rightarrow> if s = [0x2f] then s else lastelem s s)"

definition statout :: "string \<Rightarrow> nat \<Rightarrow> entry \<Rightarrow> byte list \<Rightarrow> (nat, byte list) res" where
  "statout e least d bf = bindR (convD2M d bf) (\<lambda>n bf. if n < least then Err e bf else Ret n bf)"

definition devstat :: "Env \<Rightarrow> gener \<Rightarrow> Chan \<Rightarrow> byte list \<Rightarrow> tabl option \<Rightarrow> (nat, byte list) res option" where
  "devstat env gen c bf tab =
     (case gen_find (\<lambda>i. gen c None tab (Index i)) (\<lambda>d. qpath (cqid c) = qpath (dqid d)) 0 of
        None \<Rightarrow> None
      | Some None \<Rightarrow>
          Some (if hasf (qtype (cqid c)) QTDIR
                then statout Ebadarg 1 (devdir env c (cqid c) (statelem (cpath c)) 0 (eve env) (DMDIR OR 0x16d)) bf
                else Err Enonexist bf)
      | Some (Some d) \<Rightarrow>
          Some (statout Ebadarg 1 (if hasf (cflag c) CMSG then d\<lparr>dmode := dmode d OR DMMOUNT\<rparr> else d) bf))"

text \<open>\<^verbatim>\<open>devdirread\<close>: \<open>m\<close> bytes of the buffer are filled.\<close>

partial_function (option) dirread_loop ::
  "gener \<Rightarrow> tabl option \<Rightarrow> nat \<Rightarrow> Chan \<Rightarrow> byte list \<Rightarrow> (nat, Chan \<times> byte list) res option" where
  "dirread_loop gen tab m c bf =
     (if m < length bf then
        (case gen c None tab (Index (cdri c)) of
           Gend \<Rightarrow> Some (Ret m (c, bf))
         | Gskip \<Rightarrow> dirread_loop gen tab m (c\<lparr>cdri := cdri c + 1\<rparr>) bf
         | Gent d \<Rightarrow>
             (case convD2M d (drop m bf) of
                Ret dsz out \<Rightarrow>
                  if dsz \<le> 2 then
                    Some (if m = 0 then Err Eshort (c, take m bf @ out) else Ret m (c, take m bf @ out))
                  else dirread_loop gen tab (m + dsz) (c\<lparr>cdri := cdri c + 1\<rparr>) (take m bf @ out)
              | _ \<Rightarrow> Some Fault))
      else Some (Ret m (c, bf)))"

definition devdirread :: "gener \<Rightarrow> Chan \<Rightarrow> byte list \<Rightarrow> tabl option \<Rightarrow> (nat, Chan \<times> byte list) res option" where
  "devdirread gen c bf tab = dirread_loop gen tab 0 c bf"

text \<open>The permission bits shifted left by 0, 3 or 6; \<open>None\<close> is \<^verbatim>\<open>error(Eperm)\<close>.\<close>

definition access :: "nat \<Rightarrow> u32" where
  "access i = [0x100, 0x80, 0x180, 0x40] ! i"

definition devpermcheck :: "Env \<Rightarrow> byte list \<Rightarrow> u32 \<Rightarrow> u32 \<Rightarrow> bool" where
  "devpermcheck env fileuid prm omode =
     (let prm = (if upuser env = fileuid then prm
                 else if upuser env = eve env then push_bit 3 prm else push_bit 6 prm);
          t = access (unat (omode AND 3))
      in t AND prm = t)"

text \<open>\<^verbatim>\<open>openmode\<close> of \<^verbatim>\<open>sysfile.c\<close> compares signed integers; \<open>None\<close> is \<^verbatim>\<open>error(Ebadarg)\<close>.\<close>

definition openmode :: "u32 \<Rightarrow> u32 option" where
  "openmode omode =
     (let omode = omode AND NOT (16 OR 32 OR 64) in
      if sint omode > 3 then None else if omode = 3 then Some 0 else Some omode)"

definition devopen :: "Env \<Rightarrow> gener \<Rightarrow> Chan \<Rightarrow> u32 \<Rightarrow> tabl option \<Rightarrow> (unit, Chan) res option" where
  "devopen env gen c omode tab =
     (case gen_find (\<lambda>i. gen c None tab (Index i)) (\<lambda>d. qpath (cqid c) = qpath (dqid d)) 0 of
        None \<Rightarrow> None
      | Some r \<Rightarrow> Some (
          case (case r of
                  None \<Rightarrow> Some True
                | Some d \<Rightarrow> map_option (\<lambda>u. devpermcheck env u (dmode d) omode) (duid d)) of
            None \<Rightarrow> Fault
          | Some False \<Rightarrow> Err Eperm c
          | Some True \<Rightarrow>
              let c = c\<lparr>coffset := 0\<rparr> in
              if hasf (qtype (cqid c)) QTDIR \<and> omode \<noteq> 0 then Err Eperm c
              else case openmode omode of
                None \<Rightarrow> Err Ebadarg c
              | Some m \<Rightarrow> Ret () (c\<lparr>cmode := ucast m, cflag := setf (cflag c) COPEN\<rparr>)))"

text \<open>\<^verbatim>\<open>waserror()\<close> around an operation on a block: an error frees the block and goes on.\<close>

fun guarded :: "Block \<Rightarrow> ('a, 's \<times> Kern) res \<Rightarrow> ('a, 's \<times> Kern) res" where
  "guarded b (Err e (s, w)) = (case freeb b w of Ret _ w \<Rightarrow> Err e (s, w) | Panic m \<Rightarrow> Panic m | _ \<Rightarrow> Fault)"
| "guarded b r = r"

text \<open>\<open>rdf\<close> and \<open>wrf\<close> are the routines of the device, \<open>'s\<close> its state. A read is given the memory behind \<^verbatim>\<open>wp\<close>
  and returns the bytes it has stored there; it may fail to end when it reads a directory.\<close>

definition devbread ::
  "(byte list \<Rightarrow> 's \<times> Kern \<Rightarrow> (byte list, 's \<times> Kern) res option) \<Rightarrow> nat \<Rightarrow> 's \<times> Kern \<Rightarrow>
     (Block, 's \<times> Kern) res option" where
  "devbread rdf n s =
     (case allocb n (snd s) of
        Ret b w \<Rightarrow>
          map_option (\<lambda>r. bindR (guarded b r) (\<lambda>xs s. bfill b xs s))
            (rdf (take n (drop (wp b) (buf b))) (fst s, w))
      | Panic e \<Rightarrow> Some (Panic e)
      | _ \<Rightarrow> Some Fault)"

definition devbwrite ::
  "(byte list \<Rightarrow> 's \<times> Kern \<Rightarrow> (int, 's \<times> Kern) res) \<Rightarrow> Block \<Rightarrow> 's \<times> Kern \<Rightarrow> (int, 's \<times> Kern) res" where
  "devbwrite wrf b s =
     bindR (guarded b (wrf (bdata b) s)) (\<lambda>n s.
     case freeb b (snd s) of Ret _ w \<Rightarrow> Ret n (fst s, w) | Panic e \<Rightarrow> Panic e | _ \<Rightarrow> Fault)"

section \<open>Generators that list a table\<close>

lemma gen_find_list:
  assumes "\<forall>i. g i = (if i < length ds then Gent (ds ! i) else Gend)"
  shows "gen_find g acc i = Some (find acc (drop i ds))"
proof (induction "length ds - i" arbitrary: i)
  case 0
  with assms show ?case by (subst gen_find.simps) simp
next
  case (Suc k)
  then have i: "i < length ds" and k: "k = length ds - (i + 1)" by simp_all
  have "drop i ds = ds ! i # drop (i + 1) ds" using i by (simp add: Cons_nth_drop_Suc)
  with Suc.hyps(1) [OF k] i assms show ?case by (subst gen_find.simps) simp
qed

text \<open>Reading a directory through a sequence of buffers: all that was returned, and the channel at
  the end; \<open>None\<close> when a read fails.\<close>

fun dirreads :: "gener \<Rightarrow> tabl option \<Rightarrow> Chan \<Rightarrow> byte list list \<Rightarrow> (byte list \<times> Chan) option" where
  "dirreads gen tab c [] = Some ([], c)"
| "dirreads gen tab c (bf # bfs) =
     (case devdirread gen c bf tab of
        Some (Ret n (c', bf')) \<Rightarrow> map_option (\<lambda>(xs, c). (take n bf' @ xs, c)) (dirreads gen tab c' bfs)
      | _ \<Rightarrow> None)"

definition entbytes :: "entry list \<Rightarrow> byte list" where
  "entbytes ds = concat (map estat ds)"

lemma entbytes_simps [simp]: "entbytes [] = []" "entbytes (d # ds) = estat d @ entbytes ds"
  "entbytes (ds @ es) = entbytes ds @ entbytes es"
  by (simp_all add: entbytes_def)

lemma estat_big: "2 < length (estat d)"
  by (simp add: length_estat STATFIXLEN_49)

text \<open>\<open>k\<close> entries from number \<open>i\<close> on have been stored in the buffer behind the first \<open>m\<close> bytes, and there is
  no room for the next.\<close>

definition filled :: "entry list \<Rightarrow> nat \<Rightarrow> nat \<Rightarrow> byte list \<Rightarrow> nat \<Rightarrow> byte list \<Rightarrow> bool" where
  "filled ds i m bf k bf' \<longleftrightarrow>
     (let out = entbytes (take k (drop i ds)) in
      length bf' = length bf \<and> (k = 0 \<or> i + k \<le> length ds) \<and> take (m + length out) bf' = take m bf @ out \<and>
      m + length out \<le> length bf \<and>
      (i + k < length ds \<longrightarrow> length bf < m + length out + length (estat (ds ! (i + k)))))"

lemma filled_Suc:
  assumes "i < length ds" "length bf1 = length bf"
    "take (m + length (estat (ds ! i))) bf1 = take m bf @ estat (ds ! i)"
    "filled ds (i + 1) (m + length (estat (ds ! i))) bf1 k bf'"
  shows "filled ds i m bf (Suc k) bf'"
proof -
  have "take (Suc k) (drop i ds) = ds ! i # take k (drop (i + 1) ds)"
    using assms(1) by (simp add: Cons_nth_drop_Suc [symmetric])
  with assms show ?thesis by (auto simp: filled_def Let_def add.assoc)
qed

locale table =
  fixes gen :: gener and tab :: "tabl option" and ents :: "Chan \<Rightarrow> entry list"
  assumes list_law: "gen c None tab (Index i) = (if i < length (ents c) then Gent (ents c ! i) else Gend)"
    and name_law: "gen_find (\<lambda>i. gen c (Some n) tab (Index i)) (\<lambda>d. dname d = Some n) 0 =
      Some (find (\<lambda>d. dname d = Some n) (ents c))"
    and ents_dri: "ents (c\<lparr>cdri := k\<rparr>) = ents c"
begin

lemma find_entry: "gen_find (\<lambda>i. gen c None tab (Index i)) acc 0 = Some (find acc (ents c))"
  using gen_find_list [of "\<lambda>i. gen c None tab (Index i)" "ents c" acc 0] list_law by simp

text \<open>One read returns a run of whole entries from the one the channel is at; it stops at the end of
  the table or at an entry there is no room for, and fails when that is the first.\<close>

lemma dirread_loop_ok:
  assumes "m \<le> length bf"
  shows "\<exists>k bf'. filled (ents c) (cdri c) m bf k bf' \<and>
     dirread_loop gen tab m c bf =
       Some (if m = 0 \<and> k = 0 \<and> cdri c < length (ents c) \<and> bf \<noteq> [] then Err Eshort (c, bf')
             else Ret (m + length (entbytes (take k (drop (cdri c) (ents c))))) (c\<lparr>cdri := cdri c + k\<rparr>, bf'))"
  using assms
proof (induction "length bf - m" arbitrary: m c bf rule: less_induct)
  case less
  let ?n = "length (ents c)" and ?d = "ents c ! cdri c" and ?rest = "drop m bf"
  consider "m = length bf \<or> \<not> cdri c < ?n" | "m < length bf" "cdri c < ?n" "\<not> length (estat ?d) \<le> length ?rest"
    | "m < length bf" "cdri c < ?n" "length (estat ?d) \<le> length ?rest"
    using less.prems by linarith
  then show ?case
  proof cases
    case 1
    then have "dirread_loop gen tab m c bf = Some (Ret m (c, bf))"
      using list_law by (subst dirread_loop.simps) auto
    moreover have "filled (ents c) (cdri c) m bf 0 bf"
      using 1 less.prems estat_big [of ?d] by (auto simp: filled_def)
    ultimately show ?thesis using 1 by (intro exI [of _ 0] exI [of _ bf]) auto
  next
    case 2
    define out where "out = (if length ?rest < 2 then ?rest else overwrite 0 (le16 (of_nat (length (edir ?d)))) ?rest)"
    have o: "convD2M ?d ?rest = Ret (if length ?rest < 2 then 0 else 2) out" "length out = length ?rest"
      using 2 convD2M_eq [of ?d ?rest] by (simp_all add: out_def)
    let ?bf = "take m bf @ out"
    have "dirread_loop gen tab m c bf = Some (if m = 0 then Err Eshort (c, ?bf) else Ret m (c, ?bf))"
      using 2 list_law o by (subst dirread_loop.simps) auto
    moreover have "filled (ents c) (cdri c) m bf 0 ?bf"
      using 2 o(2) by (auto simp: filled_def)
    ultimately show ?thesis using 2 by (intro exI [of _ 0] exI [of _ ?bf]) auto
  next
    case 3
    let ?bf = "take m bf @ overwrite 0 (estat ?d) ?rest" and ?m = "m + length (estat ?d)"
      and ?c = "c\<lparr>cdri := cdri c + 1\<rparr>"
    have D: "convD2M ?d ?rest = Ret (length (estat ?d)) (overwrite 0 (estat ?d) ?rest)"
      using 3 estat_big [of ?d] convD2M_eq [of ?d ?rest] by auto
    have len: "length ?bf = length bf" "?m \<le> length ?bf" "length ?bf - ?m < length bf - m"
      using 3 estat_big [of ?d] by auto
    have eq: "dirread_loop gen tab m c bf = dirread_loop gen tab ?m ?c ?bf"
      using 3 list_law D estat_big [of ?d] by (subst dirread_loop.simps) auto
    obtain k bf' where k: "filled (ents c) (cdri c + 1) ?m ?bf k bf'"
      "dirread_loop gen tab ?m ?c ?bf =
         Some (Ret (?m + length (entbytes (take k (drop (cdri c + 1) (ents c))))) (c\<lparr>cdri := cdri c + 1 + k\<rparr>, bf'))"
    proof -
      from less.hyps [OF len(3,2), of ?c] obtain k bf' where
        "filled (ents ?c) (cdri ?c) ?m ?bf k bf'"
        "dirread_loop gen tab ?m ?c ?bf =
           Some (if ?m = 0 \<and> k = 0 \<and> cdri ?c < length (ents ?c) \<and> ?bf \<noteq> [] then Err Eshort (?c, bf')
             else Ret (?m + length (entbytes (take k (drop (cdri ?c) (ents ?c))))) (?c\<lparr>cdri := cdri ?c + k\<rparr>, bf'))"
        by blast
      moreover have "?m \<noteq> 0" using estat_big [of ?d] by linarith
      ultimately show ?thesis using that by (simp only: ents_dri) simp
    qed
    have "take ?m ?bf = take m bf @ estat ?d" using 3 by (simp add: overwrite_def)
    from filled_Suc [OF 3(2) len(1) this k(1)]
    have "filled (ents c) (cdri c) m bf (Suc k) bf'" .
    moreover have "take (Suc k) (drop (cdri c) (ents c)) = ?d # take k (drop (cdri c + 1) (ents c))"
      using 3 by (simp add: Cons_nth_drop_Suc [symmetric])
    ultimately show ?thesis
      using k(2) eq by (intro exI [of _ "Suc k"] exI [of _ bf']) (auto simp: add.assoc)
  qed
qed

text \<open>Buffers with room for any entry: the reads do not fail, they return the entries in order, each
  of them whole and once, and as many reads as there are entries left reach the end.\<close>

lemma dirreads_ok:
  assumes "\<forall>bf \<in> set bfs. \<forall>d \<in> set (ents c). length (estat d) \<le> length bf" "cdri c \<le> length (ents c)"
  shows "\<exists>k. dirreads gen tab c bfs = Some (entbytes (take k (drop (cdri c) (ents c))), c\<lparr>cdri := cdri c + k\<rparr>) \<and>
     cdri c + k \<le> length (ents c) \<and> (length (ents c) - cdri c \<le> length bfs \<longrightarrow> cdri c + k = length (ents c))"
  using assms
proof (induction bfs arbitrary: c)
  case Nil
  then show ?case by (intro exI [of _ 0]) simp
next
  case (Cons bf bfs)
  let ?i = "cdri c" and ?ds = "ents c"
  obtain k bf' where k: "filled ?ds ?i 0 bf k bf'"
    "devdirread gen c bf tab = Some (if k = 0 \<and> ?i < length ?ds \<and> bf \<noteq> [] then Err Eshort (c, bf')
       else Ret (length (entbytes (take k (drop ?i ?ds)))) (c\<lparr>cdri := ?i + k\<rparr>, bf'))"
    using dirread_loop_ok [of 0 bf c] by (auto simp: devdirread_def)
  have room: "?i + k < length ?ds \<Longrightarrow> length (estat (?ds ! (?i + k))) \<le> length bf"
    using Cons.prems(1) by simp
  then have k0: "?i < length ?ds \<Longrightarrow> 0 < k"
    using k(1) by (cases k) (auto simp: filled_def)
  have le: "?i + k \<le> length ?ds" using k(1) Cons.prems(2) by (auto simp: filled_def Let_def)
  have tk: "take (length (entbytes (take k (drop ?i ?ds)))) bf' = entbytes (take k (drop ?i ?ds))"
    using k(1) by (simp add: filled_def Let_def)
  have r: "devdirread gen c bf tab = Some (Ret (length (entbytes (take k (drop ?i ?ds)))) (c\<lparr>cdri := ?i + k\<rparr>, bf'))"
    using k(2) k0 by auto
  obtain l where l: "dirreads gen tab (c\<lparr>cdri := ?i + k\<rparr>) bfs =
      Some (entbytes (take l (drop (?i + k) ?ds)), c\<lparr>cdri := ?i + k + l\<rparr>)"
      "?i + k + l \<le> length ?ds" "length ?ds - (?i + k) \<le> length bfs \<longrightarrow> ?i + k + l = length ?ds"
    using Cons.IH [of "c\<lparr>cdri := ?i + k\<rparr>"] Cons.prems(1) le ents_dri by auto
  have "take (k + l) (drop ?i ?ds) = take k (drop ?i ?ds) @ take l (drop (?i + k) ?ds)"
    by (simp add: take_add add.commute)
  with r l tk have "dirreads gen tab c (bf # bfs) =
      Some (entbytes (take (k + l) (drop ?i ?ds)), c\<lparr>cdri := ?i + (k + l)\<rparr>)"
    by (simp add: add.assoc)
  moreover have "length ?ds - ?i \<le> length (bf # bfs) \<longrightarrow> ?i + (k + l) = length ?ds"
    using l k0 le by (cases "?i < length ?ds") (auto simp: add.assoc)
  ultimately show ?case using l(2) by (intro exI [of _ "k + l"]) (simp add: add.assoc)
qed

text \<open>A walk by one name.\<close>

lemma walk_name:
  assumes "hasf (qtype (cqid nc)) QTDIR" "n \<noteq> [0x2e]" "n \<noteq> [0x2e, 0x2e]"
  shows "walk_loop gen False tab j (n # ns) qs (es, nc) =
    (case find (\<lambda>d. dname d = Some n) (ents nc) of
       None \<Rightarrow> Some (if j = 0 then Err Enonexist (es, nc) else Ret qs (Enonexist, nc))
     | Some d \<Rightarrow> walk_loop gen False tab (Suc j) ns (qs @ [dqid d]) (es, nc\<lparr>cqid := dqid d\<rparr>))"
  using assms name_law by (auto simp: Let_def split: option.splits)

end

section \<open>Generators that make up a tree\<close>

text \<open>What a walk does, abstractly: follow the names as far as they lead.\<close>

fun steps :: "(Qid \<Rightarrow> byte list \<Rightarrow> Qid option) \<Rightarrow> Qid \<Rightarrow> byte list list \<Rightarrow> Qid list" where
  "steps f q [] = []"
| "steps f q (n # ns) = (case f q n of None \<Rightarrow> [] | Some q' \<Rightarrow> q' # steps f q' ns)"

lemma steps_length: "length (steps f q ns) \<le> length ns"
  by (induction ns arbitrary: q) (auto split: option.split)

definition walkable :: "bool \<Rightarrow> tabl option \<Rightarrow> Qid \<Rightarrow> bool" where
  "walkable isdev tab q \<longleftrightarrow> isdev \<longrightarrow> (case tab of None \<Rightarrow> False | Some (dot, ts) \<Rightarrow> qpath q = qpath (tqid dot))"

text \<open>One name, for a generator that lists \<open>ents\<close> and whose directories have the parents \<open>parent\<close>.\<close>

definition onestep ::
  "bool \<Rightarrow> tabl option \<Rightarrow> (Chan \<Rightarrow> entry list) \<Rightarrow> (Chan \<Rightarrow> Qid) \<Rightarrow> Chan \<Rightarrow> Qid \<Rightarrow> byte list \<Rightarrow> Qid option" where
  "onestep isdev tab ents parent c q n =
     (let c = c\<lparr>cqid := q\<rparr> in
      if \<not> hasf (qtype q) QTDIR then None
      else if n = [0x2e] then Some q
      else if n = [0x2e, 0x2e] then Some (parent c)
      else if \<not> walkable isdev tab q then None
      else map_option dqid (find (\<lambda>d. dname d = Some n) (ents c)))"

locale tree = table +
  fixes isdev :: bool and parent :: "Chan \<Rightarrow> Qid"
  assumes dotdot_law: "\<exists>d. gen c None tab DEVDOTDOT = Gent d \<and> dqid d = parent c"
    and isdev_tab: "isdev \<Longrightarrow> tab \<noteq> None"
begin

lemma walk_loop_step:
  "walk_loop gen isdev tab j (n # ns) qs (es, nc) =
     (case onestep isdev tab ents parent nc (cqid nc) n of
        Some q \<Rightarrow> walk_loop gen isdev tab (Suc j) ns (qs @ [q]) (es, nc\<lparr>cqid := q\<rparr>)
      | None \<Rightarrow>
          let e = (if hasf (qtype (cqid nc)) QTDIR then Enonexist else Enotdir) in
          Some (if j = 0 then Err e (es, nc)
                else Ret qs (if hasf (qtype (cqid nc)) QTDIR then Enonexist else es, nc)))"
proof -
  obtain d where d: "gen nc None tab DEVDOTDOT = Gent d" "dqid d = parent nc" using dotdot_law by blast
  show ?thesis
    using d isdev_tab name_law [of nc n]
    by (auto simp: onestep_def walkable_def Let_def split: option.splits)
qed

lemma onestep_cqid [simp]: "onestep isdev tab ents parent (c\<lparr>cqid := q\<rparr>) = onestep isdev tab ents parent c"
  by (auto simp: onestep_def Let_def intro!: ext)

lemma walk_loop_ok:
  "\<exists>e es'. walk_loop gen isdev tab j ns qs (es, nc) =
     Some (let ws = steps (onestep isdev tab ents parent nc) (cqid nc) ns in
       if j = 0 \<and> ns \<noteq> [] \<and> ws = [] then Err e (es, nc)
       else Ret (qs @ ws) (es', nc\<lparr>cqid := last (cqid nc # ws)\<rparr>))"
proof (induction ns arbitrary: j qs nc)
  case (Cons n ns)
  show ?case
  proof (cases "onestep isdev tab ents parent nc (cqid nc) n")
    case None
    then show ?thesis unfolding walk_loop_step by (auto simp: Let_def)
  next
    case (Some q)
    from Cons.IH [of "Suc j" "qs @ [q]" "nc\<lparr>cqid := q\<rparr>"] show ?thesis
      unfolding walk_loop_step using Some by (auto simp: Let_def)
  qed
qed (simp add: Let_def)

text \<open>A walk from a directory that is not open: it fails when not even the first name leads anywhere,
  returns the qids on the way otherwise, and makes a new channel when all names were followed.\<close>

lemma devwalk_ok:
  assumes "hasf (qtype (cqid c)) QTDIR" "\<not> hasf (cflag c) COPEN"
  shows "\<exists>es' nc. devwalk gen isdev c Nilchan names tab es =
     Some (let ws = steps (onestep isdev tab ents parent (newchan\<lparr>cdevno := cdevno c, cmode := cmode c, coffset := coffset c\<rparr>)) (cqid c) names in
       Ret (if names \<noteq> [] \<and> ws = [] then None
            else Some \<lparr>wclone = (if length ws < length names then None
                                 else Some (newchan\<lparr>cdevno := cdevno c, cmode := cmode c, coffset := coffset c,
                                   cqid := last (cqid c # ws), cdc := cdc c\<rparr>)), wqids = ws\<rparr>) (es', nc))"
proof -
  let ?nc = "newchan\<lparr>cdevno := cdevno c, cmode := cmode c, cqid := cqid c, coffset := coffset c\<rparr>"
  have "onestep isdev tab ents parent ?nc = onestep isdev tab ents parent (newchan\<lparr>cdevno := cdevno c, cmode := cmode c, coffset := coffset c\<rparr>)"
    by (simp add: onestep_def fun_eq_iff newchan_def)
  with walk_loop_ok [of 0 names "[]" es ?nc] assms show ?thesis
    by (auto simp: devwalk_def devclone_def Let_def newchan_def)
qed

end

section \<open>The generator of tables, devgen\<close>

lemma devdir_simps [simp]:
  "dname (devdir env c q n l u prm) = Some n" "duid (devdir env c q n l u prm) = Some u"
  "dgid (devdir env c q n l u prm) = Some (eve env)" "dmuid (devdir env c q n l u prm) = Some u"
  "qpath (dqid (devdir env c q n l u prm)) = qpath q" "dlength (devdir env c q n l u prm) = l"
  by (simp_all add: devdir_def Let_def)

lemma devent_simps [simp]:
  "dname (devent env c t) = Some (tname t)" "duid (devent env c t) = Some (eve env)"
  "dgid (devent env c t) = Some (eve env)" "dmuid (devent env c t) = Some (eve env)"
  "qpath (dqid (devent env c t)) = qpath (tqid t)"
  by (simp_all add: devent_def)

lemma find_devent: "find (\<lambda>d. dname d = Some n) (map (devent env c) ts) =
    map_option (devent env c) (find (\<lambda>t. tname t = n) ts)"
  by (induction ts) auto

lemma devent_dri [simp]: "devent env (c\<lparr>cdri := k\<rparr>) = devent env c"
  by (rule ext) (simp add: devent_def devdir_def)

interpretation dg: tree "devgen env" "Some (dot, ts)" "\<lambda>c. map (devent env c) ts" True
  "\<lambda>c. dqid (devent env c dot)" for env dot ts
proof
  show "gen_find (\<lambda>i. devgen env c (Some n) (Some (dot, ts)) (Index i)) (\<lambda>d. dname d = Some n) 0 =
    Some (find (\<lambda>d. dname d = Some n) (map (devent env c) ts))" for c n
    by (subst gen_find.simps)
      (auto simp: devgen_def find_devent split: option.splits dest!: find_Some_iff [THEN iffD1])
qed (auto simp: devgen_def)

section \<open>Properties\<close>

text \<open>C30. Reading the directory of a device with a table, from the start and with buffers that have room
  for any entry: whatever the sizes of the buffers, the reads return the encoded entries of the
  table in order, each of them whole and exactly once, and with one read per entry there is
  nothing left.\<close>

theorem devdirread_complete:
  assumes "cdri c = 0" "\<forall>bf \<in> set bfs. \<forall>t \<in> set ts. length (estat (devent env c t)) \<le> length bf"
  shows "\<exists>k. dirreads (devgen env) (Some (dot, ts)) c bfs =
      Some (concat (map (\<lambda>t. estat (devent env c t)) (take k ts)), c\<lparr>cdri := k\<rparr>) \<and> k \<le> length ts \<and>
      (length ts \<le> length bfs \<longrightarrow> k = length ts)"
proof -
  have "\<forall>bf \<in> set bfs. \<forall>d \<in> set (map (devent env c) ts). length (estat d) \<le> length bf" using assms(2) by simp
  from dg.dirreads_ok [OF this, of dot] assms(1) show ?thesis
    by (simp add: entbytes_def take_map comp_def)
qed

definition env_ex :: Env where
  "env_ex = \<lparr>eve = [0x67], upuser = [0x67], secs = 5, kerndate = 6\<rparr>"

definition tab_ex :: tabl where
  "tab_ex = (\<lparr>tname = [0x2e], tqid = mkqid 0 0 QTDIR, tlength = 0, tperm = 0x800001ed\<rparr>,
     [\<lparr>tname = [0x61], tqid = mkqid 1 0 0, tlength = 0, tperm = 0x124\<rparr>,
      \<lparr>tname = [0x62], tqid = mkqid 2 0 0, tlength = 0, tperm = 0x180\<rparr>])"

theorem devdirread_complete_witness:
  "\<exists>xs. dirreads (devgen env_ex) (Some tab_ex) (devattach 0x7c None) [replicate 60 0, replicate 70 0] =
     Some (xs, (devattach 0x7c None)\<lparr>cdri := 2\<rparr>)"
proof -
  let ?c = "devattach 0x7c None"
  have "cdri ?c = 0" by (simp add: devattach_def newchan_def)
  moreover have "\<forall>bf \<in> set [replicate 60 0, replicate 70 0 :: byte list]. \<forall>t \<in> set (snd tab_ex).
      length (estat (devent env_ex ?c t)) \<le> length bf"
    by (simp add: tab_ex_def length_estat STATFIXLEN_49 svs_def env_ex_def)
  ultimately have "\<exists>k. dirreads (devgen env_ex) (Some (fst tab_ex, snd tab_ex)) ?c [replicate 60 0, replicate 70 0] =
      Some (concat (map (\<lambda>t. estat (devent env_ex ?c t)) (take k (snd tab_ex))), ?c\<lparr>cdri := k\<rparr>) \<and>
      k \<le> length (snd tab_ex) \<and> (length (snd tab_ex) \<le> length [replicate 60 0, replicate 70 0 :: byte list] \<longrightarrow>
        k = length (snd tab_ex))"
    by (rule devdirread_complete)
  moreover have "length (snd tab_ex) = 2" by (simp add: tab_ex_def)
  ultimately show ?thesis by auto
qed

text \<open>C29. Walking a device with a table, from a directory that is not open, does what following the
  names one by one does: the dots stay or go to the zeroth entry, names are those of the table and lead
  somewhere only from the directory itself. The walk ends on every input; it fails when the first name
  leads nowhere, returns the qids as far as the names lead otherwise, and makes a channel for the last
  of them, in the state of a fresh one, only when all were followed.\<close>

theorem devwalk_follows:
  assumes "hasf (qtype (cqid c)) QTDIR" "\<not> hasf (cflag c) COPEN"
    "ws = steps (onestep True (Some (dot, ts)) (\<lambda>c. map (devent env c) ts) (\<lambda>c. dqid (devent env c dot))
            (newchan\<lparr>cdevno := cdevno c, cmode := cmode c, coffset := coffset c\<rparr>)) (cqid c) names"
  shows "\<exists>es' nc. devwalk (devgen env) True c Nilchan names (Some (dot, ts)) es =
     Some (Ret (if names \<noteq> [] \<and> ws = [] then None
            else Some \<lparr>wclone = (if length ws < length names then None
                                 else Some (newchan\<lparr>cdevno := cdevno c, cmode := cmode c, coffset := coffset c,
                                   cqid := last (cqid c # ws), cdc := cdc c\<rparr>)), wqids = ws\<rparr>) (es', nc))"
  using dg.devwalk_ok [OF assms(1,2)] unfolding Let_def assms(3) .

theorem devwalk_follows_witness:
  "\<exists>es' nc. devwalk (devgen env_ex) True (devattach 0x7c None) Nilchan [[0x2e, 0x2e], [0x62], [0x61]] (Some tab_ex) [] =
     Some (Ret (Some \<lparr>wclone = None, wqids = [mkqid 0 0 QTDIR, mkqid 2 0 0]\<rparr>) (es', nc))"
proof -
  let ?c = "devattach 0x7c None" and ?ns = "[[0x2e, 0x2e], [0x62], [0x61]] :: byte list list"
  have w: "[mkqid 0 0 QTDIR, mkqid 2 0 0] =
    steps (onestep True (Some (fst tab_ex, snd tab_ex)) (\<lambda>c. map (devent env_ex c) (snd tab_ex))
      (\<lambda>c. dqid (devent env_ex c (fst tab_ex)))
            (newchan\<lparr>cdevno := cdevno ?c, cmode := cmode ?c, coffset := coffset ?c\<rparr>)) (cqid ?c) ?ns"
    by code_simp
  have "hasf (qtype (cqid ?c)) QTDIR" "\<not> hasf (cflag ?c) COPEN" by code_simp+
  from devwalk_follows [OF this w, of "[]"] show ?thesis by simp
qed

text \<open>\<^verbatim>\<open>devopen\<close> with a table returns for every mode and channel. It opens the file only when the entry
  of the table with the qid of the channel, if there is one, grants the permission the low bits of the mode
  ask for, a directory only for reading, and only with a mode \<^verbatim>\<open>openmode\<close> knows; otherwise it
  leaves the channel as it was but for its offset.\<close>

theorem devopen_checks:
  "\<exists>r. devopen env (devgen env) c omode (Some (dot, ts)) = Some r \<and>
     (let granted = (case find (\<lambda>d. qpath (cqid c) = qpath (dqid d)) (map (devent env c) ts) of
            None \<Rightarrow> True | Some d \<Rightarrow> devpermcheck env (eve env) (dmode d) omode) in
      if granted \<and> (hasf (qtype (cqid c)) QTDIR \<longrightarrow> omode = 0) \<and> openmode omode \<noteq> None
      then r = Ret () (c\<lparr>coffset := 0, cmode := ucast (the (openmode omode)), cflag := setf (cflag c) COPEN\<rparr>)
      else \<exists>e off. r = Err e (c\<lparr>coffset := off\<rparr>) \<and> (off = coffset c \<or> off = 0))"
proof -
  let ?f = "find (\<lambda>d. qpath (cqid c) = qpath (dqid d)) (map (devent env c) ts)"
  have uid: "?f = Some d \<Longrightarrow> duid d = Some (eve env)" for d
    by (auto simp: find_Some_iff)
  show ?thesis
  proof (cases "\<exists>d. ?f = Some d \<and> \<not> devpermcheck env (eve env) (dmode d) omode")
    case True
    then obtain d where d: "?f = Some d" "\<not> devpermcheck env (eve env) (dmode d) omode" by blast
    then have "devopen env (devgen env) c omode (Some (dot, ts)) = Some (Err Eperm c)"
      unfolding devopen_def dg.find_entry using uid [OF d(1)] by simp
    with d show ?thesis by (auto intro!: exI [of _ "coffset c"])
  next
    case False
    then have "devopen env (devgen env) c omode (Some (dot, ts)) =
      Some (let c = c\<lparr>coffset := 0\<rparr> in
              if hasf (qtype (cqid c)) QTDIR \<and> omode \<noteq> 0 then Err Eperm c
              else case openmode omode of
                None \<Rightarrow> Err Ebadarg c
              | Some m \<Rightarrow> Ret () (c\<lparr>cmode := ucast m, cflag := setf (cflag c) COPEN\<rparr>))"
      unfolding devopen_def dg.find_entry using uid by (auto split: option.split)
    moreover have "(case ?f of None \<Rightarrow> True | Some d \<Rightarrow> devpermcheck env (eve env) (dmode d) omode)"
      using False by (auto split: option.split)
    ultimately show ?thesis
      by (cases "openmode omode") (auto simp: Let_def)
  qed
qed

theorem devopen_checks_witness:
  "\<exists>r. devopen env_ex (devgen env_ex) ((devattach 0x7c None)\<lparr>cqid := mkqid 1 0 0\<rparr>) 1 (Some tab_ex) = Some r \<and>
     (\<exists>e off. r = Err e ((devattach 0x7c None)\<lparr>cqid := mkqid 1 0 0, coffset := off\<rparr>))"
proof -
  let ?c = "(devattach 0x7c None)\<lparr>cqid := mkqid 1 0 0\<rparr>"
  have "\<not> (case find (\<lambda>d. qpath (cqid ?c) = qpath (dqid d)) (map (devent env_ex ?c) (snd tab_ex)) of
            None \<Rightarrow> True | Some d \<Rightarrow> devpermcheck env_ex (eve env_ex) (dmode d) 1)"
    by code_simp
  with devopen_checks [of env_ex ?c 1 "fst tab_ex" "snd tab_ex"] show ?thesis
    by (simp only: Let_def if_False simp_thms prod.collapse) blast
qed

end
