(* ===== verification/Pipes.thy ===== *)
theory Pipes
  imports Queue_Stream Devs
begin

text \<open>
  Pipes, \<^verbatim>\<open>sys/src/9k/port/devpipe.c\<close>: a client of the I/O queues and of the generic device code. A pipe has
  two ends, the files \<^verbatim>\<open>data\<close> and \<^verbatim>\<open>data1\<close>, and two queues; what is written to one end is read at the
  other.

  The arrays \<^verbatim>\<open>q[2]\<close> and \<^verbatim>\<open>qref[2]\<close> are functions on the indices 0 and 1. All channels considered have
  the same \<^verbatim>\<open>aux\<close>, the pipe. Besides the pipe, the state holds the notes posted to the calling
  process and, in \<open>lost\<close>, the blocks that were on a queue when the queue itself was freed. Each handler is
  one step; those that wait do so in the queue operations, which yield \<open>Sleep\<close>. A handler that changes
  its channel returns the channel.
\<close>

section \<open>State\<close>

record Pipe =
  pref :: int
  ppath :: u32
  pperm :: u32
  pq :: "nat \<Rightarrow> Queue"
  pqref :: "nat \<Rightarrow> int"

record PS =
  pp :: Pipe
  posted :: "string list"
  lost :: "Block list"

definition Qdir :: u32 where "Qdir = 0"

definition Qdata0 :: u32 where "Qdata0 = 1"

definition Qdata1 :: u32 where "Qdata1 = 2"

definition PIPEQSIZE :: int where "PIPEQSIZE = 256 * 1024"

text \<open>The macros convert their argument to \<^verbatim>\<open>unsigned\<close>.\<close>

definition PIPETYPE :: "u64 \<Rightarrow> u32" where "PIPETYPE x = ucast x AND 0x1f"

definition PIPEID :: "u64 \<Rightarrow> u32" where "PIPEID x = drop_bit 5 (ucast x)"

definition PIPEQID :: "u32 \<Rightarrow> u32 \<Rightarrow> u64" where "PIPEQID i t = ucast (push_bit 5 i OR t)"

text \<open>\<open>ctype c\<close> is \<^verbatim>\<open>PIPETYPE(c->qid.path)\<close>.\<close>

abbreviation ctype :: "Chan \<Rightarrow> u32" where "ctype c \<equiv> PIPETYPE (qpath (cqid c))"

definition pipedir :: tabl where
  "pipedir =
     (\<lparr>tname = [0x2e], tqid = mkqid (ucast Qdir) 0 QTDIR, tlength = 0, tperm = DMDIR OR 0x140\<rparr>,
      [\<lparr>tname = [0x64, 0x61, 0x74, 0x61], tqid = mkqid (ucast Qdata0) 0 0, tlength = 0, tperm = 0x180\<rparr>,
       \<lparr>tname = [0x64, 0x61, 0x74, 0x61, 0x31], tqid = mkqid (ucast Qdata1) 0 0, tlength = 0, tperm = 0x180\<rparr>])"

definition Eclosedpipe :: string where "Eclosedpipe = ''sys: write on closed pipe''"

definition Eisdir :: string where "Eisdir = ''file is a directory''"

definition Eshortstat :: string where "Eshortstat = ''stat buffer too small''"

text \<open>\<^verbatim>\<open>exhausted()\<close> with \<^verbatim>\<open>memory\<close>.\<close>

definition Enofree :: string where "Enofree = ''no free memory''"

definition sizeof_Pipe :: nat where "sizeof_Pipe = 120"

text \<open>The outcome of an operation on queue \<open>i\<close> of the pipe.\<close>

definition setq :: "nat \<Rightarrow> Queue \<Rightarrow> PS \<Rightarrow> PS" where
  "setq i q s = s\<lparr>pp := (pp s)\<lparr>pq := (pq (pp s))(i := q)\<rparr>\<rparr>"

fun onq :: "nat \<Rightarrow> PS \<Rightarrow> ('a, Queue \<times> Kern) res \<Rightarrow> ('a, PS \<times> Kern) res" where
  "onq i s (Ret a (q, w)) = Ret a (setq i q s, w)"
| "onq i s (Err e (q, w)) = Err e (setq i q s, w)"
| "onq i s (Sleep (q, w)) = Sleep (setq i q s, w)"
| "onq i s (Panic e) = Panic e"
| "onq i s Halt = Halt"
| "onq i s Fault = Fault"

section \<open>Operations\<close>

text \<open>\<open>path\<close> is \<^verbatim>\<open>pipealloc.path\<close>.\<close>

definition pipeattach :: "byte list option \<Rightarrow> u32 \<Rightarrow> Kern \<Rightarrow> (Chan \<times> PS, u32 \<times> Kern) res" where
  "pipeattach spec path w =
     (let c = devattach 0x7c spec in
      case mallocs w (ncalls w) sizeof_Pipe of
        None \<Rightarrow> Err Enofree (path, w\<lparr>ncalls := Suc (ncalls w)\<rparr>)
      | Some _ \<Rightarrow>
          (case qopen PIPEQSIZE 0 False (w\<lparr>ncalls := Suc (ncalls w)\<rparr>) of
             Ret None w \<Rightarrow> Err Enofree (path, w)
           | Ret (Some q0) w \<Rightarrow>
               (case qopen PIPEQSIZE 0 False w of
                  Ret None w \<Rightarrow> Err Enofree (path, w)
                | Ret (Some q1) w \<Rightarrow>
                    let path = path + 1;
                        p = \<lparr>pref = 1, ppath = path, pperm = tperm (snd pipedir ! 0),
                             pq = (\<lambda>i. if i = 0 then q0 else q1), pqref = (\<lambda>_. 0)\<rparr>
                    in Ret (c\<lparr>cqid := mkqid (PIPEQID (2 * path) Qdir) 0 QTDIR, cdevno := 0\<rparr>,
                            \<lparr>pp = p, posted = [], lost = []\<rparr>) (path, w)
                | _ \<Rightarrow> Fault)
           | _ \<Rightarrow> Fault))"

definition pipegen :: "Env \<Rightarrow> Pipe \<Rightarrow> gener" where
  "pipegen env p c n tab i =
     (case i of
        DEVDOTDOT \<Rightarrow> Gent (devdir env c (cqid c) [0x23, 0x7c] 0 (eve env) (DMDIR OR 0x16d))
      | Index i \<Rightarrow>
          (case tab of
             None \<Rightarrow> Gend
           | Some (dot, ts) \<Rightarrow>
               if i + 1 \<ge> length (dot # ts) then Gend
               else
                 let t = (dot # ts) ! (i + 1); ty = ucast (qpath (tqid t)) :: u32;
                     l = (if ty = Qdata0 then of_int (qlen (pq p 0))
                          else if ty = Qdata1 then of_int (qlen (pq p 1)) else tlength t);
                     q = mkqid (PIPEQID (PIPEID (qpath (cqid c))) ty) 0 0
                 in Gent (devdir env c q (tname t) l (eve env) (pperm p))))"

definition addref :: "u32 \<Rightarrow> int \<Rightarrow> Pipe \<Rightarrow> Pipe" where
  "addref t d p =
     (if t = Qdata0 then p\<lparr>pqref := (pqref p)(0 := pqref p 0 + d)\<rparr>
      else if t = Qdata1 then p\<lparr>pqref := (pqref p)(1 := pqref p 1 + d)\<rparr>
      else p)"

text \<open>The state of \<^verbatim>\<open>devwalk\<close> is the error string and the new channel.\<close>

definition pipewalk ::
  "Env \<Rightarrow> Chan \<Rightarrow> ncarg \<Rightarrow> byte list list \<Rightarrow> string \<Rightarrow> PS \<Rightarrow> (Walkqid option \<times> PS, string \<times> Chan) res option" where
  "pipewalk env c nc names es s =
     map_option (\<lambda>r. case r of
         Ret None t \<Rightarrow> Ret (None, s) t
       | Ret (Some wq) t \<Rightarrow>
           if wclone wq \<noteq> None \<and> nc \<noteq> Samechan
           then let p = (pp s)\<lparr>pref := pref (pp s) + 1\<rparr>;
                    p = (if hasf (cflag c) COPEN then addref (ctype c) 1 p else p)
                in Ret (Some wq, s\<lparr>pp := p\<rparr>) t
           else Ret (Some wq, s) t
       | Err e t \<Rightarrow> Err e t
       | Panic e \<Rightarrow> Panic e
       | _ \<Rightarrow> Fault)
       (devwalk (pipegen env (pp s)) False c nc names (Some pipedir) es)"

definition pipestat :: "Env \<Rightarrow> Chan \<Rightarrow> byte list \<Rightarrow> PS \<Rightarrow> (nat, byte list) res" where
  "pipestat env c bf s =
     (let t = ctype c; p = pp s; dr = (\<lambda>n l prm. statout Eshortstat 2 (devdir env c (cqid c) n l (eve env) prm) bf) in
      if t = Qdir then dr [0x2e] 0 (DMDIR OR 0x16d)
      else if t = Qdata0 then dr (tname (snd pipedir ! 0)) (of_int (qlen (pq p 0))) (pperm p)
      else if t = Qdata1 then dr (tname (snd pipedir ! 1)) (of_int (qlen (pq p 1))) (pperm p)
      else Panic ''pipestat'')"

text \<open>What \<^verbatim>\<open>emptystr\<close> tests, of the string a reference leads to; \<open>None\<close> when it leads nowhere. \<open>d0\<close> and \<open>strs\<close>
  are what the allocated memory held: a \<^verbatim>\<open>Dir\<close> and, behind it, as many bytes as the message has.\<close>

fun emptyref :: "sref \<Rightarrow> byte list \<Rightarrow> bool option" where
  "emptyref Unset m = None"
| "emptyref Nullstring m = Some True"
| "emptyref (Strs i) m = (if i < length m then Some (m ! i = 0) else None)"

definition pipewstat :: "Env \<Rightarrow> Chan \<Rightarrow> byte list \<Rightarrow> sref Dir \<Rightarrow> byte list \<Rightarrow> PS \<Rightarrow> (nat, PS) res" where
  "pipewstat env c bf d0 strs s =
     (if upuser env \<noteq> eve env then Err Eperm s
      else if ctype c = Qdir then Err Eisdir s
      else case convM2D bf d0 (Some strs) of
        Ret (m, d) (Some strs) \<Rightarrow>
          if m = 0 then Err Eshortstat s
          else (case emptyref (duid d) strs of
                  None \<Rightarrow> Fault
                | Some False \<Rightarrow> Err ''can't change owner'' s
                | Some True \<Rightarrow>
                    if dmode d \<noteq> -1 then Ret m (s\<lparr>pp := (pp s)\<lparr>pperm := dmode d\<rparr>\<rparr>) else Ret m s)
      | _ \<Rightarrow> Fault)"

text \<open>The state of \<^verbatim>\<open>pipeopen\<close> includes the channel.\<close>

definition pipeopen :: "Chan \<Rightarrow> u32 \<Rightarrow> PS \<Rightarrow> (unit, Chan \<times> PS) res" where
  "pipeopen c omode s =
     (if hasf (qtype (cqid c)) QTDIR then
        if omode \<noteq> 0 then Err Ebadarg (c, s)
        else Ret () (c\<lparr>cmode := ucast omode, cflag := setf (cflag c) COPEN, coffset := 0\<rparr>, s)
      else
        let s = s\<lparr>pp := addref (ctype c) 1 (pp s)\<rparr> in
        case openmode omode of
          None \<Rightarrow> Err Ebadarg (c, s)
        | Some m \<Rightarrow>
            Ret () (c\<lparr>cmode := ucast m, cflag := setf (cflag c) COPEN, coffset := 0,
                      ciounit := of_nat Maxatomic\<rparr>, s))"

text \<open>Close end \<open>i\<close> once; when it was the last time, hang up the queue the other end reads and close
  the one this end reads.\<close>

definition closeend :: "nat \<Rightarrow> PS \<times> Kern \<Rightarrow> (unit, PS \<times> Kern) res" where
  "closeend i = (\<lambda>(s, w).
     let p = (pp s)\<lparr>pqref := (pqref (pp s))(i := pqref (pp s) i - 1)\<rparr>; s = s\<lparr>pp := p\<rparr> in
     if pqref p i = 0 then
       let s = setq (1 - i) (qhangup (pq p (1 - i)) '''') s in
       (case qclose (Some (pq p i)) w of
          Ret (Some q) w \<Rightarrow> Ret () (setq i q s, w)
        | Panic e \<Rightarrow> Panic e
        | _ \<Rightarrow> Fault)
     else Ret () (s, w))"

text \<open>The answer is whether the structure was freed.\<close>

definition pipeclose :: "Chan \<Rightarrow> PS \<times> Kern \<Rightarrow> (bool, PS \<times> Kern) res" where
  "pipeclose c sw =
     bindR (if hasf (cflag c) COPEN then
              if ctype c = Qdata0 then closeend 0 sw
              else if ctype c = Qdata1 then closeend 1 sw
              else Ret () sw
            else Ret () sw) (\<lambda>_ (s, w).
     let p = pp s;
         s = (if pqref p 0 = 0 \<and> pqref p 1 = 0
              then setq 1 (qreopen (pq p 1)) (setq 0 (qreopen (pq p 0)) s) else s);
         p = (pp s)\<lparr>pref := pref (pp s) - 1\<rparr>;
         s = s\<lparr>pp := p\<rparr>
     in if pref p = 0 then Ret True (s\<lparr>lost := lost s @ blocks (pq p 0) @ blocks (pq p 1)\<rparr>, w)
        else Ret False (s, w))"

text \<open>A read asks for \<open>length bf\<close> bytes, a buffer the directory entries are stored in; the bytes read
  from a queue are returned as such. The channel is returned.\<close>

definition piperead ::
  "Env \<Rightarrow> Chan \<Rightarrow> byte list \<Rightarrow> PS \<times> Kern \<Rightarrow> ((int \<times> byte list) \<times> Chan, PS \<times> Kern) res option" where
  "piperead env c bf = (\<lambda>(s, w).
     let t = ctype c;
         qrd = (\<lambda>i. Some (bindR (onq i s (qread (pq (pp s) i) (int (length bf)) w)) (\<lambda>r t. Ret (r, c) t)))
     in if t = Qdir then
          map_option (\<lambda>r. case r of
              Ret n (c, bf) \<Rightarrow> Ret ((int n, take n bf), c) (s, w)
            | Err e _ \<Rightarrow> Err e (s, w)
            | _ \<Rightarrow> Fault)
            (devdirread (pipegen env (pp s)) c bf (Some pipedir))
        else if t = Qdata0 then qrd 0
        else if t = Qdata1 then qrd 1
        else Some (Panic ''piperead''))"

definition pipebread ::
  "Env \<Rightarrow> Chan \<Rightarrow> nat \<Rightarrow> PS \<times> Kern \<Rightarrow> (Block option \<times> Chan, PS \<times> Kern) res option" where
  "pipebread env c n = (\<lambda>(s, w).
     let t = ctype c;
         qrd = (\<lambda>i. Some (bindR (onq i s (qbread (pq (pp s) i) (int n) w)) (\<lambda>r t. Ret (r, c) t)))
     in if t = Qdata0 then qrd 0
        else if t = Qdata1 then qrd 1
        else
          map_option (\<lambda>r. case r of
              Ret b ((c, s), w) \<Rightarrow> Ret (Some b, c) (s, w)
            | Err e ((c, s), w) \<Rightarrow> Err e (s, w)
            | Panic e \<Rightarrow> Panic e
            | _ \<Rightarrow> Fault)
            (devbread (\<lambda>bf ((c, s), w).
               map_option (\<lambda>r. case r of
                   Ret ((n, xs), c) (s, w) \<Rightarrow> Ret xs ((c, s), w)
                 | Err e (s, w) \<Rightarrow> Err e ((c, s), w)
                 | Panic e \<Rightarrow> Panic e
                 | _ \<Rightarrow> Fault) (piperead env c bf (s, w)))
              n ((c, s), w)))"

text \<open>\<^verbatim>\<open>waserror()\<close> around a write: an error posts a note to the writer, unless the pipe is a mounted
  queue.\<close>

fun noted :: "Chan \<Rightarrow> ('a, PS \<times> Kern) res \<Rightarrow> ('a, PS \<times> Kern) res" where
  "noted c (Err e (s, w)) = Err e (if \<not> hasf (cflag c) CMSG then s\<lparr>posted := posted s @ [Eclosedpipe]\<rparr> else s, w)"
| "noted c r = r"

definition pipewrite :: "Chan \<Rightarrow> byte list \<Rightarrow> PS \<times> Kern \<Rightarrow> (int, PS \<times> Kern) res" where
  "pipewrite c xs = (\<lambda>(s, w).
     noted c (let t = ctype c in
       if t = Qdata0 then onq 1 s (qwrite (pq (pp s) 1) xs w)
       else if t = Qdata1 then onq 0 s (qwrite (pq (pp s) 0) xs w)
       else Panic ''pipewrite''))"

definition pipebwrite :: "Chan \<Rightarrow> Block \<Rightarrow> PS \<times> Kern \<Rightarrow> (int, PS \<times> Kern) res" where
  "pipebwrite c b = (\<lambda>(s, w).
     noted c (let t = ctype c in
       if t = Qdata0 then onq 1 s (qbwrite (pq (pp s) 1) b w)
       else if t = Qdata1 then onq 0 s (qbwrite (pq (pp s) 0) b w)
       else Panic ''pipebwrite''))"

end
