(* ===== verification/Pipe_Props.thy ===== *)
theory Pipe_Props
  imports Pipes
begin

text \<open>
  Correctness of pipes. The generator of the directory is a \<open>tree\<close>, so what the generic device code
  does with it follows from \<open>Devs\<close>; the queues keep the invariant \<open>pqok\<close> of \<open>Queue_Props\<close> under every operation; the
  system of a pipe with all its channels (\<open>pstep\<close>) keeps the reference counts exact; and a pair of
  channels is a \<open>channel\<close> in the sense of \<open>Queue_Stream\<close>.
\<close>

section \<open>Names and entries\<close>

lemma PIPETYPE_take_bit: "PIPETYPE x = take_bit 5 (ucast x)"
proof -
  have "(0x1f :: u32) = mask 5" by (simp add: mask_eq_exp_minus_1)
  then show ?thesis by (simp only: PIPETYPE_def take_bit_eq_mask)
qed

lemma PIPETYPE_QID [simp]: "take_bit 5 t = t \<Longrightarrow> PIPETYPE (PIPEQID i t) = t"
proof (rule bit_word_eqI)
  fix n assume t: "take_bit 5 t = t" and n: "n < LENGTH(32)"
  have "bit t n \<Longrightarrow> n < 5" using arg_cong [OF t, of "\<lambda>x. bit x n"] by (simp add: bit_simps)
  with n show "bit (PIPETYPE (PIPEQID i t)) n = bit t n"
    by (auto simp: PIPETYPE_take_bit PIPEQID_def bit_simps)
qed

lemma PIPEID_QID [simp]: "take_bit 5 t = t \<Longrightarrow> PIPEQID (PIPEID (PIPEQID i t)) u = PIPEQID i u"
proof (rule bit_word_eqI)
  fix n assume t: "take_bit 5 t = t" and n: "n < LENGTH(64)"
  have "bit t n \<Longrightarrow> n < 5" using arg_cong [OF t, of "\<lambda>x. bit x n"] by (simp add: bit_simps)
  with n show "bit (PIPEQID (PIPEID (PIPEQID i t)) u) n = bit (PIPEQID i u) n"
    by (auto simp: PIPEID_def PIPEQID_def bit_simps)
qed

lemma Qtypes [simp]:
  "take_bit 5 Qdir = Qdir" "take_bit 5 Qdata0 = Qdata0" "take_bit 5 Qdata1 = Qdata1"
  "Qdir \<noteq> Qdata0" "Qdir \<noteq> Qdata1" "Qdata0 \<noteq> Qdata1" "Qdata0 \<noteq> Qdir" "Qdata1 \<noteq> Qdir" "Qdata1 \<noteq> Qdata0"
  by (simp_all add: Qdir_def Qdata0_def Qdata1_def)

text \<open>The entries \<^verbatim>\<open>pipegen\<close> makes up.\<close>

definition pipeents :: "Env \<Rightarrow> Pipe \<Rightarrow> Chan \<Rightarrow> entry list" where
  "pipeents env p c =
     [devdir env c (mkqid (PIPEQID (PIPEID (qpath (cqid c))) Qdata0) 0 0) [0x64, 0x61, 0x74, 0x61]
         (of_int (qlen (pq p 0))) (eve env) (pperm p),
      devdir env c (mkqid (PIPEQID (PIPEID (qpath (cqid c))) Qdata1) 0 0) [0x64, 0x61, 0x74, 0x61, 0x31]
         (of_int (qlen (pq p 1))) (eve env) (pperm p)]"

lemma pipegen_list:
  "pipegen env p c n (Some pipedir) (Index i) =
     (if i < length (pipeents env p c) then Gent (pipeents env p c ! i) else Gend)"
proof -
  have "i = 0 \<or> i = 1 \<or> 2 \<le> i" by linarith
  then show ?thesis
    by (auto simp: pipegen_def pipedir_def pipeents_def mkqid_def Qdata0_def Qdata1_def Let_def)
qed

lemma pipeents_dri [simp]: "pipeents env p (c\<lparr>cdri := k\<rparr>) = pipeents env p c"
  by (simp add: pipeents_def devdir_def)

interpretation pg: tree "pipegen env p" "Some pipedir" "pipeents env p" False "\<lambda>c. dqid (devdir env c (cqid c)
    [0x23, 0x7c] 0 (eve env) (DMDIR OR 0x16d))" for env p
proof
  show "gen_find (\<lambda>i. pipegen env p c (Some n) (Some pipedir) (Index i)) (\<lambda>d. dname d = Some n) 0 =
    Some (find (\<lambda>d. dname d = Some n) (pipeents env p c))" for c n
    using gen_find_list [of "\<lambda>i. pipegen env p c (Some n) (Some pipedir) (Index i)" "pipeents env p c"
      "\<lambda>d. dname d = Some n" 0] pipegen_list by simp
qed (simp_all add: pipegen_list, simp add: pipegen_def)

section \<open>The queues of a pipe\<close>

text \<open>The state an operation leaves behind, however it ends; \<open>None\<close> after a panic or worse.\<close>

fun after :: "('a, 's) res \<Rightarrow> 's option" where
  "after (Ret _ s) = Some s"
| "after (Err _ s) = Some s"
| "after (Sleep s) = Some s"
| "after _ = None"

definition pqok :: "Queue \<Rightarrow> bool" where
  "pqok q \<longleftrightarrow> qinv q \<and> \<not> bypass q \<and> \<not> noblock q \<and> \<not> hasf (state q) Qmsg \<and> \<not> hasf (state q) Qcoalesce"

definition keeps :: "Kern \<Rightarrow> ('a, Queue \<times> Kern) res \<Rightarrow> bool" where
  "keeps w r \<longleftrightarrow> (\<exists>q' w'. after r = Some (q', w') \<and> pqok q' \<and> kstatic w' = kstatic w)"

lemma pqok_static: "pqok q \<Longrightarrow> qinv q' \<Longrightarrow> qstatic q' = qstatic q \<Longrightarrow> pqok q'"
  using qstaticD [of q' q] by (simp add: pqok_def)

lemma keeps_qread:
  assumes "pqok q"
  shows "keeps w (qread q (int n) w)"
proof (cases "blocks q = []")
  case True
  have "pqok (q\<lparr>eof := e\<rparr>)" "pqok (q\<lparr>state := setf (state q) Qstarve\<rparr>)" for e
    using assms by (simp_all add: pqok_def qinv_def)
  with True show ?thesis by (auto simp: keeps_def qread_empty Let_def)
next
  case False
  from assms have "qinv q" "\<not> hasf (state q) Qmsg" "hasf (state q) Qcoalesce \<longrightarrow> qbytes q \<noteq> []"
    by (simp_all add: pqok_def)
  from qread_stream_ok [OF this(1,2) False this(3), of n w] pqok_static [OF assms] show ?thesis
    by (auto simp: okR_def keeps_def balanced_def)
qed

lemma keeps_qbread:
  assumes "pqok q" "memok w"
  shows "keeps w (qbread q (int n) w)"
proof (cases "blocks q")
  case Nil
  have "pqok (q\<lparr>eof := e\<rparr>)" "pqok (q\<lparr>state := setf (state q) Qstarve\<rparr>)" for e
    using assms by (simp_all add: pqok_def qinv_def)
  with Nil show ?thesis by (auto simp: keeps_def qbread_def qwait_def Let_def)
next
  case (Cons b bs)
  from assms have "qinv q" by (simp add: pqok_def)
  from qbread_ok [OF this assms(2) Cons, of n] pqok_static [OF assms(1)] show ?thesis
    by (auto simp: okR_def keeps_def balanced_def)
qed

lemma keeps_qbwrite:
  assumes "pqok q" "wfb b"
  shows "keeps w (qbwrite q b w)"
proof (cases "hasf (state q) Qclosed")
  case True
  with assms show ?thesis by (simp add: pqok_def qbwrite_closed keeps_def)
next
  case False
  from assms(1) have q: "qinv q" "\<not> bypass q" "noblock q \<longrightarrow> len q < limit q" by (simp_all add: pqok_def)
  from qbwrite_ok [OF q(1) assms(2) q(2) False q(3), of w] obtain q' where q':
    "appended q q' (bdata b)"
    "qbwrite q b w = (if noblock q \<or> len q' < limit q then Ret (BLEN b) (q', w) else Sleep (q', w))"
    by blast
  then have "pqok q'" using pqok_static [OF assms(1)] by (simp add: appended_def)
  with q'(2) show ?thesis by (auto simp: keeps_def)
qed

text \<open>Writing to a queue that is closed: the block is freed again and nothing else has changed.\<close>

lemma qwrite_closed:
  assumes "hasf (state q) Qclosed" "\<not> bypass q" "memok w"
  shows "qwrite q xs w = Err (err q) (q, tick w)"
proof -
  define n where "n = (if length xs > Maxatomic then Maxatomic else length xs)"
  let ?b = "bput (newb n (maddr n w)) (take n xs)"
  have l: "length (take n xs) \<le> n" by simp
  have fill: "bfill (newb n (maddr n w)) (take n xs) (tick w) = Ret ?b (tick w)"
    by (rule bfill_eq) (use newb_fill(1) [OF l] in simp)
  have "wfb ?b" "ibal ?b = 0" using newb_fill [OF l] by simp_all
  with fill assms show ?thesis
    by (simp add: qwrite_def qwrite_loop.simps [of q] n_def [symmetric] allocb_eq Let_def qbwrite_closed)
qed

lemma keeps_qwrite:
  assumes "pqok q" "memok w"
  shows "keeps w (qwrite q xs w)"
proof (cases "hasf (state q) Qclosed")
  case True
  with assms show ?thesis by (simp add: pqok_def qwrite_closed keeps_def)
next
  case False
  have "wrote q (if hasf (state q) Qmsg then take Maxatomic xs else xs) w (qwrite_loop q xs w)"
    by (rule qwrite_loop_ok) (use assms False in \<open>simp_all add: pqok_def\<close>)
  then show ?thesis
    using pqok_static [OF assms(1)]
    by (auto simp: qwrite_def wrote_def keeps_def appended_def balanced_def split: res.splits)
qed

lemma pqok_simps [simp]:
  "pqok q \<Longrightarrow> pqok (qhangup q m)" "pqok q \<Longrightarrow> pqok (qreopen q)"
  by (simp_all add: pqok_def qinv_def qhangup_def qreopen_def)

lemma qclose_pqok:
  assumes "pqok q"
  shows "\<exists>q' w'. qclose (Some q) w = Ret (Some q') w' \<and> pqok q' \<and> blocks q' = [] \<and> hasf (state q') Qclosed \<and>
     err q' = Ehungup \<and> kstatic w' = kstatic w"
  using assms by (auto simp: qclose_def freeblist_eq pqok_def qinv_def)

section \<open>A pipe and its channels\<close>

text \<open>The system is the pipe with all channels to it. A channel is walked from or opened only while it is
  not open, as name lookup does, with a mode the system call has checked with \<^verbatim>\<open>openmode\<close>; it is
  read and written while it is open, written only when it was opened for that.\<close>

record PSys =
  sps :: PS
  skern :: Kern
  chans :: "Chan list"
  gone :: bool

definition psys0 :: "Chan \<Rightarrow> PS \<Rightarrow> Kern \<Rightarrow> PSys" where
  "psys0 c s w = \<lparr>sps = s, skern = w, chans = [c], gone = False\<rparr>"

abbreviation opened :: "Chan \<Rightarrow> bool" where "opened c \<equiv> hasf (cflag c) COPEN"

fun chanafter :: "Chan \<Rightarrow> ('a \<times> Chan, 's) res \<Rightarrow> Chan" where
  "chanafter c (Ret (_, c') _) = c'"
| "chanafter c _ = c"

inductive pstep :: "PSys \<Rightarrow> PSys \<Rightarrow> bool" where
  walk: "i < length (chans S) \<Longrightarrow> \<not> opened (chans S ! i) \<Longrightarrow>
    pipewalk env (chans S ! i) Nilchan names es (sps S) = Some (Ret (wq, s) t) \<Longrightarrow>
    pstep S (S\<lparr>sps := s, chans := chans S @
      (case wq of None \<Rightarrow> [] | Some x \<Rightarrow> (case wclone x of None \<Rightarrow> [] | Some nc \<Rightarrow> [nc]))\<rparr>)"
| opn: "i < length (chans S) \<Longrightarrow> \<not> opened (chans S ! i) \<Longrightarrow> openmode omode \<noteq> None \<Longrightarrow>
    after (pipeopen (chans S ! i) omode (sps S)) = Some (c, s) \<Longrightarrow>
    pstep S (S\<lparr>sps := s, chans := (chans S)[i := c]\<rparr>)"
| cls: "i < length (chans S) \<Longrightarrow> pipeclose (chans S ! i) (sps S, skern S) = Ret freed (s, w) \<Longrightarrow>
    pstep S (S\<lparr>sps := s, skern := w, chans := take i (chans S) @ drop (Suc i) (chans S), gone := freed\<rparr>)"
| read: "i < length (chans S) \<Longrightarrow> opened (chans S ! i) \<Longrightarrow>
    piperead env (chans S ! i) bf (sps S, skern S) = Some r \<Longrightarrow> after r = Some (s, w) \<Longrightarrow>
    pstep S (S\<lparr>sps := s, skern := w, chans := (chans S)[i := chanafter (chans S ! i) r]\<rparr>)"
| bread: "i < length (chans S) \<Longrightarrow> opened (chans S ! i) \<Longrightarrow>
    pipebread env (chans S ! i) n (sps S, skern S) = Some r \<Longrightarrow> after r = Some (s, w) \<Longrightarrow>
    pstep S (S\<lparr>sps := s, skern := w, chans := (chans S)[i := chanafter (chans S ! i) r]\<rparr>)"
| wrt: "i < length (chans S) \<Longrightarrow> opened (chans S ! i) \<Longrightarrow> cmode (chans S ! i) \<noteq> 0 \<Longrightarrow>
    after (pipewrite (chans S ! i) xs (sps S, skern S)) = Some (s, w) \<Longrightarrow>
    pstep S (S\<lparr>sps := s, skern := w\<rparr>)"
| bwrt: "i < length (chans S) \<Longrightarrow> opened (chans S ! i) \<Longrightarrow> cmode (chans S ! i) \<noteq> 0 \<Longrightarrow> wfb b \<Longrightarrow>
    after (pipebwrite (chans S ! i) b (sps S, skern S)) = Some (s, w) \<Longrightarrow>
    pstep S (S\<lparr>sps := s, skern := w\<rparr>)"
| wst: "i < length (chans S) \<Longrightarrow>
    after (pipewstat env (chans S ! i) bf d0 strs (sps S)) = Some s \<Longrightarrow> pstep S (S\<lparr>sps := s\<rparr>)"

inductive preach :: "PSys \<Rightarrow> bool" where
  start: "pipeattach spec path w = Ret (c, s) (path', w') \<Longrightarrow> memok w \<Longrightarrow> preach (psys0 c s w')"
| step: "preach S \<Longrightarrow> pstep S S' \<Longrightarrow> preach S'"

definition qidok :: "Pipe \<Rightarrow> Qid \<Rightarrow> bool" where
  "qidok p q \<longleftrightarrow> (\<exists>t \<in> {Qdir, Qdata0, Qdata1}. qpath q = PIPEQID (2 * ppath p) t \<and>
     hasf (qtype q) QTDIR = (t = Qdir))"

definition chanok :: "Pipe \<Rightarrow> Chan \<Rightarrow> bool" where
  "chanok p c \<longleftrightarrow> qidok p (cqid c) \<and> (opened c \<and> ctype c = Qdir \<longrightarrow> cmode c = 0)"

text \<open>The file of end \<open>k\<close>, and the channels on which it is open.\<close>

definition endtype :: "nat \<Rightarrow> u32" where "endtype k = (if k = 0 then Qdata0 else Qdata1)"

definition openat :: "nat \<Rightarrow> Chan \<Rightarrow> bool" where
  "openat k c \<longleftrightarrow> opened c \<and> ctype c = endtype k"

definition users :: "nat \<Rightarrow> Chan list \<Rightarrow> int" where
  "users k cs = int (length (filter (openat k) cs))"

definition pipeinv :: "PSys \<Rightarrow> bool" where
  "pipeinv S \<longleftrightarrow> (let p = pp (sps S) in
     list_all (chanok p) (chans S) \<and> pref p = int (length (chans S)) \<and>
     (\<forall>k < 2. pqref p k = users k (chans S) \<and> pqok (pq p k)) \<and>
     gone S = (chans S = []) \<and> memok (skern S))"

lemma users_simps [simp]:
  "users k [] = 0" "users k (c # cs) = (if openat k c then 1 else 0) + users k cs"
  "users k (cs @ ds) = users k cs + users k ds"
  by (simp_all add: users_def)

lemma users_remove:
  "i < length cs \<Longrightarrow> users k (take i cs @ drop (Suc i) cs) = users k cs - (if openat k (cs ! i) then 1 else 0)"
proof -
  assume "i < length cs"
  then have "cs = take i cs @ cs ! i # drop (Suc i) cs" by (simp add: id_take_nth_drop)
  then have "users k cs = users k (take i cs @ cs ! i # drop (Suc i) cs)" by simp
  then show ?thesis by (simp del: append_take_drop_id)
qed

lemma users_update:
  assumes "i < length cs"
  shows "users k (cs[i := c]) = users k cs - (if openat k (cs ! i) then 1 else 0) + (if openat k c then 1 else 0)"
  using users_remove [OF assms] by (simp add: upd_conv_take_nth_drop assms)

lemma qidok_type: "qidok p q \<Longrightarrow> PIPETYPE (qpath q) \<in> {Qdir, Qdata0, Qdata1} \<and>
    hasf (qtype q) QTDIR = (PIPETYPE (qpath q) = Qdir)"
  by (auto simp: qidok_def)

lemma chanok_type: "chanok p c \<Longrightarrow> ctype c \<in> {Qdir, Qdata0, Qdata1} \<and> hasf (qtype (cqid c)) QTDIR = (ctype c = Qdir)"
  unfolding chanok_def using qidok_type by blast

lemma memok_static: "kstatic w' = kstatic w \<Longrightarrow> memok w' = memok w"
  by (simp add: kstatic_def memok_def)

text \<open>Walks stay inside the directory of the pipe.\<close>

lemma not_QTDIR_0 [simp]: "\<not> hasf 0 QTDIR" "\<not> hasf 0 COPEN" "\<not> hasf 0 CMSG"
  by simp_all

lemma hasf_QTDIR [simp]: "hasf QTDIR QTDIR" "hasf (setf f COPEN) COPEN" "hasf (setf f COPEN) CMSG = hasf f CMSG"
  by (simp_all add: hasf_def setf_def QTDIR_def COPEN_def CMSG_def and.assoc word_bw_assocs word_bw_lcs word_ao_dist)

lemma devdir_qid [simp]: "\<not> hasf (cflag c) CMSG \<Longrightarrow> dqid (devdir env c q n l u prm) = q"
  by (simp add: devdir_def)

abbreviation pipestep :: "Env \<Rightarrow> Pipe \<Rightarrow> Chan \<Rightarrow> Qid \<Rightarrow> byte list \<Rightarrow> Qid option" where
  "pipestep env p \<equiv> onestep False (Some pipedir) (pipeents env p)
     (\<lambda>c. dqid (devdir env c (cqid c) [0x23, 0x7c] 0 (eve env) (DMDIR OR 0x16d)))"

lemma pipestep_ok:
  assumes "pipestep env p c q n = Some q'" "\<not> hasf (cflag c) CMSG" "qidok p q"
  shows "qidok p q'"
proof -
  from assms(3) obtain t where t: "t \<in> {Qdir, Qdata0, Qdata1}" "qpath q = PIPEQID (2 * ppath p) t"
    by (auto simp: qidok_def)
  then have "PIPEQID (PIPEID (qpath q)) u = PIPEQID (2 * ppath p) u" for u by auto
  with assms show ?thesis
    by (auto simp: onestep_def Let_def pipeents_def mkqid_def qidok_def split: if_splits)
qed

lemma pipesteps_ok:
  assumes "\<not> hasf (cflag c) CMSG" "qidok p q"
  shows "qidok p (last (q # steps (pipestep env p c) q ns))"
  using assms(2)
proof (induction ns arbitrary: q)
  case (Cons n ns)
  then show ?case using pipestep_ok [OF _ assms(1)] by (auto split: option.split)
qed simp

lemma newchan_simps [simp]: "cflag newchan = 0" by (simp add: newchan_def)

text \<open>A walk returns: an error, a failure, or the qids walked; a new channel is counted and is not
  open.\<close>

lemma pipewalk_ok:
  assumes "qidok (pp s) (cqid c)" "\<not> opened c"
  shows "\<exists>r. pipewalk env c Nilchan names es s = Some r \<and>
     ((\<exists>t. r = Err Enotdir t) \<or> (\<exists>wq t. r = Ret (wq, s) t \<and> (\<forall>x. wq = Some x \<longrightarrow> wclone x = None)) \<or>
      (\<exists>wq nc t. r = Ret (Some wq, s\<lparr>pp := (pp s)\<lparr>pref := pref (pp s) + 1\<rparr>\<rparr>) t \<and> wclone wq = Some nc \<and>
         qidok (pp s) (cqid nc) \<and> \<not> opened nc))"
proof -
  consider (dir) "hasf (qtype (cqid c)) QTDIR" | (err) "\<not> hasf (qtype (cqid c)) QTDIR" "names \<noteq> []"
    | (clone) "names = []" by blast
  then show ?thesis
  proof cases
    case dir
    let ?nc = "newchan\<lparr>cdevno := cdevno c, cmode := cmode c, coffset := coffset c\<rparr>"
    let ?ws = "steps (pipestep env (pp s) ?nc) (cqid c) names"
    let ?cl = "newchan\<lparr>cdevno := cdevno c, cmode := cmode c, coffset := coffset c, cqid := last (cqid c # ?ws), cdc := cdc c\<rparr>"
    from pg.devwalk_ok [OF dir assms(2), of env "pp s" names es] obtain es' nc where w:
      "devwalk (pipegen env (pp s)) False c Nilchan names (Some pipedir) es =
       Some (Ret (if names \<noteq> [] \<and> ?ws = [] then None
            else Some \<lparr>wclone = (if length ?ws < length names then None else Some ?cl), wqids = ?ws\<rparr>) (es', nc))"
      by (auto simp: Let_def)
    have "qidok (pp s) (cqid ?cl)" using pipesteps_ok [of ?nc, OF _ assms(1)] by simp
    with w assms(2) show ?thesis by (auto simp: pipewalk_def)
  next
    case err
    then show ?thesis by (simp add: pipewalk_def devwalk_def)
  next
    case clone
    with assms show ?thesis by (simp add: pipewalk_def devwalk_def devclone_def Let_def)
  qed
qed

lemma chanok_cong: "ppath p' = ppath p \<Longrightarrow> chanok p' = chanok p"
  by (rule ext) (simp add: chanok_def qidok_def)

lemma list_all_update: "list_all P xs \<Longrightarrow> P x \<Longrightarrow> list_all P (xs[i := x])"
  using set_update_subset_insert [of xs i x] by (auto simp: list_all_iff)

lemma pipeinvD:
  assumes "pipeinv S" "i < length (chans S)"
  shows "chanok (pp (sps S)) (chans S ! i)" "pqok (pq (pp (sps S)) 0)" "pqok (pq (pp (sps S)) 1)" "memok (skern S)"
    "qidok (pp (sps S)) (cqid (chans S ! i))"
  using assms by (auto simp: pipeinv_def Let_def list_all_length chanok_def)

lemma two_ends: "(\<forall>k < (2::nat). P k) \<longleftrightarrow> P 0 \<and> P 1"
  by (auto simp: less_2_cases_iff)

lemma pipeinv_walk:
  assumes "pipeinv S" "i < length (chans S)" "\<not> opened (chans S ! i)"
    "pipewalk env (chans S ! i) Nilchan names es (sps S) = Some (Ret (wq, s) t)"
  shows "pipeinv (S\<lparr>sps := s, chans := chans S @
      (case wq of None \<Rightarrow> [] | Some x \<Rightarrow> (case wclone x of None \<Rightarrow> [] | Some nc \<Rightarrow> [nc]))\<rparr>)"
proof -
  have ne: "chans S \<noteq> []" using assms(2) by auto
  from pipewalk_ok [OF pipeinvD(5) [OF assms(1,2)] assms(3), of env names es] assms(4)
  consider "s = sps S" "\<forall>x. wq = Some x \<longrightarrow> wclone x = None"
    | x nc where "wq = Some x" "wclone x = Some nc" "s = (sps S)\<lparr>pp := (pp (sps S))\<lparr>pref := pref (pp (sps S)) + 1\<rparr>\<rparr>"
      "qidok (pp (sps S)) (cqid nc)" "\<not> opened nc"
    by auto
  then show ?thesis
  proof cases
    case 1
    with assms(1) show ?thesis by (cases S) (auto simp: pipeinv_def split: option.split)
  next
    case 2
    have p: "chanok (p\<lparr>pref := n\<rparr>) = chanok p" for p n by (rule chanok_cong) simp
    have "chanok (pp (sps S)) nc" "\<not> openat k nc" for k using 2 by (simp_all add: chanok_def openat_def)
    with 2(1-3) p assms(1) ne show ?thesis by (simp add: pipeinv_def Let_def)
  qed
qed

lemma addref_simps [simp]:
  "pref (addref t d p) = pref p" "ppath (addref t d p) = ppath p" "pq (addref t d p) = pq p"
  "pqref (addref t d p) k = pqref p k + (if k < 2 \<and> t = endtype k then d else 0)"
  by (auto simp: addref_def endtype_def less_2_cases_iff)

lemma pipeinv_open:
  assumes "pipeinv S" "i < length (chans S)" "\<not> opened (chans S ! i)" "openmode omode \<noteq> None"
    "after (pipeopen (chans S ! i) omode (sps S)) = Some (c, s)"
  shows "pipeinv (S\<lparr>sps := s, chans := (chans S)[i := c]\<rparr>)"
proof -
  let ?c = "chans S ! i" and ?p = "pp (sps S)"
  obtain m where m: "openmode omode = Some m" using assms(4) by blast
  have ok: "chanok ?p ?c" and ne: "chans S \<noteq> []" using pipeinvD [OF assms(1,2)] assms(2) by auto
  note ty = chanok_type [OF ok]
  have old: "\<not> openat k ?c" for k using assms(3) by (simp add: openat_def)
  have inv: "list_all (chanok ?p) (chans S)" using assms(1) by (simp add: pipeinv_def Let_def)
  have upd: "list_all (chanok ?p) ((chans S)[i := c'])" if "chanok ?p c'" for c'
    using inv that by (rule list_all_update)
  show ?thesis
  proof (cases "ctype ?c = Qdir")
    case True
    then consider "c = ?c" "s = sps S"
      | "c = ?c\<lparr>cmode := 0, cflag := setf (cflag ?c) COPEN, coffset := 0\<rparr>" "s = sps S"
      using ty assms(5) by (auto simp: pipeopen_def split: if_splits)
    then show ?thesis
    proof cases
      case 1
      with assms(1) show ?thesis by (cases S) simp
    next
      case 2
      moreover have "chanok ?p c" "\<not> openat k c" for k using 2 ok True by (simp_all add: chanok_def openat_def endtype_def)
      ultimately show ?thesis
        using assms(1,2) upd [of c] old ne by (simp add: pipeinv_def Let_def users_update)
    qed
  next
    case False
    let ?n = "?c\<lparr>cmode := ucast m, cflag := setf (cflag ?c) COPEN, coffset := 0, ciounit := of_nat Maxatomic\<rparr>"
    from False have cs: "c = ?n" "s = (sps S)\<lparr>pp := addref (ctype ?c) 1 ?p\<rparr>"
      using ty assms(5) m by (auto simp: pipeopen_def Let_def)
    have c: "chanok ?p c" using ok False cs by (simp add: chanok_def)
    have k: "openat k c = (ctype ?c = endtype k)" for k using cs by (simp add: openat_def)
    have "chanok (addref (ctype ?c) 1 ?p) = chanok ?p" by (rule chanok_cong) simp
    with c k show ?thesis
      using assms(1,2) upd [of c] old ne cs by (simp add: pipeinv_def Let_def users_update)
  qed
qed

lemma setq_simps [simp]:
  "pq (pp (setq i q s)) = (pq (pp s))(i := q)" "pref (pp (setq i q s)) = pref (pp s)"
  "ppath (pp (setq i q s)) = ppath (pp s)" "pperm (pp (setq i q s)) = pperm (pp s)"
  "pqref (pp (setq i q s)) = pqref (pp s)" "posted (setq i q s) = posted s" "lost (setq i q s) = lost s"
  by (simp_all add: setq_def)

text \<open>What closing leaves of the queues: those of a pipe, with the references counted down.\<close>

lemma closeend_ok:
  assumes "k < 2" "pqok (pq (pp s) 0)" "pqok (pq (pp s) 1)"
  shows "\<exists>s' w'. closeend k (s, w) = Ret () (s', w') \<and> pref (pp s') = pref (pp s) \<and> ppath (pp s') = ppath (pp s) \<and>
     pqref (pp s') = (pqref (pp s))(k := pqref (pp s) k - 1) \<and> pqok (pq (pp s') 0) \<and> pqok (pq (pp s') 1) \<and>
     kstatic w' = kstatic w"
proof -
  have k: "k = 0 \<or> k = 1" using assms(1) by linarith
  then have "pqok (pq (pp s) k)" using assms by auto
  from qclose_pqok [OF this, of w] obtain q' w' where
    "qclose (Some (pq (pp s) k)) w = Ret (Some q') w'" "pqok q'" "kstatic w' = kstatic w" by blast
  with k assms(2,3) show ?thesis by (auto simp: closeend_def Let_def)
qed

lemma pipeclose_ok:
  assumes "chanok (pp s) c" "pqok (pq (pp s) 0)" "pqok (pq (pp s) 1)"
  shows "\<exists>s' w'. pipeclose c (s, w) = Ret (pref (pp s) = 1) (s', w') \<and> pref (pp s') = pref (pp s) - 1 \<and>
     ppath (pp s') = ppath (pp s) \<and> (\<forall>k < 2. pqref (pp s') k = pqref (pp s) k - (if openat k c then 1 else 0)) \<and>
     pqok (pq (pp s') 0) \<and> pqok (pq (pp s') 1) \<and> kstatic w' = kstatic w"
proof -
  let ?m = "if opened c then if ctype c = Qdata0 then closeend 0 (s, w)
            else if ctype c = Qdata1 then closeend 1 (s, w) else Ret () (s, w) else Ret () (s, w)"
  have "\<exists>s' w'. ?m = Ret () (s', w') \<and> pref (pp s') = pref (pp s) \<and> ppath (pp s') = ppath (pp s) \<and>
     (\<forall>k < 2. pqref (pp s') k = pqref (pp s) k - (if openat k c then 1 else 0)) \<and>
     pqok (pq (pp s') 0) \<and> pqok (pq (pp s') 1) \<and> kstatic w' = kstatic w"
    using assms(2,3) closeend_ok [of 0 s w] closeend_ok [of 1 s w]
    by (auto simp: openat_def endtype_def two_ends)
  then obtain s1 w1 where m: "?m = Ret () (s1, w1)"
    and s1: "pref (pp s1) = pref (pp s)" "ppath (pp s1) = ppath (pp s)"
      "\<forall>k < 2. pqref (pp s1) k = pqref (pp s) k - (if openat k c then 1 else 0)"
      "pqok (pq (pp s1) 0)" "pqok (pq (pp s1) 1)" "kstatic w1 = kstatic w"
    by blast
  show ?thesis unfolding pipeclose_def m using s1 by (auto simp: Let_def)
qed

lemma pipeinv_close:
  assumes "pipeinv S" "i < length (chans S)" "pipeclose (chans S ! i) (sps S, skern S) = Ret freed (s, w)"
  shows "pipeinv (S\<lparr>sps := s, skern := w, chans := take i (chans S) @ drop (Suc i) (chans S), gone := freed\<rparr>)"
proof -
  note D = pipeinvD [OF assms(1,2)]
  have p: "pref (pp (sps S)) = int (length (chans S))" "\<forall>k < 2. pqref (pp (sps S)) k = users k (chans S)"
    "list_all (chanok (pp (sps S))) (chans S)"
    using assms(1) by (simp_all add: pipeinv_def Let_def)
  from pipeclose_ok [OF D(1-3), of "skern S"] assms(3) have s: "freed = (pref (pp (sps S)) = 1)"
    "pref (pp s) = pref (pp (sps S)) - 1" "ppath (pp s) = ppath (pp (sps S))"
    "\<forall>k < 2. pqref (pp s) k = pqref (pp (sps S)) k - (if openat k (chans S ! i) then 1 else 0)"
    "pqok (pq (pp s) 0)" "pqok (pq (pp s) 1)" "kstatic w = kstatic (skern S)"
    by auto
  have l: "length (take i (chans S) @ drop (Suc i) (chans S)) = length (chans S) - 1" using assms(2) by simp
  have "list_all (chanok (pp s)) (take i (chans S) @ drop (Suc i) (chans S))"
    using p(3) chanok_cong [OF s(3)] by (auto simp: list_all_iff dest: in_set_takeD in_set_dropD)
  moreover have "freed = (take i (chans S) @ drop (Suc i) (chans S) = [])"
  proof -
    have "(take i (chans S) @ drop (Suc i) (chans S) = []) = (length (chans S) - 1 = 0)"
      by (simp only: length_0_conv [symmetric] l)
    moreover have "1 \<le> length (chans S)" using assms(2) by linarith
    ultimately show ?thesis unfolding s(1) p(1) by linarith
  qed
  moreover have "pref (pp s) = int (length (take i (chans S) @ drop (Suc i) (chans S)))"
    using s(2) p(1) assms(2) l by linarith
  ultimately show ?thesis
    using s p(2) users_remove [OF assms(2)] memok_static [OF s(7)] D(4)
    by (simp add: pipeinv_def Let_def two_ends del: users_simps length_append append_is_Nil_conv)
qed

text \<open>Reading and writing touch one queue.\<close>

lemma pipeinv_data:
  assumes "pipeinv S" "i < length (chans S)" "cqid c = cqid (chans S ! i)" "cflag c = cflag (chans S ! i)"
    "cmode c = cmode (chans S ! i)" "ppath (pp s) = ppath (pp (sps S))" "pref (pp s) = pref (pp (sps S))"
    "pqref (pp s) = pqref (pp (sps S))" "pqok (pq (pp s) 0)" "pqok (pq (pp s) 1)" "kstatic w = kstatic (skern S)"
  shows "pipeinv (S\<lparr>sps := s, skern := w, chans := (chans S)[i := c]\<rparr>)"
proof -
  have ok: "chanok (pp (sps S)) c" using pipeinvD(1) [OF assms(1,2)] assms(3-5) by (simp add: chanok_def)
  have k: "openat k c = openat k (chans S ! i)" for k using assms(3,4) by (simp add: openat_def)
  have "list_all (chanok (pp (sps S))) ((chans S)[i := c])"
    using assms(1) ok by (intro list_all_update) (simp_all add: pipeinv_def Let_def)
  then show ?thesis
    using assms k chanok_cong [OF assms(6)] memok_static [OF assms(11)]
    by (simp add: pipeinv_def Let_def two_ends users_update)
qed

definition steady :: "PS \<times> Kern \<Rightarrow> PS \<times> Kern \<Rightarrow> bool" where
  "steady t t' \<longleftrightarrow> (case (t, t') of ((s, w), (s', w')) \<Rightarrow>
     ppath (pp s') = ppath (pp s) \<and> pref (pp s') = pref (pp s) \<and> pqref (pp s') = pqref (pp s) \<and>
     pqok (pq (pp s') 0) \<and> pqok (pq (pp s') 1) \<and> kstatic w' = kstatic w)"

lemma onq_after:
  assumes "keeps w r" "pqok (pq (pp s) 0)" "pqok (pq (pp s) 1)"
  shows "\<exists>q' w'. after (onq i s r) = Some (setq i q' s, w') \<and> pqok q' \<and> steady (s, w) (setq i q' s, w')"
proof -
  from assms(1) obtain q' w' where "after r = Some (q', w')" "pqok q'" "kstatic w' = kstatic w"
    by (auto simp: keeps_def)
  with assms(2,3) show ?thesis by (cases r) (auto simp: steady_def)
qed

lemma noted_after: "after r = Some (s', w') \<Longrightarrow> steady t (s', w') \<Longrightarrow>
    \<exists>t'. after (noted c r) = Some t' \<and> steady t t'"
  by (cases r) (auto simp: steady_def)

lemma pipewrite_ok:
  assumes "chanok (pp s) c" "ctype c \<noteq> Qdir" "pqok (pq (pp s) 0)" "pqok (pq (pp s) 1)" "memok w"
  shows "\<exists>t'. after (pipewrite c xs (s, w)) = Some t' \<and> steady (s, w) t'"
proof -
  define i where "i = (if ctype c = Qdata0 then 1 else 0 :: nat)"
  have eq: "pipewrite c xs (s, w) = noted c (onq i s (qwrite (pq (pp s) i) xs w))"
    using chanok_type [OF assms(1)] assms(2) by (auto simp: pipewrite_def i_def)
  have "pqok (pq (pp s) i)" using assms by (simp add: i_def)
  from onq_after [OF keeps_qwrite [OF this assms(5)] assms(3,4)] show ?thesis
    unfolding eq using noted_after by fast
qed

lemma pipebwrite_ok:
  assumes "chanok (pp s) c" "ctype c \<noteq> Qdir" "pqok (pq (pp s) 0)" "pqok (pq (pp s) 1)" "wfb b"
  shows "\<exists>t'. after (pipebwrite c b (s, w)) = Some t' \<and> steady (s, w) t'"
proof -
  define i where "i = (if ctype c = Qdata0 then 1 else 0 :: nat)"
  have eq: "pipebwrite c b (s, w) = noted c (onq i s (qbwrite (pq (pp s) i) b w))"
    using chanok_type [OF assms(1)] assms(2) by (auto simp: pipebwrite_def i_def)
  have "pqok (pq (pp s) i)" using assms by (simp add: i_def)
  from onq_after [OF keeps_qbwrite [OF this assms(5)] assms(3,4)] show ?thesis
    unfolding eq using noted_after by fast
qed

text \<open>The channel an operation returns differs from the one it was given at most in its place in the
  directory.\<close>

definition samechan :: "Chan \<Rightarrow> Chan \<Rightarrow> bool" where
  "samechan c c' \<longleftrightarrow> (\<exists>k. c' = c\<lparr>cdri := k\<rparr>)"

lemma samechan_refl [simp]: "samechan c c"
  unfolding samechan_def by (rule exI [of _ "cdri c"]) simp

lemma bind_chan_after: "after r = Some t \<Longrightarrow>
    after (bindR r (\<lambda>x t. Ret (x, c) t)) = Some t \<and> samechan c (chanafter c (bindR r (\<lambda>x t. Ret (x, c) t)))"
  by (cases r) simp_all

text \<open>Reading the directory.\<close>

lemma piperead_dir:
  assumes "ctype c = Qdir"
  shows "\<exists>k bf'. piperead env c bf (s, w) =
     Some (let out = entbytes (take k (drop (cdri c) (pipeents env (pp s) c))) in
       if k = 0 \<and> cdri c < 2 \<and> bf \<noteq> [] then Err Eshort (s, w)
       else Ret ((int (length out), out), c\<lparr>cdri := cdri c + k\<rparr>) (s, w)) \<and>
     filled (pipeents env (pp s) c) (cdri c) 0 bf k bf'"
proof -
  let ?ds = "pipeents env (pp s) c"
  have l: "length ?ds = 2" by (simp add: pipeents_def)
  obtain k bf' where k: "filled ?ds (cdri c) 0 bf k bf'"
    "devdirread (pipegen env (pp s)) c bf (Some pipedir) =
       Some (if k = 0 \<and> cdri c < 2 \<and> bf \<noteq> [] then Err Eshort (c, bf')
             else Ret (length (entbytes (take k (drop (cdri c) ?ds)))) (c\<lparr>cdri := cdri c + k\<rparr>, bf'))"
    using pg.dirread_loop_ok [of 0 bf env "pp s" c] l by (auto simp: devdirread_def)
  from k(1) have "take (length (entbytes (take k (drop (cdri c) ?ds)))) bf' = entbytes (take k (drop (cdri c) ?ds))"
    by (simp add: filled_def Let_def)
  with k assms show ?thesis by (intro exI [of _ k] exI [of _ bf']) (simp add: piperead_def Let_def)
qed

lemma piperead_ok:
  assumes "chanok (pp s) c" "pqok (pq (pp s) 0)" "pqok (pq (pp s) 1)"
  shows "\<exists>r t'. piperead env c bf (s, w) = Some r \<and> after r = Some t' \<and> steady (s, w) t' \<and> samechan c (chanafter c r)"
proof (cases "ctype c = Qdir")
  case True
  obtain k where k: "piperead env c bf (s, w) =
     Some (let out = entbytes (take k (drop (cdri c) (pipeents env (pp s) c))) in
       if k = 0 \<and> cdri c < 2 \<and> bf \<noteq> [] then Err Eshort (s, w)
       else Ret ((int (length out), out), c\<lparr>cdri := cdri c + k\<rparr>) (s, w))"
    using piperead_dir [OF True] by blast
  have "steady (s, w) (s, w)" using assms by (simp add: steady_def)
  moreover have "samechan c (c\<lparr>cdri := j\<rparr>)" for j by (auto simp: samechan_def)
  ultimately show ?thesis using k by (auto simp: Let_def)
next
  case False
  define i where "i = (if ctype c = Qdata0 then 0 else 1 :: nat)"
  have eq: "piperead env c bf (s, w) =
      Some (bindR (onq i s (qread (pq (pp s) i) (int (length bf)) w)) (\<lambda>r t. Ret (r, c) t))"
    using chanok_type [OF assms(1)] False by (auto simp: piperead_def i_def)
  have "pqok (pq (pp s) i)" using assms by (simp add: i_def)
  from onq_after [OF keeps_qread [OF this] assms(2,3)] obtain t' where
    "after (onq i s (qread (pq (pp s) i) (int (length bf)) w)) = Some t'" "steady (s, w) t'" by blast
  with eq bind_chan_after [of "onq i s (qread (pq (pp s) i) (int (length bf)) w)" t' c] show ?thesis by (cases t') auto
qed

lemma newb_empty: "wfb (newb n p)" "ibal (newb n p) = 0"
proof -
  have "bput (newb n p) [] = newb n p" by (simp add: bput_def)
  with newb_fill [of "[]" n p] show "wfb (newb n p)" "ibal (newb n p) = 0" by simp_all
qed

lemma newb_room: "length (take n (drop (wp (newb n p)) (buf (newb n p)))) = n"
proof -
  have "rp (newb n p) + n \<le> length (buf (newb n p))" using newb_facts(8) [of n p] by linarith
  then have "n \<le> length (buf (newb n p)) - rp (newb n p)" by linarith
  then show ?thesis by simp
qed

lemma pipebread_dir:
  assumes "ctype c = Qdir" "memok w"
  shows "\<exists>r. pipebread env c n (s, w) = Some r \<and> after r = Some (s, tick w) \<and> samechan c (chanafter c r)"
proof -
  let ?b = "newb n (maddr n w)"
  let ?bf = "take n (drop (wp ?b) (buf ?b))" and ?ds = "pipeents env (pp s) c"
  obtain k bf' where k: "piperead env c ?bf (s, tick w) =
     Some (let out = entbytes (take k (drop (cdri c) ?ds)) in
       if k = 0 \<and> cdri c < 2 \<and> ?bf \<noteq> [] then Err Eshort (s, tick w)
       else Ret ((int (length out), out), c\<lparr>cdri := cdri c + k\<rparr>) (s, tick w))"
     "filled ?ds (cdri c) 0 ?bf k bf'"
    using piperead_dir [OF assms(1), of env ?bf s "tick w"] by blast
  have dir: "\<not> ctype c = Qdata0" "\<not> ctype c = Qdata1" using assms(1) by simp_all
  let ?out = "entbytes (take k (drop (cdri c) ?ds))"
  show ?thesis
  proof (cases "k = 0 \<and> cdri c < 2 \<and> ?bf \<noteq> []")
    case True
    then have "piperead env c ?bf (s, tick w) = Some (Err Eshort (s, tick w))" using k(1) by simp
    with dir assms(2) show ?thesis
      by (simp add: pipebread_def devbread_def allocb_eq freeb_eq newb_empty)
  next
    case False
    then have r: "piperead env c ?bf (s, tick w) =
        Some (Ret ((int (length ?out), ?out), c\<lparr>cdri := cdri c + k\<rparr>) (s, tick w))"
      using k(1) by (simp only: if_False Let_def)
    have "length ?out \<le> n" using k(2) newb_room [of n "maddr n w"] by (simp add: filled_def Let_def)
    then have "bfill ?b ?out t = Ret (bput ?b ?out) t" for t :: "(Chan \<times> PS) \<times> Kern"
      by (intro bfill_eq) (use newb_fill(1) [of ?out n] in simp)
    moreover have "samechan c (c\<lparr>cdri := cdri c + k\<rparr>)" by (auto simp: samechan_def)
    ultimately show ?thesis
      using dir assms(2) r by (simp add: pipebread_def devbread_def allocb_eq)
  qed
qed

lemma pipebread_ok:
  assumes "chanok (pp s) c" "pqok (pq (pp s) 0)" "pqok (pq (pp s) 1)" "memok w"
  shows "\<exists>r t'. pipebread env c n (s, w) = Some r \<and> after r = Some t' \<and> steady (s, w) t' \<and> samechan c (chanafter c r)"
proof (cases "ctype c = Qdir")
  case True
  have "steady (s, w) (s, tick w)" using assms by (simp add: steady_def)
  with pipebread_dir [OF True assms(4)] show ?thesis by blast
next
  case False
  define i where "i = (if ctype c = Qdata0 then 0 else 1 :: nat)"
  have eq: "pipebread env c n (s, w) =
      Some (bindR (onq i s (qbread (pq (pp s) i) (int n) w)) (\<lambda>r t. Ret (r, c) t))"
    using chanok_type [OF assms(1)] False by (auto simp: pipebread_def i_def)
  have "pqok (pq (pp s) i)" using assms by (simp add: i_def)
  from onq_after [OF keeps_qbread [OF this assms(4)] assms(2,3)] obtain t' where
    "after (onq i s (qbread (pq (pp s) i) (int n) w)) = Some t'" "steady (s, w) t'" by blast
  with eq bind_chan_after [of "onq i s (qbread (pq (pp s) i) (int n) w)" t' c] show ?thesis by (cases t') auto
qed

lemma pipewstat_after:
  "after (pipewstat env c bf d0 strs s) = Some s' \<Longrightarrow> s' = s \<or> (\<exists>m. s' = s\<lparr>pp := (pp s)\<lparr>pperm := m\<rparr>\<rparr>)"
  by (auto simp: pipewstat_def split: if_splits res.splits option.splits bool.splits)

lemma pipeinv_steady:
  assumes "pipeinv S" "i < length (chans S)" "steady (sps S, skern S) (s, w)" "samechan (chans S ! i) c"
  shows "pipeinv (S\<lparr>sps := s, skern := w, chans := (chans S)[i := c]\<rparr>)"
  by (rule pipeinv_data [OF assms(1,2)]) (use assms(3,4) in \<open>auto simp: steady_def samechan_def\<close>)

lemma pipeinv_step: "pstep S S' \<Longrightarrow> pipeinv S \<Longrightarrow> pipeinv S'"
proof (induction rule: pstep.induct)
  case (walk i S env names es wq s t)
  then show ?case by (intro pipeinv_walk)
next
  case (opn i S omode c s)
  then show ?case by (intro pipeinv_open)
next
  case (cls i S freed s w)
  then show ?case by (intro pipeinv_close)
next
  case (read i S env bf r s w)
  note D = pipeinvD [OF read(5,1)]
  from piperead_ok [OF D(1-3), of env bf "skern S"] read(3,4) pipeinv_steady [OF read(5,1)] show ?case by auto
next
  case (bread i S env n r s w)
  note D = pipeinvD [OF bread(5,1)]
  from pipebread_ok [OF D(1-4), of env n] bread(3,4) pipeinv_steady [OF bread(5,1)] show ?case by auto
next
  case (wrt i S xs s w)
  note D = pipeinvD [OF wrt(5,1)]
  have "ctype (chans S ! i) \<noteq> Qdir" using D(1) wrt(2,3) by (auto simp: chanok_def)
  from pipewrite_ok [OF D(1) this D(2-4), of xs] wrt(4) pipeinv_steady [OF wrt(5,1), of s w "chans S ! i"] show ?case by auto
next
  case (bwrt i S b s w)
  note D = pipeinvD [OF bwrt(6,1)]
  have "ctype (chans S ! i) \<noteq> Qdir" using D(1) bwrt(2,3) by (auto simp: chanok_def)
  from pipebwrite_ok [OF D(1) this D(2,3) bwrt(4), of "skern S"] bwrt(5) pipeinv_steady [OF bwrt(6,1), of s w "chans S ! i"]
  show ?case by auto
next
  case (wst i S env bf d0 strs s)
  note D = pipeinvD [OF wst(3,1)]
  have "steady (sps S, skern S) (s, skern S)"
    using D pipewstat_after [OF wst(2)] by (auto simp: steady_def)
  from pipeinv_steady [OF wst(3,1) this, of "chans S ! i"] show ?case by (cases S) simp
qed

lemma pipeinv_start:
  assumes "pipeattach spec path w = Ret (c, s) (path', w')" "memok w"
  shows "pipeinv (psys0 c s w')"
proof -
  have q: "pqok \<lparr>blocks = [], len = 0, dlen = 0, limit = PIPEQSIZE, inilim = PIPEQSIZE, state = setf 0 Qstarve,
      noblock = False, eof = 0, kick = False, bypass = False, err = '''', log = []\<rparr>"
    by (simp add: pqok_def qinv_def)
  from assms have "memok w'" "c = (devattach 0x7c spec)\<lparr>cqid := mkqid (PIPEQID (2 * path') Qdir) 0 QTDIR, cdevno := 0\<rparr>"
    "pref (pp s) = 1" "ppath (pp s) = path'" "pqref (pp s) = (\<lambda>_. 0)" "pqok (pq (pp s) 0)" "pqok (pq (pp s) 1)"
    using q by (auto simp: pipeattach_def qopen_def memok_def Let_def split: option.splits)
  then show ?thesis
    by (simp add: pipeinv_def psys0_def two_ends chanok_def qidok_def mkqid_def openat_def endtype_def devattach_def)
qed

lemma preach_inv: "preach S \<Longrightarrow> pipeinv S"
  by (induction rule: preach.induct) (blast intro: pipeinv_start pipeinv_step)+

section \<open>A pipe as a channel\<close>

text \<open>Data flows from the channel \<open>cw\<close>, on the end other than \<open>k\<close>, to the channel \<open>cr\<close> on end \<open>k\<close>. What a write
  that went to sleep has queued so far is accepted, too. \<open>q0\<close> is the queue of the other direction.\<close>

definition pipe_put :: "Chan \<Rightarrow> nat \<Rightarrow> PS \<times> Kern \<Rightarrow> byte list \<Rightarrow> (byte list \<times> PS \<times> Kern) option" where
  "pipe_put cw k t xs =
     (case pipewrite cw xs t of
        Ret n t' \<Rightarrow> Some (xs, t')
      | Sleep t' \<Rightarrow> Some (drop (length (qbytes (pq (pp (fst t)) k))) (qbytes (pq (pp (fst t')) k)), t')
      | _ \<Rightarrow> None)"

definition pipe_get :: "Env \<Rightarrow> Chan \<Rightarrow> PS \<times> Kern \<Rightarrow> nat \<Rightarrow> (byte list \<times> PS \<times> Kern) option" where
  "pipe_get env cr t n =
     (case piperead env cr (replicate n 0) t of Some (Ret ((m, xs), c) t') \<Rightarrow> Some (xs, t') | _ \<Rightarrow> None)"

definition pipe_cinv :: "Chan \<Rightarrow> Chan \<Rightarrow> nat \<Rightarrow> Queue \<Rightarrow> PS \<times> Kern \<Rightarrow> bool" where
  "pipe_cinv cw cr k q0 t \<longleftrightarrow> k < 2 \<and> ctype cw = endtype (1 - k) \<and> ctype cr = endtype k \<and>
     pqok (pq (pp (fst t)) k) \<and> pq (pp (fst t)) (1 - k) = q0 \<and> memok (snd t)"

lemma pipewrite_at:
  assumes "k < 2" "ctype cw = endtype (1 - k)"
  shows "pipewrite cw xs (s, w) = noted cw (onq k s (qwrite (pq (pp s) k) xs w))"
proof -
  have "k = 0 \<or> k = 1" using assms(1) by linarith
  with assms(2) show ?thesis by (auto simp: pipewrite_def endtype_def)
qed

lemma piperead_at:
  assumes "k < 2" "ctype cr = endtype k"
  shows "piperead env cr bf (s, w) = Some (bindR (onq k s (qread (pq (pp s) k) (int (length bf)) w)) (\<lambda>r t. Ret (r, cr) t))"
proof -
  have "k = 0 \<or> k = 1" using assms(1) by linarith
  with assms(2) show ?thesis by (auto simp: piperead_def endtype_def)
qed

lemma onq_Ret: "onq i s r = Ret a t \<longleftrightarrow> (\<exists>q' w'. r = Ret a (q', w') \<and> t = (setq i q' s, w'))"
  by (cases r) auto

lemma noted_cases: "noted c r = Ret a t \<longleftrightarrow> r = Ret a t" "noted c r = Sleep t \<longleftrightarrow> r = Sleep t"
  by (cases r; auto)+

lemma pipe_put_law:
  assumes "pipe_cinv cw cr k q0 t" "pipe_put cw k t xs = Some (ys, t')"
  shows "pipe_cinv cw cr k q0 t' \<and> qbytes (pq (pp (fst t')) k) = qbytes (pq (pp (fst t)) k) @ ys \<and> (\<exists>zs. xs = ys @ zs)"
proof -
  obtain s w where t: "t = (s, w)" by (cases t)
  let ?q = "pq (pp s) k"
  from assms(1) t have i: "k < 2" "ctype cw = endtype (1 - k)" "pqok ?q" "pq (pp s) (1 - k) = q0" "memok w"
    by (simp_all add: pipe_cinv_def)
  note wr = pipewrite_at [OF i(1,2), of xs s w]
  have ne: "1 - k \<noteq> k" by presburger
  have opn: "\<not> hasf (state ?q) Qclosed"
    using assms(2) wr qwrite_closed [of ?q w xs] i(3,5) t by (auto simp: pipe_put_def pqok_def)
  have w0: "wrote ?q (if hasf (state ?q) Qmsg then take Maxatomic xs else xs) w (qwrite_loop ?q xs w)"
    by (rule qwrite_loop_ok) (use i opn in \<open>simp_all add: pqok_def\<close>)
  then have w1: "wrote ?q xs w (qwrite_loop ?q xs w)" using i(3) by (simp add: pqok_def)
  then obtain q' w' where r: "t' = (setq k q' s, w')" "appended ?q q' ys" "\<exists>zs. xs = ys @ zs" "kstatic w' = kstatic w"
    using assms(2) wr t
    by (fastforce simp: pipe_put_def qwrite_def wrote_def appended_def balanced_def split: res.splits)
  have "pqok q'" using pqok_static [OF i(3)] r(2) by (simp add: appended_def)
  moreover have "memok w'" using memok_static [OF r(4)] i(5) by simp
  ultimately show ?thesis
    using assms(1) r t ne by (simp add: pipe_cinv_def appended_def)
qed

lemma pipe_get_law:
  assumes "pipe_cinv cw cr k q0 t" "pipe_get env cr t n = Some (xs, t')"
  shows "pipe_cinv cw cr k q0 t' \<and> qbytes (pq (pp (fst t)) k) = xs @ qbytes (pq (pp (fst t')) k) \<and> length xs \<le> n"
proof -
  obtain s w where t: "t = (s, w)" by (cases t)
  let ?q = "pq (pp s) k"
  from assms(1) t have i: "k < 2" "ctype cr = endtype k" "pqok ?q" "pq (pp s) (1 - k) = q0" "memok w"
    by (simp_all add: pipe_cinv_def)
  from assms(2) t obtain m q' w' where r: "qread ?q (int n) w = Ret (m, xs) (q', w')" "t' = (setq k q' s, w')"
    by (auto simp: pipe_get_def piperead_at [OF i(1,2)] onq_Ret split: res.splits)
  have ne: "1 - k \<noteq> k" by presburger
  have q': "pqok q'" "kstatic w' = kstatic w" using keeps_qread [OF i(3), of w n] r(1) by (auto simp: keeps_def)
  have "qbytes ?q = xs @ qbytes q' \<and> length xs \<le> n"
  proof (cases "blocks ?q = []")
    case True
    with r(1) show ?thesis by (auto simp: qread_empty Let_def qbytes_def split: if_splits)
  next
    case False
    from i(3) have "qinv ?q" "\<not> hasf (state ?q) Qmsg" "hasf (state ?q) Qcoalesce \<longrightarrow> qbytes ?q \<noteq> []"
      by (simp_all add: pqok_def)
    from qread_stream_ok [OF this(1,2) False this(3), of n w] r(1) show ?thesis by (auto simp: okR_def)
  qed
  with q' r(2) i t assms(1) ne memok_static [OF q'(2)] show ?thesis by (simp add: pipe_cinv_def)
qed

interpretation pc: channel "pipe_cinv cw cr k q0" "\<lambda>t. qbytes (pq (pp (fst t)) k)" "pipe_put cw k" "pipe_get env cr"
  for cw cr k q0 env
  using pipe_put_law pipe_get_law by unfold_locales blast+

section \<open>Properties\<close>

text \<open>A pipe just attached, and one with both ends open and the bytes 7, 8 on their way to end 1.\<close>

definition pipe_q :: Queue where
  "pipe_q = \<lparr>blocks = [], len = 0, dlen = 0, limit = PIPEQSIZE, inilim = PIPEQSIZE, state = setf 0 Qstarve,
     noblock = False, eof = 0, kick = False, bypass = False, err = [], log = []\<rparr>"

definition pipe_chan :: "u32 \<Rightarrow> u16 \<Rightarrow> Chan" where
  "pipe_chan t fl = newchan\<lparr>cqid := mkqid (PIPEQID 2 t) 0 (if t = Qdir then QTDIR else 0), cflag := fl, cmode := 2\<rparr>"

definition pipe_ex :: "int \<Rightarrow> int \<Rightarrow> int \<Rightarrow> PS" where
  "pipe_ex r a b = \<lparr>pp = \<lparr>pref = r, ppath = 1, pperm = 0x180,
     pq = (\<lambda>i. if i = 0 then pipe_q else queue2_ex 0 [7] [8]), pqref = (\<lambda>i. if i = 0 then a else b)\<rparr>,
     posted = [], lost = []\<rparr>"

lemma pipe_ex_simps [simp]:
  "pqok pipe_q" "pqok (queue2_ex 0 [7] [8])" "pref (pp (pipe_ex r a b)) = r" "pqref (pp (pipe_ex r a b)) 0 = a"
  "pqref (pp (pipe_ex r a b)) (Suc 0) = b" "pq (pp (pipe_ex r a b)) 0 = pipe_q"
  "pq (pp (pipe_ex r a b)) (Suc 0) = queue2_ex 0 [7] [8]" "lost (pipe_ex r a b) = []"
  using queue2_ex_simps [of 0 "[7]" "[8]"] by (simp_all add: pqok_def pipe_q_def qinv_def pipe_ex_def)

lemma pipe_chan_simps [simp]:
  "ctype (pipe_chan Qdata0 fl) = Qdata0" "ctype (pipe_chan Qdata1 fl) = Qdata1" "cflag (pipe_chan t fl) = fl"
  by (simp_all add: pipe_chan_def mkqid_def)

lemma preach_ex: "\<exists>c s w. preach (psys0 c s w)"
proof -
  obtain c s p w where "pipeattach None 0 kern_ex = Ret (c, s) (p, w)"
    by (simp add: pipeattach_def qopen_def kern_ex_def Let_def)
  from preach.start [OF this] show ?thesis by auto
qed

text \<open>C11. In every state of a pipe that can be reached by walking, opening, closing, reading, writing and
  changing permissions on its channels, in any order: the reference count is the number of channels, the
  count of each end is the number of channels open on it, the structure is gone exactly when there are no
  channels any more, and both queues are well-formed.\<close>

theorem pipe_refs:
  assumes "preach S"
  shows "pref (pp (sps S)) = int (length (chans S)) \<and>
     pqref (pp (sps S)) 0 = int (length (filter (\<lambda>c. opened c \<and> ctype c = Qdata0) (chans S))) \<and>
     pqref (pp (sps S)) 1 = int (length (filter (\<lambda>c. opened c \<and> ctype c = Qdata1) (chans S))) \<and>
     gone S = (chans S = []) \<and> qinv (pq (pp (sps S)) 0) \<and> qinv (pq (pp (sps S)) 1)"
  using preach_inv [OF assms]
  by (simp add: pipeinv_def Let_def two_ends users_def openat_def [abs_def] endtype_def pqok_def)

theorem pipe_refs_witness:
  "\<exists>S. preach S \<and> length (chans S) = 1 \<and> pref (pp (sps S)) = 1 \<and> \<not> gone S"
proof -
  obtain c s w where "preach (psys0 c s w)" using preach_ex by blast
  with pipe_refs [OF this] show ?thesis by (auto simp: psys0_def intro!: exI [of _ "psys0 c s w"])
qed

text \<open>C12. Reading and writing the two ends of a pipe in any order is a first-in first-out channel: what was
  in the queue, followed by all the writers got rid of, is what the readers got, followed by what is still
  in the queue. The queue of the other direction is not touched.\<close>

theorem pipe_fifo:
  assumes "k < 2" "ctype cw = endtype (1 - k)" "ctype cr = endtype k" "pqok (pq (pp s) k)" "memok w"
    "runops (pipe_put cw k) (pipe_get env cr) ops (s, w) = (accepted, returned, (s', w'))"
  shows "qbytes (pq (pp s) k) @ accepted = returned @ qbytes (pq (pp s') k) \<and>
     pq (pp s') (1 - k) = pq (pp s) (1 - k) \<and> pqok (pq (pp s') k)"
proof -
  have "pipe_cinv cw cr k (pq (pp s) (1 - k)) (s, w)" using assms(1-5) by (simp add: pipe_cinv_def)
  from pc.runops_fifo [OF this assms(6)] show ?thesis by (simp add: pipe_cinv_def)
qed

theorem pipe_fifo_witness:
  "\<exists>i out s' w'. runops (pipe_put (pipe_chan Qdata0 COPEN) 1) (pipe_get env_ex (pipe_chan Qdata1 COPEN))
     [Put [1, 2, 3], Get 9, Get 9] (pipe_ex 3 1 1, kern_ex) = (i, out, (s', w')) \<and>
     [7, 8] @ i = out @ qbytes (pq (pp s') 1)"
proof -
  obtain i out s' w' where r: "runops (pipe_put (pipe_chan Qdata0 COPEN) 1) (pipe_get env_ex (pipe_chan Qdata1 COPEN))
     [Put [1, 2, 3], Get 9, Get 9] (pipe_ex 3 1 1, kern_ex) = (i, out, (s', w'))"
    by (metis prod.exhaust)
  from pipe_fifo [OF _ _ _ _ _ r] have "[7, 8] @ i = out @ qbytes (pq (pp s') 1)" by (simp add: endtype_def)
  with r show ?thesis by blast
qed

text \<open>\<^verbatim>\<open>pipewstat\<close> allocates as many bytes for the strings as the message has.\<close>

lemma pipewstat_ok:
  assumes "length strs = length bf"
  shows "after (pipewstat env c bf d0 strs s) \<noteq> None"
proof -
  obtain m d strs' where d: "convM2D bf d0 (Some strs) = Ret (m, d) (Some strs')"
    "m = 0 \<or> (\<exists>i. duid d = Strs i \<and> i < length strs')"
    using convM2D_refs [of bf strs d0] assms by auto
  then show ?thesis by (auto simp: pipewstat_def split: bool.split)
qed

text \<open>C13. As long as memory does not run out, no operation on a reachable pipe runs into one of the panics of the
  driver, leaves a buffer, or fails to end: walking to a new channel from one that is not open, opening, closing, reading,
  in bytes or blocks, stat, wstat with as many bytes of memory for the strings as the message has, and writing well-formed
  blocks or bytes to a channel opened for writing all return, fail with an error, or sleep. When memory is
  short, \<^verbatim>\<open>allocb\<close> panics by design; a walk from an open channel and a write to one opened for reading only are what
  the callers of the driver rule out.\<close>

theorem pipe_no_panic:
  assumes "preach S" "i < length (chans S)" "c = chans S ! i"
  shows "(\<not> opened c \<longrightarrow> (\<exists>r. pipewalk env c Nilchan names es (sps S) = Some r \<and> after r \<noteq> None)) \<and>
     after (pipeopen c omode (sps S)) \<noteq> None \<and>
     (\<exists>freed t. pipeclose c (sps S, skern S) = Ret freed t) \<and>
     (\<exists>r. piperead env c bf (sps S, skern S) = Some r \<and> after r \<noteq> None) \<and>
     (\<exists>r. pipebread env c n (sps S, skern S) = Some r \<and> after r \<noteq> None) \<and>
     after (pipestat env c bf (sps S)) \<noteq> None \<and>
     (length strs = length bf \<longrightarrow> after (pipewstat env c bf d0 strs (sps S)) \<noteq> None) \<and>
     (opened c \<and> cmode c \<noteq> 0 \<longrightarrow> after (pipewrite c xs (sps S, skern S)) \<noteq> None \<and>
        (wfb b \<longrightarrow> after (pipebwrite c b (sps S, skern S)) \<noteq> None))"
proof -
  note D = pipeinvD [OF preach_inv [OF assms(1)] assms(2), folded assms(3)]
  have wr: "opened c \<Longrightarrow> cmode c \<noteq> 0 \<Longrightarrow> ctype c \<noteq> Qdir" using D(1) by (auto simp: chanok_def)
  have "after (pipestat env c bf (sps S)) \<noteq> None"
    using chanok_type [OF D(1)] by (auto simp: pipestat_def statout_def convD2M_eq Let_def)
  moreover have "\<exists>r. pipewalk env c Nilchan names es (sps S) = Some r \<and> after r \<noteq> None" if "\<not> opened c"
    using pipewalk_ok [OF D(5) that, of env names es] by fastforce
  moreover have "after (pipeopen c omode (sps S)) \<noteq> None"
    by (simp add: pipeopen_def Let_def split: option.split)
  moreover have "after (pipewstat env c bf d0 strs (sps S)) \<noteq> None" if "length strs = length bf"
    using pipewstat_ok [OF that] .
  moreover have "\<exists>freed t. pipeclose c (sps S, skern S) = Ret freed t"
    using pipeclose_ok [OF D(1-3)] by blast
  moreover have "\<exists>r. piperead env c bf (sps S, skern S) = Some r \<and> after r \<noteq> None"
    using piperead_ok [OF D(1-3), of env bf "skern S"] by fastforce
  moreover have "\<exists>r. pipebread env c n (sps S, skern S) = Some r \<and> after r \<noteq> None"
    using pipebread_ok [OF D(1-4), of env n] by fastforce
  moreover have "after (pipewrite c xs (sps S, skern S)) \<noteq> None" if "opened c" "cmode c \<noteq> 0"
    using pipewrite_ok [OF D(1) wr [OF that] D(2-4), of xs] by auto
  moreover have "after (pipebwrite c b (sps S, skern S)) \<noteq> None" if "opened c" "cmode c \<noteq> 0" "wfb b"
    using pipebwrite_ok [OF D(1) wr [OF that(1,2)] D(2,3) that(3)] by fastforce
  ultimately show ?thesis by blast
qed

theorem pipe_no_panic_witness:
  "\<exists>S. preach S \<and> (\<exists>freed t. pipeclose (chans S ! 0) (sps S, skern S) = Ret freed t) \<and>
     (\<exists>r. piperead env_ex (chans S ! 0) (replicate 9 0) (sps S, skern S) = Some r \<and> after r \<noteq> None)"
proof -
  obtain c s w where S: "preach (psys0 c s w)" using preach_ex by blast
  have "0 < length (chans (psys0 c s w))" by (simp add: psys0_def)
  from pipe_no_panic [OF S this refl, of env_ex "[]" "[]" 0 "replicate 9 0"] S show ?thesis by blast
qed

text \<open>Closing the last channel on an end: after the queues are shut, the rest is as for a channel that was
  never open.\<close>

lemma pipeclose_last:
  assumes "k < 2" "opened c" "ctype c = endtype k" "pqref (pp s) k = 1" "qclose (Some (pq (pp s) k)) w = Ret (Some q') w'"
    "s' = setq k q' (setq (1 - k) (qhangup (pq (pp s) (1 - k)) [])
      (s\<lparr>pp := (pp s)\<lparr>pqref := (pqref (pp s))(k := 0)\<rparr>\<rparr>))"
  shows "pipeclose c (s, w) = pipeclose newchan (s', w')"
proof -
  have "closeend k (s, w) = Ret () (s', w')"
    unfolding assms(6) using assms(4,5) by (simp add: closeend_def Let_def)
  moreover have "k = 0 \<and> ctype c = Qdata0 \<or> k = 1 \<and> ctype c = Qdata1 \<and> ctype c \<noteq> Qdata0"
    using assms(1,3) by (auto simp: endtype_def)
  ultimately show ?thesis using assms(2) by (auto simp: pipeclose_def)
qed

lemma pipeclose_new:
  "pipeclose newchan (s, w) =
     (let p = pp s;
         s = (if pqref p 0 = 0 \<and> pqref p 1 = 0
              then setq 1 (qreopen (pq p 1)) (setq 0 (qreopen (pq p 0)) s) else s);
         p = (pp s)\<lparr>pref := pref (pp s) - 1\<rparr>;
         s = s\<lparr>pp := p\<rparr>
     in if pref p = 0 then Ret True (s\<lparr>lost := lost s @ blocks (pq p 0) @ blocks (pq p 1)\<rparr>, w)
        else Ret False (s, w))"
  by (simp add: pipeclose_def)

lemma setq_same [simp]: "setq k (pq (pp s) k) s = s"
  by (simp add: setq_def)

text \<open>Read \<open>m\<close> times, \<open>n\<close> bytes at most each time; \<open>None\<close> when one of the reads does not return.\<close>

fun pipe_reads :: "Env \<Rightarrow> Chan \<Rightarrow> nat \<Rightarrow> nat \<Rightarrow> PS \<times> Kern \<Rightarrow> (byte list \<times> PS \<times> Kern) option" where
  "pipe_reads env cr n 0 t = Some ([], t)"
| "pipe_reads env cr n (Suc m) t =
     (case pipe_get env cr t n of
        None \<Rightarrow> None
      | Some (xs, t') \<Rightarrow> map_option (\<lambda>(ys, t'). (xs @ ys, t')) (pipe_reads env cr n m t'))"

text \<open>Reading what is on a queue takes no more reads than there are bytes and blocks.\<close>

lemma pipe_reads_drain:
  assumes "k < 2" "ctype cr = endtype k" "0 < n" "pqok (pq (pp s) k)"
  shows "\<exists>m q' w'. m \<le> length (qbytes (pq (pp s) k)) + length (blocks (pq (pp s) k)) \<and>
     pipe_reads env cr n m (s, w) = Some (qbytes (pq (pp s) k), (setq k q' s, w')) \<and>
     blocks q' = [] \<and> pqok q' \<and> qstatic q' = qstatic (pq (pp s) k) \<and> eof q' = eof (pq (pp s) k) \<and>
     balanced w (blocks (pq (pp s) k)) w' []"
  using assms(4)
proof (induction "length (qbytes (pq (pp s) k)) + length (blocks (pq (pp s) k))" arbitrary: s w rule: less_induct)
  case less
  let ?q = "pq (pp s) k"
  have i: "qinv ?q" "\<not> hasf (state ?q) Qmsg" "\<not> hasf (state ?q) Qcoalesce" using less.prems by (simp_all add: pqok_def)
  show ?case
  proof (cases "blocks ?q")
    case Nil
    with less.prems show ?thesis
      by (intro exI [of _ 0] exI [of _ ?q] exI [of _ w]) (simp add: setq_def qbytes_def balanced_def)
  next
    case (Cons b bs)
    let ?l = "length (bdata b)"
    obtain q' w' where r: "qread ?q (int n) w = Ret (int (length (take n (bdata b))), take n (bdata b)) (q', w')"
      "qbytes q' = drop n (bdata b) @ bytesof bs" "length (blocks q') = (if ?l \<le> n then length bs else Suc (length bs))"
      "qinv q'" "qstatic q' = qstatic ?q" "eof q' = eof ?q" "balanced w (blocks ?q) w' (blocks q')"
      using qread_plain_ok [OF i Cons, of n w] by (auto simp: okR_def)
    let ?s = "setq k q' s"
    have q: "qbytes ?q = bdata b @ bytesof bs" "take n (bdata b) @ qbytes q' = qbytes ?q"
      using Cons r(2) by (simp_all add: qbytes_def)
    have get: "pipe_get env cr (s, w) n = Some (take n (bdata b), (?s, w'))"
      using r(1) by (simp add: pipe_get_def piperead_at [OF assms(1,2)])
    have lt: "length (qbytes q') + length (blocks q') < length (qbytes ?q) + length (blocks ?q)"
      using r(2,3) q(1) Cons assms(3) by auto
    have "pqok q'" using pqok_static [OF less.prems r(4,5)] .
    with less.hyps [of ?s w'] lt obtain m q2 w2 where m: "m \<le> length (qbytes q') + length (blocks q')"
      "pipe_reads env cr n m (?s, w') = Some (qbytes q', (setq k q2 ?s, w2))"
      "blocks q2 = []" "pqok q2" "qstatic q2 = qstatic q'" "eof q2 = eof q'" "balanced w' (blocks q') w2 []"
      by auto
    have "setq k q2 ?s = setq k q2 s" by (simp add: setq_def)
    with m get q(2) have "pipe_reads env cr n (Suc m) (s, w) = Some (qbytes ?q, (setq k q2 s, w2))" by simp
    moreover have "Suc m \<le> length (qbytes ?q) + length (blocks ?q)" using m(1) lt by linarith
    ultimately show ?thesis
      using m(3-6) r(5,6) balanced_trans [OF r(7) m(7)] by metis
  qed
qed

text \<open>On a queue that has been hung up, end of file comes after the data.\<close>

lemma pipe_drained:
  assumes "k < 2" "ctype cr = endtype k" "0 < n" "pqok (pq (pp s) k)" "hasf (state (pq (pp s) k)) Qclosed"
    "err (pq (pp s) k) = Ehungup" "eof (pq (pp s) k) < 3"
  shows "\<exists>m s2 w2 s3. m \<le> length (qbytes (pq (pp s) k)) + length (blocks (pq (pp s) k)) \<and>
     pipe_reads env cr n m (s, w) = Some (qbytes (pq (pp s) k), (s2, w2)) \<and>
     ialloc_bytes w2 = ialloc_bytes w - iacct (blocks (pq (pp s) k)) \<and>
     piperead env cr (replicate n 0) (s2, w2) = Some (Ret ((0, []), cr) (s3, w2))"
proof -
  from pipe_reads_drain [OF assms(1-4), of env w] obtain m q' w' where
    r: "m \<le> length (qbytes (pq (pp s) k)) + length (blocks (pq (pp s) k))"
      "pipe_reads env cr n m (s, w) = Some (qbytes (pq (pp s) k), (setq k q' s, w'))"
      "blocks q' = []" "qstatic q' = qstatic (pq (pp s) k)" "eof q' = eof (pq (pp s) k)"
      "balanced w (blocks (pq (pp s) k)) w' []"
    by blast
  have "ialloc_bytes w' = ialloc_bytes w - iacct (blocks (pq (pp s) k))"
    using r(6) by (simp add: balanced_def algebra_simps)
  moreover have "\<exists>s3. piperead env cr (replicate n 0) (setq k q' s, w') = Some (Ret ((0, []), cr) (s3, w'))"
    using assms(5-7) qstaticD [OF r(4)] r(3,5)
    by (simp add: piperead_at [OF assms(1,2)] qread_empty Let_def)
  ultimately show ?thesis using r(1,2) by blast
qed

text \<open>C14. Closing the last channel on one end while channels are open on the other end hangs the pipe up. What
  was on its way to the closed end is freed, as \<^verbatim>\<open>freeblist\<close> frees it. What was on its way to the other end
  stays: reading there in pieces of any size returns all of it, in order, in no more reads than there are bytes and
  blocks, gives every block back, and the read after that returns end of file, unless end of file has been
  returned three times before. Every write at the other end, while there is memory for a block, fails, changes
  nothing of the pipe and posts a note to the writer, unless the pipe is a mounted queue.\<close>

theorem pipe_hangup:
  assumes "k < 2" "opened c" "ctype c = endtype k" "pqref (pp s) k = 1" "pqref (pp s) (1 - k) > 0" "pref (pp s) > 1"
    "pqok (pq (pp s) 0)" "pqok (pq (pp s) 1)"
  shows "\<exists>s' w'. pipeclose c (s, w) = Ret False (s', w') \<and> lost s' = lost s \<and>
     blocks (pq (pp s') (1 - k)) = blocks (pq (pp s) (1 - k)) \<and>
     blocks (pq (pp s') k) = [] \<and> freeblist (blocks (pq (pp s) k)) w = Ret () w' \<and>
     ialloc_bytes w' = ialloc_bytes w - iacct (blocks (pq (pp s) k)) \<and>
     qisclosed (pq (pp s') 0) \<and> qisclosed (pq (pp s') 1) \<and>
     (\<forall>env cr n w1. ctype cr = endtype (1 - k) \<longrightarrow> 0 < n \<longrightarrow> eof (pq (pp s) (1 - k)) < 3 \<longrightarrow>
        (\<exists>m s2 w2 s3. m \<le> length (qbytes (pq (pp s) (1 - k))) + length (blocks (pq (pp s) (1 - k))) \<and>
           pipe_reads env cr n m (s', w1) = Some (qbytes (pq (pp s) (1 - k)), (s2, w2)) \<and>
           ialloc_bytes w2 = ialloc_bytes w1 - iacct (blocks (pq (pp s) (1 - k))) \<and>
           piperead env cr (replicate n 0) (s2, w2) = Some (Ret ((0, []), cr) (s3, w2)))) \<and>
     (\<forall>cw xs w1. ctype cw = endtype (1 - k) \<longrightarrow> memok w1 \<longrightarrow>
        pipewrite cw xs (s', w1) = Err Ehungup
          (if hasf (cflag cw) CMSG then s' else s'\<lparr>posted := posted s' @ [Eclosedpipe]\<rparr>, tick w1))"
proof -
  have k: "k = 0 \<or> k = 1" "1 - k < 2" "1 - k \<noteq> k" "1 - (1 - k) = k" using assms(1) by presburger+
  let ?q = "pq (pp s)"
  have ok: "pqok (?q k)" "pqok (?q (1 - k))" using k(1) assms(7,8) by auto
  from qclose_pqok [OF ok(1)] obtain q' w' where q': "qclose (Some (?q k)) w = Ret (Some q') w'" "pqok q'" "blocks q' = []"
    "hasf (state q') Qclosed" "err q' = Ehungup" by blast
  have fr: "freeblist (blocks (?q k)) w = Ret () w'" "ialloc_bytes w' = ialloc_bytes w - iacct (blocks (?q k))"
    using q'(1) ok(1) by (auto simp: qclose_def pqok_def qinv_def freeblist_eq)
  define s' where "s' = setq k q' (setq (1 - k) (qhangup (?q (1 - k)) [])
      (s\<lparr>pp := (pp s)\<lparr>pqref := (pqref (pp s))(k := 0)\<rparr>\<rparr>))"
  define s2 where "s2 = s'\<lparr>pp := (pp s')\<lparr>pref := pref (pp s) - 1\<rparr>\<rparr>"
  have "\<not> (pqref (pp s') 0 = 0 \<and> pqref (pp s') 1 = 0)" "pref (pp s') = pref (pp s)"
    using k(1) assms(5) by (auto simp: s'_def)
  then have cl: "pipeclose c (s, w) = Ret False (s2, w')"
    unfolding pipeclose_last [OF assms(1-4) q'(1) s'_def] pipeclose_new using assms(6)
    by (auto simp: s2_def Let_def)
  have q2: "pq (pp s2) k = q'" "pq (pp s2) (1 - k) = qhangup (?q (1 - k)) ''''" "lost s2 = lost s"
    using k(3) by (auto simp: s2_def s'_def)
  have hu: "hasf (state (qhangup q m)) Qclosed" "blocks (qhangup q m) = blocks q" "eof (qhangup q m) = eof q"
    "err (qhangup q '''') = Ehungup" for q m by (simp_all add: qhangup_def)
  have closed: "qisclosed (pq (pp s2) 0)" "qisclosed (pq (pp s2) 1)"
    using k(1) q2 q'(4) hu(1) by (auto simp: qisclosed_def)
  have "qbytes (qhangup (?q (1 - k)) []) = qbytes (?q (1 - k))" by (simp add: qbytes_def hu)
  then have rd: "\<exists>m s3 w2 s4. m \<le> length (qbytes (?q (1 - k))) + length (blocks (?q (1 - k))) \<and>
      pipe_reads env cr n m (s2, w1) = Some (qbytes (?q (1 - k)), (s3, w2)) \<and>
      ialloc_bytes w2 = ialloc_bytes w1 - iacct (blocks (?q (1 - k))) \<and>
      piperead env cr (replicate n 0) (s3, w2) = Some (Ret ((0, []), cr) (s4, w2))"
    if "ctype cr = endtype (1 - k)" "0 < n" "eof (?q (1 - k)) < 3" for env cr n w1
    using pipe_drained [OF k(2) that(1,2), of s2 env w1] q2(2) hu ok(2) that(3) by simp
  have wr: "pipewrite cw xs (s2, w1) = Err Ehungup
      (if hasf (cflag cw) CMSG then s2 else s2\<lparr>posted := posted s2 @ [Eclosedpipe]\<rparr>, tick w1)"
    if "ctype cw = endtype (1 - k)" "memok w1" for cw xs w1
  proof -
    have "qwrite q' xs w1 = Err Ehungup (q', tick w1)" using q'(2,4,5) that(2) by (simp add: qwrite_closed pqok_def)
    moreover have "setq k q' s2 = s2" using setq_same [of k s2] q2(1) by simp
    ultimately show ?thesis using q2(1) by (simp add: pipewrite_at [OF assms(1) that(1)])
  qed
  from cl q2 closed rd wr hu q'(3) fr show ?thesis by (intro exI [of _ s2] exI [of _ w']) auto
qed

theorem pipe_hangup_witness:
  "\<exists>s' w'. pipeclose (pipe_chan Qdata0 COPEN) (pipe_ex 3 1 1, kern_ex) = Ret False (s', w') \<and>
     qbytes (pq (pp s') 1) = [7, 8] \<and> qisclosed (pq (pp s') 1)"
proof -
  have "opened (pipe_chan Qdata0 COPEN)" by (simp add: hasf_def COPEN_def)
  with pipe_hangup [of 0 "pipe_chan Qdata0 COPEN" "pipe_ex 3 1 1" kern_ex]
  obtain s' w' where "pipeclose (pipe_chan Qdata0 COPEN) (pipe_ex 3 1 1, kern_ex) = Ret False (s', w')"
    "blocks (pq (pp s') 1) = blocks (queue2_ex 0 [7] [8])" "qisclosed (pq (pp s') 1)"
    by (auto simp: endtype_def)
  moreover have "qbytes (queue2_ex 0 [7] [8]) = [7, 8]" by simp
  ultimately show ?thesis by (auto simp: qbytes_def)
qed

text \<open>C35. When the last channel of a pipe is closed while only one of its ends was in use, what was
  written to that end for the other to read is lost: the queue structure is freed with the blocks
  still on it, and nothing frees the blocks.\<close>

theorem pipe_leak:
  assumes "k < 2" "opened c" "ctype c = endtype k" "pqref (pp s) k = 1" "pqref (pp s) (1 - k) = 0" "pref (pp s) = 1"
    "pqok (pq (pp s) 0)" "pqok (pq (pp s) 1)"
  shows "\<exists>s' w'. pipeclose c (s, w) = Ret True (s', w') \<and> lost s' = lost s @ blocks (pq (pp s) (1 - k))"
proof -
  have k: "k = 0 \<or> k = 1" using assms(1) by presburger
  have "pqok (pq (pp s) k)" using k assms(7,8) by auto
  from qclose_pqok [OF this, of w] obtain q' w' where q': "qclose (Some (pq (pp s) k)) w = Ret (Some q') w'" "blocks q' = []"
    by blast
  define s' where "s' = setq k q' (setq (1 - k) (qhangup (pq (pp s) (1 - k)) [])
      (s\<lparr>pp := (pp s)\<lparr>pqref := (pqref (pp s))(k := 0)\<rparr>\<rparr>))"
  have "pqref (pp s') 0 = 0" "pqref (pp s') 1 = 0" "pref (pp s') = 1" "lost s' = lost s"
    "blocks (pq (pp s') 0) @ blocks (pq (pp s') 1) = blocks (pq (pp s) (1 - k))"
    using k assms(5,6) q'(2) by (auto simp: s'_def qhangup_def)
  then show ?thesis
    unfolding pipeclose_last [OF assms(1-4) q'(1) s'_def] pipeclose_new
    by (simp add: qreopen_def Let_def)
qed

theorem pipe_leak_witness:
  "\<exists>s' w'. pipeclose (pipe_chan Qdata0 COPEN) (pipe_ex 1 1 0, kern_ex) = Ret True (s', w') \<and> lost s' \<noteq> []"
proof -
  have "opened (pipe_chan Qdata0 COPEN)" by (simp add: hasf_def COPEN_def)
  with pipe_leak [of 0 "pipe_chan Qdata0 COPEN" "pipe_ex 1 1 0" kern_ex]
  obtain s' w' where "pipeclose (pipe_chan Qdata0 COPEN) (pipe_ex 1 1 0, kern_ex) = Ret True (s', w')"
    "lost s' = blocks (queue2_ex 0 [7] [8])"
    by (auto simp: endtype_def)
  moreover have "blocks (queue2_ex 0 [7] [8]) \<noteq> []" by (simp add: queue2_ex_def)
  ultimately show ?thesis by auto
qed

end
