(* ===== verification/Rune_Props.thy ===== *)
theory Rune_Props
  imports Runes
begin

text \<open>
  The UTF-8 codec of \<open>Runes\<close> computes what Unicode defines: \<^verbatim>\<open>chartorune\<close> accepts exactly the shortest
  encodings of characters that are not surrogates, \<^verbatim>\<open>runetochar\<close> produces them, and the functions
  on strings stay inside NUL-terminated memory. The bit operations are turned into arithmetic
  once, byte facts are checked for all 256 bytes.
\<close>

section \<open>Bytes and bits\<close>

text \<open>Facts about single bytes, by going through all of them.\<close>

lemma byte_cases: "(\<And>n. n \<in> set [0..<256] \<Longrightarrow> P (of_nat n)) \<Longrightarrow> P (b :: byte)"
proof -
  assume a: "\<And>n. n \<in> set [0..<256] \<Longrightarrow> P (of_nat n)"
  have "unat b \<in> set [0..<256]" using unsigned_less [of b] by simp
  from a [OF this] show ?thesis by simp
qed

lemma cont_byte:
  "(ucast (b :: byte) XOR 0x80) AND 0xC0 = (0 :: u32) \<longleftrightarrow> 128 \<le> unat b \<and> unat b < 192"
proof (rule byte_cases)
  have "list_all (\<lambda>n. ((ucast (of_nat n :: byte) XOR 0x80) AND 0xC0 = (0 :: u32)) =
      (128 \<le> unat (of_nat n :: byte) \<and> unat (of_nat n :: byte) < 192)) [0..<256]"
    by code_simp
  then show "((ucast (of_nat n :: byte) XOR 0x80) AND 0xC0 = (0 :: u32)) =
      (128 \<le> unat (of_nat n :: byte) \<and> unat (of_nat n :: byte) < 192)" if "n \<in> set [0..<256]" for n
    using that by (simp add: list_all_iff)
qed

lemma cont_val:
  assumes "128 \<le> unat (b :: byte)" "unat b < 192"
  shows "ucast b XOR 0x80 = (of_nat (unat b - 128) :: u32)"
proof -
  have "128 \<le> unat (b :: byte) \<and> unat b < 192 \<longrightarrow> ucast b XOR 0x80 = (of_nat (unat b - 128) :: u32)"
  proof (rule byte_cases)
    have "list_all (\<lambda>n. 128 \<le> unat (of_nat n :: byte) \<and> unat (of_nat n :: byte) < 192 \<longrightarrow>
        ucast (of_nat n :: byte) XOR 0x80 = (of_nat (unat (of_nat n :: byte) - 128) :: u32)) [0..<256]"
      by code_simp
    then show "128 \<le> unat (of_nat n :: byte) \<and> unat (of_nat n :: byte) < 192 \<longrightarrow>
        ucast (of_nat n :: byte) XOR 0x80 = (of_nat (unat (of_nat n :: byte) - 128) :: u32)" if "n \<in> set [0..<256]" for n
      using that by (simp add: list_all_iff)
  qed
  with assms show ?thesis by simp
qed

text \<open>Bit operations on words as arithmetic.\<close>

lemma unat_shift_or:
  fixes l :: u32
  assumes "unat l < 2 ^ 20" "x < 64"
  shows "unat (push_bit 6 l OR of_nat x) = 64 * unat l + x"
proof -
  have "push_bit 6 l OR of_nat x = push_bit 6 l + of_nat x"
  proof (rule disjunctive_add [symmetric])
    fix n
    have "\<not> bit (of_nat x :: u32) n" if "6 \<le> n"
    proof -
      have "take_bit 6 (of_nat x :: u32) = of_nat x"
        using assms(2) by (simp add: take_bit_of_nat flip: of_nat_take_bit) (simp add: take_bit_nat_eq_self)
      then show ?thesis using that by (metis bit_take_bit_iff linorder_not_le)
    qed
    then show "\<not> bit (push_bit 6 l) n \<or> \<not> bit (of_nat x :: u32) n" by (cases "6 \<le> n") (auto simp: bit_simps)
  qed
  moreover have "unat (push_bit 6 l) = 64 * unat l"
    using assms(1) by (simp add: push_bit_eq_mult unat_word_ariths)
  moreover have "unat (of_nat x :: u32) = x" using assms(2) by (simp add: unat_of_nat)
  ultimately show ?thesis using assms by (simp add: unat_word_ariths)
qed

lemma unat_and_mask:
  "unat (l AND 0x7FF :: u32) = unat l mod 2 ^ 11" "unat (l AND 0xFFFF :: u32) = unat l mod 2 ^ 16"
  "unat (l AND 0x1FFFFF :: u32) = unat l mod 2 ^ 21" "unat (l AND 0x3F :: u32) = unat l mod 2 ^ 6"
proof -
  have *: "unat (l AND mask k :: u32) = unat l mod 2 ^ k" for k
    by (simp add: take_bit_eq_mask [symmetric] unsigned_take_bit_eq) (simp add: take_bit_eq_mod)
  show "unat (l AND 0x7FF :: u32) = unat l mod 2 ^ 11" using * [of 11] by (simp add: mask_eq_exp_minus_1)
  show "unat (l AND 0xFFFF :: u32) = unat l mod 2 ^ 16" using * [of 16] by (simp add: mask_eq_exp_minus_1)
  show "unat (l AND 0x1FFFFF :: u32) = unat l mod 2 ^ 21" using * [of 21] by (simp add: mask_eq_exp_minus_1)
  show "unat (l AND 0x3F :: u32) = unat l mod 2 ^ 6" using * [of 6] by (simp add: mask_eq_exp_minus_1)
qed


section \<open>Decoding, step by step\<close>

definition cont :: "byte \<Rightarrow> bool" where
  "cont b \<longleftrightarrow> 128 \<le> unat b \<and> unat b < 192"

abbreviation bad :: "(u32 \<times> nat) option" where
  "bad \<equiv> Some (Runeerror, 1)"

lemma loop_stop:
  "i < 4 \<Longrightarrow> length str \<le> i \<Longrightarrow> chartorune_loop str c0 i l = None"
  "i < 4 \<Longrightarrow> i < length str \<Longrightarrow> \<not> cont (str ! i) \<Longrightarrow> chartorune_loop str c0 i l = bad"
  by (subst chartorune_loop.simps, simp add: Let_def cont_byte cont_def)+

lemma unat_small: "n < 2 ^ 32 \<Longrightarrow> unat (of_nat n :: u32) = n"
  by (simp add: unat_of_nat)

lemma loop_go:
  assumes "i < 4" "i < length str" "cont (str ! i)" "l < 2 ^ 20" "v = 64 * l + (unat (str ! i) - 128)"
    "j = i + 1" "k = i + 2"
  shows "chartorune_loop str c0 i (of_nat l) =
     (if c0 < T k then
        let l = of_nat v AND RuneX j in
        if (if i = 1 then c0 < T 2 \<or> l \<le> Rune1 else l \<le> RuneX i \<or> l > Runemax) then bad
        else if i = 2 \<and> SurrogateMin \<le> l \<and> l \<le> SurrogateMax then bad
        else Some (l, j)
      else chartorune_loop str c0 j (of_nat v))"
proof -
  have c: "128 \<le> unat (str ! i)" "unat (str ! i) < 192" using assms(3) by (auto simp: cont_def)
  have l: "unat (of_nat l :: u32) = l" using assms(4) by (simp add: unat_of_nat)
  have "v < 2 ^ 32" using assms(4,5) c by simp
  then have v: "unat (of_nat v :: u32) = v" by (rule unat_small)
  have "unat (push_bit 6 (of_nat l) OR of_nat (unat (str ! i) - 128) :: u32) = v"
    using unat_shift_or [of "of_nat l" "unat (str ! i) - 128"] c assms(4) unfolding l assms(5) by simp
  then have "push_bit 6 (of_nat l) OR of_nat (unat (str ! i) - 128) = (of_nat v :: u32)"
    unfolding word_unat_eq_iff v .
  then have e: "push_bit 6 (of_nat l) OR (ucast (str ! i) XOR 0x80) = (of_nat v :: u32)"
    by (simp only: cont_val [OF c])
  show ?thesis
    using assms(1,2) c unfolding assms(6,7)
    by (subst chartorune_loop.simps) (simp only: rune_consts e Let_def cont_byte, simp)
qed

lemma and_RuneX:
  assumes "v < 2 ^ 32"
  shows "of_nat v AND RuneX 2 = (of_nat (v mod 2 ^ 11) :: u32)" "of_nat v AND RuneX 3 = (of_nat (v mod 2 ^ 16) :: u32)"
    "of_nat v AND RuneX 4 = (of_nat (v mod 2 ^ 21) :: u32)"
  using assms by (simp_all add: word_unat_eq_iff unat_and_mask) (simp_all add: unat_of_nat)

lemma loop_1:
  assumes "1 < length str" "cont (str ! 1)" "a < 256" "v = 64 * a + (unat (str ! 1) - 128)"
  shows "chartorune_loop str (of_nat a) 1 (of_nat a) =
     (if a < 224 then if a < 192 \<or> v mod 2 ^ 11 < 128 then bad else Some (of_nat (v mod 2 ^ 11), 2)
      else chartorune_loop str (of_nat a) 2 (of_nat v))"
proof -
  have v: "v < 2 ^ 32" using assms(2,3,4) by (auto simp: cont_def)
  have u: "unat (of_nat a :: u32) = a" "unat (of_nat (v mod 2 ^ 11) :: u32) = v mod 2 ^ 11"
    using assms(3) by (simp_all add: unat_of_nat)
  have "chartorune_loop str (of_nat a) 1 (of_nat a) =
      (if of_nat a < T 3 then
         let l = of_nat v AND RuneX 2 in
         if of_nat a < T 2 \<or> l \<le> Rune1 then bad else Some (l, 2)
       else chartorune_loop str (of_nat a) 2 (of_nat v))"
    by (subst loop_go [OF _ assms(1,2) _ assms(4), of 2 3]) (use assms(3) in \<open>simp_all add: Let_def\<close>)
  also have "\<dots> = (if a < 224 then if a < 192 \<or> v mod 2 ^ 11 < 128 then bad else Some (of_nat (v mod 2 ^ 11), 2)
      else chartorune_loop str (of_nat a) 2 (of_nat v))"
    unfolding and_RuneX [OF v] word_less_nat_alt word_le_nat_alt u Let_def by auto
  finally show ?thesis .
qed

lemma loop_2:
  assumes "2 < length str" "cont (str ! 2)" "224 \<le> a" "a < 256" "l < 2 ^ 14" "v = 64 * l + (unat (str ! 2) - 128)"
  shows "chartorune_loop str (of_nat a) 2 (of_nat l) =
     (if a < 240
      then if v mod 2 ^ 16 < 2 ^ 11 \<or> 0xD800 \<le> v mod 2 ^ 16 \<and> v mod 2 ^ 16 \<le> 0xDFFF then bad
           else Some (of_nat (v mod 2 ^ 16), 3)
      else chartorune_loop str (of_nat a) 3 (of_nat v))"
proof -
  have v: "v < 2 ^ 32" using assms(2,5,6) by (auto simp: cont_def)
  have u: "unat (of_nat a :: u32) = a" "unat (of_nat (v mod 2 ^ 16) :: u32) = v mod 2 ^ 16"
    using assms(4) by (simp_all add: unat_of_nat)
  have m: "v mod 2 ^ 16 < 2 ^ 16" by simp
  have "chartorune_loop str (of_nat a) 2 (of_nat l) =
      (if of_nat a < T 4 then
         let l = of_nat v AND RuneX 3 in
         if l \<le> RuneX 2 \<or> l > Runemax then bad
         else if SurrogateMin \<le> l \<and> l \<le> SurrogateMax then bad else Some (l, 3)
       else chartorune_loop str (of_nat a) 3 (of_nat v))"
    by (subst loop_go [OF _ assms(1,2) _ assms(6), of 3 4]) (use assms(5) in \<open>simp_all add: Let_def\<close>)
  also have "\<dots> = (if a < 240
      then if v mod 2 ^ 16 < 2 ^ 11 \<or> 0xD800 \<le> v mod 2 ^ 16 \<and> v mod 2 ^ 16 \<le> 0xDFFF then bad
           else Some (of_nat (v mod 2 ^ 16), 3)
      else chartorune_loop str (of_nat a) 3 (of_nat v))"
  proof -
    define w where "w = v mod 2 ^ 16"
    have "unat (of_nat w :: u32) = w" "w < 2 ^ 16" using u(2) m by (simp_all only: w_def)
    then show ?thesis
      unfolding and_RuneX [OF v] word_less_nat_alt word_le_nat_alt u(1) Let_def rune_defs w_def [symmetric]
      by (simp add: not_less not_le less_Suc_eq_le)
  qed
  finally show ?thesis .
qed

lemma loop_3:
  assumes "3 < length str" "cont (str ! 3)" "240 \<le> a" "a < 256" "l < 2 ^ 20" "v = 64 * l + (unat (str ! 3) - 128)"
  shows "chartorune_loop str (of_nat a) 3 (of_nat l) =
     (if a < 248 then if v mod 2 ^ 21 < 2 ^ 16 \<or> v mod 2 ^ 21 > 0x10FFFF then bad else Some (of_nat (v mod 2 ^ 21), 4)
      else bad)"
proof -
  have v: "v < 2 ^ 32" using assms(2,5,6) by (auto simp: cont_def)
  have u: "unat (of_nat a :: u32) = a" "unat (of_nat (v mod 2 ^ 21) :: u32) = v mod 2 ^ 21"
    using assms(4) by (simp_all add: unat_of_nat)
  have e: "chartorune_loop str (of_nat a) 4 x = bad" for x by (subst chartorune_loop.simps) simp
  have "chartorune_loop str (of_nat a) 3 (of_nat l) =
      (if of_nat a < T 5 then
         let l = of_nat v AND RuneX 4 in
         if l \<le> RuneX 3 \<or> l > Runemax then bad else Some (l, 4)
       else bad)"
    by (subst loop_go [OF _ assms(1,2,5,6), of 4 5]) (simp_all add: e Let_def)
  also have "\<dots> = (if a < 248 then if v mod 2 ^ 21 < 2 ^ 16 \<or> v mod 2 ^ 21 > 0x10FFFF then bad
       else Some (of_nat (v mod 2 ^ 21), 4) else bad)"
  proof -
    define w where "w = v mod 2 ^ 21"
    have "unat (of_nat w :: u32) = w" using u(2) by (simp only: w_def)
    then show ?thesis
      unfolding and_RuneX [OF v] word_less_nat_alt word_le_nat_alt u(1) Let_def rune_defs w_def [symmetric]
      by (simp add: not_less not_le less_Suc_eq_le)
  qed
  finally show ?thesis .
qed

section \<open>UTF-8\<close>

text \<open>The encoding of a character, as Unicode defines it, and the numbers that are characters.\<close>

definition scalar :: "nat \<Rightarrow> bool" where
  "scalar r \<longleftrightarrow> r \<le> 0x10FFFF \<and> \<not> (0xD800 \<le> r \<and> r \<le> 0xDFFF)"

definition utf8 :: "nat \<Rightarrow> nat list" where
  "utf8 r =
     (if r < 2 ^ 7 then [r]
      else if r < 2 ^ 11 then [192 + r div 64, 128 + r mod 64]
      else if r < 2 ^ 16 then [224 + r div 64 ^ 2, 128 + r div 64 mod 64, 128 + r mod 64]
      else [240 + r div 64 ^ 3, 128 + r div 64 ^ 2 mod 64, 128 + r div 64 mod 64, 128 + r mod 64])"

lemma unat_byte [simp]: "unat (b :: byte) < 256"
proof -
  have "unat b < 2 ^ LENGTH(8)" by (rule unsigned_less)
  then show ?thesis by simp
qed

lemma unat_ucast_byte [simp]: "unat (ucast (b :: byte) :: u32) = unat b"
proof -
  have "unat b < 2 ^ 32" by (rule less_trans [OF unat_byte]) simp
  then show ?thesis by (simp add: unsigned_ucast_eq take_bit_nat_eq_self)
qed

lemma ucast_byte_nat: "unat (b :: byte) = a \<Longrightarrow> ucast b = (of_nat a :: u32)"
  by (auto simp: word_unat_eq_iff)

lemma chartorune_one: "unat b = a \<Longrightarrow> a < 128 \<Longrightarrow> chartorune (b # s) = Some (of_nat a, 1)"
  unfolding chartorune_def Let_def using unat_byte [of b]
  by (simp add: word_less_nat_alt ucast_byte_nat unat_small)

lemma chartorune_multi:
  "unat b = a \<Longrightarrow> 128 \<le> a \<Longrightarrow> chartorune (b # s) = chartorune_loop (b # s) (of_nat a) 1 (of_nat a)"
  unfolding chartorune_def Let_def using unat_byte [of b]
  by (simp add: word_less_nat_alt ucast_byte_nat unat_small)

lemma div_64:
  "(r :: nat) div 64 = 64 * (r div 64 ^ 2) + r div 64 mod 64"
  "(r :: nat) div 64 ^ 2 = 64 * (r div 64 ^ 3) + r div 64 ^ 2 mod 64"
proof -
  have "r div 64 ^ 2 = r div 64 div 64" by (simp only: power2_eq_square div_mult2_eq)
  then show "r div 64 = 64 * (r div 64 ^ 2) + r div 64 mod 64" by (simp only: mult_div_mod_eq)
  have "r div 64 ^ 3 = r div 64 ^ 2 div 64" by (simp only: power3_eq_cube power2_eq_square div_mult2_eq)
  then show "r div 64 ^ 2 = 64 * (r div 64 ^ 3) + r div 64 ^ 2 mod 64" by (simp only: mult_div_mod_eq)
qed

lemma decode_2:
  assumes "unat b0 = 192 + r div 64" "unat b1 = 128 + r mod 64" "2 ^ 7 \<le> r" "r < 2 ^ 11"
  shows "chartorune (b0 # b1 # s) = Some (of_nat r, 2)"
proof -
  define a where "a = 192 + r div 64"
  have a: "unat b0 = a" "128 \<le> a" "192 \<le> a" "a < 224" "a < 256" using assms(1,4) by (simp_all add: a_def)
  have v: "r + 6 * 2 ^ 11 = 64 * a + (unat b1 - 128)" using assms(2) by (simp add: a_def)
  have m: "(r + 6 * 2 ^ 11) mod 2 ^ 11 = r" using assms(4) by (simp only: mod_mult_self1 mod_less)
  have "chartorune (b0 # b1 # s) = chartorune_loop (b0 # b1 # s) (of_nat a) 1 (of_nat a)"
    by (rule chartorune_multi [OF a(1,2)])
  also have "\<dots> = Some (of_nat r, 2)"
    by (subst loop_1 [OF _ _ a(5), of _ "r + 6 * 2 ^ 11"], unfold m)
       (use assms(2,3) a(3,4) v in \<open>simp_all add: cont_def\<close>)
  finally show ?thesis .
qed

lemma decode_3:
  assumes "unat b0 = 224 + r div 64 ^ 2" "unat b1 = 128 + r div 64 mod 64" "unat b2 = 128 + r mod 64"
    "2 ^ 11 \<le> r" "r < 2 ^ 16" "\<not> (0xD800 \<le> r \<and> r \<le> 0xDFFF)"
  shows "chartorune (b0 # b1 # b2 # s) = Some (of_nat r, 3)"
proof -
  define a where "a = 224 + r div 64 ^ 2"
  have a: "unat b0 = a" "128 \<le> a" "224 \<le> a" "a < 240" "a < 256" using assms(1,5) by (simp_all add: a_def)
  have q: "r div 64 = 64 * (r div 64 ^ 2) + r div 64 mod 64" by (rule div_64)
  have l: "r div 64 + 64 * 224 = 64 * a + (unat b1 - 128)" using assms(2) q by (simp add: a_def)
  have v: "r + 14 * 2 ^ 16 = 64 * (r div 64 + 64 * 224) + (unat b2 - 128)" using assms(3) by simp
  have m: "(r + 14 * 2 ^ 16) mod 2 ^ 16 = r" using assms(5) by (simp only: mod_mult_self1 mod_less)
  have "chartorune (b0 # b1 # b2 # s) = chartorune_loop (b0 # b1 # b2 # s) (of_nat a) 1 (of_nat a)"
    by (rule chartorune_multi [OF a(1,2)])
  also have "\<dots> = chartorune_loop (b0 # b1 # b2 # s) (of_nat a) 2 (of_nat (r div 64 + 64 * 224))"
    by (subst loop_1 [OF _ _ a(5), of _ "r div 64 + 64 * 224"])
       (use assms(2) a(3) l in \<open>simp_all add: cont_def\<close>)
  also have "\<dots> = Some (of_nat r, 3)"
    by (subst loop_2 [OF _ _ a(3,5), of _ _ "r + 14 * 2 ^ 16"], unfold m)
       (use assms(3-6) a(4) v in \<open>simp_all add: cont_def\<close>)
  finally show ?thesis .
qed

lemma decode_4:
  assumes "unat b0 = 240 + r div 64 ^ 3" "unat b1 = 128 + r div 64 ^ 2 mod 64" "unat b2 = 128 + r div 64 mod 64"
    "unat b3 = 128 + r mod 64" "2 ^ 16 \<le> r" "r \<le> 0x10FFFF"
  shows "chartorune (b0 # b1 # b2 # b3 # s) = Some (of_nat r, 4)"
proof -
  define a where "a = 240 + r div 64 ^ 3"
  have a: "unat b0 = a" "128 \<le> a" "240 \<le> a" "a < 248" "a < 256" using assms(1,6) by (simp_all add: a_def)
  let ?l = "r div 64 ^ 2 + 64 * 240" and ?m = "r div 64 + 64 ^ 2 * 240"
  have q: "r div 64 ^ 2 = 64 * (r div 64 ^ 3) + r div 64 ^ 2 mod 64" "r div 64 = 64 * (r div 64 ^ 2) + r div 64 mod 64"
    by (rule div_64)+
  have l: "?l = 64 * a + (unat b1 - 128)" using assms(2) q(1) by (simp add: a_def)
  have k: "?m = 64 * ?l + (unat b2 - 128)" using assms(3) q(2) by simp
  have v: "r + 30 * 2 ^ 21 = 64 * ?m + (unat b3 - 128)" using assms(4) by simp
  have "r < 2 ^ 21" using assms(6) by simp
  then have m: "(r + 30 * 2 ^ 21) mod 2 ^ 21 = r" by (simp only: mod_mult_self1 mod_less)
  have small: "?l < 2 ^ 14" "?m < 2 ^ 20" using assms(6) by simp_all
  have "chartorune (b0 # b1 # b2 # b3 # s) = chartorune_loop (b0 # b1 # b2 # b3 # s) (of_nat a) 1 (of_nat a)"
    by (rule chartorune_multi [OF a(1,2)])
  also have "\<dots> = chartorune_loop (b0 # b1 # b2 # b3 # s) (of_nat a) 2 (of_nat ?l)"
    by (subst loop_1 [OF _ _ a(5), of _ ?l]) (use assms(2) a(3) l in \<open>simp_all add: cont_def\<close>)
  also have "\<dots> = chartorune_loop (b0 # b1 # b2 # b3 # s) (of_nat a) 3 (of_nat ?m)"
    by (subst loop_2 [OF _ _ _ a(5) small(1), of _ ?m]) (use assms(3) a(3) k in \<open>simp_all add: cont_def\<close>)
  also have "\<dots> = Some (of_nat r, 4)"
    by (subst loop_3 [OF _ _ a(3,5) small(2), of _ "r + 30 * 2 ^ 21"], unfold m)
       (use assms(4-6) a(4) v in \<open>simp_all add: cont_def\<close>)
  finally show ?thesis .
qed

lemma utf8_cases:
  assumes "scalar r"
  obtains "r < 2 ^ 7" "utf8 r = [r]"
  | "2 ^ 7 \<le> r" "r < 2 ^ 11" "utf8 r = [192 + r div 64, 128 + r mod 64]"
  | "2 ^ 11 \<le> r" "r < 2 ^ 16" "\<not> (0xD800 \<le> r \<and> r \<le> 0xDFFF)"
    "utf8 r = [224 + r div 64 ^ 2, 128 + r div 64 mod 64, 128 + r mod 64]"
  | "2 ^ 16 \<le> r" "r \<le> 0x10FFFF"
    "utf8 r = [240 + r div 64 ^ 3, 128 + r div 64 ^ 2 mod 64, 128 + r div 64 mod 64, 128 + r mod 64]"
  using assms unfolding scalar_def utf8_def by (metis linorder_not_less)

lemma chartorune_utf8:
  assumes "scalar r" "map unat str = utf8 r @ rest"
  shows "chartorune str = Some (of_nat r, length (utf8 r))"
  using assms(1)
proof (cases rule: utf8_cases)
  case 1
  then show ?thesis using assms(2) chartorune_one by (auto simp: map_eq_Cons_conv)
next
  case 2
  then obtain b0 b1 s where "str = b0 # b1 # s" "unat b0 = 192 + r div 64" "unat b1 = 128 + r mod 64"
    using assms(2) by (auto simp: map_eq_Cons_conv)
  with decode_2 [of b0 r b1 s] 2 show ?thesis by simp
next
  case 3
  then obtain b0 b1 b2 s where "str = b0 # b1 # b2 # s" "unat b0 = 224 + r div 64 ^ 2"
    "unat b1 = 128 + r div 64 mod 64" "unat b2 = 128 + r mod 64"
    using assms(2) by (auto simp: map_eq_Cons_conv)
  with decode_3 [of b0 r b1 b2 s] 3 show ?thesis by simp
next
  case 4
  then obtain b0 b1 b2 b3 s where "str = b0 # b1 # b2 # b3 # s" "unat b0 = 240 + r div 64 ^ 3"
    "unat b1 = 128 + r div 64 ^ 2 mod 64" "unat b2 = 128 + r div 64 mod 64" "unat b3 = 128 + r mod 64"
    using assms(2) by (auto simp: map_eq_Cons_conv)
  with decode_4 [of b0 r b1 b2 b3 s] 4 show ?thesis by simp
qed

text \<open>The other direction: what is decoded is either an error or the encoding of a character.\<close>

lemma cont_split: "cont b \<Longrightarrow> \<exists>x < 64. unat b = 128 + x"
  by (rule exI [of _ "unat b - 128"]) (auto simp: cont_def)

lemma mod_drop: "(w :: nat) < m \<Longrightarrow> u = w + c * m \<Longrightarrow> u mod m = w"
  by (simp only: mod_mult_self1 mod_less)

lemma canonical_2:
  assumes "192 \<le> a" "a < 224" "x < 64" "v = (64 * a + x) mod 2 ^ 11" "128 \<le> v"
  shows "scalar v \<and> utf8 v = [a, 128 + x]"
proof -
  obtain k where a: "a = 192 + k" "k < 32" using assms(1,2) le_Suc_ex by force
  have "v = 64 * k + x" unfolding assms(4) by (rule mod_drop [where c = 6]) (use assms(3) a in simp_all)
  with assms(3,5) a show ?thesis by (simp add: scalar_def utf8_def)
qed

lemma canonical_3:
  assumes "224 \<le> a" "a < 240" "x < 64" "y < 64" "v = (64 * (64 * a + x) + y) mod 2 ^ 16" "2 ^ 11 \<le> v"
    "\<not> (0xD800 \<le> v \<and> v \<le> 0xDFFF)"
  shows "scalar v \<and> utf8 v = [a, 128 + x, 128 + y]"
proof -
  obtain k where a: "a = 224 + k" "k < 16" using assms(1,2) le_Suc_ex by force
  have v: "v = 64 * (64 * k + x) + y"
    unfolding assms(5) by (rule mod_drop [where c = 14]) (use assms(3,4) a in simp_all)
  have "v div 64 = 64 * k + x" using assms(4) by (simp add: v)
  moreover have "v mod 64 = y" unfolding v by (rule mod_drop [where c = "64 * k + x"]) (use assms(4) in simp_all)
  moreover have "v div 64 ^ 2 = k" using assms(3,4) by (simp add: v)
  ultimately show ?thesis using assms(3,4,6,7) a by (simp add: scalar_def utf8_def v)
qed

lemma canonical_4:
  assumes "240 \<le> a" "a < 248" "x < 64" "y < 64" "z < 64" "v = (64 * (64 * (64 * a + x) + y) + z) mod 2 ^ 21" "2 ^ 16 \<le> v"
    "v \<le> 0x10FFFF"
  shows "scalar v \<and> utf8 v = [a, 128 + x, 128 + y, 128 + z]"
proof -
  obtain k where a: "a = 240 + k" "k < 8" using assms(1,2) le_Suc_ex by force
  have v: "v = 64 * (64 * (64 * k + x) + y) + z"
    unfolding assms(6) by (rule mod_drop [where c = 30]) (use assms(3-5) a in simp_all)
  have "v div 64 = 64 * (64 * k + x) + y" using assms(5) by (simp add: v)
  moreover have "v div 64 mod 64 = y" unfolding calculation
    by (rule mod_drop [where c = "64 * k + x"]) (use assms(4) in simp_all)
  moreover have "v mod 64 = z" unfolding v
    by (rule mod_drop [where c = "64 * (64 * k + x) + y"]) (use assms(5) in simp_all)
  moreover have "v div 64 ^ 2 = 64 * k + x" using assms(4,5) by (simp add: v)
  moreover have "v div 64 ^ 3 = k" using assms(3-5) by (simp add: v)
  ultimately show ?thesis using assms(3,4,7,8) a by (simp add: scalar_def utf8_def v)
qed

lemma loop_3_cases:
  assumes "chartorune_loop str (of_nat a) 3 (of_nat l) = Some (c, n)" "240 \<le> a" "a < 256" "l < 2 ^ 20"
  obtains "c = Runeerror" "n = 1"
  | z where "3 < length str" "z < 64" "unat (str ! 3) = 128 + z" "a < 248" "n = 4"
    "c = of_nat ((64 * l + z) mod 2 ^ 21)" "2 ^ 16 \<le> (64 * l + z) mod 2 ^ 21" "(64 * l + z) mod 2 ^ 21 \<le> 0x10FFFF"
proof (cases "3 < length str \<and> cont (str ! 3)")
  case True
  then obtain z where z: "z < 64" "unat (str ! 3) = 128 + z" using cont_split by blast
  define w where "w = (64 * l + z) mod 2 ^ 21"
  have "Some (c, n) = (if a < 248 then if w < 2 ^ 16 \<or> w > 0x10FFFF then bad else Some (of_nat w, 4) else bad)"
    unfolding assms(1) [symmetric] w_def by (rule loop_3) (use True z assms(2-4) in simp_all)
  then consider "c = Runeerror" "n = 1" | "a < 248" "n = 4" "c = of_nat w" "2 ^ 16 \<le> w" "w \<le> 0x10FFFF"
    by (auto split: if_splits)
  then show ?thesis using that(1) that(2) [of z, folded w_def] True z by cases blast+
next
  case False
  then have "chartorune_loop str (of_nat a) 3 x \<in> {None, bad}" for x
    using loop_stop(1) [of 3 str] loop_stop(2) [of 3 str] by (cases "3 < length str") simp_all
  with assms(1) have "c = Runeerror" "n = 1" by (metis insertE option.distinct(1) option.inject prod.inject singletonD)+
  then show ?thesis by (rule that(1))
qed

lemma loop_2_cases:
  assumes "chartorune_loop str (of_nat a) 2 (of_nat l) = Some (c, n)" "224 \<le> a" "a < 256" "l < 2 ^ 14"
  obtains "c = Runeerror" "n = 1"
  | y where "2 < length str" "y < 64" "unat (str ! 2) = 128 + y" "a < 240" "n = 3"
    "c = of_nat ((64 * l + y) mod 2 ^ 16)" "2 ^ 11 \<le> (64 * l + y) mod 2 ^ 16"
    "\<not> (0xD800 \<le> (64 * l + y) mod 2 ^ 16 \<and> (64 * l + y) mod 2 ^ 16 \<le> 0xDFFF)"
  | y where "2 < length str" "y < 64" "unat (str ! 2) = 128 + y" "240 \<le> a"
    "chartorune_loop str (of_nat a) 3 (of_nat (64 * l + y)) = Some (c, n)"
proof (cases "2 < length str \<and> cont (str ! 2)")
  case True
  then obtain y where y: "y < 64" "unat (str ! 2) = 128 + y" using cont_split by blast
  define w where "w = (64 * l + y) mod 2 ^ 16"
  have "Some (c, n) = (if a < 240 then if w < 2 ^ 11 \<or> 0xD800 \<le> w \<and> w \<le> 0xDFFF then bad else Some (of_nat w, 3)
      else chartorune_loop str (of_nat a) 3 (of_nat (64 * l + y)))"
    unfolding assms(1) [symmetric] w_def by (rule loop_2) (use True y assms(2-4) in simp_all)
  then consider "c = Runeerror" "n = 1"
    | "a < 240" "n = 3" "c = of_nat w" "2 ^ 11 \<le> w" "\<not> (0xD800 \<le> w \<and> w \<le> 0xDFFF)"
    | "240 \<le> a" "chartorune_loop str (of_nat a) 3 (of_nat (64 * l + y)) = Some (c, n)"
    by (fastforce split: if_splits simp del: of_nat_add of_nat_mult)
  then show ?thesis using that(1) that(2) [of y, folded w_def] that(3) [of y] True y by cases blast+
next
  case False
  then have "chartorune_loop str (of_nat a) 2 x \<in> {None, bad}" for x
    using loop_stop(1) [of 2 str] loop_stop(2) [of 2 str] by (cases "2 < length str") simp_all
  with assms(1) have "c = Runeerror" "n = 1" by (metis insertE option.distinct(1) option.inject prod.inject singletonD)+
  then show ?thesis by (rule that(1))
qed

lemma loop_1_cases:
  assumes "chartorune_loop str (of_nat a) 1 (of_nat a) = Some (c, n)" "a < 256"
  obtains "c = Runeerror" "n = 1"
  | x where "1 < length str" "x < 64" "unat (str ! 1) = 128 + x" "192 \<le> a" "a < 224" "n = 2"
    "c = of_nat ((64 * a + x) mod 2 ^ 11)" "128 \<le> (64 * a + x) mod 2 ^ 11"
  | x where "1 < length str" "x < 64" "unat (str ! 1) = 128 + x" "224 \<le> a"
    "chartorune_loop str (of_nat a) 2 (of_nat (64 * a + x)) = Some (c, n)"
proof (cases "1 < length str \<and> cont (str ! 1)")
  case True
  then obtain x where x: "x < 64" "unat (str ! 1) = 128 + x" using cont_split by blast
  define w where "w = (64 * a + x) mod 2 ^ 11"
  have "Some (c, n) = (if a < 224 then if a < 192 \<or> w < 128 then bad else Some (of_nat w, 2)
      else chartorune_loop str (of_nat a) 2 (of_nat (64 * a + x)))"
    unfolding assms(1) [symmetric] w_def by (rule loop_1) (use True x assms(2) in simp_all)
  then consider "c = Runeerror" "n = 1" | "192 \<le> a" "a < 224" "n = 2" "c = of_nat w" "128 \<le> w"
    | "224 \<le> a" "chartorune_loop str (of_nat a) 2 (of_nat (64 * a + x)) = Some (c, n)"
    by (fastforce split: if_splits simp del: of_nat_add of_nat_mult)
  then show ?thesis using that(1) that(2) [of x, folded w_def] that(3) [of x] True x by cases blast+
next
  case False
  then have "chartorune_loop str (of_nat a) 1 x \<in> {None, bad}" for x
    using loop_stop(1) [of 1 str] loop_stop(2) [of 1 str] by (cases "1 < length str") simp_all
  with assms(1) have "c = Runeerror" "n = 1" by (metis insertE option.distinct(1) option.inject prod.inject singletonD)+
  then show ?thesis by (rule that(1))
qed

lemma take_nth:
  "1 < length xs \<Longrightarrow> take 2 xs = [xs ! 0, xs ! 1]"
  "2 < length xs \<Longrightarrow> take 3 xs = [xs ! 0, xs ! 1, xs ! 2]"
  "3 < length xs \<Longrightarrow> take 4 xs = [xs ! 0, xs ! 1, xs ! 2, xs ! 3]"
  by (rule nth_equalityI; auto simp: nth_Cons' less_Suc_eq numeral_eq_Suc)+

lemma chartorune_canonical:
  assumes "chartorune str = Some (c, n)"
  shows "c = Runeerror \<and> n = 1 \<or>
    scalar (unat c) \<and> n \<le> length str \<and> map unat (take n str) = utf8 (unat c)"
proof -
  obtain b s where str: "str = b # s" using assms by (cases str) (auto simp: chartorune_def)
  define a where "a = unat (str ! 0)"
  have a256: "a < 256" by (simp add: a_def)
  show ?thesis
  proof (cases "a < 128")
    case True
    with chartorune_one [of b a s] assms str a_def show ?thesis
      by (auto simp: scalar_def utf8_def unat_small)
  next
    case False
    then have "chartorune_loop str (of_nat a) 1 (of_nat a) = Some (c, n)"
      using chartorune_multi [of b a s] assms str a_def by simp
    then show ?thesis using a256
    proof (cases rule: loop_1_cases)
      case (2 x)
      then have "scalar (unat c) \<and> utf8 (unat c) = [a, 128 + x]"
        using canonical_2 [OF 2(4,5,2) refl 2(8)] by (simp only: 2(7)) (simp add: unat_small)
      with 2(1,3,6) show ?thesis by (simp add: take_nth a_def)
    next
      case (3 x)
      have "64 * a + x < 2 ^ 14" using a256 3(2) by simp
      from 3(5,4) a256 this show ?thesis
      proof (cases rule: loop_2_cases)
        case (2 y)
        then have "scalar (unat c) \<and> utf8 (unat c) = [a, 128 + x, 128 + y]"
          using canonical_3 [OF 3(4) 2(4) 3(2) 2(2) refl 2(7,8)] by (simp only: 2(6)) (simp add: unat_small)
        with 2(1,3,5) 3(3) show ?thesis by (simp add: take_nth a_def)
      next
        case 4: (3 y)
        have "64 * (64 * a + x) + y < 2 ^ 20" using a256 3(2) 4(2) by simp
        from 4(5,4) a256 this show ?thesis
        proof (cases rule: loop_3_cases)
          case (2 z)
          then have "scalar (unat c) \<and> utf8 (unat c) = [a, 128 + x, 128 + y, 128 + z]"
            using canonical_4 [OF 4(4) 2(4) 3(2) 4(2) 2(2) refl 2(7,8)] by (simp only: 2(6)) (simp add: unat_small)
          with 2(1,3,5) 3(3) 4(3) show ?thesis by (simp add: take_nth a_def)
        qed simp
      qed simp
    qed simp
  qed
qed

section \<open>Encoding\<close>

lemma tag_bytes:
  "n < 64 \<Longrightarrow> unat (ucast (0x80 OR of_nat n :: u32) :: byte) = 128 + n"
  "n < 32 \<Longrightarrow> unat (ucast (0xC0 OR of_nat n :: u32) :: byte) = 192 + n"
  "n < 16 \<Longrightarrow> unat (ucast (0xE0 OR of_nat n :: u32) :: byte) = 224 + n"
  "n < 8 \<Longrightarrow> unat (ucast (0xF0 OR of_nat n :: u32) :: byte) = 240 + n"
proof -
  have "list_all (\<lambda>n. unat (ucast (0x80 OR of_nat n :: u32) :: byte) = 128 + n) [0..<64]"
    "list_all (\<lambda>n. unat (ucast (0xC0 OR of_nat n :: u32) :: byte) = 192 + n) [0..<32]"
    "list_all (\<lambda>n. unat (ucast (0xE0 OR of_nat n :: u32) :: byte) = 224 + n) [0..<16]"
    "list_all (\<lambda>n. unat (ucast (0xF0 OR of_nat n :: u32) :: byte) = 240 + n) [0..<8]"
    by code_simp+
  then show "n < 64 \<Longrightarrow> unat (ucast (0x80 OR of_nat n :: u32) :: byte) = 128 + n"
    "n < 32 \<Longrightarrow> unat (ucast (0xC0 OR of_nat n :: u32) :: byte) = 192 + n"
    "n < 16 \<Longrightarrow> unat (ucast (0xE0 OR of_nat n :: u32) :: byte) = 224 + n"
    "n < 8 \<Longrightarrow> unat (ucast (0xF0 OR of_nat n :: u32) :: byte) = 240 + n"
    by (simp_all add: list_all_iff)
qed

lemma drop_bit_nat: "drop_bit k (c :: u32) = of_nat (unat c div 2 ^ k)"
proof -
  have u: "unat (drop_bit k c) = unat c div 2 ^ k" by (subst unat_drop_bit_eq) (simp add: drop_bit_eq_div)
  have "drop_bit k c = of_nat (unat (drop_bit k c))" by simp
  also have "\<dots> = of_nat (unat c div 2 ^ k)" by (simp only: u)
  finally show ?thesis .
qed

lemma and_3F_nat: "of_nat n AND 0x3F = (of_nat (n mod 64) :: u32)"
proof -
  have "of_nat n AND 0x3F = (take_bit 6 (of_nat n) :: u32)" by (simp add: take_bit_eq_mask mask_eq_exp_minus_1)
  then show ?thesis by (simp add: take_bit_of_nat) (simp add: take_bit_eq_mod)
qed

text \<open>The bytes stored for a character of two, three and four bytes.\<close>

lemma runetochar_loop_i:
  assumes "c \<le> RuneX i \<or> i = UTFmax" "i < 5" "i \<noteq> 3 \<or> c \<le> Runemax \<and> \<not> (SurrogateMin \<le> c \<and> c \<le> SurrogateMax)"
  shows "runetochar_loop i c = ucast (T i OR drop_bit ((i - 1) * Bitx) c) #
          map (\<lambda>j. ucast (Tx OR (drop_bit ((i - j - 1) * Bitx) c AND Maskx))) [1..<i]"
  using assms by (subst runetochar_loop.simps) (auto simp: Let_def)

lemma tail_byte: "unat (ucast (Tx OR (drop_bit k c AND Maskx)) :: byte) = 128 + unat c div 2 ^ k mod 64"
  unfolding drop_bit_nat rune_consts and_3F_nat by (rule tag_bytes) simp

lemma upt_small: "[Suc 0..<2] = [1]" "[Suc 0..<3] = [1, 2]" "[Suc 0..<4] = [1, 2, 3]"
  by (simp_all add: upt_rec)

lemma runetochar_2:
  assumes "unat c < 2 ^ 11"
  shows "map unat (runetochar_loop 2 c) = [192 + unat c div 64, 128 + unat c mod 64]"
proof -
  have "unat (ucast (T 2 OR drop_bit 6 c) :: byte) = 192 + unat c div 2 ^ 6"
    unfolding drop_bit_nat rune_consts by (rule tag_bytes) (use assms in simp)
  moreover have "runetochar_loop 2 c = [ucast (T 2 OR drop_bit 6 c), ucast (Tx OR (drop_bit 0 c AND Maskx))]"
    by (subst runetochar_loop_i) (use assms in \<open>simp_all add: word_le_nat_alt upt_small\<close>)
  ultimately show ?thesis by (simp only: list.map tail_byte) simp
qed

lemma runetochar_3:
  assumes "unat c < 2 ^ 16" "\<not> (0xD800 \<le> unat c \<and> unat c \<le> 0xDFFF)"
  shows "map unat (runetochar_loop 3 c) =
    [224 + unat c div 64 ^ 2, 128 + unat c div 64 mod 64, 128 + unat c mod 64]"
proof -
  have "unat (ucast (T 3 OR drop_bit 12 c) :: byte) = 224 + unat c div 2 ^ 12"
    unfolding drop_bit_nat rune_consts by (rule tag_bytes) (use assms in simp)
  moreover have "runetochar_loop 3 c = [ucast (T 3 OR drop_bit 12 c), ucast (Tx OR (drop_bit 6 c AND Maskx)),
      ucast (Tx OR (drop_bit 0 c AND Maskx))]"
    by (subst runetochar_loop_i) (use assms in \<open>auto simp: word_le_nat_alt upt_small rune_defs\<close>)
  ultimately show ?thesis by (simp only: list.map tail_byte) simp
qed

lemma runetochar_4:
  assumes "unat c < 2 ^ 21"
  shows "map unat (runetochar_loop 4 c) =
    [240 + unat c div 64 ^ 3, 128 + unat c div 64 ^ 2 mod 64, 128 + unat c div 64 mod 64, 128 + unat c mod 64]"
proof -
  have "unat (ucast (T 4 OR drop_bit 18 c) :: byte) = 240 + unat c div 2 ^ 18"
    unfolding drop_bit_nat rune_consts by (rule tag_bytes) (use assms in simp)
  moreover have "runetochar_loop 4 c = [ucast (T 4 OR drop_bit 18 c), ucast (Tx OR (drop_bit 12 c AND Maskx)),
      ucast (Tx OR (drop_bit 6 c AND Maskx)), ucast (Tx OR (drop_bit 0 c AND Maskx))]"
    by (subst runetochar_loop_i) (use assms in \<open>auto simp: word_le_nat_alt upt_small rune_defs\<close>)
  ultimately show ?thesis by (simp only: list.map tail_byte) simp
qed

text \<open>The character stored: the rune, or the error character for what is not a character.\<close>

definition fixed :: "u32 \<Rightarrow> u32" where
  "fixed c = (if scalar (unat c) then c else Runeerror)"

lemma fixed_code:
  "(let c = (if c > Runemax then Runeerror else c) in if SurrogateMin \<le> c \<and> c \<le> SurrogateMax then Runeerror else c) =
     fixed c"
  by (auto simp: fixed_def scalar_def rune_defs word_less_nat_alt word_le_nat_alt Let_def)

lemma fixed_scalar: "scalar (unat (fixed c))" "unat c < 2 ^ 11 \<Longrightarrow> fixed c = c" "2 ^ 11 \<le> unat c \<Longrightarrow> 2 ^ 11 \<le> unat (fixed c)"
  by (auto simp: fixed_def scalar_def rune_defs)

lemma runetochar_utf8: "map unat (runetochar c) = utf8 (unat (fixed c))"
proof -
  let ?f = "fixed c"
  have ff: "fixed ?f = ?f" by (simp add: fixed_def fixed_scalar(1) [unfolded fixed_def])
  consider "unat c < 2 ^ 7" | "2 ^ 7 \<le> unat c" "unat c < 2 ^ 11" | "2 ^ 11 \<le> unat c" by linarith
  then show ?thesis
  proof cases
    case 1
    then have "c \<le> Rune1" by (simp add: word_le_nat_alt)
    moreover have "unat (ucast c :: byte) = unat c" using 1 by (simp add: unsigned_ucast_eq take_bit_nat_eq_self)
    ultimately show ?thesis using 1 by (simp add: runetochar_def fixed_scalar utf8_def)
  next
    case 2
    then have "runetochar c = runetochar_loop 2 c" by (simp add: runetochar_def word_le_nat_alt)
    with 2 show ?thesis by (simp add: runetochar_2 fixed_scalar utf8_def)
  next
    case 3
    then have "\<not> c \<le> Rune1" "\<not> c \<le> RuneX 2" by (simp_all add: word_le_nat_alt)
    then have c: "runetochar c = runetochar_loop 3 c"
      unfolding runetochar_def by (subst runetochar_loop.simps) simp
    have "runetochar_loop 3 c = runetochar_loop 3 ?f"
      unfolding runetochar_loop.simps [of 3] fixed_code ff by simp
    with c have e: "runetochar c = runetochar_loop 3 ?f" by simp
    show ?thesis
    proof (cases "unat ?f < 2 ^ 16")
      case True
      with runetochar_3 [of ?f] fixed_scalar(1) [of c] fixed_scalar(3) [OF 3] show ?thesis
        unfolding e by (simp add: scalar_def utf8_def)
    next
      case False
      then have "\<not> ?f \<le> RuneX 3" by (simp add: word_le_nat_alt)
      then have "runetochar_loop 3 ?f = runetochar_loop 4 ?f"
        unfolding runetochar_loop.simps [of 3] fixed_code ff by simp
      with False runetochar_4 [of ?f] fixed_scalar(1) [of c] show ?thesis
        unfolding e by (simp add: scalar_def utf8_def)
    qed
  qed
qed


section \<open>Staying inside the string\<close>

lemma loop_None:
  "chartorune_loop str c0 i l = None \<Longrightarrow> i \<le> k \<Longrightarrow> k < length str \<Longrightarrow> cont (str ! k)"
proof (induction str c0 i l rule: chartorune_loop.induct)
  case (1 str c0 i l)
  let ?c = "ucast (str ! i) XOR Tx" and ?l = "push_bit Bitx l OR (ucast (str ! i) XOR Tx)"
  have i: "i < UTFmax" "i < length str \<Longrightarrow> cont (str ! i)"
    using "1.prems"(1) by (subst (asm) chartorune_loop.simps, auto simp: Let_def cont_def cont_byte split: if_splits)+
  show ?case
  proof (cases "k = i \<or> length str \<le> i")
    case False
    with "1.prems"(2,3) have lt: "i < length str" "i + 1 \<le> k" by auto
    have n: "\<not> (?c AND Testx \<noteq> 0)" using i(2) [OF lt(1)] by (simp add: cont_def cont_byte)
    have "\<not> c0 < T (i + 2)" "chartorune_loop str c0 (i + 1) ?l = None"
      using "1.prems"(1) i(1) lt(1) n by (subst (asm) chartorune_loop.simps, simp add: Let_def split: if_splits)+
    with "1.IH" [OF i(1) _ refl n refl, of] lt "1.prems"(3) show ?thesis by simp
  qed (use i(2) "1.prems"(2,3) in auto)
qed

lemma chartorune_None: "chartorune (b # s) = None \<Longrightarrow> x \<in> set (b # s) \<Longrightarrow> x \<noteq> 0"
proof -
  assume c: "chartorune (b # s) = None" and x: "x \<in> set (b # s)"
  have b: "128 \<le> unat b" using c by (auto simp: chartorune_def Let_def word_less_nat_alt split: if_splits)
  from c b have l: "chartorune_loop (b # s) (of_nat (unat b)) 1 (of_nat (unat b)) = None"
    using chartorune_multi [OF refl] by metis
  obtain k where k: "k < length (b # s)" "(b # s) ! k = x" using x by (metis in_set_conv_nth)
  show "x \<noteq> 0" using b loop_None [OF l, of k] k by (cases k) (auto simp: cont_def)
qed

lemma utf8_nonzero: "scalar r \<Longrightarrow> r \<noteq> 0 \<Longrightarrow> 0 \<notin> set (utf8 r)"
  by (auto simp: utf8_def)

lemma chartorune_within:
  assumes "0 \<in> set s" "hd s \<noteq> 0"
  shows "\<exists>c n. chartorune s = Some (c, n) \<and> 0 < n \<and> n \<le> length s \<and> 0 \<notin> set (take n s) \<and> 0 \<in> set (drop n s)"
proof -
  obtain b t where s: "s = b # t" using assms(1) by (cases s) auto
  then obtain c n where c: "chartorune s = Some (c, n)" using chartorune_None [of b t 0] assms(1) by fastforce
  have "0 < n" by (rule chartorune_pos [OF c])
  moreover have "n \<le> length s \<and> 0 \<notin> set (take n s)"
  proof (cases "c = Runeerror \<and> n = 1")
    case True
    with s assms(2) show ?thesis by simp
  next
    case False
    with chartorune_canonical [OF c] have u: "scalar (unat c)" "n \<le> length s" "map unat (take n s) = utf8 (unat c)" by auto
    have "unat c \<noteq> 0"
    proof
      assume "unat c = 0"
      with u(3) \<open>0 < n\<close> s have "unat b = 0" by (cases n) (auto simp: utf8_def)
      then have "b = 0" by (simp add: word_unat_eq_iff)
      with s assms(2) show False by simp
    qed
    from utf8_nonzero [OF u(1) this] u(3) have "0 \<notin> set (map unat (take n s))" by simp
    with u(2) show ?thesis by (auto simp: image_iff)
  qed
  moreover have "set s = set (take n s) \<union> set (drop n s)" by (metis append_take_drop_id set_append)
  ultimately show ?thesis using c assms(1) by auto
qed

lemma utflen_some: "0 \<in> set s \<Longrightarrow> \<exists>n. utflen s = Some n"
proof (induction "length s" arbitrary: s rule: less_induct)
  case less
  obtain b t where s: "s = b # t" using less.prems by (cases s) auto
  show ?case
  proof (cases "b = 0")
    case True
    then show ?thesis using s by (simp add: utflen.simps Runeself_def)
  next
    case False
    show ?thesis
    proof (cases "ucast b < Runeself")
      case True
      with False s less.prems less.hyps [of t] show ?thesis by (auto simp: utflen.simps [of "b # t"])
    next
      case nself: False
      obtain c n where c: "chartorune s = Some (c, n)" "0 < n" "n \<le> length s" "0 \<in> set (drop n s)"
        using chartorune_within [OF less.prems] False s by auto
      with less.hyps [of "drop n s"] nself s show ?thesis by (auto simp: utflen.simps [of "b # t"])
    qed
  qed
qed


section \<open>Strings of characters\<close>

definition encoded :: "u32 list \<Rightarrow> byte list" where
  "encoded rs = concat (map runetochar rs)"

text \<open>The runes a string can hold: characters other than NUL.\<close>

definition text_rune :: "u32 \<Rightarrow> bool" where
  "text_rune c \<longleftrightarrow> scalar (unat c) \<and> c \<noteq> 0"

lemma encoded_simps [simp]: "encoded [] = []" "encoded (c # cs) = runetochar c @ encoded cs"
  "encoded (xs @ ys) = encoded xs @ encoded ys"
  by (simp_all add: encoded_def)

lemma chartorune_runetochar:
  "scalar (unat c) \<Longrightarrow> chartorune (runetochar c @ s) = Some (c, length (runetochar c))"
  using chartorune_utf8 [of "unat c" "runetochar c @ s" "map unat s"] runetochar_utf8 [of c]
  by (metis fixed_def length_map map_append of_nat_unat ucast_id)

lemma runetochar_nonempty: "runetochar c = b # bs \<Longrightarrow> text_rune c \<Longrightarrow> b \<noteq> 0 \<and>
  (ucast b < Runeself \<longleftrightarrow> bs = []) \<and> (bs = [] \<longrightarrow> ucast b = c)"
proof -
  assume r: "runetochar c = b # bs" and t: "text_rune c"
  then have u: "unat b # map unat bs = utf8 (unat c)" "scalar (unat c)" "unat c \<noteq> 0"
    using runetochar_utf8 [of c] by (auto simp: text_rune_def fixed_def word_unat_eq_iff)
  from u(2) show ?thesis
  proof (cases rule: utf8_cases)
    case 1
    with u show ?thesis by (auto simp: Runeself_def word_less_nat_alt word_unat_eq_iff)
  qed (use u in \<open>auto simp: Runeself_def word_less_nat_alt word_unat_eq_iff\<close>)
qed

lemma runetochar_Cons: "\<exists>b bs. runetochar c = b # bs"
  using runetochar_utf8 [of c] by (cases "runetochar c") (auto simp: utf8_def split: if_splits)

lemma utflen_step:
  assumes "text_rune c"
  shows "utflen (runetochar c @ s) = map_option Suc (utflen s)"
proof -
  obtain b bs where r: "runetochar c = b # bs" using runetochar_Cons by blast
  note n = runetochar_nonempty [OF r assms]
  have "chartorune (b # bs @ s) = Some (c, Suc (length bs))"
    using chartorune_runetochar [of c s] assms r by (simp add: text_rune_def)
  with n show ?thesis by (cases "bs = []") (simp_all add: r utflen.simps [of "b # bs @ s"] utflen.simps [of "b # s"])
qed

lemma utflen_encoded: "list_all text_rune rs \<Longrightarrow> utflen (encoded rs @ 0 # s) = Some (length rs)"
proof (induction rs)
  case Nil
  then show ?case by (simp add: utflen.simps Runeself_def)
next
  case (Cons c cs)
  then show ?case by (simp add: utflen_step)
qed

lemma utfrune_step:
  assumes "text_rune r" "\<not> c < Runesync"
  shows "utfrune (runetochar r @ s) c = (if r = c then Found 0 else later (length (runetochar r)) (utfrune s c))"
proof -
  obtain b bs where r: "runetochar r = b # bs" using runetochar_Cons by blast
  note n = runetochar_nonempty [OF r assms(1)]
  have "chartorune (b # bs @ s) = Some (r, Suc (length bs))"
    using chartorune_runetochar [of r s] assms(1) r by (simp add: text_rune_def)
  with n assms(2) show ?thesis by (cases "bs = []") (auto simp: r utfrune.simps [of "b # bs @ s"] utfrune.simps [of "b # s"])
qed

lemma later_later [simp]: "later j (later k x) = later (k + j) x"
  by (cases x) simp_all

lemma later_0 [simp]: "later 0 x = x"
  by (cases x) simp_all

lemma utfrune_encoded:
  assumes "list_all text_rune rs" "\<not> c < Runesync"
  shows "utfrune (encoded rs @ 0 # s) c =
    (if c \<in> set rs then Found (length (encoded (takeWhile (\<lambda>r. r \<noteq> c) rs))) else Nil_found)"
  using assms
proof (induction rs)
  case Nil
  then show ?case by (simp add: utfrune.simps Runeself_def)
next
  case (Cons r rs)
  then show ?case by (auto simp: utfrune_step)
qed

text \<open>How long the encoding is.\<close>

lemma runenlen_one_eq: "runenlen_one 2 c = (if unat c < 2 ^ 11 then 2 else if unat c < 2 ^ 16 then 3 else 4)"
proof -
  have "runenlen_one 4 c = 4" by (subst runenlen_one.simps) simp
  then have "runenlen_one 3 c = (if unat c < 2 ^ 16 then 3 else 4)"
    by (subst runenlen_one.simps) (auto simp: word_le_nat_alt)
  then show ?thesis by (subst runenlen_one.simps) (auto simp: word_le_nat_alt)
qed

lemma runelen_eq: "runelen c = length (utf8 (unat (fixed c)))"
  unfolding runelen_def by (metis length_map runetochar_utf8)

lemma runenlen_eq:
  "list_all (\<lambda>c. c \<le> Runemax) rs \<Longrightarrow> runenlen rs = length (encoded rs)"
proof (induction rs)
  case (Cons c cs)
  have "(if c \<le> Rune1 then 1 else runenlen_one 2 c) = runelen c"
    using Cons.prems by (auto simp: runelen_eq runenlen_one_eq utf8_def fixed_def scalar_def rune_defs word_le_nat_alt)
  with Cons show ?case by (simp add: runelen_def)
qed simp


section \<open>Bounded strings\<close>

text \<open>How many bytes the first byte of a character announces.\<close>

definition announced :: "nat \<Rightarrow> nat" where
  "announced a = (if a < 128 then 1 else if a < 224 then 2 else if a < 240 then 3 else 4)"

lemma fullrune_eq:
  assumes "unat b = a" "0 < n"
  shows "fullrune (b # s) n = Some (int (announced a) \<le> n)"
proof -
  have u: "unat (of_nat a :: u32) = a" using assms(1) unat_byte [of b] by (auto intro: unat_small)
  have "fullrune_loop 5 x n = (4 \<le> n)" for x by (subst fullrune_loop.simps) simp
  then have "fullrune_loop 4 x n = (if x < T 4 then 3 \<le> n else 4 \<le> n)" for x
    by (subst fullrune_loop.simps) simp
  then have "fullrune_loop 3 x n = (if x < T 3 then 2 \<le> n else if x < T 4 then 3 \<le> n else 4 \<le> n)" for x
    by (subst fullrune_loop.simps) simp
  then show ?thesis
    using assms u by (auto simp: fullrune_def Let_def ucast_byte_nat word_less_nat_alt announced_def)
qed

lemma chartorune_announced:
  assumes "unat b = a" "announced a \<le> length (b # s)"
  shows "\<exists>r. chartorune (b # s) = Some r"
proof (rule ccontr)
  let ?s = "b # s"
  assume "\<not> (\<exists>r. chartorune ?s = Some r)"
  then have n: "chartorune ?s = None" by (cases "chartorune ?s") auto
  have a: "128 \<le> a" using chartorune_one [OF assms(1)] n by (metis not_le option.distinct(1))
  have a256: "a < 256" using assms(1) unat_byte [of b] by simp
  have l1: "chartorune_loop ?s (of_nat a) 1 (of_nat a) = None" using n chartorune_multi [OF assms(1) a] by simp
  have n1: "1 < length ?s" using assms(2) a by (cases s) (auto simp: announced_def split: if_splits)
  have c1: "cont (?s ! 1)" by (rule loop_None [OF l1 order.refl n1])
  define l where "l = 64 * a + (unat (?s ! 1) - 128)"
  have l14: "l < 2 ^ 14" using a256 c1 by (auto simp: l_def cont_def)
  have b: "224 \<le> a" "chartorune_loop ?s (of_nat a) 2 (of_nat l) = None"
    using l1 unfolding loop_1 [OF n1 c1 a256 l_def] by (simp_all split: if_splits)
  have n2: "2 < length ?s" using assms(2) b(1) by (simp add: announced_def split: if_splits)
  have c2: "cont (?s ! 2)" by (rule loop_None [OF b(2) order.refl n2])
  define m where "m = 64 * l + (unat (?s ! 2) - 128)"
  have m20: "m < 2 ^ 20" using l14 c2 by (auto simp: m_def cont_def)
  have c: "240 \<le> a" "chartorune_loop ?s (of_nat a) 3 (of_nat m) = None"
    using b(2) unfolding loop_2 [OF n2 c2 b(1) a256 l14 m_def] by (simp_all split: if_splits)
  have n3: "3 < length ?s" using assms(2) c(1) by (simp add: announced_def split: if_splits)
  have c3: "cont (?s ! 3)" by (rule loop_None [OF c(2) order.refl n3])
  show False using c(2) unfolding loop_3 [OF n3 c3 c(1) a256 m20 refl] by (simp split: if_splits)
qed

lemma chartorune_length: "chartorune s = Some (c, n) \<Longrightarrow> n \<le> length s"
  using chartorune_canonical [of s c n] by (cases s) (auto simp: chartorune_def)

lemma utfnlen_multi:
  assumes "\<not> ucast b < Runeself" "0 < m" "fullrune (b # t) m = Some True" "chartorune (b # t) = Some (c, n)"
  shows "utfnlen (b # t) m = map_option Suc (utfnlen (drop n (b # t)) (m - int n))"
  by (subst utfnlen.simps) (simp only: assms list.case option.case prod.case bool.case if_False refl simp_thms, use assms(1,2) in simp)

lemma utfnlen_some: "\<exists>n. utfnlen s (int (length s)) = Some n"
proof (induction "length s" arbitrary: s rule: less_induct)
  case less
  show ?case
  proof (cases s)
    case Nil
    then show ?thesis by (simp add: utfnlen.simps)
  next
    case (Cons b t)
    show ?thesis
    proof (cases "ucast b < Runeself")
      case True
      with less [of t] Cons show ?thesis by (auto simp: utfnlen.simps [of "b # t"])
    next
      case False
      have "fullrune (b # t) (int (length (b # t))) = Some (int (announced (unat b)) \<le> int (length (b # t)))"
        by (rule fullrune_eq) simp_all
      then have f: "fullrune s (int (length s)) = Some (announced (unat b) \<le> length s)"
        unfolding Cons of_nat_le_iff .
      show ?thesis
      proof (cases "announced (unat b) \<le> length s")
        case True
        then obtain c n where c: "chartorune s = Some (c, n)" using chartorune_announced [OF refl] Cons by fastforce
        note n = chartorune_pos [OF c] chartorune_length [OF c]
        have "length (drop n s) < length s" using n by simp
        then obtain k where k: "utfnlen (drop n s) (int (length (drop n s))) = Some k" using less by blast
        have "int (length s) - int n = int (length (drop n s))" using n(2) by simp
        moreover have "utfnlen s (int (length s)) = map_option Suc (utfnlen (drop n s) (int (length s) - int n))"
        proof -
          have "fullrune (b # t) (int (length (b # t))) = Some True" using f True unfolding Cons by metis
          moreover have "0 < int (length (b # t))" by simp
          ultimately show ?thesis using utfnlen_multi [OF False] c unfolding Cons by blast
        qed
        ultimately have "utfnlen s (int (length s)) = Some (Suc k)" by (simp only: k option.map)
        then show ?thesis by blast
      next
        case False
        with f Cons \<open>\<not> ucast b < Runeself\<close> show ?thesis by (simp add: utfnlen.simps [of "b # t"])
      qed
    qed
  qed
qed

section \<open>Truncation\<close>

lemma memccpy_eq:
  "0 \<notin> set xs \<Longrightarrow> memccpy (xs @ 0 # s) 0 n = Some (if length xs < n then (xs @ [0], True) else (take n xs, False))"
  by (induction xs arbitrary: n; case_tac n) auto

lemma cont_mask: "(b :: byte) AND 0xC0 = 0x80 \<longleftrightarrow> cont b"
  unfolding cont_def
proof (rule byte_cases)
  have "list_all (\<lambda>n. ((of_nat n :: byte) AND 0xC0 = 0x80) =
      (128 \<le> unat (of_nat n :: byte) \<and> unat (of_nat n :: byte) < 192)) [0..<256]" by code_simp
  then show "((of_nat n :: byte) AND 0xC0 = 0x80) =
      (128 \<le> unat (of_nat n :: byte) \<and> unat (of_nat n :: byte) < 192)" if "n \<in> set [0..<256]" for n
    using that by (simp add: list_all_iff)
qed

lemma back_up_at:
  "(\<And>k. e < k \<Longrightarrow> k < n \<Longrightarrow> cont (m ! k)) \<Longrightarrow> \<not> cont (m ! e) \<Longrightarrow> e < n \<Longrightarrow> back_up m n = e"
proof (induction n)
  case (Suc n)
  then show ?case by (cases "e = n") (auto simp: cont_mask)
qed simp

lemma utf8_shape:
  assumes "scalar r"
  shows "\<exists>x ys. utf8 r = x # ys \<and> \<not> (128 \<le> x \<and> x < 192) \<and> (\<forall>y \<in> set ys. 128 \<le> y \<and> y < 192)"
  using assms by (cases rule: utf8_cases) auto

lemma runetochar_shape:
  assumes "text_rune c"
  shows "\<exists>b bs. runetochar c = b # bs \<and> \<not> cont b \<and> (\<forall>x \<in> set bs. cont x) \<and> 0 \<notin> set (runetochar c)"
proof -
  have u: "map unat (runetochar c) = utf8 (unat c)" "scalar (unat c)" "unat c \<noteq> 0"
    using runetochar_utf8 [of c] assms by (auto simp: text_rune_def fixed_def word_unat_eq_iff)
  obtain b bs where r: "runetochar c = b # bs" using runetochar_Cons by blast
  obtain x ys where x: "utf8 (unat c) = x # ys" "\<not> (128 \<le> x \<and> x < 192)" "\<forall>y \<in> set ys. 128 \<le> y \<and> y < 192"
    using utf8_shape [OF u(2)] by blast
  have "unat b = x" "map unat bs = ys" using u(1) r x(1) by simp_all
  then have "\<not> cont b" "\<forall>x \<in> set bs. cont x" using x(2,3) by (auto simp: cont_def)
  moreover have "0 \<notin> set (runetochar c)"
  proof
    assume "0 \<in> set (runetochar c)"
    then have "unat (0 :: byte) \<in> set (map unat (runetochar c))" by (metis imageI list.set_map)
    with utf8_nonzero [OF u(2,3)] u(1) show False by simp
  qed
  ultimately show ?thesis using r by blast
qed

lemma encoded_nonzero: "list_all text_rune rs \<Longrightarrow> 0 \<notin> set (encoded rs)"
proof (induction rs)
  case (Cons c cs)
  then have "0 \<notin> set (runetochar c)" using runetochar_shape [of c] by auto
  with Cons show ?case by simp
qed simp

text \<open>The character that a position of the string belongs to.\<close>

lemma encoded_at:
  "list_all text_rune rs \<Longrightarrow> i < length (encoded rs) \<Longrightarrow>
     \<exists>k < length rs. length (encoded (take k rs)) \<le> i \<and> \<not> cont (encoded rs ! length (encoded (take k rs))) \<and>
       (\<forall>j. length (encoded (take k rs)) < j \<longrightarrow> j \<le> i \<longrightarrow> cont (encoded rs ! j))"
proof (induction rs arbitrary: i)
  case (Cons c cs)
  obtain b bs where r: "runetochar c = b # bs" "\<not> cont b" "\<forall>x \<in> set bs. cont x"
    using runetochar_shape [of c] Cons.prems(1) by auto
  let ?n = "length (runetochar c)"
  show ?case
  proof (cases "i < ?n")
    case True
    have "cont (encoded (c # cs) ! j)" if "0 < j" "j \<le> i" for j
      using that True r by (cases j) (auto simp: nth_append)
    with r show ?thesis by (intro exI [of _ 0]) simp
  next
    case False
    then have "i - ?n < length (encoded cs)" "list_all text_rune cs" using Cons.prems by auto
    then obtain k where k: "k < length cs" "length (encoded (take k cs)) \<le> i - ?n"
      "\<not> cont (encoded cs ! length (encoded (take k cs)))"
      "\<forall>j. length (encoded (take k cs)) < j \<longrightarrow> j \<le> i - ?n \<longrightarrow> cont (encoded cs ! j)"
      using Cons.IH [of "i - ?n"] by blast
    have "cont (encoded (c # cs) ! j)" if "?n + length (encoded (take k cs)) < j" "j \<le> i" for j
      using that k(4) [rule_format, of "j - ?n"] by (auto simp: nth_append)
    with k False show ?thesis by (intro exI [of _ "Suc k"]) (auto simp: nth_append)
  qed
qed simp

lemma take_encoded: "take (length (encoded (take k rs))) (encoded rs) = encoded (take k rs)"
  by (metis append_eq_conv_conj append_take_drop_id encoded_simps(3))

lemma utfecpy_cut:
  assumes "list_all text_rune rs" "0 < n"
  shows "\<exists>m e k. utfecpy n (encoded rs @ 0 # s) = Some (m, e) \<and> length m \<le> n \<and> e < length m \<and> m ! e = 0 \<and>
     take e m = encoded (take k rs) \<and> (length (encoded rs) < n \<longrightarrow> encoded (take k rs) = encoded rs)"
proof (cases "length (encoded rs) < n")
  case True
  then have "utfecpy n (encoded rs @ 0 # s) = Some (encoded rs @ [0], length (encoded rs))"
    using assms(2) by (simp add: utfecpy_def memccpy_eq encoded_nonzero [OF assms(1)])
  with True show ?thesis by (intro exI [of _ "encoded rs @ [0]"] exI [of _ "length (encoded rs)"] exI [of _ "length rs"]) simp
next
  case False
  let ?m = "take n (encoded rs)"
  have "n - 1 < length (encoded rs)" using False assms(2) by linarith
  then obtain k where k: "length (encoded (take k rs)) \<le> n - 1" "\<not> cont (encoded rs ! length (encoded (take k rs)))"
    "\<forall>j. length (encoded (take k rs)) < j \<longrightarrow> j \<le> n - 1 \<longrightarrow> cont (encoded rs ! j)"
    using encoded_at [OF assms(1), of "n - 1"] by blast
  let ?e = "length (encoded (take k rs))"
  have e: "?e < n" using k(1) assms(2) by simp
  have "back_up ?m n = ?e" by (rule back_up_at) (use k e in auto)
  then have "utfecpy n (encoded rs @ 0 # s) = Some (?m[?e := 0], ?e)"
    using assms(2) False by (simp add: utfecpy_def memccpy_eq encoded_nonzero [OF assms(1)] Let_def)
  moreover have "take ?e ?m = encoded (take k rs)" using e take_encoded [of k rs] by (simp add: min_def)
  ultimately show ?thesis using False e
    by (intro exI [of _ "?m[?e := 0]"] exI [of _ ?e] exI [of _ k]) simp
qed


section \<open>Properties\<close>

text \<open>C10. Round trip: a character that \<^verbatim>\<open>runetochar\<close> stores is what \<^verbatim>\<open>chartorune\<close> reads, whatever
  follows it, and it takes as many bytes as \<^verbatim>\<open>runelen\<close> says; a rune that is no character (out of
  range, or a surrogate half) is stored and read as the error character.\<close>

theorem rune_roundtrip:
  "chartorune (runetochar c @ s) = Some (if scalar (unat c) then c else Runeerror, runelen c)"
proof (cases "scalar (unat c)")
  case True
  then show ?thesis by (simp add: chartorune_runetochar runelen_def)
next
  case False
  have s: "scalar (unat Runeerror)" by (simp add: scalar_def rune_defs)
  have "map unat (runetochar c) = map unat (runetochar Runeerror)"
    using False s by (simp add: runetochar_utf8 fixed_def)
  then have "runetochar c = runetochar Runeerror" by (simp add: inj_map_eq_map inj_def word_unat_eq_iff)
  with False chartorune_runetochar [OF s, of s] show ?thesis by (simp add: runelen_def)
qed

text \<open>C9. \<^verbatim>\<open>chartorune\<close> accepts exactly what Unicode defines as UTF-8: when the bytes begin with the
  encoding of a character it answers with that character and its length, so overlong
  encodings, surrogates and numbers above 0x10FFFF are errors, and every other answer is the
  error character with one byte consumed.\<close>

theorem chartorune_exact:
  "(\<forall>r rest. scalar r \<and> map unat str = utf8 r @ rest \<longrightarrow> chartorune str = Some (of_nat r, length (utf8 r))) \<and>
   (\<forall>c n. chartorune str = Some (c, n) \<and> \<not> (\<exists>r rest. scalar r \<and> map unat str = utf8 r @ rest) \<longrightarrow>
      c = Runeerror \<and> n = 1)"
proof (intro conjI allI impI)
  show "chartorune str = Some (of_nat r, length (utf8 r))" if "scalar r \<and> map unat str = utf8 r @ rest" for r rest
    using that by (intro chartorune_utf8) auto
  fix c n
  assume a: "chartorune str = Some (c, n) \<and> \<not> (\<exists>r rest. scalar r \<and> map unat str = utf8 r @ rest)"
  have "map unat str = map unat (take n str) @ map unat (drop n str)" by (metis append_take_drop_id map_append)
  then show "c = Runeerror" "n = 1" using a chartorune_canonical [of str c n] by metis+
qed

theorem chartorune_exact_witness:
  "chartorune [0xE2, 0x82, 0xAC, 0] = Some (0x20AC, 3) \<and> chartorune [0xC0, 0xAF, 0] = Some (Runeerror, 1)"
proof
  have "scalar 0x20AC \<and> map unat [0xE2, 0x82, 0xAC, 0 :: byte] = utf8 0x20AC @ [0]" by (simp add: scalar_def utf8_def)
  moreover have "length (utf8 0x20AC) = 3" by (simp add: utf8_def)
  ultimately show "chartorune [0xE2, 0x82, 0xAC, 0] = Some (0x20AC, 3)"
    using chartorune_exact [of "[0xE2, 0x82, 0xAC, 0]"] by (metis of_nat_numeral)
  show "chartorune [0xC0, 0xAF, 0] = Some (Runeerror, 1)" by code_simp
qed

text \<open>C23. Safety on any bytes, well encoded or not: \<^verbatim>\<open>utflen\<close> stops at the NUL of a string without reading
  past it, even when a multi-byte character is cut off by the NUL, and \<^verbatim>\<open>utfnlen\<close> reads no more
  than the bytes it is given.\<close>

theorem utf_safe:
  "(0 \<in> set s \<longrightarrow> (\<exists>n. utflen s = Some n)) \<and> (\<exists>n. utfnlen s (int (length s)) = Some n)"
  using utflen_some utfnlen_some by blast

theorem utf_safe_witness: "(\<exists>n. utflen [0x61, 0xE2, 0x82, 0] = Some n) \<and> (\<exists>n. utfnlen [0x61, 0xE2] 2 = Some n)"
proof
  have "(0 :: byte) \<in> set [0x61, 0xE2, 0x82, 0]" by simp
  then show "\<exists>n. utflen [0x61, 0xE2, 0x82, 0] = Some n" using utf_safe by blast
  have "int (length [0x61, 0xE2 :: byte]) = 2" by simp
  then show "\<exists>n. utfnlen [0x61, 0xE2] 2 = Some n" using utf_safe by metis
qed

text \<open>On a string of characters, \<^verbatim>\<open>utflen\<close> counts the characters, \<^verbatim>\<open>utfrune\<close> finds the first
  occurrence of one, and \<^verbatim>\<open>runenlen\<close> computes the length of their encoding.\<close>

theorem utf_strings:
  assumes "list_all text_rune rs" "\<not> c < Runesync"
  shows "utflen (encoded rs @ 0 # s) = Some (length rs) \<and>
    utfrune (encoded rs @ 0 # s) c =
      (if c \<in> set rs then Found (length (encoded (takeWhile (\<lambda>r. r \<noteq> c) rs))) else Nil_found) \<and>
    runenlen rs = length (encoded rs)"
proof -
  have "list_all (\<lambda>c. c \<le> Runemax) rs"
    using assms(1) by (auto simp: list_all_iff text_rune_def scalar_def rune_defs word_le_nat_alt)
  then show ?thesis using utflen_encoded [OF assms(1)] utfrune_encoded [OF assms] runenlen_eq by blast
qed

theorem utf_strings_witness:
  "utflen (encoded [0x61, 0x20AC, 0x10348] @ [0]) = Some 3 \<and> utfrune (encoded [0x61, 0x20AC, 0x10348] @ [0]) 0x20AC = Found 1"
proof -
  have "list_all text_rune [0x61, 0x20AC, 0x10348]" "\<not> (0x20AC :: u32) < Runesync"
    by (simp_all add: text_rune_def scalar_def Runesync_def)
  moreover have "length (encoded [0x61]) = 1" by code_simp
  ultimately show ?thesis using utf_strings [of "[0x61, 0x20AC, 0x10348]" "0x20AC" "[]"] by simp
qed

text \<open>\<^verbatim>\<open>utfecpy\<close> never cuts a character in two: what it stores is NUL-terminated inside the room given,
  is the encoding of the first characters of the string, and is all of it when it fits.\<close>

theorem utfecpy_whole:
  assumes "list_all text_rune rs" "0 < n"
  shows "\<exists>m e k. utfecpy n (encoded rs @ 0 # s) = Some (m, e) \<and> length m \<le> n \<and> e < length m \<and> m ! e = 0 \<and>
     take e m = encoded (take k rs) \<and> (length (encoded rs) < n \<longrightarrow> encoded (take k rs) = encoded rs)"
  by (rule utfecpy_cut [OF assms])

theorem utfecpy_whole_witness:
  "\<exists>m e k. utfecpy 4 (encoded [0x61, 0x20AC] @ [0]) = Some (m, e) \<and> take e m = encoded (take k [0x61, 0x20AC])"
proof -
  have "list_all text_rune [0x61, 0x20AC]" by (simp add: text_rune_def scalar_def)
  from utfecpy_whole [OF this, of 4 "[]"] show ?thesis by auto
qed

text \<open>For a rune above 0x10FFFF \<^verbatim>\<open>runenlen\<close> counts four bytes where \<^verbatim>\<open>runetochar\<close> stores the three of the
  error character.\<close>

lemma runenlen_overcounts: "runenlen [0x110000] = 4 \<and> length (runetochar 0x110000) = 3"
  by code_simp

end
