(* ===== verification/Mp_Vec.thy ===== *)
theory Mp_Vec
  imports Prelude
begin

text \<open>
  Extended precision arithmetic, the vector routines: \<^verbatim>\<open>sys/src/libmp/port/mpvec*.c\<close>, \<^verbatim>\<open>mpdigdiv.c\<close> and the
  multiplication of \<^verbatim>\<open>mpmul.c\<close>. A digit has 32 bits (\<^verbatim>\<open>mpdigit\<close> is \<^verbatim>\<open>unsigned int\<close> on all 64-bit machines); a
  vector is a list of digits, the least significant first, whose length is the length the routine is
  given. A routine that stores a vector returns it; where the result may overlap an argument, the code
  reads each digit before it stores at the same place, so that the result is the same.
\<close>

type_synonym mpdigit = "32 word"

abbreviation (input) Dbits :: nat where "Dbits \<equiv> 32"

section \<open>Addition, subtraction, comparison\<close>

text \<open>The two loops of \<^verbatim>\<open>mpvecadd\<close>; \<open>c\<close> is the carry. The prerequisite is that \<open>a\<close> is not shorter.\<close>

abbreviation lt1 :: "mpdigit \<Rightarrow> mpdigit \<Rightarrow> mpdigit" where "lt1 x y \<equiv> (if x < y then 1 else 0)"

fun vadd :: "mpdigit list \<Rightarrow> mpdigit list \<Rightarrow> mpdigit \<Rightarrow> mpdigit list" where
  "vadd (x # a) (y # b) c =
     (let x = x + c; c = lt1 x c; x = x + y; c = c + lt1 x y in x # vadd a b c)"
| "vadd (x # a) [] c = (let x = x + c; c = lt1 x c in x # vadd a [] c)"
| "vadd [] b c = [c]"

definition mpvecadd :: "mpdigit list \<Rightarrow> mpdigit list \<Rightarrow> mpdigit list" where
  "mpvecadd a b = vadd a b 0"

text \<open>The loops of \<^verbatim>\<open>mpvecsub\<close>, with the borrow that is left at the end.\<close>

fun vsub :: "mpdigit list \<Rightarrow> mpdigit list \<Rightarrow> mpdigit \<Rightarrow> mpdigit list \<times> mpdigit" where
  "vsub (x # a) (y # b) w =
     (let y = y + w; w = lt1 y w; w = w + lt1 x y in
      case vsub a b w of (ds, w') \<Rightarrow> ((x - y) # ds, w'))"
| "vsub (x # a) [] w =
     (let y = x - w; w = lt1 x y in case vsub a [] w of (ds, w') \<Rightarrow> (y # ds, w'))"
| "vsub [] b w = ([], w)"

definition mpvecsub :: "mpdigit list \<Rightarrow> mpdigit list \<Rightarrow> mpdigit list" where
  "mpvecsub a b = fst (vsub a b 0)"

text \<open>The last loop of \<^verbatim>\<open>mpveccmp\<close>, from the most significant digit.\<close>

fun cmploop :: "mpdigit list \<Rightarrow> mpdigit list \<Rightarrow> int" where
  "cmploop (x # a) (y # b) =
     (let z = x - y in if z = 0 then cmploop a b else if z > x then -1 else 1)"
| "cmploop _ _ = 0"

definition mpveccmp :: "mpdigit list \<Rightarrow> mpdigit list \<Rightarrow> int" where
  "mpveccmp a b =
     (if list_ex (\<lambda>d. d \<noteq> 0) (rev (drop (length b) a)) then 1
      else if list_ex (\<lambda>d. d \<noteq> 0) (rev (drop (length a) b)) then -1
      else cmploop (rev (take (length b) a)) (rev (take (length a) b)))"

text \<open>\<^verbatim>\<open>(-v^v|v)>>Dbits-1\<close>: 1 when \<open>v\<close> is not 0.\<close>

definition nonz :: "mpdigit \<Rightarrow> mpdigit" where
  "nonz v = drop_bit 31 ((- v XOR v) OR v)"

text \<open>The time-invariant comparison keeps a decision \<open>p\<close> and whether it has been made, \<open>m\<close>; both are 0 or
  1, and \<^verbatim>\<open>~\<close> on them is only used under a mask.\<close>

fun tsloop :: "mpdigit list \<Rightarrow> mpdigit list \<Rightarrow> mpdigit \<Rightarrow> mpdigit \<Rightarrow> mpdigit \<times> mpdigit" where
  "tsloop (x # a) (y # b) m p =
     (let z = x - y; x = NOT x;
          v = nonz z AND NOT m;
          p = (drop_bit 31 (NOT ((x AND y) OR (x AND z) OR (y AND z))) AND v) OR (p AND NOT v);
          m = m OR v
      in tsloop a b m p)"
| "tsloop _ _ m p = (m, p)"

definition mpvectscmp :: "mpdigit list \<Rightarrow> mpdigit list \<Rightarrow> int" where
  "mpvectscmp a b =
     (let (m, p) =
        (if length a > length b then
           let m = nonz (foldl (OR) 0 (rev (drop (length b) a))) in (m, m)
         else if length b > length a then
           let m = nonz (foldl (OR) 0 (rev (drop (length a) b))) in (m, m XOR 1)
         else (0, 0));
          (m, p) = tsloop (rev (take (length b) a)) (rev (take (length a) b)) m p
      in sint ((p - m) OR m))"

section \<open>Multiplication\<close>

definition LO :: "mpdigit \<Rightarrow> mpdigit" where "LO x = x AND 0xffff"

definition HI :: "mpdigit \<Rightarrow> mpdigit" where "HI x = drop_bit 16 x"

text \<open>The low and the high digit of the product.\<close>

definition mpdigmul :: "mpdigit \<Rightarrow> mpdigit \<Rightarrow> mpdigit \<times> mpdigit" where
  "mpdigmul a b =
     (let ah = HI a; al = LO a; bh = HI b; bl = LO b;
          p1 = ah * bl; p2 = bh * al; p3 = bl * al; p4 = ah * bh;
          x = push_bit 16 p1; p3 = p3 + x; carry = lt1 p3 x;
          x = push_bit 16 p2; p3 = p3 + x; carry = carry + lt1 p3 x;
          p4 = p4 + (carry + HI p1 + HI p2)
      in (p3, p4))"

text \<open>The loop of \<^verbatim>\<open>mpvecdigmuladd\<close>; \<open>h\<close> is \<^verbatim>\<open>part[1]\<close>. The digit \<^verbatim>\<open>p[n]\<close> is stored, not added to.\<close>

fun dmuladd :: "mpdigit list \<Rightarrow> mpdigit \<Rightarrow> mpdigit list \<Rightarrow> mpdigit \<Rightarrow> mpdigit \<Rightarrow> mpdigit list" where
  "dmuladd (d # b) m (y # p) h c =
     (let x = h + c; c = lt1 x c; (lo, h) = mpdigmul d m;
          x = x + lo; c = c + lt1 x lo; x = x + y; c = c + lt1 x y
      in x # dmuladd b m p h c)"
| "dmuladd _ m p h c = [h + c]"

definition mpvecdigmuladd :: "mpdigit list \<Rightarrow> mpdigit \<Rightarrow> mpdigit list \<Rightarrow> mpdigit list" where
  "mpvecdigmuladd b m p = dmuladd b m p 0 0"

text \<open>The loop of \<^verbatim>\<open>mpvecdigmulsub\<close>; \<open>p\<close> has one digit more than \<open>b\<close>.\<close>

fun dmulsub :: "mpdigit list \<Rightarrow> mpdigit \<Rightarrow> mpdigit list \<Rightarrow> mpdigit \<Rightarrow> mpdigit \<Rightarrow> mpdigit list \<times> int" where
  "dmulsub (d # b) m (q # p) h w =
     (let x = q; y = x - w; w = lt1 x y; x = h; (lo, h) = mpdigmul d m;
          x = x + lo; w = w + lt1 x lo; x = y - x; w = w + lt1 y x
      in case dmulsub b m p h w of (ds, s) \<Rightarrow> (x # ds, s))"
| "dmulsub [] m (x # p) h w = (let y = x - w - h in ([y], if y > x then -1 else 1))"
| "dmulsub _ m [] h w = ([], 1)"

definition mpvecdigmulsub :: "mpdigit list \<Rightarrow> mpdigit \<Rightarrow> mpdigit list \<Rightarrow> mpdigit list \<times> int" where
  "mpvecdigmulsub b m p = dmulsub b m p 0 0"

text \<open>The schoolbook loop: \<open>i\<close> is the place of the first of the remaining digits of the multiplier in the
  product, \<open>skip\<close> whether zero digits are skipped.\<close>

fun mulloop :: "bool \<Rightarrow> mpdigit list \<Rightarrow> mpdigit list \<Rightarrow> nat \<Rightarrow> mpdigit list \<Rightarrow> mpdigit list" where
  "mulloop skip a (d # b) i p =
     (let p = (if skip \<and> d = 0 then p else overwrite i (mpvecdigmuladd a d (seg i (length a) p)) p)
      in mulloop skip a b (Suc i) p)"
| "mulloop skip a [] i p = p"

definition KARATSUBAMIN :: nat where "KARATSUBAMIN = 32"

text \<open>Digits stored at the front of a zeroed piece of memory of \<open>n\<close> digits.\<close>

definition zpad :: "nat \<Rightarrow> mpdigit list \<Rightarrow> mpdigit list" where
  "zpad n ds = ds @ replicate (n - length ds) 0"

text \<open>\<^verbatim>\<open>mpvecadd(res+n, reslen-n, x, xlen, res+n)\<close> and the same with \<^verbatim>\<open>mpvecsub\<close>, on memory that has one
  digit behind the \<^verbatim>\<open>reslen\<close> digits of \<^verbatim>\<open>res\<close>.\<close>

definition addat :: "nat \<Rightarrow> mpdigit list \<Rightarrow> mpdigit list \<Rightarrow> mpdigit list" where
  "addat n ds res = take n res @ mpvecadd (drop n (butlast res)) ds"

definition subat :: "nat \<Rightarrow> mpdigit list \<Rightarrow> mpdigit list \<Rightarrow> mpdigit list" where
  "subat n ds res = take n res @ mpvecsub (drop n (butlast res)) ds @ [last res]"

text \<open>\<^verbatim>\<open>mpkaratsuba\<close> and \<^verbatim>\<open>mpvecmul\<close> call each other; here the calls of the former are in the latter, and the
  rest of it is \<open>kdu\<close> and \<open>kdv\<close>, the differences of the halves, as the digits that are multiplied, and \<open>kcombine\<close>,
  the additions. \<open>n\<close> is the length of the lower halves; the pieces of the temporary memory \<^verbatim>\<open>t\<close> are zeroed
  vectors of \<open>2 * n + 1\<close> digits.\<close>

definition khalf :: "nat \<Rightarrow> nat" where
  "khalf alen = alen div 2 + (if odd alen then 1 else 0)"

definition kdu :: "nat \<Rightarrow> mpdigit list \<Rightarrow> mpdigit list \<Rightarrow> mpdigit list" where
  "kdu n u0 u1 =
     take (length u0) (zpad (2 * n + 1)
       (if mpveccmp u1 u0 < 0 then mpvecsub u0 u1 else mpvecsub u1 (take (length u1) u0)))"

definition kdv :: "nat \<Rightarrow> mpdigit list \<Rightarrow> mpdigit list \<Rightarrow> mpdigit list" where
  "kdv n v0 v1 =
     take (length v0) (zpad (2 * n + 1)
       (if mpveccmp v0 v1 < 0 then mpvecsub v1 (take (length v1) v0) else mpvecsub v0 v1))"

definition kneg :: "mpdigit list \<Rightarrow> mpdigit list \<Rightarrow> mpdigit list \<Rightarrow> mpdigit list \<Rightarrow> bool" where
  "kneg u0 u1 v0 v1 \<longleftrightarrow> (mpveccmp u1 u0 < 0) \<noteq> (mpveccmp v0 v1 < 0)"

definition kcombine ::
  "nat \<Rightarrow> nat \<Rightarrow> nat \<Rightarrow> bool \<Rightarrow> bool \<Rightarrow> mpdigit list \<Rightarrow> mpdigit list \<Rightarrow> mpdigit list \<Rightarrow> mpdigit list" where
  "kcombine n l0 l1 high neg diffprod u0v0 u1v1 =
     (let res = addat 0 (take l0 u0v0) (replicate (4 * n + 2) 0);
          res = addat n (take l0 u0v0) res;
          res = (if high then addat n (take l1 u1v1) res else res);
          res = (if high then addat (2 * n) (take l1 u1v1) res else res)
      in if neg then subat n (take l0 diffprod) res else addat n (take l0 diffprod) res)"

lemma khalf_less: "KARATSUBAMIN \<le> n \<Longrightarrow> khalf n < n"
  unfolding khalf_def KARATSUBAMIN_def by presburger

lemma kd_length: "length (kdu n u0 u1) \<le> length u0" "length (kdv n v0 v1) \<le> length v0"
  by (simp_all add: kdu_def kdv_def)

function mpvecmul :: "mpdigit list \<Rightarrow> mpdigit list \<Rightarrow> mpdigit list \<Rightarrow> mpdigit list" where
  "mpvecmul a b p =
     (if length a < length b then mpvecmul b a p
      else if length a \<ge> KARATSUBAMIN \<and> length b > 1 then
        let n = khalf (length a); z = replicate (2 * n + 1) 0;
            u0 = take n a; u1 = drop n a; v0 = take n b; v1 = drop n b
        in overwrite 0
             (take (length a + length b)
               (kcombine n (length u0 + length v0) (length u1 + length v1) (length v1 > 0) (kneg u0 u1 v0 v1)
                 (mpvecmul (kdu n u0 u1) (kdv n v0 v1) z)
                 (mpvecmul u0 v0 z)
                 (if length v1 > 0 then mpvecmul u1 v1 z else z))) p
      else mulloop True a b 0 p)"
  by pat_completeness auto

termination
proof (relation "measures [\<lambda>(a, b, p). max (length a) (length b), \<lambda>(a, b, p). length b - length a]", goal_cases)
  case (3 a b p n z u0 u1 v0 v1)
  then have "length u0 \<le> n" "length v0 \<le> n" "n < length a" using khalf_less by auto
  with kd_length(1) [of n u0 u1] kd_length(2) [of n v0 v1] show ?case by auto
next
  case (4 a b p n z u0 u1 v0 v1)
  then have "length u0 \<le> n" "length v0 \<le> n" "n < length a" using khalf_less by auto
  then show ?case by auto
next
  case (5 a b p n z u0 u1 v0 v1)
  moreover have "0 < khalf (length a)" using 5 by (simp add: khalf_def KARATSUBAMIN_def)
  ultimately have "length u1 < length a" "length v1 < length a" using khalf_less by auto
  then show ?case by auto
qed auto

definition mpvectsmul :: "mpdigit list \<Rightarrow> mpdigit list \<Rightarrow> mpdigit list \<Rightarrow> mpdigit list" where
  "mpvectsmul a b p =
     (let (a, b) = (if length a < length b then (b, a) else (a, b)) in
      if b = [] then p else mulloop False a b 0 p)"

section \<open>Division of two digits by one\<close>

text \<open>The loop of \<^verbatim>\<open>mpdigdiv\<close>; the counter is \<open>i + 1\<close>. \<open>x\<close> is the high digit of the divisor shifted by the
  counter.\<close>

fun digdivloop :: "nat \<Rightarrow> mpdigit \<Rightarrow> mpdigit \<Rightarrow> mpdigit \<Rightarrow> mpdigit \<Rightarrow> mpdigit \<Rightarrow> mpdigit \<times> mpdigit" where
  "digdivloop (Suc i) v x hi lo q =
     (if hi > 0 then
        let x = drop_bit 1 x; y = push_bit i v in
        if x > hi \<or> x = hi \<and> y > lo then digdivloop i v x hi lo q
        else digdivloop i v x ((if y > lo then hi - 1 else hi) - x) (lo - y) (q OR push_bit i 1)
      else (q, lo))"
| "digdivloop 0 v x hi lo q = (q, lo)"

definition mpdigdiv :: "mpdigit \<Rightarrow> mpdigit \<Rightarrow> mpdigit \<Rightarrow> mpdigit" where
  "mpdigdiv lo hi v =
     (if hi \<ge> v \<or> v = 0 then NOT 0
      else case digdivloop Dbits v v hi lo 0 of (q, lo) \<Rightarrow> q + lo div v)"

end
