(* ===== verification/Mp.thy ===== *)
theory Mp
  imports Mp_Vec "HOL-Library.Signed_Division"
begin

text \<open>
  Extended precision arithmetic, the numbers: \<^verbatim>\<open>sys/src/libmp/port\<close> and \<^verbatim>\<open>sys/include/mp.h\<close>. The routines
  take pointers to numbers, and a result may be one of the operands, so numbers live in the cells of a
  memory and an operation is a command on it. A cell holds the sign, the digits in use (\<open>mtop\<close>), the
  allocated digits (\<open>mdig\<close>, whose length is the \<^verbatim>\<open>size\<close> of the C structure) and the flags. Following nil, a
  freed number or an index beyond the allocated digits is a \<open>Fault\<close>; \<^verbatim>\<open>assert\<close>, \<^verbatim>\<open>abort\<close> and \<^verbatim>\<open>sysfatal\<close> are
  a \<open>Panic\<close>. Memory does not run out (the library then ends the program), and the lengths are small
  enough that counting bits in an \<^verbatim>\<open>int\<close> does not overflow.
\<close>

section \<open>Numbers in memory\<close>

record mpint =
  msign :: int
  mtop :: nat
  mdig :: "mpdigit list"
  fstatic :: bool
  fnorm :: bool
  ftimesafe :: bool
  ffield :: bool

record mpst =
  cells :: "nat \<Rightarrow> mpint option"
  brk :: nat
  mindigits :: nat

type_synonym 'a cmd = "mpst \<Rightarrow> ('a, mpst) res"

abbreviation (input) nil :: nat where "nil \<equiv> 0"

text \<open>Access to a cell, and sequences of commands.\<close>

definition withmp :: "nat \<Rightarrow> (mpint \<Rightarrow> 'a cmd) \<Rightarrow> 'a cmd" where
  "withmp b f s = (case cells s b of None \<Rightarrow> Fault | Some x \<Rightarrow> f x s)"

definition modify :: "nat \<Rightarrow> (mpint \<Rightarrow> mpint) \<Rightarrow> unit cmd" where
  "modify b f s = (case cells s b of None \<Rightarrow> Fault | Some x \<Rightarrow> Ret () (s\<lparr>cells := (cells s)(b \<mapsto> f x)\<rparr>))"

definition guard :: "bool \<Rightarrow> unit cmd" where
  "guard c s = (if c then Ret () s else Fault)"

definition assertC :: "bool \<Rightarrow> unit cmd" where
  "assertC c s = (if c then Ret () s else Panic ''assert'')"

fun block :: "unit cmd list \<Rightarrow> unit cmd" where
  "block [] s = Ret () s"
| "block (c # cs) s = bindR (c s) (\<lambda>_. block cs)"

text \<open>Storing digits from index \<open>i\<close> on.\<close>

definition store :: "nat \<Rightarrow> nat \<Rightarrow> mpdigit list \<Rightarrow> unit cmd" where
  "store b i ds =
     withmp b (\<lambda>x. block [guard (i + length ds \<le> length (mdig x)),
                         modify b (\<lambda>x. x\<lparr>mdig := overwrite i ds (mdig x)\<rparr>)])"

section \<open>Allocation and normal form: mpaux.c\<close>

abbreviation (input) mpzero :: nat where "mpzero \<equiv> 1"
abbreviation (input) mpone :: nat where "mpone \<equiv> 2"
abbreviation (input) mptwo :: nat where "mptwo \<equiv> 3"

definition mpzerocell :: mpint where
  "mpzerocell = \<lparr>msign = 1, mtop = 0, mdig = [0], fstatic = True, fnorm = True, ftimesafe = False, ffield = False\<rparr>"

definition mponecell :: mpint where
  "mponecell = \<lparr>msign = 1, mtop = 1, mdig = [1], fstatic = True, fnorm = True, ftimesafe = False, ffield = False\<rparr>"

definition mptwocell :: mpint where
  "mptwocell = \<lparr>msign = 1, mtop = 1, mdig = [2], fstatic = True, fnorm = True, ftimesafe = False, ffield = False\<rparr>"

definition mpinit :: mpst where
  "mpinit = \<lparr>cells = [mpzero \<mapsto> mpzerocell, mpone \<mapsto> mponecell, mptwo \<mapsto> mptwocell], brk = 4, mindigits = 33\<rparr>"

definition DIGITS :: "int \<Rightarrow> int" where
  "DIGITS x = (int Dbits - 1 + x) sdiv int Dbits"

definition mpsetminbits :: "int \<Rightarrow> unit cmd" where
  "mpsetminbits n s =
     (if n < 0 then Panic ''mpsetminbits: n < 0''
      else let n = (if n = 0 then 1 else n) in Ret () (s\<lparr>mindigits := nat (DIGITS n)\<rparr>))"

definition mpnew :: "int \<Rightarrow> nat cmd" where
  "mpnew n s =
     (if n < 0 then Panic ''mpsetminbits: n < 0''
      else let n = nat (DIGITS n); n = (if n < mindigits s then mindigits s else n);
               b = \<lparr>msign = 1, mtop = 0, mdig = replicate n 0, fstatic = False, fnorm = True,
                    ftimesafe = False, ffield = False\<rparr>
           in Ret (brk s) (s\<lparr>cells := (cells s)(brk s \<mapsto> b), brk := brk s + 1\<rparr>))"

text \<open>The digits from \<open>mtop\<close> to \<open>n\<close> are zeroed, whether the digits stay in place or are moved.\<close>

definition growto :: "nat \<Rightarrow> mpint \<Rightarrow> mpint" where
  "growto n b = b\<lparr>mdig := take (mtop b) (mdig b) @ replicate (n - mtop b) 0 @ drop n (mdig b), mtop := n, fnorm := False\<rparr>"

definition mpbits :: "nat \<Rightarrow> int \<Rightarrow> unit cmd" where
  "mpbits b m =
     withmp b (\<lambda>x. let n = DIGITS m in
       if int (length (mdig x)) \<ge> n \<and> int (mtop x) \<ge> n then block []
       else modify b (growto (nat n)))"

definition mpfree :: "nat \<Rightarrow> unit cmd" where
  "mpfree b =
     (if b = nil then block []
      else withmp b (\<lambda>x s. if fstatic x then Panic ''freeing mp constant''
                           else Ret () (s\<lparr>cells := (cells s)(b := None)\<rparr>)))"

fun normtop :: "nat \<Rightarrow> mpdigit list \<Rightarrow> nat" where
  "normtop (Suc i) p = (if p ! i \<noteq> 0 then Suc i else normtop i p)"
| "normtop 0 p = 0"

definition normalise :: "mpint \<Rightarrow> mpint" where
  "normalise b =
     (let t = normtop (mtop b) (mdig b) in
      b\<lparr>mtop := t, msign := (if t = 0 then 1 else msign b), fnorm := True\<rparr>)"

definition mpnorm :: "nat \<Rightarrow> unit cmd" where
  "mpnorm b =
     withmp b (\<lambda>x.
       if ftimesafe x then block [assertC (msign x = 1), modify b (\<lambda>x. x\<lparr>fnorm := False\<rparr>)]
       else block [guard (mtop x \<le> length (mdig x)), modify b normalise])"

definition mpcopy :: "nat \<Rightarrow> nat cmd" where
  "mpcopy old =
     withmp old (\<lambda>x s. bindR (mpnew (int (Dbits * length (mdig x))) s) (\<lambda>new s. bindR
       (block [modify new (\<lambda>y. y\<lparr>mtop := mtop x, msign := msign x, fnorm := fnorm x, ftimesafe := ftimesafe x\<rparr>),
               guard (mtop x \<le> length (mdig x)),
               store new 0 (take (mtop x) (mdig x))] s)
       (\<lambda>_ s. Ret new s)))"

definition mpassign :: "nat \<Rightarrow> nat \<Rightarrow> unit cmd" where
  "mpassign old new =
     (if new = nil \<or> old = new then block []
      else withmp old (\<lambda>x. block
        [modify new (\<lambda>y. y\<lparr>mtop := 0\<rparr>),
         mpbits new (int (Dbits * mtop x)),
         modify new (\<lambda>y. y\<lparr>msign := msign x, mtop := mtop x, fnorm := fnorm x, ftimesafe := ftimesafe y \<or> ftimesafe x\<rparr>),
         guard (mtop x \<le> length (mdig x)),
         store new 0 (take (mtop x) (mdig x))]))"

fun bitscan :: "nat \<Rightarrow> mpdigit \<Rightarrow> nat option" where
  "bitscan (Suc j) d = (if d AND push_bit j 1 \<noteq> 0 then Some (Suc j) else bitscan j d)"
| "bitscan 0 d = None"

fun signif :: "nat \<Rightarrow> mpdigit list \<Rightarrow> nat" where
  "signif (Suc i) p = (case bitscan Dbits (p ! i) of Some j \<Rightarrow> i * Dbits + j | None \<Rightarrow> signif i p)"
| "signif 0 p = 0"

definition mpsignif :: "mpint \<Rightarrow> nat" where
  "mpsignif n = signif (mtop n) (mdig n)"

text \<open>The loop of \<^verbatim>\<open>mplowbits0\<close> over the digits that are left, with \<open>k\<close> and the bit number.\<close>

function lowbits :: "mpdigit list \<Rightarrow> nat \<Rightarrow> nat \<Rightarrow> nat" where
  "lowbits (d # ds) i k =
     (if d AND push_bit i 1 \<noteq> 0 then k
      else if i + 1 \<ge> Dbits then lowbits ds 0 (k + 1)
      else lowbits (d # ds) (i + 1) (k + 1))"
| "lowbits [] i k = 0"
  by pat_completeness auto

termination
  by (relation "measures [\<lambda>(ds, i, k). length ds, \<lambda>(ds, i, k). Dbits - i]") auto

definition mplowbits0 :: "nat \<Rightarrow> nat cmd" where
  "mplowbits0 n =
     withmp n (\<lambda>x s. bindR (assertC (fnorm x) s) (\<lambda>_ s. Ret (lowbits (take (mtop x) (mdig x)) 0 0) s))"

section \<open>Comparison: mpcmp.c\<close>

definition magcmp :: "mpint \<Rightarrow> mpint \<Rightarrow> int" where
  "magcmp x1 x2 =
     (if ftimesafe x1 \<or> ftimesafe x2 then mpvectscmp (take (mtop x1) (mdig x1)) (take (mtop x2) (mdig x2))
      else if (fnorm x1 \<or> fnorm x2) \<and> int (mtop x1) - int (mtop x2) \<noteq> 0 then int (mtop x1) - int (mtop x2)
      else mpveccmp (take (mtop x1) (mdig x1)) (take (mtop x2) (mdig x2)))"

definition mpmagcmp :: "nat \<Rightarrow> nat \<Rightarrow> int cmd" where
  "mpmagcmp b1 b2 =
     withmp b1 (\<lambda>x1. withmp b2 (\<lambda>x2 s. bindR
       (guard (mtop x1 \<le> length (mdig x1) \<and> mtop x2 \<le> length (mdig x2)) s) (\<lambda>_ s. Ret (magcmp x1 x2) s)))"

text \<open>\<^verbatim>\<open>sign | (sign&1)-1 & mpmagcmp(b1, b2)*b1->sign\<close>\<close>

definition mpcmp :: "nat \<Rightarrow> nat \<Rightarrow> int cmd" where
  "mpcmp b1 b2 =
     withmp b1 (\<lambda>x1. withmp b2 (\<lambda>x2 s. bindR (mpmagcmp b1 b2 s) (\<lambda>c s.
       let sign = drop_bit 1 (msign x1 - msign x2)
       in Ret (sign OR ((sign AND 1) - 1 AND c * msign x1)) s)))"

section \<open>Addition and subtraction: mpadd.c, mpsub.c\<close>

text \<open>The digits are read where they are when the vector routine runs: \<^verbatim>\<open>mpbits\<close> may have moved them when the
  dst is one of the operands.\<close>

definition vec2 :: "(mpdigit list \<Rightarrow> mpdigit list \<Rightarrow> mpdigit list) \<Rightarrow> nat \<Rightarrow> nat \<Rightarrow> nat \<Rightarrow> nat \<Rightarrow> nat \<Rightarrow> unit cmd" where
  "vec2 f b1 n b2 m r =
     withmp b1 (\<lambda>x1. withmp b2 (\<lambda>x2. block
       [guard (n \<le> length (mdig x1) \<and> m \<le> length (mdig x2)),
        store r 0 (f (take n (mdig x1)) (take m (mdig x2)))]))"

text \<open>What follows the exchange of the operands; \<open>n\<close> and \<open>m\<close> are the numbers of their digits.\<close>

definition addbody :: "nat \<Rightarrow> nat \<Rightarrow> nat \<Rightarrow> nat \<Rightarrow> nat \<Rightarrow> unit cmd" where
  "addbody b1 n b2 m dst =
     (if n = 0 then mpassign mpzero dst
      else if m = 0 then mpassign b1 dst
      else block
        [mpbits dst (int ((n + 1) * Dbits)),
         modify dst (\<lambda>y. y\<lparr>mtop := n + 1\<rparr>),
         vec2 mpvecadd b1 n b2 m dst,
         modify dst (\<lambda>y. y\<lparr>msign := 1\<rparr>),
         mpnorm dst])"

definition mpmagadd :: "nat \<Rightarrow> nat \<Rightarrow> nat \<Rightarrow> unit cmd" where
  "mpmagadd b1 b2 dst =
     withmp b1 (\<lambda>x1. withmp b2 (\<lambda>x2. block
       [modify dst (\<lambda>y. y\<lparr>ftimesafe := ftimesafe y \<or> ftimesafe x1 \<or> ftimesafe x2\<rparr>),
        if mtop x2 > mtop x1 then addbody b2 (mtop x2) b1 (mtop x1) dst
        else addbody b1 (mtop x1) b2 (mtop x2) dst]))"

definition subbody :: "nat \<Rightarrow> nat \<Rightarrow> nat \<Rightarrow> nat \<Rightarrow> int \<Rightarrow> nat \<Rightarrow> unit cmd" where
  "subbody b1 n b2 m sign diff =
     (if m = 0 then block [mpassign b1 diff, modify diff (\<lambda>y. y\<lparr>msign := sign\<rparr>)]
      else block
        [mpbits diff (int (n * Dbits)),
         vec2 mpvecsub b1 n b2 m diff,
         modify diff (\<lambda>y. y\<lparr>msign := sign, mtop := n\<rparr>),
         mpnorm diff])"

definition mpmagsub :: "nat \<Rightarrow> nat \<Rightarrow> nat \<Rightarrow> unit cmd" where
  "mpmagsub b1 b2 diff =
     withmp b1 (\<lambda>x1. withmp b2 (\<lambda>x2. withmp diff (\<lambda>y s. bindR (mpmagcmp b1 b2 s) (\<lambda>c.
       if c < 0 then block
         [assertC (\<not> (ftimesafe x1 \<or> ftimesafe x2 \<or> ftimesafe y)),
          subbody b2 (mtop x2) b1 (mtop x1) (-1) diff]
       else block
         [modify diff (\<lambda>y. y\<lparr>ftimesafe := ftimesafe y \<or> ftimesafe x1 \<or> ftimesafe x2\<rparr>),
          subbody b1 (mtop x1) b2 (mtop x2) 1 diff]))))"

definition mpadd :: "nat \<Rightarrow> nat \<Rightarrow> nat \<Rightarrow> unit cmd" where
  "mpadd b1 b2 dst =
     withmp b1 (\<lambda>x1. withmp b2 (\<lambda>x2. withmp dst (\<lambda>y.
       if msign x1 \<noteq> msign x2 then block
         [assertC (\<not> (ftimesafe x1 \<or> ftimesafe x2 \<or> ftimesafe y)),
          if msign x1 < 0 then mpmagsub b2 b1 dst else mpmagsub b1 b2 dst]
       else block
         [mpmagadd b1 b2 dst,
          withmp dst (\<lambda>y. if mtop y \<noteq> 0 then modify dst (\<lambda>y. y\<lparr>msign := msign x1\<rparr>) else block [])])))"

definition mpsub :: "nat \<Rightarrow> nat \<Rightarrow> nat \<Rightarrow> unit cmd" where
  "mpsub b1 b2 diff =
     withmp b1 (\<lambda>x1. withmp b2 (\<lambda>x2. withmp diff (\<lambda>y.
       if msign x1 \<noteq> msign x2 then block
         [assertC (\<not> (ftimesafe x1 \<or> ftimesafe x2 \<or> ftimesafe y)),
          mpmagadd b1 b2 diff,
          modify diff (\<lambda>y. y\<lparr>msign := msign x1\<rparr>)]
       else block
         [mpmagsub b1 b2 diff,
          withmp diff (\<lambda>y. if mtop y \<noteq> 0 then modify diff (\<lambda>y. y\<lparr>msign := msign y * msign x1\<rparr>) else block [])])))"

section \<open>Multiplication: mpmul.c\<close>

definition mpmul :: "nat \<Rightarrow> nat \<Rightarrow> nat \<Rightarrow> unit cmd" where
  "mpmul b1 b2 oprod =
     withmp b1 (\<lambda>x1. withmp b2 (\<lambda>x2. withmp oprod (\<lambda>c s. bindR
       (if oprod = b1 \<or> oprod = b2 then
          bindR (mpnew 0 s) (\<lambda>prod s. bindR
            (modify prod (\<lambda>y. y\<lparr>fstatic := fstatic c, fnorm := fnorm c, ftimesafe := ftimesafe c, ffield := ffield c\<rparr>) s)
            (\<lambda>_ s. Ret prod s))
        else Ret oprod s)
       (\<lambda>prod. block
         [modify prod (\<lambda>y. y\<lparr>ftimesafe := ftimesafe y \<or> ftimesafe x1 \<or> ftimesafe x2, mtop := 0\<rparr>),
          mpbits prod (int ((mtop x1 + mtop x2 + 1) * Dbits)),
          guard (mtop x1 \<le> length (mdig x1) \<and> mtop x2 \<le> length (mdig x2)),
          withmp prod (\<lambda>y. store prod 0
            ((if ftimesafe y then mpvectsmul else mpvecmul) (take (mtop x1) (mdig x1)) (take (mtop x2) (mdig x2))
              (take (mtop x1 + mtop x2 + 1) (mdig y)))),
          modify prod (\<lambda>y. y\<lparr>mtop := mtop x1 + mtop x2 + 1, msign := msign x1 * msign x2\<rparr>),
          mpnorm prod,
          if oprod \<noteq> prod then block [mpassign prod oprod, mpfree prod] else block []]))))"

section \<open>Shifts: mpleft.c, mpright.c\<close>

text \<open>The loop of \<^verbatim>\<open>mpright\<close>, from \<^verbatim>\<open>p[d]\<close> up, and of \<^verbatim>\<open>mpleft\<close>, from the most significant digit down. Each
  reads a digit before it is overwritten when the result is the operand.\<close>

fun rshift :: "nat \<Rightarrow> mpdigit list \<Rightarrow> mpdigit list" where
  "rshift r (prev # cur # ds) = (push_bit (Dbits - r) cur OR drop_bit r prev) # rshift r (cur # ds)"
| "rshift r [prev] = [drop_bit r prev]"
| "rshift r [] = []"

fun lshift :: "nat \<Rightarrow> mpdigit \<Rightarrow> mpdigit list \<Rightarrow> mpdigit list" where
  "lshift l prev (cur # ds) = (push_bit l prev OR drop_bit (Dbits - l) cur) # lshift l cur ds"
| "lshift l prev [] = [push_bit l prev]"

text \<open>What follows the first two tests in either routine. They call each other when the shift has the
  other sign; the tests of the callee then repeat those of the caller. The number of bits is an \<^verbatim>\<open>int\<close>. Its
  smallest value is its own negation: with that one the routines call each other for ever, a \<open>Fault\<close> when the stack is
  used up. Other values can make the bit count \<^verbatim>\<open>otop*Dbits + shift\<close> overflow; what is stated about shifts
  is restricted to those that do not.\<close>

definition INT_MIN :: int where "INT_MIN = - (2 ^ 31)"

definition rightbody :: "nat \<Rightarrow> nat \<Rightarrow> nat \<Rightarrow> unit cmd" where
  "rightbody b shift res =
     withmp b (\<lambda>x.
       if res = b \<and> shift = 0 then block []
       else block
         [if res \<noteq> b then mpbits res (int (mtop x * Dbits) - int shift) else block [],
          let d = shift div Dbits; r = shift mod Dbits in
          if d \<ge> mtop x then modify res (\<lambda>y. y\<lparr>msign := 1, mtop := 0\<rparr>)
          else let ds = drop d (take (mtop x) (mdig x)); ds = (if r = 0 then ds else rshift r ds) in block
            [guard (mtop x \<le> length (mdig x)),
             store res 0 ds,
             modify res (\<lambda>y. y\<lparr>mtop := length ds, ftimesafe := ftimesafe y \<or> ftimesafe x\<rparr>),
             mpnorm res]])"

definition leftbody :: "nat \<Rightarrow> nat \<Rightarrow> nat \<Rightarrow> unit cmd" where
  "leftbody b shift res =
     withmp b (\<lambda>x. let otop = mtop x; d = shift div Dbits; l = shift mod Dbits in block
       [mpbits res (int (otop * Dbits + shift)),
        modify res (\<lambda>y. y\<lparr>mtop := nat (DIGITS (int (otop * Dbits + shift)))\<rparr>),
        withmp b (\<lambda>x. block
          [guard (otop \<le> length (mdig x)),
           store res d (if l = 0 then take otop (mdig x) else rev (lshift l 0 (rev (take otop (mdig x)))))]),
        store res 0 (replicate d 0),
        modify res (\<lambda>y. y\<lparr>ftimesafe := ftimesafe y \<or> ftimesafe x\<rparr>),
        mpnorm res])"

definition mpright :: "nat \<Rightarrow> int \<Rightarrow> nat \<Rightarrow> unit cmd" where
  "mpright b shift res =
     withmp b (\<lambda>x. block
       [modify res (\<lambda>y. y\<lparr>msign := msign x\<rparr>),
        if mtop x = 0 then modify res (\<lambda>y. y\<lparr>mtop := 0\<rparr>)
        else if shift = INT_MIN then (\<lambda>_. Fault)
        else if shift < 0 then leftbody b (nat (- shift)) res
        else rightbody b (nat shift) res])"

definition mpleft :: "nat \<Rightarrow> int \<Rightarrow> nat \<Rightarrow> unit cmd" where
  "mpleft b shift res =
     withmp b (\<lambda>x. block
       [modify res (\<lambda>y. y\<lparr>msign := msign x\<rparr>),
        if mtop x = 0 then modify res (\<lambda>y. y\<lparr>mtop := 0\<rparr>)
        else if shift = INT_MIN then (\<lambda>_. Fault)
        else if shift \<le> 0 then rightbody b (nat (- shift)) res
        else leftbody b (nat shift) res])"

section \<open>Conversion from machine integers: mptoi.c, mptoui.c, mptov.c, mptouv.c\<close>

definition seqret :: "nat \<Rightarrow> unit cmd list \<Rightarrow> nat cmd" where
  "seqret b cs s = bindR (block cs s) (\<lambda>_ s. Ret b s)"

text \<open>The result, a new number when the argument is nil.\<close>

definition getres :: "nat \<Rightarrow> nat cmd" where
  "getres b s = (if b = nil then mpnew 0 s else Ret b s)"

definition itomp :: "u32 \<Rightarrow> nat \<Rightarrow> nat cmd" where
  "itomp i b s = bindR (getres b s) (\<lambda>b. seqret b
     [modify b (\<lambda>y. y\<lparr>msign := (if sint i < 0 then -1 else 1)\<rparr>),
      store b 0 [if sint i < 0 then - i else i],
      modify b (\<lambda>y. y\<lparr>mtop := 1\<rparr>),
      mpnorm b])"

definition uitomp :: "u32 \<Rightarrow> nat \<Rightarrow> nat cmd" where
  "uitomp i b s = bindR (getres b s) (\<lambda>b. seqret b
     [store b 0 [i],
      modify b (\<lambda>y. y\<lparr>mtop := 1, msign := 1\<rparr>),
      mpnorm b])"

definition vl_res :: "nat \<Rightarrow> nat cmd" where
  "vl_res b s = (if b = nil then mpnew 8 s else seqret b [mpbits b 8] s)"

definition vtomp :: "u64 \<Rightarrow> nat \<Rightarrow> nat cmd" where
  "vtomp v b s = bindR (vl_res b s) (\<lambda>b.
     let uv = (if sint v < 0 then - v else v) in seqret b
     [modify b (\<lambda>y. y\<lparr>msign := (if sint v < 0 then -1 else 1)\<rparr>),
      store b 0 [ucast uv, ucast (drop_bit 32 uv)],
      modify b (\<lambda>y. y\<lparr>mtop := 2\<rparr>),
      mpnorm b])"

definition uvtomp :: "u64 \<Rightarrow> nat \<Rightarrow> nat cmd" where
  "uvtomp v b s = bindR (vl_res b s) (\<lambda>b. seqret b
     [modify b (\<lambda>y. y\<lparr>msign := 1\<rparr>),
      store b 0 [ucast v, ucast (drop_bit 32 v)],
      modify b (\<lambda>y. y\<lparr>mtop := 2\<rparr>),
      mpnorm b])"

end
