(* ===== verification/Mp_Vec_Props.thy ===== *)
theory Mp_Vec_Props
  imports Mp_Vec
begin

text \<open>
  Correctness of the vector routines: a vector of digits stands for the number \<open>val\<close>, and each routine
  computes the arithmetic operation it is named after, multiplication by Karatsuba's method included.
\<close>

section \<open>The value of a vector\<close>

fun val :: "mpdigit list \<Rightarrow> nat" where
  "val [] = 0"
| "val (d # ds) = unat d + 2 ^ 32 * val ds"

abbreviation B :: nat where "B \<equiv> 2 ^ 32"

lemma digit_lt: "unat d < B" for d :: mpdigit
proof -
  have "unat d < 2 ^ LENGTH(32)" by (rule unsigned_less)
  then show ?thesis by simp
qed

lemma val_append: "val (a @ b) = val a + B ^ length a * val b"
  by (induction a) (simp_all add: algebra_simps)

lemma val_lt: "val a < B ^ length a"
proof (induction a)
  case (Cons d a)
  have "unat d < B" by (rule digit_lt)
  moreover have "val a + 1 \<le> B ^ length a" using Cons by simp
  then have "B * (val a + 1) \<le> B * B ^ length a" by (rule mult_le_mono2)
  ultimately have "unat d + B * val a < B * B ^ length a" by (simp only: distrib_left mult_1_right)
  then show ?case by simp
qed simp

lemma val_replicate [simp]: "val (replicate n 0) = 0"
  by (induction n) simp_all

lemma val_zpad [simp]: "val (zpad n a) = val a" "length (zpad n a) = max n (length a)"
  by (simp_all add: zpad_def val_append)

lemma val_0: "val a = 0 \<longleftrightarrow> list_all (\<lambda>d. d = 0) a"
  by (induction a) (auto simp: unat_eq_zero)

lemma val_split: "val a = val (take n a) + B ^ length (take n a) * val (drop n a)"
  using val_append [of "take n a" "drop n a"] by simp

lemma val_take: "val (drop n a) = 0 \<Longrightarrow> val (take n a) = val a"
  using val_split [of a n] by simp

section \<open>Addition and subtraction\<close>

lemma carry: "unat x + unat y = unat (x + y) + (if x + y < y then B else 0)" for x y :: mpdigit
proof -
  have "unat x < B" "unat y < B" by (rule digit_lt)+
  then show ?thesis by (auto simp: word_less_nat_alt unat_word_ariths mod_if)
qed

lemma borrow: "unat x + (if x < y then B else 0) = unat (x - y) + unat y" for x y :: mpdigit
proof -
  have "x - y + y = x" by simp
  with carry [of "x - y" y] show ?thesis by simp
qed

lemma borrow_test: "x < x - y \<longleftrightarrow> x < y" for x y :: mpdigit
proof -
  have "unat x < B" "unat y < B" by (rule digit_lt)+
  with borrow [of x y] show ?thesis by (auto simp: word_less_nat_alt split: if_splits)
qed

lemma vadd_ok:
  "length b \<le> length a \<Longrightarrow> unat c \<le> 1 \<Longrightarrow> val (vadd a b c) = val a + val b + unat c \<and> length (vadd a b c) = length a + 1"
proof (induction a b c rule: vadd.induct)
  case (1 x a y b c)
  let ?x = "x + c" and ?c = "lt1 (x + c) c + lt1 (x + c + y) y"
  have s1: "unat x + unat c = unat ?x + B * unat (lt1 ?x c)" using carry [of x c] by (cases "x + c < c") simp_all
  have s2: "unat ?x + unat y = unat (?x + y) + B * unat (lt1 (?x + y) y)" using carry [of ?x y] by (cases "?x + y < y") simp_all
  have "\<not> (?x < c \<and> ?x + y < y)"
  proof
    assume c: "?x < c \<and> ?x + y < y"
    then have "unat x + unat c + unat y = unat (?x + y) + 2 * B" using s1 s2 by simp
    moreover have "unat x < B" "unat y < B" by (rule digit_lt)+
    ultimately show False using 1(3) by linarith
  qed
  then have c: "unat ?c = unat (lt1 ?x c) + unat (lt1 (?x + y) y)" "unat ?c \<le> 1" by auto
  from 1(1) [OF refl refl refl refl] 1(2) c(2)
  have IH: "val (vadd a b ?c) = val a + val b + unat ?c" "length (vadd a b ?c) = length a + 1" by simp_all
  have "val (vadd (x # a) (y # b) c) = unat (?x + y) + B * (val a + val b + unat ?c)" using IH by (simp add: Let_def)
  also have "\<dots> = unat (?x + y) + B * unat (lt1 (?x + y) y) + B * unat (lt1 ?x c) + B * (val a + val b)"
    unfolding c(1) by (simp only: distrib_left add.assoc add.commute add.left_commute)
  also have "\<dots> = unat x + unat c + unat y + B * (val a + val b)" unfolding s2 [symmetric] using s1 by linarith
  finally show ?case using IH(2) by (simp add: Let_def)
next
  case (2 x a c)
  let ?x = "x + c"
  have s1: "unat x + unat c = unat ?x + B * unat (lt1 ?x c)" using carry [of x c] by (cases "x + c < c") simp_all
  have "unat (lt1 ?x c) \<le> 1" by simp
  from 2(1) [OF refl refl _ this] have IH: "val (vadd a [] (lt1 ?x c)) = val a + unat (lt1 ?x c)"
    "length (vadd a [] (lt1 ?x c)) = length a + 1" by simp_all
  have "val (vadd (x # a) [] c) = unat ?x + B * (val a + unat (lt1 ?x c))" unfolding IH(1) [symmetric] by (simp add: Let_def)
  also have "\<dots> = unat x + unat c + B * val a" using s1 by (simp only: distrib_left; linarith)
  finally show ?case using IH(2) by (simp add: Let_def)
qed simp

lemma mpvecadd_ok:
  "length b \<le> length a \<Longrightarrow> val (mpvecadd a b) = val a + val b \<and> length (mpvecadd a b) = length a + 1"
  using vadd_ok [of b a 0] by (simp add: mpvecadd_def)

lemma vsub_ok:
  "length b \<le> length a \<Longrightarrow> unat w \<le> 1 \<Longrightarrow> vsub a b w = (ds, w') \<Longrightarrow>
     val ds + val b + unat w = val a + B ^ length a * unat w' \<and> length ds = length a \<and> unat w' \<le> 1"
proof (induction a b w arbitrary: ds w' rule: vsub.induct)
  case (1 x a y b w)
  let ?y = "y + w" and ?w = "lt1 (y + w) w + lt1 x (y + w)"
  obtain es where r: "vsub a b ?w = (es, w')" "ds = (x - ?y) # es"
    using 1(4) by (auto simp: Let_def split: prod.splits)
  have s1: "unat y + unat w = unat ?y + B * unat (lt1 ?y w)" using carry [of y w] by (cases "y + w < w") simp_all
  have s2: "unat x + B * unat (lt1 x ?y) = unat (x - ?y) + unat ?y" using borrow [of x ?y] by (cases "x < ?y") simp_all
  have "\<not> (?y < w \<and> x < ?y)"
  proof
    assume c: "?y < w \<and> x < ?y"
    then have "unat y + unat w = unat ?y + B" using s1 by simp
    then have "unat ?y = 0" using 1(3) digit_lt [of y] by linarith
    with c show False by (simp add: word_less_nat_alt)
  qed
  then have c: "unat ?w = unat (lt1 ?y w) + unat (lt1 x ?y)" "unat ?w \<le> 1" by auto
  from 1(1) [OF refl refl refl _ c(2) r(1)] 1(2)
  have IH: "val es + val b + unat ?w = val a + B ^ length a * unat w'" "length es = length a" "unat w' \<le> 1" by simp_all
  have "B * (val es + val b + unat ?w) = B * (val a + B ^ length a * unat w')" unfolding IH(1) ..
  with s1 s2 c(1) have "val ds + val (y # b) + unat w = val (x # a) + B ^ length (x # a) * unat w'"
    unfolding r(2) by (simp only: val.simps distrib_left length_Cons power_Suc mult.assoc; linarith)
  with IH r(2) show ?case by simp
next
  case (2 x a w)
  let ?y = "x - w"
  obtain es where r: "vsub a [] (lt1 x ?y) = (es, w')" "ds = ?y # es"
    using 2(4) by (auto simp: Let_def split: prod.splits)
  have s2: "unat x + B * unat (lt1 x ?y) = unat ?y + unat w" using borrow [of x w] by (cases "x < w") (simp_all add: borrow_test)
  have "unat (lt1 x ?y) \<le> 1" by simp
  from 2(1) [OF refl refl _ this r(1)]
  have IH: "val es + unat (lt1 x ?y) = val a + B ^ length a * unat w'" "length es = length a" "unat w' \<le> 1" by simp_all
  have "B * (val es + unat (lt1 x ?y)) = B * (val a + B ^ length a * unat w')" unfolding IH(1) ..
  with s2 have "val ds + val [] + unat w = val (x # a) + B ^ length (x # a) * unat w'"
    unfolding r(2) by (simp only: val.simps distrib_left length_Cons power_Suc mult.assoc; linarith)
  with IH r(2) show ?case by simp
qed simp

lemma mpvecsub_ok:
  assumes "length b \<le> length a" "val b \<le> val a"
  shows "val (mpvecsub a b) = val a - val b \<and> length (mpvecsub a b) = length a"
proof -
  obtain ds w where r: "vsub a b 0 = (ds, w)" by (cases "vsub a b 0")
  from vsub_ok [OF assms(1) _ r] have v: "val ds + val b = val a + B ^ length a * unat w" "length ds = length a" by simp_all
  have "val ds < B ^ length a" using val_lt [of ds] v(2) by simp
  then have "B ^ length a * unat w < B ^ length a * 1" using v(1) assms(2) by linarith
  then have "unat w = 0" by (simp only: mult_less_cancel1) simp
  with v show ?thesis by (simp add: mpvecsub_def r)
qed

section \<open>Comparison\<close>

lemma cmploop_ok:
  "length xs = length ys \<Longrightarrow> cmploop xs ys = sgn (int (val (rev xs)) - int (val (rev ys)))"
proof (induction xs ys rule: list_induct2)
  case (Cons x xs y ys)
  let ?n = "length xs"
  have v: "val (rev (x # xs)) = val (rev xs) + B ^ ?n * unat x" "val (rev (y # ys)) = val (rev ys) + B ^ ?n * unat y"
    using Cons(1) by (simp_all add: val_append)
  have lt: "val (rev xs) < B ^ ?n" "val (rev ys) < B ^ ?n" using val_lt [of "rev xs"] val_lt [of "rev ys"] Cons(1) by simp_all
  consider "x = y" | "x < y" | "y < x" by (rule linorder_cases)
  then show ?case
  proof cases
    case 1
    then show ?thesis using Cons(2) v by (simp add: Let_def)
  next
    case 2
    then have "unat x + 1 \<le> unat y" by (simp add: word_less_nat_alt)
    then have "B ^ ?n * (unat x + 1) \<le> B ^ ?n * unat y" by (rule mult_le_mono2)
    with lt v have "val (rev (x # xs)) < val (rev (y # ys))" by (simp only: distrib_left mult_1_right)
    moreover have "x - y \<noteq> 0" "x < x - y" using 2 by (auto simp: borrow_test)
    ultimately show ?thesis by (simp add: Let_def)
  next
    case 3
    then have "unat y + 1 \<le> unat x" by (simp add: word_less_nat_alt)
    then have "B ^ ?n * (unat y + 1) \<le> B ^ ?n * unat x" by (rule mult_le_mono2)
    with lt v have "val (rev (y # ys)) < val (rev (x # xs))" by (simp only: distrib_left mult_1_right)
    moreover have "x - y \<noteq> 0" "\<not> x < x - y" using 3 by (auto simp: borrow_test)
    ultimately show ?thesis by (simp add: Let_def)
  qed
qed simp

text \<open>Digits beyond the length of the other number decide when they are not all 0.\<close>

lemma val_high:
  assumes "list_ex (\<lambda>d. d \<noteq> 0) (drop (length b) a)"
  shows "val b < val a"
proof -
  have "val (drop (length b) a) \<noteq> 0" using assms by (simp add: val_0 list_ex_iff list_all_iff)
  then have "1 \<le> val (drop (length b) a)" by simp
  then have "B ^ length b * 1 \<le> B ^ length b * val (drop (length b) a)" by (rule mult_le_mono2)
  moreover have "length (take (length b) a) = length b" using assms by (cases "length a \<le> length b") auto
  then have "val a = val (take (length b) a) + B ^ length b * val (drop (length b) a)"
    using val_split [of a "length b"] by (simp only:)
  ultimately show ?thesis using val_lt [of b] by linarith
qed

lemma val_low: "\<not> list_ex (\<lambda>d. d \<noteq> 0) (drop n a) \<Longrightarrow> val (take n a) = val a"
  by (rule val_take) (simp add: val_0 list_ex_iff list_all_iff)

lemma mpveccmp_ok: "mpveccmp a b = sgn (int (val a) - int (val b))"
proof -
  have ex: "list_ex P (rev xs) = list_ex P xs" for P and xs :: "mpdigit list" by (simp add: list_ex_iff)
  show ?thesis
  proof (cases "list_ex (\<lambda>d. d \<noteq> 0) (drop (length b) a) \<or> list_ex (\<lambda>d. d \<noteq> 0) (drop (length a) b)")
    case True
    then show ?thesis
      using val_high [of b a] val_high [of a b] by (auto simp: mpveccmp_def ex)
  next
    case False
    then have v: "val (take (length b) a) = val a" "val (take (length a) b) = val b" by (auto intro: val_low)
    have "length (rev (take (length b) a)) = length (rev (take (length a) b))" by simp
    from cmploop_ok [OF this] False v show ?thesis by (simp add: mpveccmp_def ex)
  qed
qed

lemma top_bit: "drop_bit 31 w = (if bit w 31 then 1 else 0)" for w :: mpdigit
proof (rule bit_word_eqI)
  fix n assume "n < LENGTH(32)"
  show "bit (drop_bit 31 w) n = bit (if bit w 31 then 1 else 0 :: mpdigit) n"
    by (cases n) (auto simp: bit_simps dest: bit_imp_le_length)
qed

lemma top_bit_nat: "bit w 31 \<longleftrightarrow> 2 ^ 31 \<le> unat w" for w :: mpdigit
proof -
  have "bit w 31 \<longleftrightarrow> bit (unat w) 31" by (simp add: bit_unsigned_iff)
  also have "\<dots> \<longleftrightarrow> odd (unat w div 2 ^ 31)" by (simp add: bit_iff_odd)
  also have "\<dots> \<longleftrightarrow> 2 ^ 31 \<le> unat w"
  proof -
    have "unat w div 2 ^ 31 < 2" using digit_lt [of w] by (simp add: less_mult_imp_div_less)
    moreover have "unat w div 2 ^ 31 = 0 \<longleftrightarrow> unat w < 2 ^ 31" by (simp add: div_eq_0_iff)
    ultimately show ?thesis by (auto simp: less_2_cases_iff)
  qed
  finally show ?thesis .
qed

lemma nonz_eq: "nonz v = (if v = 0 then 0 else 1)"
proof (cases "v = 0")
  case False
  have "unat (- v) + unat v = B" using borrow [of 0 v] False by (simp add: word_neq_0_conv)
  moreover have "unat v \<noteq> 0" using False by (simp add: unat_eq_zero)
  ultimately have "bit v 31 \<or> bit (- v) 31" unfolding top_bit_nat by simp arith
  then have "bit ((- v XOR v) OR v) 31" by (auto simp: bit_simps)
  with False show ?thesis by (simp only: nonz_def top_bit if_True if_False)
qed (simp add: nonz_def)

text \<open>The majority of the three top bits is the borrow of the subtraction.\<close>

lemma borrow_bit: "bit ((NOT x AND y) OR (NOT x AND (x - y)) OR (y AND (x - y))) 31 \<longleftrightarrow> x < y" for x y :: mpdigit
proof -
  have b: "unat x + (if x < y then B else 0) = unat (x - y) + unat y" by (rule borrow)
  have lt: "unat x < B" "unat y < B" "unat (x - y) < B" by (rule digit_lt)+
  have "bit ((NOT x AND y) OR (NOT x AND (x - y)) OR (y AND (x - y))) 31 \<longleftrightarrow>
      \<not> bit x 31 \<and> bit y 31 \<or> \<not> bit x 31 \<and> bit (x - y) 31 \<or> bit y 31 \<and> bit (x - y) 31"
    by (auto simp: bit_simps)
  also have "\<dots> \<longleftrightarrow> unat x < unat y"
  proof (cases "x < y")
    case True
    then have "unat x + B = unat (x - y) + unat y" "unat x < unat y" using b by (simp_all add: word_less_nat_alt)
    with lt show ?thesis unfolding top_bit_nat by simp linarith
  next
    case False
    then have "unat x = unat (x - y) + unat y" "\<not> unat x < unat y" using b by (simp_all add: word_less_nat_alt)
    with lt show ?thesis unfolding top_bit_nat by simp linarith
  qed
  finally show ?thesis by (simp add: word_less_nat_alt)
qed

lemma tsloop_decided: "p = 0 \<or> p = 1 \<Longrightarrow> tsloop xs ys 1 p = (1, p)"
proof (induction xs arbitrary: ys)
  case (Cons x xs)
  have "nonz (x - y) AND NOT 1 = 0" for y by (simp add: nonz_eq)
  then have "tsloop (x # xs) (y # ys) 1 p = tsloop xs ys 1 p" for y ys
    by (simp only: tsloop.simps Let_def) simp
  with Cons show ?case by (cases ys) (simp_all del: tsloop.simps(1))
qed simp

lemma tsloop_ok:
  "p = 0 \<or> p = 1 \<Longrightarrow> length xs = length ys \<Longrightarrow>
     tsloop xs ys 0 p = (if xs = ys then (0, p) else (1, if cmploop xs ys = 1 then 1 else 0))"
proof (induction xs arbitrary: ys)
  case (Cons x xs)
  obtain y zs where ys: "ys = y # zs" "length xs = length zs" using Cons.prems(2) by (cases ys) auto
  let ?m = "(NOT x AND y) OR (NOT x AND (x - y)) OR (y AND (x - y))"
  have top: "drop_bit 31 (NOT ?m) = (if x < y then 0 else 1)"
    by (simp only: top_bit bit_not_iff borrow_bit) simp
  show ?case
  proof (cases "x = y")
    case True
    then show ?thesis using Cons.IH [OF Cons.prems(1) ys(2)] ys by (simp add: Let_def nonz_eq)
  next
    case False
    have p0: "p AND NOT 1 = 0" using Cons.prems(1) by auto
    have step: "tsloop (x # xs) ys 0 p = tsloop xs zs 1 (if x < y then 0 else 1)"
      unfolding ys(1) tsloop.simps Let_def top using False p0 by (simp add: nonz_eq)
    have "cmploop (x # xs) ys = (if x < y then -1 else 1)"
      using False ys(1) by (simp add: Let_def borrow_test)
    with step False ys(1) show ?thesis by (simp add: tsloop_decided)
  qed
qed simp

lemma foldl_or: "foldl (OR) z ds = 0 \<longleftrightarrow> z = 0 \<and> list_all (\<lambda>d. d = 0) ds" for z :: mpdigit
  by (induction ds arbitrary: z) (auto simp: or_eq_0_iff)

lemma cmp_high: "nonz (foldl (OR) 0 (rev (drop n a))) = (if val (drop n a) = 0 then 0 else 1)"
  by (simp add: nonz_eq foldl_or val_0 list_all_iff)

lemma val_inj: "length a = length b \<Longrightarrow> val a = val b \<Longrightarrow> a = b"
proof (induction a b rule: list_induct2)
  case (Cons x a y b)
  have m: "(unat z + B * v) mod B = unat z" "(unat z + B * v) div B = v" for z :: mpdigit and v
    using digit_lt [of z] by simp_all
  have "unat x = unat y" "val a = val b" using Cons(3) m [of x "val a"] m [of y "val b"] by (simp_all only: val.simps)
  with Cons(2) show ?case by (simp add: unsigned_word_eqI)
qed simp

lemma mpvectscmp_eq:
  "mpvectscmp a b = (if length a < length b \<and> val a = val b then 1 else sgn (int (val a) - int (val b)))"
proof -
  let ?a = "take (length b) a" and ?b = "take (length a) b"
  have l: "length (rev ?a) = length (rev ?b)" by simp
  have out: "sint ((1 - 1 :: mpdigit) OR 1) = 1" "sint ((0 - 1 :: mpdigit) OR 1) = -1" "sint ((0 - 0 :: mpdigit) OR 0) = 0"
    "sint ((1 - 0 :: mpdigit) OR 0) = 1" by simp_all
  have c: "cmploop (rev ?a) (rev ?b) = sgn (int (val ?a) - int (val ?b))" using cmploop_ok [OF l] by simp
  have e: "rev ?a = rev ?b \<longleftrightarrow> val ?a = val ?b" using val_inj [of ?a ?b] by auto
  have ts: "tsloop (rev ?a) (rev ?b) 0 p = (if val ?a = val ?b then (0, p) else (1, if val ?b < val ?a then 1 else 0))"
    if "p = 0 \<or> p = 1" for p
    using tsloop_ok [OF that l] c e by (simp add: sgn_if)
  consider (long) "length b < length a" | (short) "length a < length b" | (same) "length a = length b" by linarith
  then show ?thesis
  proof cases
    case long
    then have b: "?b = b" by simp
    show ?thesis
    proof (cases "val (drop (length b) a) = 0")
      case True
      then have "val ?a = val a" by (rule val_take)
      with ts [of 0] long b True show ?thesis unfolding mpvectscmp_def Let_def cmp_high by (auto simp: out sgn_if)
    next
      case False
      then have "val b < val a" by (intro val_high) (simp add: val_0 list_ex_iff list_all_iff)
      with long False show ?thesis unfolding mpvectscmp_def Let_def cmp_high by (simp add: tsloop_decided)
    qed
  next
    case short
    then have a: "?a = a" by simp
    show ?thesis
    proof (cases "val (drop (length a) b) = 0")
      case True
      then have "val ?b = val b" by (rule val_take)
      with ts [of 1] short a True show ?thesis unfolding mpvectscmp_def Let_def cmp_high by (auto simp: out sgn_if)
    next
      case False
      then have "val a < val b" by (intro val_high) (simp add: val_0 list_ex_iff list_all_iff)
      with short False show ?thesis unfolding mpvectscmp_def Let_def cmp_high by (simp add: tsloop_decided)
    qed
  next
    case same
    with ts [of 0] show ?thesis unfolding mpvectscmp_def Let_def by (auto simp: out sgn_if)
  qed
qed

section \<open>Multiplication\<close>

lemma LO_nat: "unat (LO x) = unat x mod 2 ^ 16"
proof -
  have "(0xffff :: mpdigit) = mask 16" by (simp add: mask_eq_exp_minus_1)
  then have "LO x = take_bit 16 x" by (simp only: LO_def take_bit_eq_mask)
  then have "unat (LO x) = take_bit 16 (unat x)" by (simp only: unsigned_take_bit_eq)
  then show ?thesis by (simp only: take_bit_eq_mod)
qed

lemma HI_nat: "unat (HI x) = unat x div 2 ^ 16"
proof -
  have "unat (HI x) = drop_bit 16 (unat x)" by (simp only: HI_def unat_drop_bit_eq)
  then show ?thesis by (simp only: drop_bit_eq_div)
qed

lemma unat_mult_small: "unat x * unat y < B \<Longrightarrow> unat (x * y) = unat x * unat y" for x y :: mpdigit
  by (simp add: unat_word_ariths)

lemma unat_add_small: "unat x + unat y < B \<Longrightarrow> unat (x + y) = unat x + unat y" for x y :: mpdigit
  by (simp add: unat_word_ariths)

lemma shift16: "unat (push_bit 16 x) = (unat x mod 2 ^ 16) * 2 ^ 16" for x :: mpdigit
proof -
  have "push_bit 16 x = x * 2 ^ 16" by (simp add: push_bit_eq_mult)
  then have "unat (push_bit 16 x) = (unat x * 2 ^ 16) mod (2 ^ 16 * 2 ^ 16)" by (simp add: unat_word_ariths)
  then show ?thesis by (simp only: mult_mod_left)
qed

lemma mpdigmul_ok:
  assumes "mpdigmul a b = (lo, hi)"
  shows "unat lo + B * unat hi = unat a * unat b"
proof -
  define H where "H = (2 ^ 16 :: nat)"
  have BH: "B = H * H" by (simp add: H_def)
  define ah al bh bl where "ah = HI a" and "al = LO a" and "bh = HI b" and "bl = LO b"
  have lt: "unat ah < H" "unat al < H" "unat bh < H" "unat bl < H"
    using digit_lt [of a] digit_lt [of b]
    by (simp_all add: ah_def al_def bh_def bl_def HI_nat LO_nat H_def less_mult_imp_div_less)
  have ab: "unat a = unat ah * H + unat al" "unat b = unat bh * H + unat bl"
    by (simp_all add: ah_def al_def bh_def bl_def HI_nat LO_nat H_def)
  have small: "unat x * unat y < B" if "unat x < H" "unat y < H" for x y :: mpdigit
    unfolding BH by (rule mult_strict_mono) (use that in auto)
  define p1 p2 p3 p4 where "p1 = ah * bl" and "p2 = bh * al" and "p3 = bl * al" and "p4 = ah * bh"
  have p: "unat p1 = unat ah * unat bl" "unat p2 = unat bh * unat al" "unat p3 = unat bl * unat al" "unat p4 = unat ah * unat bh"
    unfolding p1_def p2_def p3_def p4_def using lt small by (auto intro!: unat_mult_small)
  define x1 x2 where "x1 = push_bit 16 p1" and "x2 = push_bit 16 p2"
  define q1 where "q1 = p3 + x1"
  define c1 c2 where "c1 = lt1 q1 x1" and "c2 = lt1 (q1 + x2) x2"
  have s: "unat p3 + unat x1 = unat q1 + B * unat c1" "unat q1 + unat x2 = unat (q1 + x2) + B * unat c2"
    unfolding c1_def c2_def q1_def using carry [of p3 x1] carry [of "p3 + x1" x2] by (simp_all split: if_splits)
  have x: "unat x1 = (unat p1 mod H) * H" "unat x2 = (unat p2 mod H) * H" unfolding x1_def x2_def H_def by (rule shift16)+
  have h: "unat (HI p1) = unat p1 div H" "unat (HI p2) = unat p2 div H" unfolding H_def by (rule HI_nat)+
  have lohi: "lo = q1 + x2" "hi = p4 + (c1 + c2 + HI p1 + HI p2)"
    using assms unfolding mpdigmul_def Let_def ah_def [symmetric] al_def [symmetric] bh_def [symmetric] bl_def [symmetric]
      p1_def [symmetric] p2_def [symmetric] p3_def [symmetric] p4_def [symmetric] x1_def [symmetric] x2_def [symmetric]
      q1_def [symmetric] c1_def [symmetric] c2_def [symmetric] by simp_all
  define t where "t = unat p4 + (unat c1 + unat c2 + unat p1 div H + unat p2 div H)"
  have e: "unat p1 = unat p1 div H * H + unat p1 mod H" "unat p2 = unat p2 div H * H + unat p2 mod H" by simp_all
  have "unat a * unat b = unat p4 * (H * H) + (unat p1 + unat p2) * H + unat p3"
    unfolding ab p by (simp only: algebra_simps)
  also have "\<dots> = unat p4 * B + (unat p1 div H + unat p2 div H) * B + (unat x1 + unat x2 + unat p3)"
    unfolding x BH by (subst e(1), subst e(2)) (simp only: algebra_simps)
  also have "\<dots> = unat lo + B * t" unfolding t_def lohi(1) using s by (simp only: distrib_left mult.commute [of _ B]; linarith)
  finally have tot: "unat a * unat b = unat lo + B * t" .
  have "B * t < B * B"
  proof -
    have "unat a * unat b < B * B" by (rule mult_strict_mono) (use digit_lt [of a] digit_lt [of b] in auto)
    with tot show ?thesis by linarith
  qed
  then have tB: "t < B" by (simp only: mult_less_cancel1)
  have "unat (c1 + c2 + HI p1 + HI p2) = unat c1 + unat c2 + unat p1 div H + unat p2 div H"
    using tB unfolding t_def h [symmetric]
    by (subst unat_add_small, subst unat_add_small, subst unat_add_small, simp_all add: unat_add_small)
  then have "unat hi = t" using tB unfolding lohi(2) t_def by (subst unat_add_small) simp_all
  with tot show ?thesis by simp
qed

text \<open>A digit times a digit, a digit and a pending digit fit in two digits.\<close>

lemma muladd_bound:
  fixes x y z t :: nat
  assumes "x < n" "y < n" "z < n" "t < n"
  shows "x * y + z + t < n * n"
proof -
  obtain k where k: "n = Suc k" using assms(1) by (cases n) auto
  then have "x * y \<le> k * k" using assms by (intro mult_le_mono) simp_all
  moreover have "z \<le> k" "t \<le> k" using assms k by simp_all
  ultimately have "x * y + z + t \<le> k * k + k + k" by linarith
  then show ?thesis unfolding k by simp
qed

lemma dmuladd_ok:
  "length p = length b \<Longrightarrow> unat h + unat c < B \<Longrightarrow>
     val (dmuladd b m p h c) = val p + unat m * val b + (unat h + unat c) \<and> length (dmuladd b m p h c) = length b + 1"
proof (induction b arbitrary: p h c)
  case Nil
  then show ?case by (simp add: unat_add_small)
next
  case (Cons d b)
  obtain y q where p: "p = y # q" "length q = length b" using Cons.prems(1) by (cases p) auto
  obtain lo hi where lh: "mpdigmul d m = (lo, hi)" by (cases "mpdigmul d m")
  define x0 where "x0 = h + c"
  define c1 c2 where "c1 = lt1 (x0 + lo) lo" and "c2 = lt1 (x0 + lo + y) y"
  have x0: "unat x0 = unat h + unat c" unfolding x0_def using Cons.prems(2) by (rule unat_add_small)
  have c0: "lt1 x0 c = 0" using x0 by (simp add: word_less_nat_alt)
  have s: "unat x0 + unat lo = unat (x0 + lo) + B * unat c1" "unat (x0 + lo) + unat y = unat (x0 + lo + y) + B * unat c2"
    unfolding c1_def c2_def using carry [of x0 lo] carry [of "x0 + lo" y] by (simp_all split: if_splits)
  have c: "unat (c1 + c2) = unat c1 + unat c2" by (auto simp: c1_def c2_def)
  have pr: "unat lo + B * unat hi = unat d * unat m" by (rule mpdigmul_ok [OF lh])
  have tot: "unat d * unat m + unat x0 + unat y = unat (x0 + lo + y) + B * (unat hi + unat (c1 + c2))"
    unfolding c using s pr by (simp only: distrib_left; linarith)
  have "B * (unat hi + unat (c1 + c2)) < B * B"
    using tot muladd_bound [OF digit_lt [of d] digit_lt [of m] digit_lt [of x0] digit_lt [of y]] by linarith
  then have "unat hi + unat (c1 + c2) < B" by (simp only: mult_less_cancel1)
  from Cons.IH [OF p(2) this]
  have IH: "val (dmuladd b m q hi (c1 + c2)) = val q + unat m * val b + (unat hi + unat (c1 + c2))"
    "length (dmuladd b m q hi (c1 + c2)) = length b + 1" by simp_all
  have step: "dmuladd (d # b) m p h c = (x0 + lo + y) # dmuladd b m q hi (c1 + c2)"
    unfolding p(1) dmuladd.simps Let_def lh x0_def [symmetric] c0 c1_def c2_def by simp
  have "val (dmuladd (d # b) m p h c) = unat (x0 + lo + y) + B * (unat hi + unat (c1 + c2)) + B * val q + B * (unat m * val b)"
    unfolding step val.simps IH(1) by (simp only: distrib_left)
  also have "\<dots> = unat y + B * val q + (unat m * unat d + unat m * (B * val b)) + unat x0"
    unfolding tot [symmetric] by (simp only: mult.commute mult.left_commute)
  also have "\<dots> = val p + unat m * val (d # b) + (unat h + unat c)" unfolding p(1) x0 val.simps distrib_left ..
  finally show ?case using IH(2) step by simp
qed

lemma mpvecdigmuladd_ok:
  "length p = length b \<Longrightarrow> val (mpvecdigmuladd b m p) = val p + unat m * val b \<and> length (mpvecdigmuladd b m p) = length b + 1"
  using dmuladd_ok [of p b 0 0 m] by (simp add: mpvecdigmuladd_def)

text \<open>The schoolbook loop, at place \<open>i\<close>: the digits of \<open>p\<close> from \<open>i + length a\<close> on are still 0.\<close>

lemma val_overwrite:
  assumes "i + length ds \<le> length p"
  shows "val (overwrite i ds p) + B ^ i * val (seg i (length ds) p) = val p + B ^ i * val ds"
proof -
  have v1: "val (overwrite i ds p) = val (take i p) + B ^ i * (val ds + B ^ length ds * val (drop (i + length ds) p))"
    using assms by (simp add: overwrite_def val_append)
  have p: "p = take i p @ seg i (length ds) p @ drop (i + length ds) p"
    using assms by (simp add: seg_def) (metis append_take_drop_id drop_drop add.commute)
  have v2: "val p = val (take i p) + B ^ i * (val (seg i (length ds) p) + B ^ length ds * val (drop (i + length ds) p))"
    using assms by (subst p) (simp add: val_append)
  show ?thesis unfolding v1 v2 by (simp only: distrib_left; linarith)
qed

lemma mulloop_ok:
  "i + length a + length b \<le> length p \<Longrightarrow> val (drop (i + length a) p) = 0 \<Longrightarrow>
     val (mulloop skip a b i p) = val p + B ^ i * (val a * val b) \<and> length (mulloop skip a b i p) = length p"
proof (induction b arbitrary: i p)
  case (Cons d b)
  let ?s = "seg i (length a) p"
  define p' where "p' = (if skip \<and> d = 0 then p else overwrite i (mpvecdigmuladd a d ?s) p)"
  have s: "length ?s = length a" using Cons.prems(1) by simp
  note M = mpvecdigmuladd_ok [OF s, of d]
  have i1: "Suc i + length a + length b \<le> length p" using Cons.prems(1) by simp
  have dr: "drop (i + length a) p = p ! (i + length a) # drop (Suc (i + length a)) p"
    using Cons.prems(1) by (simp add: Cons_nth_drop_Suc)
  have z: "p ! (i + length a) = 0" "val (drop (Suc (i + length a)) p) = 0"
    using Cons.prems(2) unfolding dr by (auto simp: unat_eq_zero)
  have v': "val p' = val p + B ^ i * (unat d * val a) \<and> length p' = length p \<and> val (drop (Suc i + length a) p') = 0"
  proof (cases "skip \<and> d = 0")
    case True
    then show ?thesis using z by (simp add: p'_def)
  next
    case False
    let ?ds = "mpvecdigmuladd a d ?s"
    have fit: "i + length ?ds \<le> length p" using M i1 by simp
    have "seg i (length ?ds) p = ?s @ [0]"
      using M z(1) i1 by (simp add: seg_def take_Suc_conv_app_nth)
    then have "val (seg i (length ?ds) p) = val ?s" by (simp add: val_append)
    with val_overwrite [OF fit] M have "val (overwrite i ?ds p) = val p + B ^ i * (unat d * val a)"
      by (simp only: distrib_left)
    moreover have "drop (Suc i + length a) (overwrite i ?ds p) = drop (Suc (i + length a)) p"
      using fit M by (simp add: overwrite_def)
    ultimately show ?thesis using False z(2) fit by (simp add: p'_def)
  qed
  have fit': "Suc i + length a + length b \<le> length p'" using v' i1 by simp
  have "mulloop skip a (d # b) i p = mulloop skip a b (Suc i) p'" by (simp add: p'_def Let_def)
  with Cons.IH [OF fit'] v' show ?case by (simp add: algebra_simps)
qed simp

section \<open>Karatsuba\<close>

lemma val_small:
  assumes "val ds < B ^ k"
  shows "val (take k ds) = val ds" "val (drop k ds) = 0"
proof -
  have "val (drop k ds) = 0"
  proof (cases "k \<le> length ds")
    case True
    show ?thesis
    proof (rule ccontr)
      assume "val (drop k ds) \<noteq> 0"
      then have "B ^ k * 1 \<le> B ^ k * val (drop k ds)" by (intro mult_le_mono2) simp
      moreover have "val ds = val (take k ds) + B ^ k * val (drop k ds)" using val_split [of ds k] True by simp
      ultimately show False using assms by linarith
    qed
  qed simp
  then show "val (take k ds) = val ds" "val (drop k ds) = 0" by (simp_all add: val_take)
qed

lemma val_butlast:
  assumes "length res = Suc L" "val res < B ^ L"
  shows "val (butlast res) = val res" "length (butlast res) = L" "last res = 0"
proof -
  have ne: "res \<noteq> []" using assms(1) by auto
  have bl: "butlast res = take L res" using assms(1) by (simp add: butlast_conv_take)
  then show v: "val (butlast res) = val res" using val_small(1) [OF assms(2)] by simp
  show "length (butlast res) = L" using assms(1) by simp
  have "val res = val (butlast res) + B ^ L * unat (last res)"
    using val_append [of "butlast res" "[last res]"] ne assms(1) by simp
  then show "last res = 0" using v by (simp add: unat_eq_zero)
qed

lemma addat_ok:
  assumes "length res = Suc L" "val res < B ^ L" "n + length ds \<le> L"
  shows "length (addat n ds res) = Suc L \<and> val (addat n ds res) = val res + B ^ n * val ds"
proof -
  note b = val_butlast [OF assms(1,2)]
  have le: "length ds \<le> length (drop n (butlast res))" using b(2) assms(3) by simp
  have tk: "take n res = take n (butlast res)" using assms(1,3) by (simp add: take_butlast)
  have "val res = val (take n (butlast res)) + B ^ n * val (drop n (butlast res))"
    using val_split [of "butlast res" n] b(1,2) assms(3) by simp
  with mpvecadd_ok [OF le] tk b(2) assms(1,3) show ?thesis
    by (simp add: addat_def val_append distrib_left)
qed

lemma subat_ok:
  assumes "length res = Suc L" "val res < B ^ L" "n + length ds \<le> L" "B ^ n * val ds \<le> val res"
  shows "length (subat n ds res) = Suc L \<and> val (subat n ds res) = val res - B ^ n * val ds"
proof -
  note b = val_butlast [OF assms(1,2)]
  have le: "length ds \<le> length (drop n (butlast res))" using b(2) assms(3) by simp
  have tk: "take n res = take n (butlast res)" using assms(1,3) by (simp add: take_butlast)
  have v: "val res = val (take n (butlast res)) + B ^ n * val (drop n (butlast res))"
    using val_split [of "butlast res" n] b(1,2) assms(3) by simp
  have lo: "val (take n (butlast res)) < B ^ n"
    using val_lt [of "take n (butlast res)"] b(2) assms(3) by simp
  have "val ds \<le> val (drop n (butlast res))"
  proof (rule ccontr)
    assume "\<not> val ds \<le> val (drop n (butlast res))"
    then have "B ^ n * (val (drop n (butlast res)) + 1) \<le> B ^ n * val ds" by (intro mult_le_mono2) simp
    with assms(4) v lo show False by (simp only: distrib_left mult_1_right)
  qed
  note S = mpvecsub_ok [OF le this]
  have "B ^ n * val ds \<le> B ^ n * val (drop n (butlast res))" by (rule mult_le_mono2) fact
  then have "val (take n (butlast res)) + B ^ n * (val (drop n (butlast res)) - val ds) = val res - B ^ n * val ds"
    unfolding v diff_mult_distrib2 by linarith
  with S tk b(2,3) assms(1,3) show ?thesis by (simp add: subat_def val_append)
qed

text \<open>The identity, with the signs of the differences made explicit.\<close>

definition dist :: "nat \<Rightarrow> nat \<Rightarrow> nat" where
  "dist x y = (if x < y then y - x else x - y)"

lemma dist_lt: "x < n \<Longrightarrow> y < n \<Longrightarrow> dist x y < n"
  by (cases "x < y") (simp_all add: dist_def)

lemma karatsuba_id:
  "(x1 < x0) = (y0 < y1) \<Longrightarrow> x0 * y0 + x1 * y1 + dist x1 x0 * dist y0 y1 = x1 * y0 + x0 * y1"
  "(x1 < x0) \<noteq> (y0 < y1) \<Longrightarrow> x0 * y0 + x1 * y1 = x1 * y0 + x0 * y1 + dist x1 x0 * dist y0 y1"
proof -
  have le: "\<exists>k. y = x + k" if "x \<le> y" for x y :: nat using that by (simp add: le_iff_add)
  show "(x1 < x0) = (y0 < y1) \<Longrightarrow> x0 * y0 + x1 * y1 + dist x1 x0 * dist y0 y1 = x1 * y0 + x0 * y1"
    using le [of x1 x0] le [of x0 x1] le [of y0 y1] le [of y1 y0]
    by (cases "x1 < x0"; cases "y0 < y1") (auto simp: dist_def algebra_simps)
  show "(x1 < x0) \<noteq> (y0 < y1) \<Longrightarrow> x0 * y0 + x1 * y1 = x1 * y0 + x0 * y1 + dist x1 x0 * dist y0 y1"
    using le [of x1 x0] le [of x0 x1] le [of y0 y1] le [of y1 y0]
    by (cases "x1 < x0"; cases "y0 < y1") (auto simp: dist_def algebra_simps)
qed

lemma kcombine_ok:
  fixes U0 U1 V0 V1 :: nat
  assumes "val (take l0 u0v0) = U0 * V0" "val (take l0 dp) = dist U1 U0 * dist V0 V1" "high \<Longrightarrow> val (take l1 u1v1) = U1 * V1"
    "\<not> high \<Longrightarrow> V1 = 0" "neg = ((U1 < U0) \<noteq> (V0 < V1))" "U0 < B ^ n" "U1 < B ^ n" "V0 < B ^ n" "V1 < B ^ n"
    "l0 \<le> 2 * n" "l1 \<le> 2 * n"
  shows "val (kcombine n l0 l1 high neg dp u0v0 u1v1) = (U0 + B ^ n * U1) * (V0 + B ^ n * V1)"
proof -
  define X where "X = B ^ n"
  define L where "L = 4 * n + 1"
  define r1 where "r1 = addat 0 (take l0 u0v0) (replicate (4 * n + 2) 0)"
  define r2 where "r2 = addat n (take l0 u0v0) r1"
  define r3 where "r3 = (if high then addat n (take l1 u1v1) r2 else r2)"
  define r4 where "r4 = (if high then addat (2 * n) (take l1 u1v1) r3 else r3)"
  have X1: "1 \<le> X" by (simp add: X_def)
  have pr: "x * y \<le> X * X" if "x < X" "y < X" for x y using that by (intro mult_le_mono) simp_all
  define M where "M = U0 * V0 + U1 * V1"
  have M1: "U0 * V0 \<le> X * X" "U1 * V1 \<le> X * X" using pr assms(6-9) by (simp_all add: X_def)
  define Q where "Q = X * (X * (X * X))"
  have XX: "X * X \<le> Q" "X * (X * X) \<le> Q" using X1 by (simp_all add: Q_def)
  have big: "5 * Q < B ^ L"
  proof -
    have "B ^ L = B * Q" unfolding L_def X_def Q_def by (simp add: power_add [symmetric])
    moreover have "0 < Q" using X1 by (simp add: Q_def)
    ultimately show ?thesis by simp
  qed
  have le: "U0 * V0 \<le> Q" "X * (U0 * V0) \<le> Q" "U1 * V1 \<le> Q" "X * (U1 * V1) \<le> Q" "X * (X * (U1 * V1)) \<le> Q"
    using M1 XX mult_le_mono2 [OF M1(1), of X] mult_le_mono2 [OF M1(2), of X] mult_le_mono2 [OF mult_le_mono2 [OF M1(2), of X], of X]
    unfolding Q_def by linarith+
  have dl: "dist U1 U0 < X" "dist V0 V1 < X" using assms(6-9) by (auto intro: dist_lt simp: X_def)
  have D: "X * (dist U1 U0 * dist V0 V1) \<le> Q" using mult_le_mono2 [OF pr [OF dl], of X] XX by linarith
  have ln: "length (take l0 ds) \<le> 2 * n" "length (take l1 ds) \<le> 2 * n" for ds :: "mpdigit list" using assms(10,11) by simp_all
  have r1: "length r1 = Suc L \<and> val r1 = U0 * V0"
    using addat_ok [of "replicate (4 * n + 2) 0" L 0 "take l0 u0v0"] assms(1) ln(1) [of u0v0] by (simp add: r1_def L_def)
  have r2: "length r2 = Suc L \<and> val r2 = U0 * V0 + X * (U0 * V0)"
    using addat_ok [of r1 L n "take l0 u0v0"] r1 assms(1) ln(1) [of u0v0] le big unfolding r2_def X_def L_def by simp
  have r3: "length r3 = Suc L \<and> val r3 = U0 * V0 + X * (U0 * V0) + X * (U1 * V1)"
  proof (cases high)
    case True
    have "val r2 < B ^ L" using r2 le big by linarith
    moreover have "n + length (take l1 u1v1) \<le> L" using ln(2) [of u1v1] unfolding L_def by linarith
    ultimately show ?thesis using addat_ok [of r2 L n "take l1 u1v1"] r2 assms(3) True by (simp add: r3_def X_def)
  qed (use r2 assms(4) in \<open>simp add: r3_def\<close>)
  have r4: "length r4 = Suc L \<and> val r4 = U0 * V0 + X * (U0 * V0) + X * (U1 * V1) + X * (X * (U1 * V1))"
  proof (cases high)
    case True
    have "val r3 < B ^ L" using r3 le big by linarith
    moreover have "2 * n + length (take l1 u1v1) \<le> L" using ln(2) [of u1v1] unfolding L_def by linarith
    moreover have "B ^ (2 * n) = X * X" unfolding X_def by (simp add: power_add [symmetric] mult_2)
    ultimately show ?thesis using addat_ok [of r3 L "2 * n" "take l1 u1v1"] r3 assms(3) True by (simp add: r4_def)
  qed (use r3 assms(4) in \<open>simp add: r4_def\<close>)
  have v4: "val r4 < B ^ L" "n + length (take l0 dp) \<le> L" using r4 le big ln(1) [of dp] unfolding L_def by linarith+
  have goal: "(U0 + B ^ n * U1) * (V0 + B ^ n * V1) = U0 * V0 + X * (U1 * V0 + U0 * V1) + X * (X * (U1 * V1))"
    unfolding X_def [symmetric] by (simp only: algebra_simps)
  have k: "kcombine n l0 l1 high neg dp u0v0 u1v1 = (if neg then subat n (take l0 dp) r4 else addat n (take l0 dp) r4)"
    unfolding kcombine_def Let_def r4_def r3_def r2_def r1_def ..
  show ?thesis
  proof (cases neg)
    case True
    then have id: "U0 * V0 + U1 * V1 = U1 * V0 + U0 * V1 + dist U1 U0 * dist V0 V1" using assms(5) karatsuba_id(2) by blast
    have "X * (U0 * V0 + U1 * V1) = X * (U1 * V0 + U0 * V1) + X * (dist U1 U0 * dist V0 V1)" unfolding id by (simp only: distrib_left)
    then have e: "val r4 = U0 * V0 + X * (U1 * V0 + U0 * V1) + X * (dist U1 U0 * dist V0 V1) + X * (X * (U1 * V1))"
      using r4 by (simp only: distrib_left; linarith)
    have "B ^ n * val (take l0 dp) \<le> val r4" unfolding assms(2) X_def [symmetric] using e by linarith
    from subat_ok [OF _ v4 this] r4 have "val (subat n (take l0 dp) r4) = val r4 - X * (dist U1 U0 * dist V0 V1)"
      unfolding assms(2) X_def [symmetric] by blast
    then show ?thesis unfolding k goal using True e by simp
  next
    case False
    then have id: "U0 * V0 + U1 * V1 + dist U1 U0 * dist V0 V1 = U1 * V0 + U0 * V1" using assms(5) karatsuba_id(1) by blast
    from addat_ok [OF _ v4] r4 have "val (addat n (take l0 dp) r4) = val r4 + X * (dist U1 U0 * dist V0 V1)"
      unfolding assms(2) X_def [symmetric] by blast
    then show ?thesis unfolding k goal id [symmetric] using False r4 by (simp add: distrib_left)
  qed
qed

lemma sgn_neg: "(sgn (int x - int y) < 0) = (x < y)"
  by (simp add: sgn_if)

text \<open>The differences of the halves.\<close>

lemma kdu_ok:
  assumes "length u1 \<le> length u0" "length u0 \<le> 2 * n + 1"
  shows "val (kdu n u0 u1) = dist (val u1) (val u0)" "length (kdu n u0 u1) = length u0"
proof -
  have lt: "val u0 < B ^ length u0" "val u1 < B ^ length u1" by (rule val_lt)+
  have le: "B ^ length u1 \<le> B ^ length u0" using assms(1) by (intro power_increasing) simp_all
  let ?d = "if mpveccmp u1 u0 < 0 then mpvecsub u0 u1 else mpvecsub u1 (take (length u1) u0)"
  have d: "val ?d = dist (val u1) (val u0)"
  proof (cases "val u1 < val u0")
    case True
    then show ?thesis using mpvecsub_ok [OF assms(1)] by (simp add: mpveccmp_ok sgn_neg dist_def)
  next
    case False
    then have "val u0 < B ^ length u1" using lt by linarith
    then have v: "val (take (length u1) u0) = val u0" by (rule val_small)
    have "length (take (length u1) u0) \<le> length u1" by simp
    from mpvecsub_ok [OF this] v False show ?thesis by (simp add: mpveccmp_ok sgn_neg dist_def)
  qed
  have "dist (val u1) (val u0) < B ^ length u0"
    by (rule dist_lt) (use lt le in linarith)+
  then have "val (zpad (2 * n + 1) ?d) < B ^ length u0" unfolding val_zpad d .
  then show "val (kdu n u0 u1) = dist (val u1) (val u0)" unfolding kdu_def using d by (simp add: val_small)
  show "length (kdu n u0 u1) = length u0" unfolding kdu_def using assms(2) by simp
qed

lemma kdv_ok:
  assumes "length v1 \<le> length v0" "length v0 \<le> 2 * n + 1"
  shows "val (kdv n v0 v1) = dist (val v0) (val v1)" "length (kdv n v0 v1) = length v0"
proof -
  have lt: "val v0 < B ^ length v0" "val v1 < B ^ length v1" by (rule val_lt)+
  have le: "B ^ length v1 \<le> B ^ length v0" using assms(1) by (intro power_increasing) simp_all
  let ?d = "if mpveccmp v0 v1 < 0 then mpvecsub v1 (take (length v1) v0) else mpvecsub v0 v1"
  have d: "val ?d = dist (val v0) (val v1)"
  proof (cases "val v0 < val v1")
    case True
    then have "val v0 < B ^ length v1" using lt by linarith
    then have v: "val (take (length v1) v0) = val v0" by (rule val_small)
    have "length (take (length v1) v0) \<le> length v1" by simp
    from mpvecsub_ok [OF this] v True show ?thesis by (simp add: mpveccmp_ok sgn_neg dist_def)
  next
    case False
    then show ?thesis using mpvecsub_ok [OF assms(1)] by (simp add: mpveccmp_ok sgn_neg dist_def)
  qed
  have "dist (val v0) (val v1) < B ^ length v0"
    by (rule dist_lt) (use lt le in linarith)+
  then have "val (zpad (2 * n + 1) ?d) < B ^ length v0" unfolding val_zpad d .
  then show "val (kdv n v0 v1) = dist (val v0) (val v1)" unfolding kdv_def using d by (simp add: val_small)
  show "length (kdv n v0 v1) = length v0" unfolding kdv_def using assms(2) by simp
qed

text \<open>A product in zeroed memory is found in as many digits as the factors have.\<close>

lemma val_mult_lt: "val a * val b < B ^ (length a + length b)"
  unfolding power_add by (rule mult_strict_mono) (use val_lt [of a] val_lt [of b] in auto)

declare mpvecmul.simps [simp del]

lemma mpvecmul_ok:
  "length a + length b \<le> length p \<Longrightarrow> val p = 0 \<Longrightarrow>
     val (mpvecmul a b p) = val a * val b \<and> length (mpvecmul a b p) = length p"
proof (induction a b p rule: mpvecmul.induct)
  case (1 a b p)
  consider (swap) "length a < length b" | (kar) "length b \<le> length a" "length a \<ge> KARATSUBAMIN" "length b > 1"
    | (school) "length b \<le> length a" "\<not> (length a \<ge> KARATSUBAMIN \<and> length b > 1)" by linarith
  then show ?case
  proof cases
    case swap
    with 1(1) 1(5,6) show ?thesis by (simp add: mpvecmul.simps [of a b] add.commute mult.commute)
  next
    case school
    have "val (drop (length a) p) = 0" using 1(6) by (simp add: val_0 list_all_iff) (meson in_set_dropD)
    moreover have "mpvecmul a b p = mulloop True a b 0 p" by (subst mpvecmul.simps) (use school in auto)
    ultimately show ?thesis using mulloop_ok [of 0 a b p True] 1(5,6) by simp
  next
    case kar
    define n where "n = khalf (length a)"
    define z :: "mpdigit list" where "z = replicate (2 * n + 1) 0"
    define u0 u1 v0 v1 where "u0 = take n a" and "u1 = drop n a" and "v0 = take n b" and "v1 = drop n b"
    have n: "n < length a" "length a \<le> 2 * n" unfolding n_def using khalf_less [OF kar(2)] by (auto simp: khalf_def)
    then have l: "length u0 = n" "length u1 \<le> n" "length v0 \<le> n" "length v1 \<le> length v0" "length v1 \<le> n"
      "length u1 \<le> length u0" "length u0 \<le> 2 * n + 1" "length v0 \<le> 2 * n + 1"
      using kar(1) by (auto simp: u0_def u1_def v0_def v1_def)
    have z: "val z = 0" "length z = 2 * n + 1" by (simp_all add: z_def)
    note du = kdu_ok [OF l(6,7)] and dv = kdv_ok [OF l(4,8)]
    note eqs = n_def z_def u0_def u1_def v0_def v1_def
    have cond: "\<not> length a < length b" "KARATSUBAMIN \<le> length a \<and> 1 < length b" using kar by auto
    have IHd: "val (mpvecmul (kdu n u0 u1) (kdv n v0 v1) z) = dist (val u1) (val u0) * dist (val v0) (val v1)"
      using 1(2) [OF cond eqs] du dv l z by simp
    have IH0: "val (mpvecmul u0 v0 z) = val u0 * val v0" using 1(3) [OF cond eqs] l z by simp
    have IH1: "val (mpvecmul u1 v1 z) = val u1 * val v1" if "0 < length v1" using 1(4) [OF cond eqs that] l z by simp
    have lt: "val u0 < B ^ n" "val u1 < B ^ n" "val v0 < B ^ n" "val v1 < B ^ n"
      using val_lt [of u0] val_lt [of u1] val_lt [of v0] val_lt [of v1] l
      by (auto intro: order_less_le_trans power_increasing)
    let ?r = "kcombine n (length u0 + length v0) (length u1 + length v1) (0 < length v1) (kneg u0 u1 v0 v1)
        (mpvecmul (kdu n u0 u1) (kdv n v0 v1) z) (mpvecmul u0 v0 z) (if 0 < length v1 then mpvecmul u1 v1 z else z)"
    have ab: "val a = val u0 + B ^ n * val u1" "val b = val v0 + B ^ n * val v1"
      using val_split [of a n] val_split [of b n] n kar(1)
      by (auto simp: u0_def u1_def v0_def v1_def min_def split: if_splits)
    have "val ?r = (val u0 + B ^ n * val u1) * (val v0 + B ^ n * val v1)"
    proof (rule kcombine_ok)
      show "val (take (length u0 + length v0) (mpvecmul u0 v0 z)) = val u0 * val v0"
        using IH0 val_mult_lt [of u0 v0] by (simp add: val_small)
      show "val (take (length u0 + length v0) (mpvecmul (kdu n u0 u1) (kdv n v0 v1) z)) = dist (val u1) (val u0) * dist (val v0) (val v1)"
        using IHd val_mult_lt [of "kdu n u0 u1" "kdv n v0 v1"] du dv by (simp add: val_small)
      show "val (take (length u1 + length v1) (if 0 < length v1 then mpvecmul u1 v1 z else z)) = val u1 * val v1" if "0 < length v1"
        using that IH1 val_mult_lt [of u1 v1] by (simp add: val_small)
      show "kneg u0 u1 v0 v1 = ((val u1 < val u0) \<noteq> (val v0 < val v1))"
        by (simp add: kneg_def mpveccmp_ok sgn_neg)
    qed (use l lt in simp_all)
    then have r: "val ?r = val a * val b" unfolding ab .
    have small: "val (take (length a + length b) ?r) = val a * val b"
      using r val_mult_lt [of a b] by (simp add: val_small)
    have m: "mpvecmul a b p = overwrite 0 (take (length a + length b) ?r) p"
      using cond unfolding mpvecmul.simps [of a b] Let_def eqs by simp
    have "val (drop k p) = 0" for k using 1(6) by (simp add: val_0 list_all_iff) (meson in_set_dropD)
    moreover have "length (take (length a + length b) ?r) \<le> length p" using 1(5) by simp
    ultimately show ?thesis unfolding m using small by (simp add: overwrite_def val_append)
  qed
qed

lemma mpvectsmul_ok:
  assumes "length a + length b \<le> length p" "val p = 0"
  shows "val (mpvectsmul a b p) = val a * val b \<and> length (mpvectsmul a b p) = length p"
proof -
  have "val (drop k p) = 0" for k using assms(2) by (simp add: val_0 list_all_iff) (meson in_set_dropD)
  then have "val (mulloop False x y 0 p) = val x * val y \<and> length (mulloop False x y 0 p) = length p"
    if "length x + length y \<le> length p" for x y using mulloop_ok [of 0 x y p False] that assms(2) by simp
  from this [of a b] this [of b a] assms show ?thesis by (auto simp: mpvectsmul_def mult.commute)
qed

section \<open>Multiply and subtract, divide\<close>

lemma dmulsub_ok:
  "length p = length b + 1 \<Longrightarrow> unat h + unat w < B \<Longrightarrow> dmulsub b m p h w = (ds, s) \<Longrightarrow>
     length ds = length p \<and> (\<exists>u \<le> 1. val ds + unat m * val b + (unat h + unat w) = val p + B ^ length p * u \<and>
       s = (if u = 0 then 1 else -1))"
proof (induction b arbitrary: p h w ds s)
  case Nil
  then obtain x where p: "p = [x]" by (cases p) auto
  define t where "t = w + h"
  have t: "unat t = unat h + unat w" unfolding t_def using Nil.prems(2) by (simp add: unat_add_small add.commute)
  have r: "ds = [x - t]" "s = (if x < t then -1 else 1)"
    using Nil.prems(3) p borrow_test [of x t] by (auto simp: t_def Let_def diff_diff_add)
  have "unat x + B * (if x < t then 1 else 0) = unat (x - t) + unat t" using borrow [of x t] by (cases "x < t") simp_all
  with r p t show ?case by (intro conjI exI [of _ "if x < t then 1 else 0"]) simp_all
next
  case (Cons d b)
  obtain q p' where p: "p = q # p'" "length p' = length b + 1" using Cons.prems(1) by (cases p) auto
  obtain lo hi where lh: "mpdigmul d m = (lo, hi)" by (cases "mpdigmul d m")
  define y where "y = q - w"
  define x where "x = h + lo"
  define w1 c w2 where "w1 = lt1 q y" and "c = lt1 x lo" and "w2 = lt1 y (y - x)"
  have s1: "unat q + B * unat w1 = unat y + unat w" unfolding w1_def y_def
    using borrow [of q w] by (cases "q < w") (simp_all add: borrow_test)
  have s2: "unat h + unat lo = unat x + B * unat c" unfolding c_def x_def
    using carry [of h lo] by (cases "h + lo < lo") simp_all
  have s3: "unat y + B * unat w2 = unat (y - x) + unat x" unfolding w2_def
    using borrow [of y x] by (cases "y < x") (simp_all add: borrow_test)
  have ws: "unat (w1 + c + w2) = unat w1 + unat c + unat w2" by (simp add: w1_def c_def w2_def)
  have pr: "unat lo + B * unat hi = unat d * unat m" by (rule mpdigmul_ok [OF lh])
  have tot: "unat q + B * (unat hi + unat (w1 + c + w2)) = unat (y - x) + (unat h + unat w) + unat d * unat m"
    unfolding ws using s1 s2 s3 pr by (simp only: distrib_left; linarith)
  have "B * (unat hi + unat (w1 + c + w2)) < B * B"
    using tot muladd_bound [OF digit_lt [of d] digit_lt [of m] digit_lt [of "y - x"] Cons.prems(2)] by linarith
  then have pend: "unat hi + unat (w1 + c + w2) < B" by (simp only: mult_less_cancel1)
  obtain es where es: "dmulsub b m p' hi (w1 + c + w2) = (es, s)" "ds = (y - x) # es"
    using Cons.prems(3) unfolding p(1) dmulsub.simps Let_def lh y_def [symmetric] x_def w1_def c_def w2_def
    by (auto split: prod.splits)
  from Cons.IH [OF p(2) pend es(1)] obtain u where u: "length es = length p'" "u \<le> 1"
    "val es + unat m * val b + (unat hi + unat (w1 + c + w2)) = val p' + B ^ length p' * u" "s = (if u = 0 then 1 else -1)" by blast
  have "B * (val es + unat m * val b + (unat hi + unat (w1 + c + w2))) = B * (val p' + B ^ length p' * u)" unfolding u(3) ..
  then have "val ds + unat m * val (d # b) + (unat h + unat w) = val p + B ^ length p * u"
    unfolding es(2) p(1) using tot
    by (simp only: val.simps distrib_left length_Cons power_Suc mult.assoc mult.commute [of "unat d"] mult.left_commute [of "unat m" B]; linarith)
  with u es p show ?case by auto
qed

lemma mpvecdigmulsub_ok:
  assumes "length p = length b + 1" "mpvecdigmulsub b m p = (ds, s)"
  shows "length ds = length p \<and> (if unat m * val b \<le> val p then s = 1 \<and> val ds = val p - unat m * val b
     else s = -1 \<and> val ds + unat m * val b = val p + B ^ length p)"
proof -
  obtain u where u: "length ds = length p" "u \<le> 1" "val ds + unat m * val b = val p + B ^ length p * u"
    "s = (if u = 0 then 1 else -1)"
    using dmulsub_ok [OF assms(1), of 0 0 m ds s] assms(2) by (auto simp: mpvecdigmulsub_def)
  have "val ds < B ^ length p" using val_lt [of ds] u(1) by simp
  then have "u = 0 \<longleftrightarrow> unat m * val b \<le> val p" using u(2,3) by (cases "u = 0") (auto simp: le_Suc_eq)
  with u show ?thesis by (cases "u = 0") (auto simp: le_Suc_eq)
qed

lemma push_bit_nat: "unat (push_bit i v) = unat v * 2 ^ i mod B" for v :: mpdigit
proof -
  have "unat (push_bit i v) = take_bit 32 (push_bit i (unat v))" by (simp only: unsigned_push_bit_eq) simp
  then show ?thesis by (simp only: take_bit_eq_mod push_bit_eq_mult)
qed

lemma or_bit:
  fixes q :: mpdigit
  assumes "2 ^ Suc i dvd unat q" "i < 32" "unat q + 2 ^ Suc i \<le> B"
  shows "unat (q OR push_bit i 1) = unat q + 2 ^ i"
proof -
  have "\<not> bit (unat q) i" using assms(1) by (auto simp: bit_iff_odd dvd_def)
  then have "\<not> bit q i" by (simp add: bit_unsigned_iff assms(2))
  then have "q AND push_bit i 1 = 0" by (auto intro!: bit_word_eqI simp: bit_simps)
  then have "q OR push_bit i 1 = q + push_bit i 1" by (simp add: disjunctive_add_eq_or)
  moreover have "(2 :: nat) ^ i < B" using assms(2) by (intro power_strict_increasing) simp_all
  then have "unat (push_bit i 1 :: mpdigit) = 2 ^ i" using push_bit_nat [of i 1] by simp
  moreover have "unat q + 2 ^ i < B"
  proof -
    have "(0::nat) < 2 ^ i" by simp
    then show ?thesis using assms(3) unfolding power_Suc by linarith
  qed
  ultimately show ?thesis by (simp add: unat_word_ariths)
qed

text \<open>The high digit of the divisor shifted by \<open>i\<close>, and both digits.\<close>

lemma shifted_high:
  fixes v x :: mpdigit
  assumes "i < 32" "unat x = unat v div 2 ^ (32 - Suc i)"
  shows "unat (drop_bit 1 x) = unat v div 2 ^ (32 - i)"
proof -
  have p: "(2 :: nat) ^ (32 - i) = 2 ^ (32 - Suc i) * 2" using assms(1)
    by (metis Suc_diff_Suc power_Suc2)
  have "unat (drop_bit 1 x) = unat x div 2" using unat_drop_bit_eq [of 1 x] by (simp only: drop_bit_eq_div power_one_right)
  then show ?thesis unfolding assms(2) p by (simp only: div_mult2_eq)
qed

lemma shifted_divisor:
  fixes v x :: mpdigit
  assumes "i < 32" "unat x = unat v div 2 ^ (32 - Suc i)"
  shows "unat (drop_bit 1 x) * B + unat (push_bit i v) = unat v * 2 ^ i"
proof -
  have B: "B = 2 ^ (32 - i) * 2 ^ i" using assms(1) by (simp add: power_add [symmetric])
  have "unat (drop_bit 1 x) = unat v div 2 ^ (32 - i)" using assms by (rule shifted_high)
  also have "\<dots> = unat v * 2 ^ i div B" unfolding B by simp
  finally show ?thesis unfolding push_bit_nat by (simp only: div_mult_mod_eq)
qed

text \<open>Comparing and subtracting two digits.\<close>

lemma two_digit_less: "(x > hi \<or> x = hi \<and> y > lo) \<longleftrightarrow> unat hi * B + unat lo < unat x * B + unat y" for x y hi lo :: mpdigit
proof -
  have lt: "unat lo < B" "unat y < B" by (rule digit_lt)+
  consider "unat hi < unat x" | "unat hi = unat x" | "unat x < unat hi" by linarith
  then show ?thesis
  proof cases
    case 1
    then have "(unat hi + 1) * B \<le> unat x * B" by (intro mult_le_mono1) simp
    then have "unat hi * B + unat lo < unat x * B + unat y" using lt by (simp only: distrib_right mult_1; linarith)
    with 1 show ?thesis by (simp add: word_less_nat_alt)
  next
    case 2
    then have "x = hi" by (simp add: word_unat_eq_iff)
    then show ?thesis by (simp add: word_less_nat_alt)
  next
    case 3
    then have "(unat x + 1) * B \<le> unat hi * B" by (intro mult_le_mono1) simp
    then have "\<not> unat hi * B + unat lo < unat x * B + unat y" using lt by (simp only: distrib_right mult_1; linarith)
    with 3 show ?thesis by (auto simp: word_less_nat_alt)
  qed
qed

lemma two_digit_diff:
  fixes x y hi lo :: mpdigit
  assumes "unat x * B + unat y \<le> unat hi * B + unat lo"
  shows "unat ((if y > lo then hi - 1 else hi) - x) * B + unat (lo - y) + (unat x * B + unat y) = unat hi * B + unat lo"
proof (cases "lo < y")
  case True
  have l: "unat lo + B = unat (lo - y) + unat y" using borrow [of lo y] True by simp
  have "unat x + 1 \<le> unat hi"
  proof (rule ccontr)
    assume "\<not> unat x + 1 \<le> unat hi"
    then have "unat hi * B \<le> unat x * B" by (intro mult_le_mono1) simp
    with assms True show False by (simp add: word_less_nat_alt)
  qed
  then have "unat (hi - 1) = unat hi - 1" by (subst unat_sub) (simp_all add: word_le_nat_alt)
  moreover from this have "unat (hi - 1 - x) = unat (hi - 1) - unat x" using \<open>unat x + 1 \<le> unat hi\<close>
    by (subst unat_sub) (simp_all add: word_le_nat_alt)
  ultimately have "unat (hi - 1 - x) + unat x + 1 = unat hi" using \<open>unat x + 1 \<le> unat hi\<close> by simp
  then have "unat (hi - 1 - x) * B + unat x * B + 1 * B = unat hi * B" by (simp only: distrib_right [symmetric])
  with l True show ?thesis by simp
next
  case False
  have l: "unat lo = unat (lo - y) + unat y" using borrow [of lo y] False by simp
  have "unat x \<le> unat hi"
  proof (rule ccontr)
    assume "\<not> unat x \<le> unat hi"
    then have "(unat hi + 1) * B \<le> unat x * B" by (intro mult_le_mono1) simp
    with assms digit_lt [of lo] show False by (simp only: distrib_right mult_1; linarith)
  qed
  then have "unat hi = unat (hi - x) + unat x" using borrow [of hi x] by (simp add: word_less_nat_alt)
  then have "unat (hi - x) * B + unat x * B = unat hi * B" by (simp only: distrib_right [symmetric])
  with l False show ?thesis by simp
qed

lemma digdivloop_ok:
  "k \<le> 32 \<Longrightarrow> unat x = unat v div 2 ^ (32 - k) \<Longrightarrow> unat hi * B + unat lo < unat v * 2 ^ k \<Longrightarrow>
     2 ^ k dvd unat q \<Longrightarrow> unat q + 2 ^ k \<le> B \<Longrightarrow> digdivloop k v x hi lo q = (q', lo') \<Longrightarrow>
     unat q' * unat v + unat lo' = unat q * unat v + (unat hi * B + unat lo)"
proof (induction k arbitrary: x hi lo q)
  case 0
  have "hi = 0"
  proof (rule ccontr)
    assume "hi \<noteq> 0"
    then have "1 * B \<le> unat hi * B" by (intro mult_le_mono1) (simp add: Suc_le_eq unat_gt_0)
    with "0.prems"(3) digit_lt [of v] show False by simp
  qed
  with 0 show ?case by simp
next
  case (Suc i)
  show ?case
  proof (cases "hi = 0")
    case True
    with Suc.prems(6) show ?thesis by simp
  next
    case False
    let ?x = "drop_bit 1 x" and ?y = "push_bit i v"
    have i: "i < 32" "i \<le> 32" using Suc.prems(1) by simp_all
    have x: "unat ?x = unat v div 2 ^ (32 - i)" using i(1) Suc.prems(2) by (rule shifted_high)
    have sh: "unat ?x * B + unat ?y = unat v * 2 ^ i" using Suc.prems(2) i(1) by (rule shifted_divisor [rotated])
    have dv: "2 ^ i dvd unat q" using Suc.prems(4) by (rule power_le_dvd) simp
    have qb: "unat q + 2 ^ i \<le> B" using Suc.prems(5) by simp
    have pos: "0 < hi" using False by (simp add: word_neq_0_conv)
    show ?thesis
    proof (cases "?x > hi \<or> ?x = hi \<and> ?y > lo")
      case True
      then have "unat hi * B + unat lo < unat v * 2 ^ i" using two_digit_less [of hi ?x lo ?y] sh by simp
      from Suc.IH [OF i(2) x this dv qb] Suc.prems(6) True pos show ?thesis by (simp add: Let_def)
    next
      case False
      let ?hi = "(if ?y > lo then hi - 1 else hi) - ?x" and ?q = "q OR push_bit i 1"
      have ge: "unat ?x * B + unat ?y \<le> unat hi * B + unat lo" using False two_digit_less [of hi ?x lo ?y] by linarith
      note R = two_digit_diff [OF ge]
      have q: "unat ?q = unat q + 2 ^ i" using or_bit [OF Suc.prems(4) i(1) Suc.prems(5)] .
      have lt: "unat ?hi * B + unat (lo - ?y) < unat v * 2 ^ i" using R sh Suc.prems(3) by simp
      have "2 ^ i dvd unat ?q" unfolding q using dv by simp
      moreover have "unat ?q + 2 ^ i \<le> B" unfolding q using Suc.prems(5) by simp
      moreover have "digdivloop i v ?x ?hi (lo - ?y) ?q = (q', lo')"
        using Suc.prems(6) by (simp only: digdivloop.simps Let_def False pos if_True if_False)
      ultimately have "unat q' * unat v + unat lo' = unat ?q * unat v + (unat ?hi * B + unat (lo - ?y))"
        by (rule Suc.IH [OF i(2) x lt])
      also have "\<dots> = unat q * unat v + (unat v * 2 ^ i + (unat ?hi * B + unat (lo - ?y)))"
        unfolding q by (simp only: distrib_right mult.commute [of "2 ^ i"] add.assoc)
      also have "\<dots> = unat q * unat v + (unat hi * B + unat lo)" using R sh by linarith
      finally show ?thesis .
    qed
  qed
qed

lemma mpdigdiv_ok: "unat (mpdigdiv lo hi v) = (if hi < v then (unat hi * B + unat lo) div unat v else B - 1)"
proof (cases "hi < v")
  case True
  then have v: "0 < unat v" by (simp add: word_less_nat_alt)
  obtain q l where r: "digdivloop 32 v v hi lo 0 = (q, l)" by (cases "digdivloop 32 v v hi lo 0")
  have "(unat hi + 1) * B \<le> unat v * B" using True by (intro mult_le_mono1) (simp add: word_less_nat_alt)
  then have lt: "unat hi * B + unat lo < unat v * B" using digit_lt [of lo] by (simp only: distrib_right mult_1; linarith)
  have e: "unat q * unat v + unat l = unat hi * B + unat lo"
    using digdivloop_ok [OF _ _ lt _ _ r] by simp
  then have d: "(unat hi * B + unat lo) div unat v = unat q + unat l div unat v" using v unfolding e [symmetric] by simp
  have "(unat hi * B + unat lo) div unat v < B" using lt by (simp only: less_mult_imp_div_less mult.commute)
  then have "unat (q + l div v) = unat q + unat l div unat v"
    unfolding d by (subst unat_add_small) (simp_all add: unat_div)
  moreover have "\<not> (hi \<ge> v \<or> v = 0)" using True by auto
  ultimately show ?thesis using d True r by (simp only: mpdigdiv_def if_True if_False prod.case)
next
  case False
  then have "hi \<ge> v \<or> v = 0" by auto
  moreover have "unat (NOT 0 :: mpdigit) = B - 1" by (simp add: unsigned_minus_1_eq_mask mask_eq_exp_minus_1)
  ultimately show ?thesis using False by (simp only: mpdigdiv_def if_True if_False)
qed

section \<open>Properties\<close>

text \<open>C19. The multiplication of vectors, which divides by Karatsuba's method down to vectors of less than 32 digits,
  ends for vectors of all lengths and computes the product of the numbers, as the schoolbook method of the
  time-invariant variant does.\<close>

theorem mpvecmul_product:
  assumes "length a + length b \<le> length p" "list_all (\<lambda>d. d = 0) p"
  shows "val (mpvecmul a b p) = val a * val b \<and> length (mpvecmul a b p) = length p \<and>
    val (mpvectsmul a b p) = val a * val b \<and> length (mpvectsmul a b p) = length p"
proof -
  have "val p = 0" using assms(2) by (simp add: val_0)
  with mpvecmul_ok [of a b p] mpvectsmul_ok [of a b p] assms(1) show ?thesis by blast
qed

theorem mpvecmul_product_witness:
  "val (mpvecmul (replicate 40 3) [5, 7] (replicate 43 0)) = val (replicate 40 3) * 30064771077"
proof -
  have "length (replicate 40 3 :: mpdigit list) + length [5, 7 :: mpdigit] \<le> length (replicate 43 (0 :: mpdigit))" by simp
  moreover have "list_all (\<lambda>d. d = 0) (replicate 43 (0 :: mpdigit))" by (simp add: list_all_iff)
  ultimately have "val (mpvecmul (replicate 40 3) [5, 7] (replicate 43 0)) = val (replicate 40 3) * val [5, 7]"
    using mpvecmul_product by blast
  then show ?thesis by simp
qed

text \<open>C37. The time-invariant comparison of vectors gives the sign of the difference, except that for equal numbers
  of which the first has fewer digits it answers 1, where \<^verbatim>\<open>mpveccmp\<close> answers 0.\<close>

theorem mpvectscmp_exact:
  "mpveccmp a b = sgn (int (val a) - int (val b)) \<and>
   mpvectscmp a b = (if length a < length b \<and> val a = val b then 1 else mpveccmp a b)"
  by (simp add: mpveccmp_ok mpvectscmp_eq)

end
