(* ===== verification/Mp_Props.thy ===== *)
theory Mp_Props
  imports Mp Mp_Vec_Props
begin

text \<open>
  Correctness of the arithmetic on numbers: with the operands in normal form, and whether or not the result is
  one of them, each routine leaves the exact result in normal form, and no other number changes.
\<close>

section \<open>Running commands\<close>

declare bindR_eq_Ret [simp del]

definition put :: "nat \<Rightarrow> mpint \<Rightarrow> mpst \<Rightarrow> mpst" where
  "put b x s = s\<lparr>cells := (cells s)(b \<mapsto> x)\<rparr>"

lemma put_sel [simp]:
  "cells (put b x s) a = (if a = b then Some x else cells s a)" "brk (put b x s) = brk s"
  "mindigits (put b x s) = mindigits s"
  by (simp_all add: put_def)

lemma put_put [simp]: "put b y (put b x s) = put b y s"
  by (simp add: put_def)

lemma put_same: "cells s b = Some x \<Longrightarrow> put b x s = s"
  by (simp add: put_def fun_upd_idem)

lemma put_swap: "a \<noteq> b \<Longrightarrow> put a x (put b y s) = put b y (put a x s)"
  by (simp add: put_def fun_upd_twist)

lemma withmp_run [simp]: "cells s b = Some x \<Longrightarrow> withmp b f s = f x s"
  by (simp add: withmp_def)

lemma modify_run [simp]: "cells s b = Some x \<Longrightarrow> modify b f s = Ret () (put b (f x) s)"
  by (simp add: modify_def put_def)

lemma guard_run [simp]: "c \<Longrightarrow> guard c s = Ret () s"
  by (simp add: guard_def)

lemma assertC_run [simp]: "c \<Longrightarrow> assertC c s = Ret () s"
  by (simp add: assertC_def)

lemma block_end [simp]: "bindR m (\<lambda>_. block []) = m"
  by (cases m) auto

lemma store_run [simp]:
  "cells s b = Some x \<Longrightarrow> i + length ds \<le> length (mdig x) \<Longrightarrow>
     store b i ds s = Ret () (put b (x\<lparr>mdig := overwrite i ds (mdig x)\<rparr>) s)"
  by (simp add: store_def)

section \<open>The value of a number and its normal form\<close>

definition mag :: "mpint \<Rightarrow> nat" where
  "mag x = val (take (mtop x) (mdig x))"

definition ival :: "mpint \<Rightarrow> int" where
  "ival x = msign x * int (mag x)"

text \<open>The sign of zero is 1 and the most significant digit in use is not 0.\<close>

definition nrm :: "mpint \<Rightarrow> bool" where
  "nrm x \<longleftrightarrow> mtop x \<le> length (mdig x) \<and> (msign x = 1 \<or> msign x = -1) \<and> fnorm x \<and> \<not> ftimesafe x \<and>
     (mtop x = 0 \<longrightarrow> msign x = 1) \<and> (mtop x \<noteq> 0 \<longrightarrow> mdig x ! (mtop x - 1) \<noteq> 0)"

lemma mag_lt: "mag x < B ^ mtop x"
proof -
  have "mag x < B ^ length (take (mtop x) (mdig x))" unfolding mag_def by (rule val_lt)
  also have "\<dots> \<le> B ^ mtop x" by (rule power_increasing) simp_all
  finally show ?thesis .
qed

lemma val_ge:
  assumes "0 < n" "n \<le> length p" "p ! (n - 1) \<noteq> 0"
  shows "B ^ (n - 1) \<le> val (take n p)"
proof -
  have "take n p = take (n - 1) p @ [p ! (n - 1)]"
    using assms(1,2) take_Suc_conv_app_nth [of "n - 1" p] by simp
  then have "val (take n p) = val (take (n - 1) p) + B ^ (n - 1) * unat (p ! (n - 1))"
    using assms(2) by (simp only: val_append) simp
  moreover have "1 \<le> unat (p ! (n - 1))" using assms(3) by (simp add: Suc_le_eq unat_gt_0)
  then have "B ^ (n - 1) * 1 \<le> B ^ (n - 1) * unat (p ! (n - 1))" by (rule mult_le_mono2)
  ultimately show ?thesis by (simp only: mult_1_right; linarith)
qed

lemma mag_ge: "nrm x \<Longrightarrow> 0 < mtop x \<Longrightarrow> B ^ (mtop x - 1) \<le> mag x"
  unfolding mag_def by (rule val_ge) (auto simp: nrm_def)

lemma mag_0: "nrm x \<Longrightarrow> mag x = 0 \<longleftrightarrow> mtop x = 0"
proof -
  assume x: "nrm x"
  have "0 < mag x" if "mtop x \<noteq> 0"
  proof -
    have "0 < B ^ (mtop x - 1)" by (rule zero_less_power) simp
    also have "\<dots> \<le> mag x" using that by (intro mag_ge [OF x]) simp
    finally show ?thesis .
  qed
  then show ?thesis by (cases "mtop x = 0") (simp_all add: mag_def)
qed

lemma mag_top_less: "nrm y \<Longrightarrow> mtop x < mtop y \<Longrightarrow> mag x < mag y"
proof -
  assume y: "nrm y" "mtop x < mtop y"
  have "mag x < B ^ mtop x" by (rule mag_lt)
  also have "\<dots> \<le> B ^ (mtop y - 1)" using y(2) by (intro power_increasing) simp_all
  also have "\<dots> \<le> mag y" using y by (intro mag_ge) simp_all
  finally show ?thesis .
qed

lemma normtop_ok:
  "n \<le> length p \<Longrightarrow> val (take (normtop n p) p) = val (take n p) \<and> normtop n p \<le> n \<and>
     (normtop n p \<noteq> 0 \<longrightarrow> p ! (normtop n p - 1) \<noteq> 0)"
proof (induction n)
  case (Suc n)
  then have "take (Suc n) p = take n p @ [p ! n]" by (simp add: take_Suc_conv_app_nth)
  with Suc show ?case by (simp add: val_append)
qed simp

lemma normalise_ok:
  assumes "mtop x \<le> length (mdig x)" "msign x = 1 \<or> msign x = -1" "\<not> ftimesafe x"
  shows "nrm (normalise x)" "mag (normalise x) = mag x" "ival (normalise x) = ival x"
    "mdig (normalise x) = mdig x" "msign (normalise x) = (if mag x = 0 then 1 else msign x)"
proof -
  let ?t = "normtop (mtop x) (mdig x)"
  note t = normtop_ok [OF assms(1)]
  show n: "nrm (normalise x)" using t assms by (auto simp: nrm_def normalise_def Let_def)
  show m: "mag (normalise x) = mag x" using t by (simp add: mag_def normalise_def Let_def)
  have z: "?t = 0 \<longleftrightarrow> mag x = 0" using mag_0 [OF n] m by (simp add: normalise_def Let_def)
  show "ival (normalise x) = ival x" using m z by (auto simp: ival_def normalise_def Let_def)
  show "mdig (normalise x) = mdig x" "msign (normalise x) = (if mag x = 0 then 1 else msign x)"
    using z by (simp_all add: normalise_def Let_def)
qed

lemma mpnorm_run [simp]:
  "cells s b = Some x \<Longrightarrow> \<not> ftimesafe x \<Longrightarrow> mtop x \<le> length (mdig x) \<Longrightarrow>
     mpnorm b s = Ret () (put b (normalise x) s)"
  by (simp add: mpnorm_def)

lemma nrm_unique:
  assumes "nrm x" "nrm y" "ival x = ival y"
  shows "mtop x = mtop y \<and> msign x = msign y \<and> take (mtop x) (mdig x) = take (mtop y) (mdig y)"
proof -
  have a: "mag x = mag y" "mag x \<noteq> 0 \<Longrightarrow> msign x = msign y"
    using assms by (auto simp: ival_def nrm_def)
  then have t: "mtop x = mtop y" using mag_top_less [OF assms(1), of y] mag_top_less [OF assms(2), of x]
    by (metis less_irrefl linorder_neqE_nat)
  moreover have "msign x = msign y" using a(2) t assms mag_0 [of x] by (auto simp: nrm_def)
  moreover have "take (mtop x) (mdig x) = take (mtop y) (mdig y)"
    using a(1) t assms by (intro val_inj) (auto simp: mag_def nrm_def)
  ultimately show ?thesis by simp
qed

section \<open>Allocation\<close>

lemma DIGITS_nat: "DIGITS (int n) = int ((n + 31) div 32)"
  by (simp add: DIGITS_def signed_divide_int_def sgn_if)

lemma DIGITS_mult [simp]: "DIGITS (int (n * 32)) = int n" "DIGITS (int (32 * n)) = int n"
  by (simp_all only: DIGITS_nat)

lemma DIGITS_int [simp]: "DIGITS (32 * int n) = int n" "DIGITS (int n * 32) = int n"
    "DIGITS (32 + int n * 32) = int (Suc n)" "DIGITS (32 + (int n * 32 + int m * 32)) = int (n + m + 1)"
    "DIGITS ((int n + int m) * 32 + 32) = int (n + m + 1)"
  using DIGITS_mult(1) [of n] DIGITS_mult(1) [of "Suc n"] DIGITS_mult(1) [of "n + m + 1"]
  by (simp_all add: algebra_simps)

lemma nat_Suc_int [simp]: "nat (1 + int n) = Suc n"
  by simp

lemma DIGITS_neg: "n < 0 \<Longrightarrow> DIGITS n \<le> 0"
  by (auto simp: DIGITS_def signed_divide_int_def sgn_if)

text \<open>\<^verbatim>\<open>mpbits\<close> makes room and keeps the value.\<close>

definition bitsof :: "nat \<Rightarrow> mpint \<Rightarrow> mpint" where
  "bitsof n x = (if n \<le> length (mdig x) \<and> n \<le> mtop x then x else growto n x)"

lemma mpbits_run [simp]:
  "cells s b = Some x \<Longrightarrow> 0 \<le> DIGITS m \<Longrightarrow> mpbits b m s = Ret () (put b (bitsof (nat (DIGITS m)) x) s)"
  by (auto simp: mpbits_def bitsof_def Let_def put_same nat_le_iff)

lemma bitsof_sel [simp]:
  "msign (bitsof n x) = msign x" "ftimesafe (bitsof n x) = ftimesafe x" "fstatic (bitsof n x) = fstatic x"
  "ffield (bitsof n x) = ffield x"
  by (simp_all add: bitsof_def growto_def)

lemma bitsof_len:
  "mtop x \<le> length (mdig x) \<Longrightarrow> n \<le> length (mdig (bitsof n x)) \<and> mtop (bitsof n x) \<le> length (mdig (bitsof n x)) \<and>
     length (mdig x) \<le> length (mdig (bitsof n x))"
  by (auto simp: bitsof_def growto_def)

lemma bitsof_take: "mtop x \<le> length (mdig x) \<Longrightarrow> k \<le> mtop x \<Longrightarrow> take k (mdig (bitsof n x)) = take k (mdig x)"
  by (auto simp: bitsof_def growto_def min_def)

lemma bitsof_zero: "mtop x = 0 \<Longrightarrow> take n (mdig (bitsof n x)) = replicate n 0"
  by (auto simp: bitsof_def growto_def)

lemma mpnew_run:
  "0 \<le> DIGITS n \<Longrightarrow> 0 \<le> n \<Longrightarrow> mpnew n s = Ret (brk s)
     (put (brk s) \<lparr>msign = 1, mtop = 0, mdig = replicate (max (nat (DIGITS n)) (mindigits s)) 0, fstatic = False,
       fnorm = True, ftimesafe = False, ffield = False\<rparr> (s\<lparr>brk := brk s + 1\<rparr>))"
  by (simp add: mpnew_def put_def Let_def max_def)

text \<open>An initialised library, and a number that a client may use for a result: not one of the constants.\<close>

definition mpstok :: "mpst \<Rightarrow> bool" where
  "mpstok s \<longleftrightarrow> cells s nil = None \<and> cells s mpzero = Some mpzerocell \<and> cells s mpone = Some mponecell \<and>
     cells s mptwo = Some mptwocell \<and> (\<forall>b. cells s b \<noteq> None \<longrightarrow> b < brk s) \<and> 0 < mindigits s \<and>
     (\<forall>b x. 3 < b \<longrightarrow> cells s b = Some x \<longrightarrow> \<not> fstatic x)"

abbreviation usable :: "nat \<Rightarrow> bool" where "usable r \<equiv> 3 < r"

lemma mpinit_ok: "mpstok mpinit"
  by (simp add: mpstok_def mpinit_def)

lemma const_nrm [simp]: "nrm mpzerocell" "nrm mponecell" "nrm mptwocell"
  "ival mpzerocell = 0" "ival mponecell = 1" "ival mptwocell = 2" "mtop mpzerocell = 0" "mag mpzerocell = 0"
  by (simp_all add: nrm_def ival_def mag_def mpzerocell_def mponecell_def mptwocell_def)

text \<open>What no operation changes of its result: which object it is, and that digits are never given back.\<close>

definition kept :: "mpint \<Rightarrow> mpint \<Rightarrow> bool" where
  "kept y0 y \<longleftrightarrow> fstatic y = fstatic y0 \<and> ffield y = ffield y0 \<and> length (mdig y0) \<le> length (mdig y)"

lemma kept_refl [simp]: "kept y y"
  by (simp add: kept_def)

lemma kept_trans: "kept x y \<Longrightarrow> kept y z \<Longrightarrow> kept x z"
  by (auto simp: kept_def)

lemma kept_upd [simp]:
  "kept y0 (y\<lparr>msign := a\<rparr>) = kept y0 y" "kept y0 (y\<lparr>mtop := n\<rparr>) = kept y0 y"
  "kept y0 (y\<lparr>fnorm := b\<rparr>) = kept y0 y" "kept y0 (y\<lparr>ftimesafe := b\<rparr>) = kept y0 y"
  "kept (y0\<lparr>mtop := n\<rparr>) y = kept y0 y" "kept (y0\<lparr>ftimesafe := b\<rparr>) y = kept y0 y" "kept (y0\<lparr>msign := a\<rparr>) y = kept y0 y"
  by (simp_all add: kept_def)

lemma kept_bitsof: "mtop y \<le> length (mdig y) \<Longrightarrow> kept y (bitsof n y)"
  using bitsof_len [of y n] by (simp add: kept_def)

lemma kept_normalise [simp]: "kept y0 (normalise y) = kept y0 y"
  by (simp add: normalise_def Let_def)

lemma kept_store: "i + length ds \<le> length (mdig y) \<Longrightarrow> kept y0 y \<Longrightarrow> kept y0 (y\<lparr>mdig := overwrite i ds (mdig y)\<rparr>)"
  by (simp add: kept_def)

lemma ival_sign [simp]: "mag (y\<lparr>msign := a\<rparr>) = mag y" "ival (y\<lparr>msign := a\<rparr>) = a * int (mag y)"
  by (simp_all add: ival_def mag_def)

lemma upd_order:
  "y\<lparr>mtop := a, mdig := b\<rparr> = y\<lparr>mdig := b, mtop := a\<rparr>" "y\<lparr>msign := c, mdig := b\<rparr> = y\<lparr>mdig := b, msign := c\<rparr>"
  "y\<lparr>msign := c, mtop := a\<rparr> = y\<lparr>mtop := a, msign := c\<rparr>"
  "y\<lparr>ftimesafe := d, mdig := b\<rparr> = y\<lparr>mdig := b, ftimesafe := d\<rparr>" "y\<lparr>ftimesafe := d, mtop := a\<rparr> = y\<lparr>mtop := a, ftimesafe := d\<rparr>"
  "y\<lparr>ftimesafe := d, msign := c\<rparr> = y\<lparr>msign := c, ftimesafe := d\<rparr>" for y :: mpint
  by simp_all

text \<open>Storing a vector and normalising makes a number of that value.\<close>

definition made :: "mpint \<Rightarrow> mpdigit list \<Rightarrow> int \<Rightarrow> mpint" where
  "made y ds sg = normalise (y\<lparr>mdig := overwrite 0 ds (mdig y), mtop := length ds, msign := sg\<rparr>)"

lemma made_ok:
  assumes "length ds \<le> length (mdig y)" "sg = 1 \<or> sg = -1" "\<not> ftimesafe y"
  shows "nrm (made y ds sg)" "mag (made y ds sg) = val ds" "ival (made y ds sg) = sg * int (val ds)" "kept y (made y ds sg)"
    "msign (made y ds sg) = (if val ds = 0 then 1 else sg)" "length (mdig (made y ds sg)) = length (mdig y)"
proof -
  let ?x = "y\<lparr>mdig := overwrite 0 ds (mdig y), mtop := length ds, msign := sg\<rparr>"
  have m: "mag ?x = val ds" by (simp add: mag_def overwrite_def)
  have l: "mtop ?x \<le> length (mdig ?x)" using assms(1) by simp
  note n = normalise_ok [OF l]
  from n assms m show "nrm (made y ds sg)" "mag (made y ds sg) = val ds" "ival (made y ds sg) = sg * int (val ds)"
    "msign (made y ds sg) = (if val ds = 0 then 1 else sg)" "length (mdig (made y ds sg)) = length (mdig y)"
    by (simp_all add: made_def ival_def)
  show "kept y (made y ds sg)" using assms(1) by (simp add: made_def) (simp add: kept_def)
qed

section \<open>Assignment and copies\<close>

definition assigned :: "mpint \<Rightarrow> mpint \<Rightarrow> mpint" where
  "assigned x y = (let z = bitsof (mtop x) (y\<lparr>mtop := 0\<rparr>) in
     z\<lparr>msign := msign x, mtop := mtop x, fnorm := fnorm x, ftimesafe := ftimesafe z \<or> ftimesafe x,
       mdig := overwrite 0 (take (mtop x) (mdig x)) (mdig z)\<rparr>)"

lemma assigned_ok:
  assumes "nrm x" "\<not> ftimesafe y" "mtop y \<le> length (mdig y)"
  shows "nrm (assigned x y)" "mag (assigned x y) = mag x" "ival (assigned x y) = ival x" "kept y (assigned x y)"
    "msign (assigned x y) = msign x" "mtop (assigned x y) = mtop x" "take (mtop x) (mdig (assigned x y)) = take (mtop x) (mdig x)"
proof -
  let ?z = "bitsof (mtop x) (y\<lparr>mtop := 0\<rparr>)"
  have z: "mtop x \<le> length (mdig ?z)" "kept y ?z"
    using bitsof_len [of "y\<lparr>mtop := 0\<rparr>" "mtop x"] kept_bitsof [of "y\<lparr>mtop := 0\<rparr>" "mtop x"] by simp_all
  have x: "mtop x \<le> length (mdig x)" using assms(1) by (simp add: nrm_def)
  have t: "take (mtop x) (mdig (assigned x y)) = take (mtop x) (mdig x)"
    using x by (simp add: assigned_def Let_def overwrite_def)
  then show "take (mtop x) (mdig (assigned x y)) = take (mtop x) (mdig x)" .
  show m: "mag (assigned x y) = mag x" using t by (simp add: mag_def) (simp add: assigned_def Let_def)
  show "msign (assigned x y) = msign x" "mtop (assigned x y) = mtop x" by (simp_all add: assigned_def Let_def)
  then show "ival (assigned x y) = ival x" using m by (simp add: ival_def)
  have "mdig (assigned x y) ! (mtop x - 1) = mdig x ! (mtop x - 1)" if "mtop x \<noteq> 0"
    using that arg_cong [OF t, of "\<lambda>l. l ! (mtop x - 1)"] by simp
  then show "nrm (assigned x y)" using assms(1,2) z(1) x by (auto simp: nrm_def) (simp_all add: assigned_def Let_def)
  show "kept y (assigned x y)" using z x by (simp add: assigned_def Let_def kept_def)
qed

lemma mpassign_run:
  "cells s b = Some x \<Longrightarrow> cells s r = Some y \<Longrightarrow> r \<noteq> nil \<Longrightarrow> b \<noteq> r \<Longrightarrow> nrm x \<Longrightarrow>
     mpassign b r s = Ret () (put r (assigned x y) s)"
  using bitsof_len [of "y\<lparr>mtop := 0\<rparr>" "mtop x"]
  by (simp add: mpassign_def assigned_def Let_def nrm_def)

lemma mpassign_ok:
  assumes "cells s b = Some x" "cells s r = Some y" "r \<noteq> nil" "nrm x" "nrm y"
  obtains z where "mpassign b r s = Ret () (put r z s)" "nrm z" "ival z = ival x" "mag z = mag x" "kept y z" "msign z = msign x"
    "mtop z = mtop x" "take (mtop z) (mdig z) = take (mtop x) (mdig x)"
proof (cases "b = r")
  case True
  then show ?thesis using that [of x] assms by (simp add: mpassign_def put_same)
next
  case False
  have "\<not> ftimesafe y" "mtop y \<le> length (mdig y)" using assms(5) by (simp_all add: nrm_def)
  note a = assigned_ok [OF assms(4) this]
  show ?thesis using that [of "assigned x y"] a mpassign_run [OF assms(1-3) False assms(4)] by simp
qed

section \<open>Comparison\<close>

lemma magcmp_ok:
  assumes "nrm x1" "nrm x2"
  shows "sgn (magcmp x1 x2) = sgn (int (mag x1) - int (mag x2))"
proof -
  have f: "\<not> (ftimesafe x1 \<or> ftimesafe x2)" "fnorm x1 \<or> fnorm x2" using assms by (simp_all add: nrm_def)
  consider "mtop x1 < mtop x2" | "mtop x2 < mtop x1" | "mtop x1 = mtop x2" by linarith
  then show ?thesis
  proof cases
    case 1
    then show ?thesis using f mag_top_less [OF assms(2) 1] by (simp add: magcmp_def sgn_if)
  next
    case 2
    then show ?thesis using f mag_top_less [OF assms(1) 2] by (simp add: magcmp_def sgn_if)
  next
    case 3
    then show ?thesis using f by (simp add: magcmp_def mpveccmp_ok mag_def)
  qed
qed

lemma magcmp_less: "nrm x1 \<Longrightarrow> nrm x2 \<Longrightarrow> magcmp x1 x2 < 0 \<longleftrightarrow> mag x1 < mag x2"
  using magcmp_ok [of x1 x2] by (auto simp: sgn_if split: if_splits)

lemma mpmagcmp_run:
  "cells s b1 = Some x1 \<Longrightarrow> cells s b2 = Some x2 \<Longrightarrow> nrm x1 \<Longrightarrow> nrm x2 \<Longrightarrow> mpmagcmp b1 b2 s = Ret (magcmp x1 x2) s"
  by (simp add: mpmagcmp_def nrm_def)

lemma mpcmp_ok:
  assumes "cells s b1 = Some x1" "cells s b2 = Some x2" "nrm x1" "nrm x2"
  obtains c where "mpcmp b1 b2 s = Ret c s" "sgn c = sgn (ival x1 - ival x2)"
proof -
  let ?sg = "drop_bit 1 (msign x1 - msign x2)"
  let ?c = "?sg OR ((?sg AND 1) - 1 AND magcmp x1 x2 * msign x1)"
  have r: "mpcmp b1 b2 s = Ret ?c s" using assms by (simp add: mpcmp_def mpmagcmp_run Let_def)
  have sg: "msign x1 = 1 \<or> msign x1 = -1" "msign x2 = 1 \<or> msign x2 = -1" using assms(3,4) by (auto simp: nrm_def)
  have z: "mag x = 0 \<Longrightarrow> msign x = 1" if "nrm x" for x using mag_0 [OF that] that by (simp add: nrm_def)
  have "sgn ?c = sgn (ival x1 - ival x2)"
  proof (cases "msign x1 = msign x2")
    case True
    then have "?c = magcmp x1 x2 * msign x1" by simp
    then have "sgn ?c = sgn (int (mag x1) - int (mag x2)) * msign x1"
      using magcmp_ok [OF assms(3,4)] sg(1) by (auto simp: sgn_mult)
    then show ?thesis using True sg(1) by (auto simp: ival_def sgn_if)
  next
    case False
    then consider "msign x1 = 1" "msign x2 = -1" | "msign x1 = -1" "msign x2 = 1" using sg by auto
    then show ?thesis
    proof cases
      case 1
      then show ?thesis using z [OF assms(4)] by (cases "mag x2") (auto simp: ival_def sgn_if)
    next
      case 2
      then show ?thesis using z [OF assms(3)] by (cases "mag x1") (auto simp: ival_def sgn_if)
    qed
  qed
  with r that show ?thesis by blast
qed

section \<open>Addition and subtraction\<close>

lemma vec2_run:
  "cells s b1 = Some x1 \<Longrightarrow> cells s b2 = Some x2 \<Longrightarrow> cells s r = Some y \<Longrightarrow> n \<le> length (mdig x1) \<Longrightarrow> m \<le> length (mdig x2) \<Longrightarrow>
     length (f (take n (mdig x1)) (take m (mdig x2))) \<le> length (mdig y) \<Longrightarrow>
     vec2 f b1 n b2 m r s = Ret () (put r (y\<lparr>mdig := overwrite 0 (f (take n (mdig x1)) (take m (mdig x2))) (mdig y)\<rparr>) s)"
  by (simp add: vec2_def)

text \<open>Making room in the result does not disturb an operand, be it the same number.\<close>

lemma alias_digits:
  assumes "cells s b = Some x" "cells s r = Some y" "nrm x" "nrm y" "mdig z = mdig (bitsof n y)"
  obtains x' where "cells (put r z s) b = Some x'" "take (mtop x) (mdig x') = take (mtop x) (mdig x)"
    "mtop x \<le> length (mdig x')"
proof (cases "b = r")
  case True
  then have "x = y" using assms by simp
  then show ?thesis using that [of z] True bitsof_take [of y "mtop y" n] bitsof_len [of y n] assms(4,5)
    by (simp add: nrm_def)
next
  case False
  then show ?thesis using that [of x] assms by (simp add: nrm_def)
qed

lemma no_ts: "\<not> ftimesafe y \<Longrightarrow> y\<lparr>ftimesafe := False\<rparr> = y" for y :: mpint
  by (cases y) simp

lemma nrm_noflag: "nrm y \<Longrightarrow> \<not> ftimesafe y" "nrm y \<Longrightarrow> mtop y \<le> length (mdig y)"
  by (simp_all add: nrm_def)

lemma nrm_sign: "nrm y \<Longrightarrow> mtop y \<noteq> 0 \<Longrightarrow> a = 1 \<or> a = -1 \<Longrightarrow> nrm (y\<lparr>msign := a\<rparr>)"
  by (auto simp: nrm_def)

lemma mag_top: "mtop x = 0 \<Longrightarrow> mag x = 0"
  by (simp add: mag_def)

lemma addbody_run:
  assumes "cells s b1 = Some x1" "cells s b2 = Some x2" "cells s r = Some y" "nrm x1" "nrm x2" "nrm y" "mtop x2 \<le> mtop x1" "mtop x2 \<noteq> 0"
  shows "addbody b1 (mtop x1) b2 (mtop x2) r s =
    Ret () (put r (made (bitsof (mtop x1 + 1) y) (mpvecadd (take (mtop x1) (mdig x1)) (take (mtop x2) (mdig x2))) 1) s)"
proof -
  define z where "z = bitsof (Suc (mtop x1)) y"
  let ?z = "z\<lparr>mtop := Suc (mtop x1)\<rparr>"
  obtain x1' where x1: "cells (put r ?z s) b1 = Some x1'" "take (mtop x1) (mdig x1') = take (mtop x1) (mdig x1)"
    "mtop x1 \<le> length (mdig x1')" by (rule alias_digits [OF assms(1,3,4,6), of ?z "Suc (mtop x1)"]) (auto simp: z_def)
  obtain x2' where x2: "cells (put r ?z s) b2 = Some x2'" "take (mtop x2) (mdig x2') = take (mtop x2) (mdig x2)"
    "mtop x2 \<le> length (mdig x2')" by (rule alias_digits [OF assms(2,3,5,6), of ?z "Suc (mtop x1)"]) (auto simp: z_def)
  let ?v = "mpvecadd (take (mtop x1) (mdig x1)) (take (mtop x2) (mdig x2))"
  have l: "length ?v = mtop x1 + 1" using assms(4,5,7) mpvecadd_ok by (simp add: nrm_def)
  have z: "mtop x1 + 1 \<le> length (mdig z)" "\<not> ftimesafe z"
    using assms(6) bitsof_len [of y "Suc (mtop x1)"] by (simp_all add: z_def nrm_def)
  have "vec2 mpvecadd b1 (mtop x1) b2 (mtop x2) r (put r ?z s) = Ret () (put r (z\<lparr>mtop := Suc (mtop x1), mdig := overwrite 0 ?v (mdig z)\<rparr>) s)"
    using vec2_run [OF x1(1) x2(1), of r ?z "mtop x1" "mtop x2" mpvecadd] x1 x2 l z by simp
  moreover have "addbody b1 (mtop x1) b2 (mtop x2) r = block [mpbits r (int ((mtop x1 + 1) * Dbits)),
      modify r (\<lambda>y. y\<lparr>mtop := mtop x1 + 1\<rparr>), vec2 mpvecadd b1 (mtop x1) b2 (mtop x2) r, modify r (\<lambda>y. y\<lparr>msign := 1\<rparr>), mpnorm r]"
    using assms(7,8) unfolding addbody_def by (cases "mtop x1 = 0") simp_all
  ultimately show ?thesis using assms(3) z l by (simp add: z_def [symmetric] made_def upd_order)
qed

lemma addbody_ok:
  assumes "cells s b1 = Some x1" "cells s b2 = Some x2" "cells s r = Some y" "nrm x1" "nrm x2" "nrm y" "mpstok s" "usable r"
    "mtop x2 \<le> mtop x1"
  obtains z where "addbody b1 (mtop x1) b2 (mtop x2) r s = Ret () (put r z s)" "nrm z" "mag z = mag x1 + mag x2" "kept y z"
proof -
  consider (zero) "mtop x1 = 0" "mtop x2 = 0" | (one) "mtop x1 \<noteq> 0" "mtop x2 = 0" | (both) "mtop x1 \<noteq> 0" "mtop x2 \<noteq> 0"
    using assms(9) by linarith
  then show ?thesis
  proof cases
    case zero
    have "cells s mpzero = Some mpzerocell" "r \<noteq> nil" using assms(7,8) by (simp_all add: mpstok_def)
    then obtain z where "mpassign mpzero r s = Ret () (put r z s)" "nrm z" "mag z = 0" "kept y z"
      by (metis mpassign_ok [OF _ assms(3) _ const_nrm(1) assms(6)] const_nrm(8))
    with zero that show ?thesis by (simp add: mag_top addbody_def)
  next
    case one
    have "r \<noteq> nil" using assms(8) by simp
    then obtain z where "mpassign b1 r s = Ret () (put r z s)" "nrm z" "mag z = mag x1" "kept y z"
      by (metis mpassign_ok [OF assms(1,3) _ assms(4,6)])
    with one that show ?thesis by (simp add: mag_top addbody_def)
  next
    case both
    let ?v = "mpvecadd (take (mtop x1) (mdig x1)) (take (mtop x2) (mdig x2))" and ?z = "bitsof (mtop x1 + 1) y"
    have v: "val ?v = mag x1 + mag x2" "length ?v = mtop x1 + 1"
      using mpvecadd_ok [of "take (mtop x2) (mdig x2)" "take (mtop x1) (mdig x1)"] assms(4,5,9) by (simp_all add: nrm_def mag_def)
    have z: "length ?v \<le> length (mdig ?z)" "\<not> ftimesafe ?z" "kept y ?z"
      using nrm_noflag [OF assms(6)] bitsof_len [of y "mtop x1 + 1"] v kept_bitsof [of y "mtop x1 + 1"] by simp_all
    note m = made_ok [OF z(1) disjI1 [OF refl] z(2)]
    show ?thesis using addbody_run [OF assms(1-6,9) both(2)] m(1) m(2) [unfolded v] kept_trans [OF z(3) m(4)] by (rule that)
  qed
qed

lemma mpmagadd_ok:
  assumes "cells s b1 = Some x1" "cells s b2 = Some x2" "cells s r = Some y" "nrm x1" "nrm x2" "nrm y" "mpstok s" "usable r"
  obtains z where "mpmagadd b1 b2 r s = Ret () (put r z s)" "nrm z" "mag z = mag x1 + mag x2" "kept y z"
proof -
  have flag: "y\<lparr>ftimesafe := ftimesafe y \<or> ftimesafe x1 \<or> ftimesafe x2\<rparr> = y"
    using nrm_noflag [OF assms(4)] nrm_noflag [OF assms(5)] nrm_noflag [OF assms(6)] by (simp add: no_ts)
  have run: "mpmagadd b1 b2 r s = (if mtop x2 > mtop x1 then addbody b2 (mtop x2) b1 (mtop x1) r
      else addbody b1 (mtop x1) b2 (mtop x2) r) s"
    using assms(1-3) flag by (simp add: mpmagadd_def put_same)
  show ?thesis
  proof (cases "mtop x2 > mtop x1")
    case True
    obtain z where "addbody b2 (mtop x2) b1 (mtop x1) r s = Ret () (put r z s)" "nrm z" "mag z = mag x2 + mag x1" "kept y z"
      by (rule addbody_ok [OF assms(2,1,3,5,4,6-8)]) (use True in auto)
    with True that run show ?thesis by (simp add: add.commute)
  next
    case False
    obtain z where "addbody b1 (mtop x1) b2 (mtop x2) r s = Ret () (put r z s)" "nrm z" "mag z = mag x1 + mag x2" "kept y z"
      by (rule addbody_ok [OF assms(1-8)]) (use False in auto)
    with False that run show ?thesis by simp
  qed
qed

lemma subbody_run:
  assumes "cells s b1 = Some x1" "cells s b2 = Some x2" "cells s r = Some y" "nrm x1" "nrm x2" "nrm y"
    "mtop x2 \<le> mtop x1" "mag x2 \<le> mag x1" "mtop x2 \<noteq> 0" "sg = 1 \<or> sg = -1"
  shows "subbody b1 (mtop x1) b2 (mtop x2) sg r s =
    Ret () (put r (made (bitsof (mtop x1) y) (mpvecsub (take (mtop x1) (mdig x1)) (take (mtop x2) (mdig x2))) sg) s)"
proof -
  define z where "z = bitsof (mtop x1) y"
  obtain x1' where x1: "cells (put r z s) b1 = Some x1'" "take (mtop x1) (mdig x1') = take (mtop x1) (mdig x1)"
    "mtop x1 \<le> length (mdig x1')" by (rule alias_digits [OF assms(1,3,4,6), of z "mtop x1"]) (auto simp: z_def)
  obtain x2' where x2: "cells (put r z s) b2 = Some x2'" "take (mtop x2) (mdig x2') = take (mtop x2) (mdig x2)"
    "mtop x2 \<le> length (mdig x2')" by (rule alias_digits [OF assms(2,3,5,6), of z "mtop x1"]) (auto simp: z_def)
  let ?v = "mpvecsub (take (mtop x1) (mdig x1)) (take (mtop x2) (mdig x2))"
  have l: "length ?v = mtop x1"
    using mpvecsub_ok [of "take (mtop x2) (mdig x2)" "take (mtop x1) (mdig x1)"] assms(4,5,7,8) by (simp add: nrm_def mag_def)
  have z: "mtop x1 \<le> length (mdig z)" "\<not> ftimesafe z"
    using assms(6) bitsof_len [of y "mtop x1"] by (simp_all add: z_def nrm_def)
  have "vec2 mpvecsub b1 (mtop x1) b2 (mtop x2) r (put r z s) = Ret () (put r (z\<lparr>mdig := overwrite 0 ?v (mdig z)\<rparr>) s)"
    using vec2_run [OF x1(1) x2(1), of r z "mtop x1" "mtop x2" mpvecsub] x1 x2 l z by simp
  then show ?thesis using assms(3,9) z l by (simp add: subbody_def z_def [symmetric] made_def upd_order)
qed

lemma subbody_ok:
  assumes "cells s b1 = Some x1" "cells s b2 = Some x2" "cells s r = Some y" "nrm x1" "nrm x2" "nrm y"
    "mag x2 \<le> mag x1" "usable r" "sg = 1 \<or> sg = -1" "mag x1 = mag x2 \<Longrightarrow> sg = 1"
  obtains z where "subbody b1 (mtop x1) b2 (mtop x2) sg r s = Ret () (put r z s)" "nrm z"
    "ival z = sg * (int (mag x1) - int (mag x2))" "kept y z"
proof (cases "mtop x2 = 0")
  case True
  have "r \<noteq> nil" using assms(8) by simp
  then obtain z where z: "mpassign b1 r s = Ret () (put r z s)" "nrm z" "mag z = mag x1" "kept y z"
    by (metis mpassign_ok [OF assms(1,3) _ assms(4,6)])
  have "nrm (z\<lparr>msign := sg\<rparr>)"
  proof (cases "mtop z = 0")
    case True
    then have "sg = 1" using mag_top [of z] z(3) mag_top [of x2] \<open>mtop x2 = 0\<close> assms(10) by simp
    then show ?thesis using z(2) True by (simp add: nrm_def)
  qed (use z(2) assms(9) in \<open>auto intro: nrm_sign\<close>)
  with z True that [of "z\<lparr>msign := sg\<rparr>"] show ?thesis by (simp add: subbody_def mag_top)
next
  case False
  have t: "mtop x2 \<le> mtop x1" using mag_top_less [OF assms(5), of x1] assms(7) by (metis leD leI)
  let ?v = "mpvecsub (take (mtop x1) (mdig x1)) (take (mtop x2) (mdig x2))" and ?z = "bitsof (mtop x1) y"
  have v: "val ?v = mag x1 - mag x2" "length ?v = mtop x1"
    using mpvecsub_ok [of "take (mtop x2) (mdig x2)" "take (mtop x1) (mdig x1)"] assms(4,5,7) t by (simp_all add: nrm_def mag_def)
  have z: "length ?v \<le> length (mdig ?z)" "\<not> ftimesafe ?z" "kept y ?z"
    using nrm_noflag [OF assms(6)] bitsof_len [of y "mtop x1"] v kept_bitsof [of y "mtop x1"] by simp_all
  note m = made_ok [OF z(1) assms(9) z(2)]
  show ?thesis using that [OF subbody_run [OF assms(1-6) t assms(7) False assms(9)] m(1)] m(3) kept_trans [OF z(3) m(4)] v(1) assms(7)
    by (simp add: of_nat_diff)
qed

lemma mpmagsub_ok:
  assumes "cells s b1 = Some x1" "cells s b2 = Some x2" "cells s r = Some y" "nrm x1" "nrm x2" "nrm y" "usable r"
  obtains z where "mpmagsub b1 b2 r s = Ret () (put r z s)" "nrm z" "ival z = int (mag x1) - int (mag x2)" "kept y z"
proof -
  note f = nrm_noflag [OF assms(4)] nrm_noflag [OF assms(5)] nrm_noflag [OF assms(6)]
  have run: "mpmagsub b1 b2 r s = (if mag x1 < mag x2 then subbody b2 (mtop x2) b1 (mtop x1) (-1) r
      else subbody b1 (mtop x1) b2 (mtop x2) 1 r) s"
    using assms(1-3) f magcmp_less [OF assms(4,5)] by (simp add: mpmagsub_def mpmagcmp_run [OF assms(1,2,4,5)] no_ts put_same)
  show ?thesis
  proof (cases "mag x1 < mag x2")
    case True
    obtain z where "subbody b2 (mtop x2) b1 (mtop x1) (-1) r s = Ret () (put r z s)" "nrm z"
      "ival z = (-1) * (int (mag x2) - int (mag x1))" "kept y z"
      by (rule subbody_ok [OF assms(2,1,3,5,4,6), of "-1"]) (use True assms(7) in auto)
    with True run that show ?thesis by simp
  next
    case False
    obtain z where "subbody b1 (mtop x1) b2 (mtop x2) 1 r s = Ret () (put r z s)" "nrm z"
      "ival z = 1 * (int (mag x1) - int (mag x2))" "kept y z"
      by (rule subbody_ok [OF assms(1-6), of 1]) (use False assms(7) in auto)
    with False run that show ?thesis by simp
  qed
qed

text \<open>A number in the memory, and what an operation with result \<open>r\<close> does: \<open>r\<close> holds the value \<open>v\<close>, all other
  numbers are the same, and nothing allocated on the way is left.\<close>

abbreviation number :: "mpst \<Rightarrow> nat \<Rightarrow> mpint \<Rightarrow> bool" where
  "number s b x \<equiv> cells s b = Some x \<and> nrm x"

definition becomes :: "nat \<Rightarrow> int \<Rightarrow> mpst \<Rightarrow> mpst \<Rightarrow> bool" where
  "becomes r v s s' \<longleftrightarrow> (\<exists>y z. cells s r = Some y \<and> nrm z \<and> ival z = v \<and> kept y z \<and> cells s' = (cells s)(r \<mapsto> z)) \<and>
     brk s \<le> brk s' \<and> mindigits s' = mindigits s"

lemma becomes_put: "cells s r = Some y \<Longrightarrow> nrm z \<Longrightarrow> kept y z \<Longrightarrow> ival z = v \<Longrightarrow> becomes r v s (put r z s)"
  by (auto simp: becomes_def put_def)

lemma mpadd_ok:
  assumes "mpstok s" "number s b1 x1" "number s b2 x2" "number s r y" "usable r"
  shows "\<exists>z. mpadd b1 b2 r s = Ret () (put r z s) \<and> nrm z \<and> kept y z \<and> ival z = ival x1 + ival x2"
proof (cases "msign x1 = msign x2")
  case True
  obtain z where z: "mpmagadd b1 b2 r s = Ret () (put r z s)" "nrm z" "mag z = mag x1 + mag x2" "kept y z"
    using mpmagadd_ok [of s b1 x1 b2 x2 r y] assms by blast
  have sg: "msign x1 = 1 \<or> msign x1 = -1" using assms(2) by (auto simp: nrm_def)
  show ?thesis
  proof (cases "mtop z = 0")
    case True
    with z(2,3) have "mag x1 = 0" "mag x2 = 0" "ival z = 0" by (simp_all add: mag_top ival_def)
    with z assms True \<open>msign x1 = msign x2\<close> show ?thesis by (intro exI [of _ z]) (simp add: mpadd_def ival_def)
  next
    case False
    have "mpadd b1 b2 r s = Ret () (put r (z\<lparr>msign := msign x1\<rparr>) s)"
      using z(1) assms False True by (simp add: mpadd_def)
    with z nrm_sign [OF z(2) False sg] True show ?thesis by (auto simp: ival_def algebra_simps)
  qed
next
  case False
  have sg: "msign x1 = 1 \<or> msign x1 = -1" "msign x2 = 1 \<or> msign x2 = -1" using assms(2,3) by (auto simp: nrm_def)
  have f: "\<not> (ftimesafe x1 \<or> ftimesafe x2 \<or> ftimesafe y)" using assms(2-4) by (simp add: nrm_def)
  have run: "mpadd b1 b2 r s = (if msign x1 < 0 then mpmagsub b2 b1 r s else mpmagsub b1 b2 r s)"
    using assms(2-4) False f by (simp add: mpadd_def)
  show ?thesis
  proof (cases "msign x1 < 0")
    case True
    obtain z where "mpmagsub b2 b1 r s = Ret () (put r z s)" "nrm z" "ival z = int (mag x2) - int (mag x1)" "kept y z"
      using mpmagsub_ok [of s b2 x2 b1 x1 r y] assms by blast
    with run True sg False show ?thesis by (auto simp: ival_def)
  next
    case pos: False
    obtain z where "mpmagsub b1 b2 r s = Ret () (put r z s)" "nrm z" "ival z = int (mag x1) - int (mag x2)" "kept y z"
      using mpmagsub_ok [of s b1 x1 b2 x2 r y] assms by blast
    with run pos sg False show ?thesis by (auto simp: ival_def)
  qed
qed

lemma mpsub_ok:
  assumes "mpstok s" "number s b1 x1" "number s b2 x2" "number s r y" "usable r"
  shows "\<exists>z. mpsub b1 b2 r s = Ret () (put r z s) \<and> nrm z \<and> kept y z \<and> ival z = ival x1 - ival x2"
proof (cases "msign x1 = msign x2")
  case True
  obtain z where z: "mpmagsub b1 b2 r s = Ret () (put r z s)" "nrm z" "ival z = int (mag x1) - int (mag x2)" "kept y z"
    using mpmagsub_ok [of s b1 x1 b2 x2 r y] assms by blast
  have sg: "msign x1 = 1 \<or> msign x1 = -1" "msign z = 1 \<or> msign z = -1" using assms(2) z(2) by (auto simp: nrm_def)
  show ?thesis
  proof (cases "mtop z = 0")
    case True
    with z(3) have "mag x1 = mag x2" "ival z = 0" by (simp_all add: mag_top ival_def)
    with z assms True \<open>msign x1 = msign x2\<close> show ?thesis by (intro exI [of _ z]) (simp add: mpsub_def ival_def)
  next
    case False
    let ?z = "z\<lparr>msign := msign z * msign x1\<rparr>"
    have run: "mpsub b1 b2 r s = Ret () (put r ?z s)"
      using z(1) assms False True by (simp add: mpsub_def)
    have "nrm ?z" using sg by (intro nrm_sign [OF z(2) False]) auto
    moreover have "ival ?z = msign x1 * ival z" by (simp add: ival_def)
    then have "ival ?z = ival x1 - ival x2" unfolding z(3) using True by (simp add: ival_def right_diff_distrib)
    ultimately show ?thesis using run z(4) by (intro exI [of _ ?z]) (simp only: simp_thms kept_upd)
  qed
next
  case False
  have sg: "msign x1 = 1 \<or> msign x1 = -1" "msign x2 = 1 \<or> msign x2 = -1" using assms(2,3) by (auto simp: nrm_def)
  have f: "\<not> (ftimesafe x1 \<or> ftimesafe x2 \<or> ftimesafe y)" using assms(2-4) by (simp add: nrm_def)
  obtain z where z: "mpmagadd b1 b2 r s = Ret () (put r z s)" "nrm z" "mag z = mag x1 + mag x2" "kept y z"
    using mpmagadd_ok [of s b1 x1 b2 x2 r y] assms by blast
  have run: "mpsub b1 b2 r s = Ret () (put r (z\<lparr>msign := msign x1\<rparr>) s)"
    using assms(2-4) False f z(1) by (simp add: mpsub_def)
  have "mtop z \<noteq> 0"
  proof
    assume "mtop z = 0"
    then have "mtop x1 = 0" "mtop x2 = 0" using z(3) mag_top [of z] mag_0 [of x1] mag_0 [of x2] assms(2,3) by simp_all
    then show False using False assms(2,3) by (simp add: nrm_def)
  qed
  with run z nrm_sign [OF z(2) _ sg(1)] sg False show ?thesis by (auto simp: ival_def)
qed

section \<open>Multiplication\<close>

lemma mpstok_fresh: "mpstok s \<Longrightarrow> cells s (brk s) = None" "mpstok s \<Longrightarrow> 3 < brk s" "mpstok s \<Longrightarrow> number s b x \<Longrightarrow> b < brk s"
  unfolding mpstok_def by (metis less_irrefl) (metis less_numeral_extra(3) option.distinct(1), blast)

lemma becomes_ok: "becomes r v s s' \<Longrightarrow> mpstok s \<Longrightarrow> usable r \<Longrightarrow> mpstok s'"
  unfolding mpstok_def becomes_def kept_def
  by (auto split: if_splits) (metis option.distinct(1) order_less_le_trans)+

lemma mpfree_run [simp]:
  "cells s b = Some x \<Longrightarrow> b \<noteq> nil \<Longrightarrow> \<not> fstatic x \<Longrightarrow> mpfree b s = Ret () (s\<lparr>cells := (cells s)(b := None)\<rparr>)"
  by (simp add: mpfree_def)

text \<open>The product in a number that is neither operand. The operands may have leading digits that are 0.\<close>

definition shaped :: "mpint \<Rightarrow> bool" where
  "shaped x \<longleftrightarrow> mtop x \<le> length (mdig x) \<and> (msign x = 1 \<or> msign x = -1) \<and> \<not> ftimesafe x"

lemma nrm_shaped: "nrm x \<Longrightarrow> shaped x"
  by (simp add: nrm_def shaped_def)

definition mulvec :: "mpint \<Rightarrow> mpint \<Rightarrow> mpdigit list" where
  "mulvec x1 x2 = mpvecmul (take (mtop x1) (mdig x1)) (take (mtop x2) (mdig x2)) (replicate (mtop x1 + mtop x2 + 1) 0)"

lemma mulvec_ok: "shaped x1 \<Longrightarrow> shaped x2 \<Longrightarrow> val (mulvec x1 x2) = mag x1 * mag x2 \<and> length (mulvec x1 x2) = mtop x1 + mtop x2 + 1"
  unfolding mulvec_def mag_def
  using mpvecmul_ok [of "take (mtop x1) (mdig x1)" "take (mtop x2) (mdig x2)" "replicate (mtop x1 + mtop x2 + 1) 0"]
  by (simp add: shaped_def)

lemma mulbody_run:
  assumes "cells s p = Some y" "shaped x1" "shaped x2" "\<not> ftimesafe y" "mtop y \<le> length (mdig y)"
  shows "block
         (modify p (\<lambda>y. y\<lparr>ftimesafe := ftimesafe y \<or> ftimesafe x1 \<or> ftimesafe x2, mtop := 0\<rparr>) #
          mpbits p (int ((mtop x1 + mtop x2 + 1) * Dbits)) #
          guard (mtop x1 \<le> length (mdig x1) \<and> mtop x2 \<le> length (mdig x2)) #
          withmp p (\<lambda>y. store p 0
            ((if ftimesafe y then mpvectsmul else mpvecmul) (take (mtop x1) (mdig x1)) (take (mtop x2) (mdig x2))
              (take (mtop x1 + mtop x2 + 1) (mdig y)))) #
          modify p (\<lambda>y. y\<lparr>mtop := mtop x1 + mtop x2 + 1, msign := msign x1 * msign x2\<rparr>) #
          mpnorm p # cs) s =
    block cs (put p (made (bitsof (mtop x1 + mtop x2 + 1) (y\<lparr>mtop := 0\<rparr>)) (mulvec x1 x2) (msign x1 * msign x2)) s)"
proof -
  define n where "n = mtop x1 + mtop x2 + 1"
  define z where "z = bitsof n (y\<lparr>mtop := 0\<rparr>)"
  have d: "DIGITS (int (n * Dbits)) = int n" by (rule DIGITS_mult)
  have z: "n \<le> length (mdig z)" "\<not> ftimesafe z" "take n (mdig z) = replicate n 0"
    using bitsof_len [of "y\<lparr>mtop := 0\<rparr>" n] bitsof_zero [of "y\<lparr>mtop := 0\<rparr>" n] assms(4) by (simp_all add: z_def)
  have y: "y\<lparr>ftimesafe := False, mtop := 0\<rparr> = y\<lparr>mtop := 0\<rparr>" using assms(4) by (cases y) simp
  have v: "mpvecmul (take (mtop x1) (mdig x1)) (take (mtop x2) (mdig x2)) (take n (mdig z)) = mulvec x1 x2"
    "length (mulvec x1 x2) = n"
    using mulvec_ok [OF assms(2,3)] unfolding z(3) by (simp_all add: mulvec_def n_def)
  show ?thesis using assms(1,4,5) assms(2,3) [unfolded shaped_def] v z y d
    unfolding n_def [symmetric] z_def [symmetric] by (simp add: z_def [symmetric] made_def upd_order)
qed

lemma mpmul_shaped:
  assumes "mpstok s" "cells s b1 = Some x1 \<and> shaped x1" "cells s b2 = Some x2 \<and> shaped x2" "number s r y" "usable r"
  shows "okR (mpmul b1 b2 r s) (\<lambda>_. becomes r (ival x1 * ival x2) s)"
proof -
  let ?sg = "msign x1 * msign x2"
  let ?M = "\<lambda>y. made (bitsof (mtop x1 + mtop x2 + 1) (y\<lparr>mtop := 0\<rparr>)) (mulvec x1 x2) ?sg"
  have M: "nrm (?M y)" "ival (?M y) = ival x1 * ival x2" "kept y (?M y)" if "\<not> ftimesafe y" for y
  proof -
    let ?z = "bitsof (mtop x1 + mtop x2 + 1) (y\<lparr>mtop := 0\<rparr>)"
    have l: "length (mulvec x1 x2) \<le> length (mdig ?z)" "\<not> ftimesafe ?z" "kept y ?z"
      using mulvec_ok [of x1 x2] assms(2,3) bitsof_len [of "y\<lparr>mtop := 0\<rparr>" "mtop x1 + mtop x2 + 1"] that
        kept_bitsof [of "y\<lparr>mtop := 0\<rparr>" "mtop x1 + mtop x2 + 1"] by simp_all
    have sg: "?sg = 1 \<or> ?sg = -1" using assms(2,3) by (auto simp: shaped_def)
    note m = made_ok [OF l(1) sg l(2)]
    show "nrm (?M y)" by (rule m(1))
    show "ival (?M y) = ival x1 * ival x2" using m(3) mulvec_ok [of x1 x2] assms(2,3) by (simp add: ival_def)
    show "kept y (?M y)" by (rule kept_trans [OF l(3) m(4)])
  qed
  have y: "\<not> ftimesafe y" "mtop y \<le> length (mdig y)" using assms(4) by (simp_all add: nrm_def)
  show ?thesis
  proof (cases "r = b1 \<or> r = b2")
    case False
    have "mpmul b1 b2 r s = Ret () (put r (?M y) s)"
      using assms(2-4) False mulbody_run [of s r y x1 x2 "[block []]"] y by (simp add: mpmul_def)
    then show ?thesis using M [OF y(1)] becomes_put [of s r y] assms(4) by simp
  next
    case True
    have f: "cells s (brk s) = None" "r \<noteq> brk s" "brk s \<noteq> nil" "r \<noteq> nil"
      using mpstok_fresh(1,2) [OF assms(1)] assms(4,5) by auto
    have st: "\<not> fstatic y" using assms(1,4,5) by (simp add: mpstok_def)
    define q where "q = \<lparr>msign = 1, mtop = 0, mdig = replicate (mindigits s) 0, fstatic = False, fnorm = fnorm y, ftimesafe = False, ffield = ffield y\<rparr>"
    define s1 where "s1 = put (brk s) q (s\<lparr>brk := brk s + 1\<rparr>)"
    define s2 where "s2 = put (brk s) (?M q) s1"
    have q: "\<not> ftimesafe q" "mtop q \<le> length (mdig q)" "\<not> fstatic q" by (simp_all add: q_def)
    have c2: "cells s2 r = Some y" "cells s2 (brk s) = Some (?M q)" using assms(4) f by (simp_all add: s2_def s1_def)
    obtain w where w: "mpassign (brk s) r s2 = Ret () (put r w s2)" "nrm w" "ival w = ival (?M q)" "kept y w"
      using mpassign_ok [OF c2(2,1) f(4) M(1) [OF q(1)]] assms(4) by metis
    have fs: "\<not> fstatic (?M q)" using M(3) [OF q(1)] q(3) by (simp add: kept_def)
    have new: "mpnew 0 s = Ret (brk s) (put (brk s) \<lparr>msign = 1, mtop = 0, mdig = replicate (mindigits s) 0, fstatic = False,
       fnorm = True, ftimesafe = False, ffield = False\<rparr> (s\<lparr>brk := brk s + 1\<rparr>))"
      using mpnew_run [of 0 s] by (simp add: DIGITS_def signed_divide_int_def)
    let ?fin = "[block [mpassign (brk s) r, mpfree (brk s)]]"
    have "mpmul b1 b2 r s = block ?fin (put (brk s) (?M q) s1)"
      using assms(2-4) True f(2) new y(1) st mulbody_run [of s1 "brk s" q x1 x2 ?fin] q
      by (simp add: mpmul_def s1_def q_def)
    also have "\<dots> = block ?fin s2" by (simp only: s2_def)
    also have "\<dots> = Ret () ((put r w s2)\<lparr>cells := (cells (put r w s2))(brk s := None)\<rparr>)"
      using w(1) c2(2) f fs by simp
    finally have run: "mpmul b1 b2 r s = Ret () ((put r w s2)\<lparr>cells := (cells (put r w s2))(brk s := None)\<rparr>)" .
    have "(cells (put r w s2))(brk s := None) = (cells s)(r \<mapsto> w)" using f by (auto simp: fun_eq_iff s2_def s1_def)
    moreover have "brk s2 = brk s + 1" "mindigits s2 = mindigits s" by (simp_all add: s2_def s1_def)
    ultimately have "becomes r (ival x1 * ival x2) s ((put r w s2)\<lparr>cells := (cells (put r w s2))(brk s := None)\<rparr>)"
      using w M(2) [OF q(1)] assms(4) by (auto simp: becomes_def)
    with run show ?thesis by simp
  qed
qed

lemma mpmul_ok:
  assumes "mpstok s" "number s b1 x1" "number s b2 x2" "number s r y" "usable r"
  shows "okR (mpmul b1 b2 r s) (\<lambda>_. becomes r (ival x1 * ival x2) s)"
  by (rule mpmul_shaped [OF assms(1) _ _ assms(4,5)]) (use assms(2,3) nrm_shaped in auto)

section \<open>Shifts\<close>

lemma unat_or_disjoint: "v AND w = 0 \<Longrightarrow> unat (v OR w) = unat v + unat w" for v w :: mpdigit
proof -
  assume "v AND w = 0"
  then have "unat v AND unat w = 0" by (metis unsigned_0 unsigned_and_eq)
  then show ?thesis by (simp only: unsigned_or_eq disjunctive_add_eq_or)
qed

lemma digit_drop_bit: "unat (drop_bit k d) = unat d div 2 ^ k" for d :: mpdigit
  unfolding unat_drop_bit_eq [of k d] by (rule drop_bit_eq_div)

text \<open>The part of one digit above and of the next digit below.\<close>

lemma joined:
  fixes hi lo :: mpdigit
  assumes "0 < l" "l < 32"
  shows "unat (push_bit l hi OR drop_bit (32 - l) lo) = unat hi * 2 ^ l mod B + unat lo div 2 ^ (32 - l)"
proof -
  have "push_bit l hi AND drop_bit (32 - l) lo = 0"
    using assms by (intro bit_word_eqI) (auto simp: bit_simps dest: bit_imp_le_length)
  then show ?thesis by (simp only: unat_or_disjoint push_bit_nat digit_drop_bit)
qed

lemma digit_shift: "l < 32 \<Longrightarrow> d * 2 ^ l = d * 2 ^ l mod B + B * (d div 2 ^ (32 - l))" for d :: nat
proof -
  assume l: "l < 32"
  then have B: "B = 2 ^ (32 - l) * 2 ^ l" by (simp add: power_add [symmetric])
  have "d * 2 ^ l div B = d div 2 ^ (32 - l)" unfolding B by simp
  then show ?thesis using mod_mult_div_eq [of "d * 2 ^ l" B] by simp
qed

lemma lshift_length [simp]: "length (lshift l p ds) = Suc (length ds)"
  by (induction ds arbitrary: p) simp_all

lemma lshift_val:
  assumes "0 < l" "l < 32"
  shows "val (rev (lshift l p ds)) = val (rev ds) * 2 ^ l + B ^ length ds * (unat p * 2 ^ l mod B)"
proof (induction ds arbitrary: p)
  case Nil
  then show ?case by (simp add: push_bit_nat)
next
  case (Cons d ds)
  define n where "n = B ^ length ds"
  let ?h = "unat p * 2 ^ l mod B + unat d div 2 ^ (32 - l)"
  have IH: "val (rev (lshift l d ds)) = val (rev ds) * 2 ^ l + n * (unat d * 2 ^ l mod B)" using Cons by (simp only: n_def)
  have "val (rev (lshift l p (d # ds))) = val (rev (lshift l d ds)) + B * n * ?h"
    unfolding lshift.simps rev.simps val_append n_def by (simp add: joined [OF assms] del: power_Suc) simp
  also have "\<dots> = val (rev ds) * 2 ^ l + n * (unat d * 2 ^ l mod B + B * (unat d div 2 ^ (32 - l))) + B * n * (unat p * 2 ^ l mod B)"
    unfolding IH by (simp only: distrib_left distrib_right ac_simps)
  also have "\<dots> = val (rev ds) * 2 ^ l + n * (unat d * 2 ^ l) + B * n * (unat p * 2 ^ l mod B)"
    unfolding digit_shift [OF assms(2), symmetric] ..
  also have "\<dots> = val (rev (d # ds)) * 2 ^ l + B ^ length (d # ds) * (unat p * 2 ^ l mod B)"
    unfolding rev.simps val_append by (simp add: n_def algebra_simps)
  finally show ?case .
qed

lemma lshift_ok: "0 < l \<Longrightarrow> l < 32 \<Longrightarrow> val (rev (lshift l 0 (rev ds))) = val ds * 2 ^ l"
  by (simp add: lshift_val)

lemma rshift_length [simp]: "length (rshift r ds) = length ds"
  by (induction r ds rule: rshift.induct) simp_all

lemma rshift_ok:
  assumes "0 < r" "r < 32"
  shows "val (rshift r ds) = val ds div 2 ^ r"
  using assms
proof (induction r ds rule: rshift.induct)
  case (1 r x y ds)
  define V where "V = val (y # ds)"
  have l: "0 < 32 - r" "32 - r < 32" using 1 by simp_all
  have B: "B = 2 ^ r * 2 ^ (32 - r)" using 1 by (simp add: power_add [symmetric])
  have Vm: "unat y * 2 ^ (32 - r) mod B = V mod 2 ^ r * 2 ^ (32 - r)"
  proof -
    have "V mod 2 ^ r = unat y mod 2 ^ r" unfolding V_def val.simps B by (simp only: mult.assoc mod_mult_self2)
    then show ?thesis unfolding B by (simp only: mult_mod_left)
  qed
  have "val (rshift r (x # y # ds)) = V mod 2 ^ r * 2 ^ (32 - r) + unat x div 2 ^ r + B * (V div 2 ^ r)"
    using 1 joined [OF l, of y x] Vm by (simp add: V_def)
  also have "\<dots> = unat x div 2 ^ r + 2 ^ (32 - r) * (V mod 2 ^ r + 2 ^ r * (V div 2 ^ r))"
    unfolding B by (simp only: distrib_left ac_simps)
  also have "\<dots> = unat x div 2 ^ r + 2 ^ (32 - r) * V" by (simp only: mod_mult_div_eq)
  also have "\<dots> = (unat x + B * V) div 2 ^ r" unfolding B mult.assoc
    by (subst div_mult_self2) (simp_all only: add.commute power_not_zero zero_neq_numeral [symmetric] not_False_eq_True)
  finally show ?case by (simp add: V_def)
next
  case (2 r x)
  then show ?case by (simp add: digit_drop_bit)
qed simp

lemma val_drop: "d \<le> length ds \<Longrightarrow> val (drop d ds) = val ds div B ^ d"
proof -
  assume d: "d \<le> length ds"
  define Q where "Q = B ^ d"
  have "val ds = val (take d ds) + Q * val (drop d ds)" "val (take d ds) < Q"
    using val_split [of ds d] val_lt [of "take d ds"] d by (simp_all only: Q_def length_take min_absorb2)
  then show ?thesis unfolding Q_def [symmetric] by simp
qed

lemma overwrite_front: "d + length v \<le> length D \<Longrightarrow> length u = d \<Longrightarrow> overwrite 0 u (overwrite d v D) = overwrite 0 (u @ v) D"
  by (simp add: overwrite_def)

lemma mpbits_none: "cells s b = Some x \<Longrightarrow> DIGITS m \<le> 0 \<Longrightarrow> mpbits b m s = Ret () s"
  by (simp add: mpbits_def Let_def)

lemma made_self: "msign y = sg \<Longrightarrow> normalise (y\<lparr>mdig := overwrite 0 ds (mdig y), mtop := length ds\<rparr>) = made y ds sg"
  by (cases y) (simp add: made_def)

lemma shift_split: "d = sh div 32 \<Longrightarrow> r = sh mod 32 \<Longrightarrow> (2 :: nat) ^ sh = B ^ d * 2 ^ r"
  by (simp only: power_mult [symmetric] power_add [symmetric] mult_div_mod_eq)

text \<open>The result may have been given the sign of the operand already, so that it is not in normal form.\<close>

definition room :: "mpint \<Rightarrow> bool" where
  "room y \<longleftrightarrow> mtop y \<le> length (mdig y) \<and> fnorm y \<and> \<not> ftimesafe y \<and> (msign y = 1 \<or> msign y = -1)"

lemma nrm_room: "nrm y \<Longrightarrow> a = 1 \<or> a = -1 \<Longrightarrow> room (y\<lparr>msign := a\<rparr>)" "nrm y \<Longrightarrow> room y"
  by (auto simp: nrm_def room_def)

lemma leftbody_ok:
  assumes "cells s b = Some x" "cells s r = Some y" "nrm x" "room y" "msign y = msign x" "b = r \<Longrightarrow> x = y"
  obtains z where "leftbody b sh r s = Ret () (put r z s)" "nrm z" "ival z = ival x * 2 ^ sh" "kept y z"
proof -
  define d where "d = sh div 32"
  define l where "l = sh mod 32"
  define D where "D = take (mtop x) (mdig x)"
  define v where "v = (if l = 0 then D else rev (lshift l 0 (rev D)))"
  define n where "n = d + length v"
  have x: "mtop x \<le> length (mdig x)" "\<not> ftimesafe x" "msign x = 1 \<or> msign x = -1" using assms(3) by (auto simp: nrm_def)
  have y: "mtop y \<le> length (mdig y)" "\<not> ftimesafe y" using assms(4) by (auto simp: room_def)
  have lD: "length D = mtop x" using x by (simp add: D_def)
  have n: "DIGITS (int (mtop x * Dbits + sh)) = int n"
  proof -
    have sh: "sh = 32 * d + l" "l < 32" by (simp_all add: d_def l_def)
    have "mtop x * 32 + sh + 31 = (l + 31) + 32 * (mtop x + d)" unfolding sh(1) by simp
    then have "(mtop x * 32 + sh + 31) div 32 = mtop x + d + (l + 31) div 32" by (simp only: div_mult_self2 numeral_eq_iff simp_thms zero_neq_numeral [symmetric])
    moreover have "(l + 31) div 32 = (if l = 0 then 0 else 1)" using sh(2) by (auto simp: div_if)
    ultimately have "(mtop x * 32 + sh + 31) div 32 = mtop x + d + (if l = 0 then 0 else 1)" by simp
    then show ?thesis unfolding DIGITS_nat n_def v_def using lD by simp
  qed
  have v: "val (replicate d 0 @ v) = mag x * 2 ^ sh"
  proof -
    have "val v = mag x * 2 ^ l" using lshift_ok [of l D] by (cases "l = 0") (simp_all add: v_def mag_def D_def l_def)
    then show ?thesis unfolding shift_split [OF d_def l_def] by (simp only: val_append val_replicate length_replicate add_0 ac_simps)
  qed
  define w where "w = bitsof n y"
  have w: "n \<le> length (mdig w)" "\<not> ftimesafe w" "kept y w" "msign w = msign x"
    using bitsof_len [OF y(1), of n] y(2) kept_bitsof [OF y(1), of n] assms(5) by (simp_all add: w_def)
  obtain x' where x': "cells (put r (w\<lparr>mtop := n\<rparr>) s) b = Some x'" "take (mtop x) (mdig x') = D" "mtop x \<le> length (mdig x')"
  proof (cases "b = r")
    case True
    then show ?thesis using that [of "w\<lparr>mtop := n\<rparr>"] bitsof_take [of y "mtop y" n] bitsof_len [of y n] y assms(6)
      by (simp add: w_def D_def)
  qed (use that [of x] assms(1) x in \<open>auto simp: D_def\<close>)
  have s1: "mpbits r (int (mtop x * Dbits + sh)) s = Ret () (put r w s)"
    using mpbits_run [OF assms(2), of "int (mtop x * Dbits + sh)"] unfolding n w_def by simp
  have s2: "store r d v (put r (w\<lparr>mtop := n\<rparr>) s) = Ret () (put r (w\<lparr>mtop := n, mdig := overwrite d v (mdig w)\<rparr>) s)"
    using w(1) by (simp add: n_def)
  have s3: "store r 0 (replicate d 0) (put r (w\<lparr>mtop := n, mdig := overwrite d v (mdig w)\<rparr>) s) =
      Ret () (put r (w\<lparr>mtop := n, mdig := overwrite 0 (replicate d 0 @ v) (mdig w)\<rparr>) s)"
    using w(1) by (simp add: n_def overwrite_front)
  let ?w = "w\<lparr>mtop := n, mdig := overwrite 0 (replicate d 0 @ v) (mdig w)\<rparr>"
  have nw: "normalise ?w = made w (replicate d 0 @ v) (msign x)"
    using made_self [OF w(4), of "replicate d 0 @ v"] by (simp add: n_def upd_order)
  have s4: "block [modify r (\<lambda>y. y\<lparr>ftimesafe := ftimesafe y \<or> ftimesafe x\<rparr>), mpnorm r] (put r ?w s) = Ret () (put r (normalise ?w) s)"
    using w(1,2) x(2) by (simp add: no_ts n_def)
  have m1: "modify r (\<lambda>y. y\<lparr>mtop := nat (DIGITS (int (mtop x * Dbits + sh)))\<rparr>) (put r w s) = Ret () (put r (w\<lparr>mtop := n\<rparr>) s)"
    unfolding n by simp
  have "leftbody b sh r s = Ret () (put r (made w (replicate d 0 @ v) (msign x)) s)"
    unfolding leftbody_def withmp_run [OF assms(1)]
    unfolding Let_def
    unfolding d_def [symmetric] l_def [symmetric]
    unfolding block.simps(2) s1 bindR.simps
    unfolding m1 bindR.simps
    unfolding withmp_run [OF x'(1)]
    unfolding x'(2)
    unfolding v_def [symmetric]
    unfolding guard_run [OF x'(3)] bindR.simps s2 block.simps
    unfolding s3 bindR.simps
    unfolding s4 [unfolded block.simps] by (rule arg_cong [OF nw, of "\<lambda>z. Ret () (put r z s)"])
  moreover have ln: "length (replicate d 0 @ v) \<le> length (mdig w)" using w(1) by (simp add: n_def)
  moreover have "msign x * int (val (replicate d 0 @ v)) = ival x * 2 ^ sh" unfolding v ival_def by (simp only: of_nat_mult of_nat_power of_nat_numeral mult.assoc)
  moreover note m = made_ok [OF ln x(3) w(2)]
  ultimately show ?thesis using that [of "made w (replicate d 0 @ v) (msign x)"] m(1) m(3) kept_trans [OF w(3) m(4)] by (simp only:)
qed

lemma right_digits:
  assumes "d = sh div 32" "r = sh mod 32" "d < mtop x" "room x"
  shows "val ((if r = 0 then (\<lambda>ds. ds) else rshift r) (drop d (take (mtop x) (mdig x)))) = mag x div 2 ^ sh"
proof -
  have l: "d \<le> length (take (mtop x) (mdig x))" using assms(3,4) by (simp add: room_def)
  have "val ((if r = 0 then (\<lambda>ds. ds) else rshift r) (drop d (take (mtop x) (mdig x)))) = mag x div B ^ d div 2 ^ r"
    unfolding mag_def val_drop [OF l, symmetric] using rshift_ok [of r] assms(2) by (cases "r = 0") simp_all
  then show ?thesis unfolding shift_split [OF assms(1,2)] div_mult2_eq .
qed

lemma mag_gone: "mtop x \<le> sh div 32 \<Longrightarrow> mag x div 2 ^ sh = 0"
proof -
  assume "mtop x \<le> sh div 32"
  then have "32 * mtop x \<le> sh" by simp
  have "mag x < B ^ mtop x" by (rule mag_lt)
  also have "\<dots> = 2 ^ (32 * mtop x)" by (simp only: power_mult)
  also have "\<dots> \<le> 2 ^ sh" using \<open>32 * mtop x \<le> sh\<close> by (rule power_increasing) simp
  finally show ?thesis by simp
qed

lemma right_bits: "sh div 32 < n \<Longrightarrow> DIGITS (int (n * Dbits) - int sh) = int (n - sh div 32)"
proof -
  assume n: "sh div 32 < n"
  define d l where "d = sh div 32" and "l = sh mod 32"
  have sh: "sh = 32 * d + l" "l < 32" by (simp_all add: d_def l_def)
  have e: "n * 32 = 32 * (n - d) + 32 * d" using n by (simp add: d_def)
  have "int (n * 32) - int sh = int (32 * (n - d) - l)" unfolding e sh(1) using n sh(2) by (simp add: d_def of_nat_diff)
  moreover have "(32 * (n - d) - l + 31) div 32 = n - d"
  proof -
    have "32 * (n - d) - l + 31 = (31 - l) + 32 * (n - d)" using n sh(2) by (simp add: d_def)
    then show ?thesis using sh(2) by simp
  qed
  ultimately show ?thesis by (simp only: DIGITS_nat d_def)
qed

lemma rightbody_ok:
  assumes "cells s b = Some x" "cells s r = Some y" "room x" "room y" "msign y = msign x" "b = r \<Longrightarrow> x = y \<and> nrm x"
  obtains z where "rightbody b sh r s = Ret () (put r z s)" "nrm z" "ival z = msign x * int (mag x div 2 ^ sh)" "kept y z"
proof -
  define d where "d = sh div 32"
  define l where "l = sh mod 32"
  have x: "mtop x \<le> length (mdig x)" "\<not> ftimesafe x" "msign x = 1 \<or> msign x = -1" using assms(3) by (auto simp: room_def)
  have y: "mtop y \<le> length (mdig y)" "\<not> ftimesafe y" "fnorm y" using assms(4) by (auto simp: room_def)
  let ?bits = "if r \<noteq> b then mpbits r (int (mtop x * Dbits) - int sh) else block []"
  let ?tail = "let d = sh div Dbits; r' = sh mod Dbits in
          if d \<ge> mtop x then modify r (\<lambda>y. y\<lparr>msign := 1, mtop := 0\<rparr>)
          else let ds = drop d (take (mtop x) (mdig x)); ds = (if r' = 0 then ds else rshift r' ds) in block
            [guard (mtop x \<le> length (mdig x)),
             store r 0 ds,
             modify r (\<lambda>y. y\<lparr>mtop := length ds, ftimesafe := ftimesafe y \<or> ftimesafe x\<rparr>),
             mpnorm r]"
  consider (same) "r = b" "sh = 0" | (gone) "\<not> (r = b \<and> sh = 0)" "mtop x \<le> d" | (some) "\<not> (r = b \<and> sh = 0)" "d < mtop x"
    by (meson leI)
  then show ?thesis
  proof cases
    case same
    moreover have "kept y x" using assms(6) same(1) by simp
    moreover have "rightbody b 0 b s = Ret () (put b x s)" using assms(1) by (simp add: rightbody_def put_same)
    moreover have "nrm x" using assms(6) same(1) by blast
    ultimately show ?thesis using that [of x] by (simp add: ival_def)
  next
    case gone
    have "DIGITS (int (mtop x * Dbits) - int sh) \<le> 0"
    proof (cases "int (mtop x * Dbits) - int sh = 0")
      case False
      have "32 * mtop x \<le> 32 * (sh div 32)" using gone(2) unfolding d_def by (rule mult_le_mono2)
      also have "\<dots> \<le> sh" by simp
      finally have "int (mtop x * Dbits) - int sh \<le> 0" by simp
      then show ?thesis using DIGITS_neg False by auto
    qed (simp add: DIGITS_def signed_divide_int_def)
    then have "?bits s = Ret () s" using mpbits_none [OF assms(2)] by simp
    moreover have "?tail s = Ret () (put r (y\<lparr>msign := 1, mtop := 0\<rparr>) s)"
      using gone(2) assms(2) by (simp add: d_def Let_def)
    ultimately have "rightbody b sh r s = Ret () (put r (y\<lparr>msign := 1, mtop := 0\<rparr>) s)"
      using gone(1) unfolding rightbody_def withmp_run [OF assms(1)] by (simp only: if_False block.simps bindR.simps)
    moreover have "nrm (y\<lparr>msign := 1, mtop := 0\<rparr>)" using y by (simp add: nrm_def)
    ultimately show ?thesis using that mag_gone [of x sh] gone(2) by (simp add: d_def ival_def mag_top)
  next
    case some
    define v where "v = (if l = 0 then (\<lambda>ds. ds) else rshift l) (drop d (take (mtop x) (mdig x)))"
    define w where "w = (if r \<noteq> b then bitsof (mtop x - d) y else y)"
    have v: "val v = mag x div 2 ^ sh" unfolding v_def by (rule right_digits [OF d_def l_def some(2) assms(3)])
    have lv: "length v = mtop x - d" using x by (auto simp: v_def)
    have w: "length v \<le> length (mdig w)" "\<not> ftimesafe w" "kept y w" "msign w = msign x"
    proof -
      have "length v \<le> length (mdig y)" if "r = b" using assms(6) that lv x(1) by (metis diff_le_self le_trans)
      then show "length v \<le> length (mdig w)" using bitsof_len [OF y(1), of "mtop x - d"] lv by (simp add: w_def)
      show "\<not> ftimesafe w" "kept y w" "msign w = msign x" using y(2) kept_bitsof [OF y(1), of "mtop x - d"] assms(5) by (simp_all add: w_def)
    qed
    have "?bits s = Ret () (put r w s)"
    proof (cases "r = b")
      case False
      then show ?thesis using mpbits_run [OF assms(2), of "int (mtop x * Dbits) - int sh"]
        unfolding right_bits [OF some(2) [unfolded d_def]] w_def d_def [symmetric] by (simp only: if_True simp_thms nat_int of_nat_0_le_iff)
    qed (use assms(2) in \<open>simp add: w_def put_same\<close>)
    moreover have "?tail (put r w s) = Ret () (put r (made w v (msign x)) s)"
    proof -
      have "?tail = block [guard (mtop x \<le> length (mdig x)), store r 0 v,
          modify r (\<lambda>y. y\<lparr>mtop := length v, ftimesafe := ftimesafe y \<or> ftimesafe x\<rparr>), mpnorm r]"
        using some(2) unfolding Let_def d_def [symmetric] l_def [symmetric] v_def by simp
      then show ?thesis using x w made_self [OF w(4), of v] by (simp add: upd_order no_ts)
    qed
    ultimately have "rightbody b sh r s = Ret () (put r (made w v (msign x)) s)"
      using some(1) unfolding rightbody_def withmp_run [OF assms(1)] by (simp only: if_False block.simps bindR.simps)
    moreover note m = made_ok [OF w(1) x(3) w(2)]
    ultimately show ?thesis using that [of "made w v (msign x)"] kept_trans [OF w(3) m(4)] v by simp
  qed
qed

text \<open>Both routines, for shifts of either sign.\<close>

definition shifted :: "int \<Rightarrow> mpint \<Rightarrow> int" where
  "shifted n x = (if n \<ge> 0 then ival x * 2 ^ nat n else msign x * int (mag x div 2 ^ nat (- n)))"

lemma shift_bodies:
  assumes "number s b x" "number s r y"
  shows "\<exists>z. leftbody b k r (put r (y\<lparr>msign := msign x\<rparr>) s) = Ret () (put r z s) \<and> nrm z \<and> kept y z \<and> ival z = ival x * 2 ^ k"
    and "\<exists>z. rightbody b k r (put r (y\<lparr>msign := msign x\<rparr>) s) = Ret () (put r z s) \<and> nrm z \<and> kept y z \<and>
      ival z = msign x * int (mag x div 2 ^ k)"
proof -
  have sg: "msign x = 1 \<or> msign x = -1" using assms(1) by (auto simp: nrm_def)
  define w where "w = y\<lparr>msign := msign x\<rparr>"
  have w: "room w" "msign w = msign x" "b = r \<Longrightarrow> x = w" "kept y z = kept w z" for z
    using nrm_room(1) [of y, OF _ sg] assms by (auto simp: w_def)
  have c: "cells (put r w s) b = Some x" "cells (put r w s) r = Some w" "nrm x" using assms w(3) by auto
  obtain z where "leftbody b k r (put r w s) = Ret () (put r z (put r w s))" "nrm z" "ival z = ival x * 2 ^ k" "kept w z"
    by (rule leftbody_ok [OF c w(1,2,3)])
  then show "\<exists>z. leftbody b k r (put r (y\<lparr>msign := msign x\<rparr>) s) = Ret () (put r z s) \<and> nrm z \<and> kept y z \<and> ival z = ival x * 2 ^ k"
    unfolding w_def [symmetric] w(4) by auto
  obtain z where "rightbody b k r (put r w s) = Ret () (put r z (put r w s))" "nrm z" "ival z = msign x * int (mag x div 2 ^ k)" "kept w z"
    by (rule rightbody_ok [OF c(1,2) nrm_room(2) [OF c(3)] w(1,2)]) (use w(3) c(3) in blast)+
  then show "\<exists>z. rightbody b k r (put r (y\<lparr>msign := msign x\<rparr>) s) = Ret () (put r z s) \<and> nrm z \<and> kept y z \<and>
      ival z = msign x * int (mag x div 2 ^ k)"
    unfolding w_def [symmetric] w(4) by auto
qed

lemma INT_MIN_neg [simp]: "int n \<noteq> INT_MIN" "INT_MIN \<noteq> int n"
  by (simp_all add: INT_MIN_def)

lemma mpleft_ok:
  assumes "number s b x" "number s r y" "n \<noteq> INT_MIN"
  shows "\<exists>z. mpleft b n r s = Ret () (put r z s) \<and> nrm z \<and> kept y z \<and> ival z = shifted n x"
    and "\<exists>z. mpright b n r s = Ret () (put r z s) \<and> nrm z \<and> kept y z \<and> ival z = shifted (- n) x"
proof -
  let ?w = "y\<lparr>msign := msign x\<rparr>"
  have c: "cells s b = Some x" "cells s r = Some y" "cells (put r ?w s) r = Some ?w" using assms by auto
  have zero: "nrm (?w\<lparr>mtop := 0\<rparr>)" "ival (?w\<lparr>mtop := 0\<rparr>) = shifted k x" "kept y (?w\<lparr>mtop := 0\<rparr>)" if "mtop x = 0" for k
    using that assms by (auto simp: nrm_def shifted_def ival_def mag_top)
  have z0: "shifted 0 x = msign x * int (mag x div 2 ^ 0)" by (simp add: shifted_def ival_def)
  note L = shift_bodies(1) [OF assms(1,2)] and R = shift_bodies(2) [OF assms(1,2)]
  show "\<exists>z. mpleft b n r s = Ret () (put r z s) \<and> nrm z \<and> kept y z \<and> ival z = shifted n x"
  proof (cases "mtop x = 0")
    case True
    then show ?thesis using zero c by (intro exI [of _ "?w\<lparr>mtop := 0\<rparr>"]) (simp add: mpleft_def)
  next
    case False
    then have "mpleft b n r s = (if n \<le> 0 then rightbody b (nat (- n)) r else leftbody b (nat n) r) (put r ?w s)"
      using c assms(3) by (simp add: mpleft_def)
    then show ?thesis using L [of "nat n"] R [of "nat (- n)"] z0 by (cases "n = 0"; cases "n < 0") (simp_all add: shifted_def)
  qed
  show "\<exists>z. mpright b n r s = Ret () (put r z s) \<and> nrm z \<and> kept y z \<and> ival z = shifted (- n) x"
  proof (cases "mtop x = 0")
    case True
    then show ?thesis using zero c by (intro exI [of _ "?w\<lparr>mtop := 0\<rparr>"]) (simp add: mpright_def)
  next
    case False
    then have "mpright b n r s = (if n < 0 then leftbody b (nat (- n)) r else rightbody b (nat n) r) (put r ?w s)"
      using c assms(3) by (simp add: mpright_def)
    then show ?thesis using L [of "nat (- n)"] R [of "nat n"] z0 by (cases "n = 0"; cases "n < 0") (simp_all add: shifted_def)
  qed
qed

text \<open>The operand of a right shift need not be in normal form when the result is another number.\<close>

lemma mpright_other:
  assumes "cells s b = Some x" "room x" "mtop x \<noteq> 0" "number s r y" "b \<noteq> r"
  obtains z where "mpright b (int n) r s = Ret () (put r z s)" "nrm z" "kept y z" "ival z = msign x * int (mag x div 2 ^ n)"
proof -
  let ?w = "y\<lparr>msign := msign x\<rparr>"
  have w: "room ?w" using nrm_room(1) [of y "msign x"] assms(2,4) by (simp add: room_def)
  have c: "cells (put r ?w s) b = Some x" "cells (put r ?w s) r = Some ?w" using assms by simp_all
  obtain z where "rightbody b n r (put r ?w s) = Ret () (put r z (put r ?w s))" "nrm z" "ival z = msign x * int (mag x div 2 ^ n)" "kept ?w z"
    by (rule rightbody_ok [OF c assms(2) w]) (use assms(5) in auto)
  moreover have "mpright b (int n) r s = rightbody b n r (put r ?w s)" using assms by (simp add: mpright_def)
  ultimately show ?thesis using that by simp
qed

section \<open>The operations as an interface\<close>

text \<open>All numbers of the memory are in normal form, and the integers they stand for.\<close>

definition allnrm :: "mpst \<Rightarrow> bool" where
  "allnrm s \<longleftrightarrow> mpstok s \<and> (\<forall>b x. cells s b = Some x \<longrightarrow> nrm x)"

definition ints :: "mpst \<Rightarrow> nat \<Rightarrow> int option" where
  "ints s b = map_option ival (cells s b)"

text \<open>An operation on two numbers and the operation on the integers that it implements.\<close>

locale mpop =
  fixes opr :: "nat \<Rightarrow> nat \<Rightarrow> nat \<Rightarrow> unit cmd" and f :: "int \<Rightarrow> int \<Rightarrow> int"
  assumes opr_becomes: "mpstok s \<Longrightarrow> number s b1 x1 \<Longrightarrow> number s b2 x2 \<Longrightarrow> number s r y \<Longrightarrow> usable r \<Longrightarrow>
    okR (opr b1 b2 r s) (\<lambda>_. becomes r (f (ival x1) (ival x2)) s)"
begin

lemma refines:
  assumes "allnrm s" "ints s b1 = Some i1" "ints s b2 = Some i2" "ints s r \<noteq> None" "usable r"
  shows "okR (opr b1 b2 r s) (\<lambda>_ s'. allnrm s' \<and> ints s' = (ints s)(r \<mapsto> f i1 i2))"
proof -
  obtain x1 x2 y where n: "number s b1 x1" "number s b2 x2" "number s r y" and v: "ival x1 = i1" "ival x2 = i2"
    using assms(1-4) by (auto simp: allnrm_def ints_def)
  have "okR (opr b1 b2 r s) (\<lambda>_. becomes r (f i1 i2) s)"
    using opr_becomes [OF _ n assms(5)] assms(1) v by (simp add: allnrm_def)
  then show ?thesis
  proof (rule okR_mono)
    fix a s'
    assume b: "becomes r (f i1 i2) s s'"
    then have "mpstok s'" using becomes_ok assms(1,5) by (auto simp: allnrm_def)
    moreover obtain z where "nrm z" "ival z = f i1 i2" "cells s' = (cells s)(r \<mapsto> z)" using b by (auto simp: becomes_def)
    ultimately show "allnrm s' \<and> ints s' = (ints s)(r \<mapsto> f i1 i2)"
      using assms(1) by (auto simp: allnrm_def ints_def fun_eq_iff)
  qed
qed

end

interpretation padd: mpop mpadd "(+)"
proof
  fix s b1 x1 b2 x2 r y
  assume a: "mpstok s" "number s b1 x1" "number s b2 x2" "number s r y" "usable r"
  from mpadd_ok [OF a] becomes_put [of s r y] a(4) show "okR (mpadd b1 b2 r s) (\<lambda>_. becomes r (ival x1 + ival x2) s)" by auto
qed

interpretation psub: mpop mpsub "(-)"
proof
  fix s b1 x1 b2 x2 r y
  assume a: "mpstok s" "number s b1 x1" "number s b2 x2" "number s r y" "usable r"
  from mpsub_ok [OF a] becomes_put [of s r y] a(4) show "okR (mpsub b1 b2 r s) (\<lambda>_. becomes r (ival x1 - ival x2) s)" by auto
qed

interpretation pmul: mpop mpmul "(*)"
  by unfold_locales (rule mpmul_ok)

text \<open>Straight-line programs over the three operations, on the memory and on integers.\<close>

datatype mpinstr = Add nat nat nat | Sub nat nat nat | Mul nat nat nat

fun exec1 :: "mpinstr \<Rightarrow> unit cmd" where
  "exec1 (Add a b r) = mpadd a b r"
| "exec1 (Sub a b r) = mpsub a b r"
| "exec1 (Mul a b r) = mpmul a b r"

fun eval1 :: "mpinstr \<Rightarrow> (nat \<Rightarrow> int option) \<Rightarrow> nat \<Rightarrow> int option" where
  "eval1 (Add a b r) m = m(r \<mapsto> the (m a) + the (m b))"
| "eval1 (Sub a b r) m = m(r \<mapsto> the (m a) - the (m b))"
| "eval1 (Mul a b r) m = m(r \<mapsto> the (m a) * the (m b))"

fun places :: "mpinstr \<Rightarrow> nat \<times> nat \<times> nat" where
  "places (Add a b r) = (a, b, r)"
| "places (Sub a b r) = (a, b, r)"
| "places (Mul a b r) = (a, b, r)"

definition allowed :: "nat set \<Rightarrow> mpinstr \<Rightarrow> bool" where
  "allowed D i \<longleftrightarrow> (case places i of (a, b, r) \<Rightarrow> {a, b, r} \<subseteq> D \<and> usable r)"

lemma exec1_refines:
  assumes "allnrm s" "allowed (dom (ints s)) i"
  shows "okR (exec1 i s) (\<lambda>_ s'. allnrm s' \<and> ints s' = eval1 i (ints s))"
proof (cases i)
  case (Add a b r)
  then obtain i1 i2 where "ints s a = Some i1" "ints s b = Some i2" "ints s r \<noteq> None" "usable r"
    using assms(2) by (auto simp: allowed_def)
  then show ?thesis using padd.refines [OF assms(1)] Add by simp
next
  case (Sub a b r)
  then obtain i1 i2 where "ints s a = Some i1" "ints s b = Some i2" "ints s r \<noteq> None" "usable r"
    using assms(2) by (auto simp: allowed_def)
  then show ?thesis using psub.refines [OF assms(1)] Sub by simp
next
  case (Mul a b r)
  then obtain i1 i2 where "ints s a = Some i1" "ints s b = Some i2" "ints s r \<noteq> None" "usable r"
    using assms(2) by (auto simp: allowed_def)
  then show ?thesis using pmul.refines [OF assms(1)] Mul by simp
qed

lemma eval1_dom: "allowed (dom m) i \<Longrightarrow> dom (eval1 i m) = dom m"
  by (cases i) (auto simp: allowed_def)

lemma exec_refines:
  "allnrm s \<Longrightarrow> list_all (allowed (dom (ints s))) is \<Longrightarrow>
     okR (block (map exec1 is) s) (\<lambda>_ s'. allnrm s' \<and> ints s' = fold eval1 is (ints s))"
proof (induction "is" arbitrary: s)
  case (Cons i "is")
  then have "okR (exec1 i s) (\<lambda>_ s'. allnrm s' \<and> ints s' = eval1 i (ints s))" by (intro exec1_refines) simp_all
  then show ?case
  proof (simp, elim okR_mono conjE)
    fix s'
    assume "allnrm s'" "ints s' = eval1 i (ints s)"
    then show "okR (block (map exec1 is) s') (\<lambda>_ s'. allnrm s' \<and> ints s' = fold eval1 is (eval1 i (ints s)))"
      using Cons.IH [of s'] Cons.prems eval1_dom [of "ints s" i] by simp
  qed
qed simp

section \<open>Properties\<close>

text \<open>Numbers for the examples: 7, -2^32 and 0.\<close>

definition exnum :: "int \<Rightarrow> mpdigit list \<Rightarrow> mpint" where
  "exnum sg ds = \<lparr>msign = sg, mtop = length ds, mdig = ds @ [0, 0], fstatic = False, fnorm = True, ftimesafe = False, ffield = False\<rparr>"

definition exst :: mpst where
  "exst = mpinit\<lparr>cells := (cells mpinit)(4 \<mapsto> exnum 1 [7], 5 \<mapsto> exnum (-1) [0, 1], 6 \<mapsto> exnum 1 []), brk := 7\<rparr>"

lemma exst_ok: "allnrm exst"
  by (auto simp: allnrm_def mpstok_def exst_def mpinit_def exnum_def nrm_def mpzerocell_def mponecell_def mptwocell_def
      split: if_splits)

lemma exst_ints: "ints exst = [1 \<mapsto> 0, 2 \<mapsto> 1, 3 \<mapsto> 2, 4 \<mapsto> 7, 5 \<mapsto> -4294967296, 6 \<mapsto> 0]"
  by (auto simp: ints_def exst_def mpinit_def exnum_def ival_def mag_def mpzerocell_def mponecell_def mptwocell_def fun_eq_iff)

text \<open>C15. Any sequence of additions, subtractions and multiplications of numbers in memory, with results that may be
  operands, ends without an error or a bad access, leaves all numbers in normal form, and is the same sequence of
  operations on unbounded integers; no number is left allocated or lost on the way.\<close>

theorem mp_refines_integers:
  assumes "allnrm s" "list_all (allowed (dom (ints s))) is"
  shows "okR (block (map exec1 is) s) (\<lambda>_ s'. allnrm s' \<and> ints s' = fold eval1 is (ints s))"
  using assms by (rule exec_refines)

theorem mp_refines_integers_witness:
  "okR (block (map exec1 [Mul 4 5 5, Add 5 4 4, Sub 6 4 6, Mul 6 6 6]) exst)
     (\<lambda>_ s'. ints s' 5 = Some (-30064771072) \<and> ints s' 4 = Some (-30064771065) \<and> ints s' 6 = Some (30064771065 ^ 2))"
proof -
  have "list_all (allowed (dom (ints exst))) [Mul 4 5 5, Add 5 4 4, Sub 6 4 6, Mul 6 6 6]"
    by (simp add: exst_ints allowed_def)
  from mp_refines_integers [OF exst_ok this] show ?thesis
    by (rule okR_mono) (simp add: exst_ints)
qed

text \<open>With the smallest \<^verbatim>\<open>int\<close> the two routines call each other without end.\<close>

lemma mpshift_int_min:
  assumes "cells s b = Some x" "cells s r \<noteq> None" "mtop x \<noteq> 0"
  shows "mpleft b INT_MIN r s = Fault \<and> mpright b INT_MIN r s = Fault"
  using assms by (auto simp: mpleft_def mpright_def)

text \<open>C20. Shifting a number by \<open>n\<close> bits in either direction, in place or into another number, multiplies by a power
  of two or divides by it towards zero, and changes no other number. The number of bits of the digits in
  use and of the shift together must fit an \<^verbatim>\<open>int\<close>, as the code counts them in one; that excludes the smallest \<^verbatim>\<open>int\<close>,
  with which the routines do not return.\<close>

theorem mpshift_exact:
  assumes "mpstok s" "number s b x" "number s r y" "int (mtop x) * 32 + \<bar>n\<bar> < 2 ^ 31"
  shows "okR (mpleft b n r s) (\<lambda>_. becomes r (shifted n x) s) \<and> okR (mpright b n r s) (\<lambda>_. becomes r (shifted (- n) x) s)"
proof -
  have "n \<noteq> INT_MIN" using assms(4) by (auto simp: INT_MIN_def)
  from mpleft_ok [OF assms(2,3) this] becomes_put [of s r y] assms(3) show ?thesis by auto
qed

theorem mpshift_exact_witness:
  "okR (mpright 5 33 5 exst) (\<lambda>_. becomes 5 0 exst) \<and> okR (mpleft 4 40 6 exst) (\<lambda>_. becomes 6 7696581394432 exst)"
proof -
  have n: "mpstok exst" "number exst 4 (exnum 1 [7])" "number exst 5 (exnum (-1) [0, 1])" "number exst 6 (exnum 1 [])"
    using exst_ok by (simp_all add: allnrm_def) (simp_all add: exst_def nrm_def exnum_def)
  have "shifted (-33) (exnum (-1) [0, 1]) = 0" "shifted 40 (exnum 1 [7]) = 7696581394432"
    by (simp_all add: shifted_def exnum_def mag_def ival_def)
  with mpshift_exact [OF n(1) n(3) n(3), of 33] mpshift_exact [OF n(1) n(2) n(4), of 40] show ?thesis
    by (simp add: exnum_def)
qed

end
