(* ===== verification/Mp_Div.thy ===== *)
theory Mp_Div
  imports Mp_Props
begin

text \<open>
  Division (\<^verbatim>\<open>mpdiv.c\<close>, Knuth's algorithm D on the digits) and its correctness.
\<close>

section \<open>The model\<close>

lemma dmuladd_zero: "val p = 0 \<Longrightarrow> val (dmuladd b 0 p 0 0) = 0"
proof (induction b arbitrary: p)
  case (Cons d b)
  have "mpdigmul d 0 = (0, 0)" using mpdigmul_ok [of d 0] by (cases "mpdigmul d 0") (auto simp: unat_eq_zero)
  with Cons show ?case by (cases p) (auto simp: unat_eq_zero)
qed simp

text \<open>D3a: the trial digit is lowered until its product with the two leading digits of the divisor is not
  greater than the three leading digits of the dividend. The product is 0 for the digit 0, so the loop ends.\<close>

function trial :: "mpdigit list \<Rightarrow> mpdigit list \<Rightarrow> mpdigit \<Rightarrow> mpdigit" where
  "trial v2 u3 qd =
     (if mpveccmp (mpvecdigmuladd v2 qd [0, 0]) u3 > 0 then trial v2 u3 (qd - 1) else qd)"
  by pat_completeness auto

termination
proof (relation "measure (\<lambda>(v2, u3, qd). unat qd)")
  fix v2 u3 qd
  assume a: "0 < mpveccmp (mpvecdigmuladd v2 qd [0, 0]) u3"
  have "qd \<noteq> 0"
  proof
    assume "qd = 0"
    then have "val (mpvecdigmuladd v2 qd [0, 0]) = 0" by (simp add: mpvecdigmuladd_def dmuladd_zero)
    with a show False by (simp add: mpveccmp_ok sgn_if split: if_splits)
  qed
  then show "((v2, u3, qd - 1), (v2, u3, qd)) \<in> measure (\<lambda>(v2, u3, qd). unat qd)"
    by (simp add: unat_minus_one unat_gt_0)
qed simp

declare trial.simps [simp del]

text \<open>The loop D2 to D7: \<open>u\<close> are the allocated digits of the dividend, of which \<open>length v + k\<close> are in use, and the
  quotient digits are collected with the least significant one first. Adding back stores one digit above those in
  use; without room for it the result is \<open>None\<close>.\<close>

fun divloop :: "mpdigit list \<Rightarrow> nat \<Rightarrow> mpdigit list \<Rightarrow> mpdigit list \<Rightarrow> (mpdigit list \<times> mpdigit list) option" where
  "divloop v (Suc k) u qs =
     (let vn = length v; up = vn + k;
          qd = mpdigdiv (u ! (up - 1)) (u ! up) (v ! (vn - 1));
          qd = (if vn > 1 then trial (seg (vn - 2) 2 v) (seg (up - 2) 3 u) qd else qd);
          (ds, sign) = mpvecdigmulsub v qd (seg (up - vn) (vn + 1) u);
          u = overwrite (up - vn) ds u
      in if sign < 0 then
           if up + 1 < length u then
             divloop v k ((overwrite (up - vn) (mpvecadd (seg (up - vn) (vn + 1) u) v) u)[up := 0]) ((qd - 1) # qs)
           else None
         else divloop v k (u[up := 0]) (qd # qs))"
| "divloop v 0 u qs = Some (u, qs)"

text \<open>The number of the shifts that bring a digit to the lowest or to the highest bit; \<open>None\<close> for 0.\<close>

fun lowbit :: "nat \<Rightarrow> mpdigit \<Rightarrow> nat \<Rightarrow> nat option" where
  "lowbit (Suc k) d s = (if drop_bit s d AND 1 = 0 then lowbit k d (s + 1) else Some s)"
| "lowbit 0 d s = None"

fun highbit :: "nat \<Rightarrow> mpdigit \<Rightarrow> nat \<Rightarrow> nat option" where
  "highbit (Suc k) d s = (if d AND push_bit 31 1 = 0 then highbit k (push_bit 1 d) (s + 1) else Some s)"
| "highbit 0 d s = None"

definition whenC :: "bool \<Rightarrow> unit cmd \<Rightarrow> unit cmd" where
  "whenC c p = (if c then p else block [])"

text \<open>Division by one or a small power of two.\<close>

definition divpow2 :: "mpdigit \<Rightarrow> nat \<Rightarrow> nat \<Rightarrow> nat \<Rightarrow> unit cmd" where
  "divpow2 d dividend quo rmd =
     withmp dividend (\<lambda>x s. bindR (guard (0 < length (mdig x)) s) (\<lambda>_.
       let r = of_int (msign x) * (ucast (mdig x ! 0 AND (d - 1)) :: u64) in block
       [whenC (quo \<noteq> nil) (case lowbit 32 d 0 of None \<Rightarrow> guard False | Some s \<Rightarrow> mpright dividend (int s) quo),
        whenC (rmd \<noteq> nil) (block
          [withmp dividend (\<lambda>x. modify rmd (\<lambda>y. y\<lparr>ftimesafe := ftimesafe y \<or> ftimesafe x\<rparr>)),
           \<lambda>s. bindR (vtomp r rmd s) (\<lambda>_ s. Ret () s)])]))"

text \<open>D1: the shifted dividend \<open>u\<close> and divisor \<open>v\<close>.\<close>

definition divstart :: "nat \<Rightarrow> nat \<Rightarrow> nat \<Rightarrow> nat \<Rightarrow> nat \<Rightarrow> nat \<Rightarrow> nat cmd" where
  "divstart s dividend divisor quo rmd u st =
     (if s = 0 \<and> divisor \<noteq> quo \<and> divisor \<noteq> rmd then
        seqret divisor [mpassign dividend u] st
      else bindR (mpleft dividend (int s) u st) (\<lambda>_. withmp divisor (\<lambda>x st.
        bindR (mpnew (int (mtop x * Dbits)) st) (\<lambda>v. seqret v [mpleft divisor (int s) v]))))"

text \<open>D1a: the leading digit of the dividend is made less than that of the divisor.\<close>

definition divtop :: "nat \<Rightarrow> nat \<Rightarrow> unit cmd" where
  "divtop u v =
     withmp u (\<lambda>x. withmp v (\<lambda>y. block
       [guard (0 < mtop x \<and> mtop x \<le> length (mdig x) \<and> 0 < mtop y \<and> mtop y \<le> length (mdig y)),
        whenC (mdig x ! (mtop x - 1) \<ge> mdig y ! (mtop y - 1))
          (block [store u (mtop x) [0], modify u (\<lambda>x. x\<lparr>mtop := mtop x + 1\<rparr>)])]))"

definition divroom :: "nat \<Rightarrow> nat \<Rightarrow> nat \<Rightarrow> unit cmd" where
  "divroom quo u v =
     withmp u (\<lambda>x. withmp v (\<lambda>y. whenC (quo \<noteq> nil) (block
       [mpbits quo (int ((mtop x - mtop y) * Dbits)),
        modify quo (\<lambda>q. q\<lparr>mtop := mtop x - mtop y\<rparr>)])))"

text \<open>The loop, and what is done with the quotient after it. The digits of the quotient are stored when the loop
  is done, since nothing reads them before.\<close>

definition divdigits :: "nat \<Rightarrow> nat \<Rightarrow> nat \<Rightarrow> nat \<Rightarrow> nat \<Rightarrow> unit cmd" where
  "divdigits dividend divisor quo u v =
     withmp u (\<lambda>x. withmp v (\<lambda>y.
       case divloop (take (mtop y) (mdig y)) (mtop x - mtop y) (mdig x) [] of None \<Rightarrow> guard False
       | Some (ds, qs) \<Rightarrow> block
           [modify u (\<lambda>x. x\<lparr>mdig := ds, mtop := mtop y\<rparr>),
            whenC (quo \<noteq> nil) (block
              [store quo 0 qs,
               withmp quo (\<lambda>q. assertC (\<not> ftimesafe q)),
               mpnorm quo,
               withmp dividend (\<lambda>x. withmp divisor (\<lambda>y.
                 whenC (msign x \<noteq> msign y) (modify quo (\<lambda>q. q\<lparr>msign := -1\<rparr>))))])]))"

definition divrem :: "nat \<Rightarrow> nat \<Rightarrow> nat \<Rightarrow> nat \<Rightarrow> unit cmd" where
  "divrem s dividend rmd u =
     whenC (rmd \<noteq> nil) (block
       [withmp rmd (\<lambda>r. assertC (\<not> ftimesafe r)),
        mpright u (int s) rmd,
        withmp dividend (\<lambda>x. modify rmd (\<lambda>r. r\<lparr>msign := msign x\<rparr>))])"

text \<open>From D1a on. \<open>t\<close> is memory for the product of D3a, which is set to 0 each time.\<close>

definition divrest :: "nat \<Rightarrow> nat \<Rightarrow> nat \<Rightarrow> nat \<Rightarrow> nat \<Rightarrow> nat \<Rightarrow> nat \<Rightarrow> unit cmd" where
  "divrest s dividend divisor quo rmd u v = block
     [divtop u v,
      \<lambda>st. bindR (mpnew (4 * int Dbits) st) (\<lambda>t. block
        [divroom quo u v,
         divdigits dividend divisor quo u v,
         divrem s dividend rmd u,
         mpfree t,
         mpfree u,
         whenC (v \<noteq> divisor) (mpfree v)])]"

definition mpdiv :: "nat \<Rightarrow> nat \<Rightarrow> nat \<Rightarrow> nat \<Rightarrow> unit cmd" where
  "mpdiv dividend divisor quo rmd =
     withmp divisor (\<lambda>y. block
       [assertC (quo \<noteq> rmd),
        assertC (fnorm y),
        \<lambda>st. if mtop y = 0 then Panic ''abort'' else Ret () st,
        if mtop y = 1 \<and> mdig y ! 0 AND (mdig y ! 0 - 1) = 0 then divpow2 (mdig y ! 0) dividend quo rmd
        else withmp dividend (\<lambda>x. block
          [assertC (\<not> ftimesafe x),
           \<lambda>st. bindR (mpmagcmp dividend divisor st) (\<lambda>c.
             if c < 0 then block
               [whenC (rmd \<noteq> nil) (mpassign dividend rmd),
                whenC (quo \<noteq> nil) (mpassign mpzero quo)]
             else case highbit 32 (mdig y ! (mtop y - 1)) 0 of None \<Rightarrow> guard False
             | Some s \<Rightarrow> (\<lambda>st. bindR (mpnew (int ((mtop x + 2) * Dbits + s)) st) (\<lambda>u st.
                 bindR (divstart s dividend divisor quo rmd u st) (\<lambda>v.
                   divrest s dividend divisor quo rmd u v))))])])"

section \<open>The digit loop computes quotient and remainder\<close>

lemma lead_le:
  fixes q :: nat
  assumes "q * (a1 + P * a2) \<le> b1 + P * b2" "b1 < P"
  shows "q * a2 \<le> b2"
proof -
  have "P * (q * a2) \<le> q * (a1 + P * a2)" by (simp add: algebra_simps)
  also have "\<dots> < P * (b2 + 1)" using assms by simp
  finally have "q * a2 < b2 + 1" by (simp only: mult_less_cancel1)
  then show ?thesis by simp
qed

lemma lead_less:
  fixes t :: nat
  assumes "t * a2 \<le> b2" "a1 < P" "t * P \<le> V" "V = a1 + P * a2" "0 < V"
  shows "t * V < (b1 + P * b2) + V"
proof (cases "t = 0")
  case False
  have "t * V = t * a1 + P * (t * a2)" unfolding assms(4) by (simp add: algebra_simps)
  also have "\<dots> < t * P + P * b2"
  proof (rule add_less_le_mono)
    show "t * a1 < t * P" using assms(2) False by simp
    show "P * (t * a2) \<le> P * b2" using assms(1) by (rule mult_le_mono2)
  qed
  finally show ?thesis using assms(3) by linarith
qed (use assms(5) in simp)

lemma trial_ok:
  "length v2 = 2 \<Longrightarrow> unat (trial v2 u3 qd) * val v2 \<le> val u3 \<and>
     (\<forall>q \<le> unat qd. q * val v2 \<le> val u3 \<longrightarrow> q \<le> unat (trial v2 u3 qd))"
proof (induction v2 u3 qd rule: trial.induct)
  case (1 v2 u3 qd)
  have p: "val (mpvecdigmuladd v2 qd [0, 0]) = unat qd * val v2" using mpvecdigmuladd_ok [of "[0, 0]" v2 qd] 1(2) by simp
  have c: "0 < mpveccmp (mpvecdigmuladd v2 qd [0, 0]) u3 \<longleftrightarrow> val u3 < unat qd * val v2"
    unfolding mpveccmp_ok p by (simp add: sgn_if del: of_nat_mult)
  show ?case
  proof (cases "val u3 < unat qd * val v2")
    case True
    then have "qd \<noteq> 0" by auto
    then have d: "unat (qd - 1) = unat qd - 1" by (rule unat_minus_one)
    have t: "trial v2 u3 qd = trial v2 u3 (qd - 1)" using True c by (subst trial.simps) simp
    have "q \<le> unat (qd - 1)" if "q \<le> unat qd" "q * val v2 \<le> val u3" for q
      using that True unfolding d by (cases "q = unat qd") auto
    with 1 True c t show ?thesis by simp
  next
    case False
    then have "trial v2 u3 qd = qd" using c by (subst trial.simps) simp
    with False show ?thesis by simp
  qed
qed

lemma mpdigdiv_above:
  assumes "q * unat vh \<le> unat lo + B * unat hi" "q < B"
  shows "q \<le> unat (mpdigdiv lo hi vh)"
proof (cases "hi < vh")
  case True
  then have "0 < unat vh" by (simp add: word_less_nat_alt)
  then show ?thesis using assms(1) True by (simp only: mpdigdiv_ok if_True less_eq_div_iff_mult_less_eq ac_simps)
next
  case False
  then show ?thesis using assms(2) by (simp only: mpdigdiv_ok if_False; linarith)
qed

definition qdigit :: "mpdigit list \<Rightarrow> mpdigit list \<Rightarrow> mpdigit" where
  "qdigit v U = (let vn = length v; qd = mpdigdiv (U ! (vn - 1)) (U ! vn) (v ! (vn - 1)) in
     if vn > 1 then trial (drop (vn - 2) v) (drop (vn - 2) U) qd else qd)"

lemma val_cut: "k \<le> length a \<Longrightarrow> val a = val (take k a) + B ^ k * val (drop k a)"
  using val_split [of a k] by (simp only: length_take min_absorb2)

lemma val_cut_lt: "k \<le> length a \<Longrightarrow> val (take k a) < B ^ k"
  using val_lt [of "take k a"] by (simp only: length_take min_absorb2)

text \<open>The trial digit is the digit of the quotient or one more.\<close>

lemma qdigit_ok:
  assumes "v \<noteq> []" "length U = length v + 1" "B ^ length v \<le> 2 * val v" "val U < val v * B"
  shows "val U div val v \<le> unat (qdigit v U) \<and> unat (qdigit v U) \<le> val U div val v + 1"
proof -
  define n q where "n = length v" and "q = val U div val v"
  have n: "0 < n" "n - 1 \<le> length v" "n - 1 \<le> length U" "n - 2 \<le> length v" "n - 2 \<le> length U"
    using assms(1,2) by (simp_all add: n_def)
  have "0 < B ^ length v" by (rule zero_less_power) simp
  then have V: "0 < val v" using assms(3) by linarith
  have qV: "q * val v \<le> val U" by (simp add: q_def)
  have qB: "q < B" using assms(4) unfolding q_def by (simp only: less_mult_imp_div_less mult.commute)
  define qd where "qd = mpdigdiv (U ! (n - 1)) (U ! n) (v ! (n - 1))"
  have "drop (n - 1) v = [v ! (n - 1)]" using Cons_nth_drop_Suc [of "n - 1" v] n(1) by (simp add: n_def)
  moreover have "drop (n - 1) U = [U ! (n - 1), U ! n]"
    using Cons_nth_drop_Suc [of "n - 1" U] Cons_nth_drop_Suc [of n U] n(1) assms(2) by (simp add: n_def)
  ultimately have dv: "val (drop (n - 1) v) = unat (v ! (n - 1))" "val (drop (n - 1) U) = unat (U ! (n - 1)) + B * unat (U ! n)"
    by simp_all
  have first: "q \<le> unat qd" unfolding qd_def
  proof (rule mpdigdiv_above [OF _ qB])
    have "q * val (drop (n - 1) v) \<le> val (drop (n - 1) U)"
      using qV [unfolded val_cut [OF n(2)] val_cut [OF n(3)]] val_cut_lt [OF n(3)] by (rule lead_le)
    then show "q * unat (v ! (n - 1)) \<le> unat (U ! (n - 1)) + B * unat (U ! n)" unfolding dv .
  qed
  show ?thesis
  proof (cases "n > 1")
    case True
    let ?v = "drop (n - 2) v" and ?u = "drop (n - 2) U" and ?t = "trial (drop (n - 2) v) (drop (n - 2) U) qd"
    have t: "qdigit v U = ?t" using True by (simp add: qdigit_def Let_def n_def qd_def)
    have "length ?v = 2" using True by (simp add: n_def)
    note T = trial_ok [OF this, of ?u qd]
    have "q * val ?v \<le> val ?u"
      using qV [unfolded val_cut [OF n(4)] val_cut [OF n(5)]] val_cut_lt [OF n(5)] by (rule lead_le)
    then have lo: "q \<le> unat ?t" using T first by blast
    have "unat ?t * B ^ (n - 2) \<le> val v"
    proof -
      have "2 * (unat ?t * B ^ (n - 2)) \<le> 2 * (B * B ^ (n - 2))" using digit_lt [of ?t] by (intro mult_le_mono) simp_all
      also have "\<dots> = 2 * B ^ (n - 1)"
      proof -
        have "Suc (n - 2) = n - 1" using True by simp
        then show ?thesis unfolding power_Suc [symmetric] by (simp only:)
      qed
      also have "\<dots> \<le> B * B ^ (n - 1)" by (rule mult_le_mono1) simp
      also have "\<dots> = B ^ n" using n(1) by (simp only: power_Suc [symmetric] Suc_diff_1)
      finally show ?thesis using assms(3) unfolding n_def by linarith
    qed
    then have "unat ?t * val v < val U + val v"
      using lead_less [OF _ val_cut_lt [OF n(4)] _ val_cut [OF n(4)] V] T val_cut [OF n(5)] by metis
    then have "unat ?t < (val U + val v) div val v + 1" by (metis add.commute div_less_iff_less_mult div_mult_self_is_m V less_Suc_eq_le div_le_mono order_less_imp_le Suc_eq_plus1)
    moreover have "(val U + val v) div val v = q + 1" using V unfolding q_def by (intro div_add_self2) simp
    ultimately have "unat ?t \<le> q + 1" by simp
    with lo show ?thesis by (simp add: t q_def)
  next
    case False
    then have n1: "n = 1" using n(1) by simp
    then have t: "qdigit v U = qd" by (simp add: qdigit_def Let_def n_def qd_def)
    define vh lo hi where "vh = v ! 0" and "lo = U ! 0" and "hi = U ! 1"
    have vv: "val v = unat vh" and uu: "val U = unat hi * B + unat lo"
      using dv unfolding n1 by (simp_all add: vh_def lo_def hi_def)
    have "hi < vh"
    proof (rule ccontr)
      assume "\<not> hi < vh"
      then have "unat vh * B \<le> unat hi * B" by (intro mult_le_mono1) (simp add: word_less_nat_alt)
      with assms(4) show False unfolding vv uu by linarith
    qed
    then have "unat qd = q" unfolding qd_def n1 q_def vv uu using mpdigdiv_ok [of lo hi vh] by (simp add: lo_def hi_def vh_def)
    then show ?thesis by (simp add: t q_def)
  qed
qed

lemma val_take_mod: "n \<le> length a \<Longrightarrow> val (take n a) = val a mod B ^ n"
proof -
  assume n: "n \<le> length a"
  define Q where "Q = B ^ n"
  have "val a = val (take n a) + Q * val (drop n a)" "val (take n a) < Q"
    using val_cut [OF n] val_cut_lt [OF n] by (simp_all only: Q_def)
  then show ?thesis unfolding Q_def [symmetric] by simp
qed

lemma seg_overwrite: "k + length ds \<le> length u \<Longrightarrow> seg k (length ds) (overwrite k ds u) = ds"
  by (simp add: seg_def overwrite_def)

lemma take_overwrite_upd:
  assumes "k + n \<le> up" "n \<le> length ds" "k + length ds \<le> length u"
  shows "take (k + n) ((overwrite k ds u)[up := x]) = take k u @ take n ds"
  using assms by (simp add: overwrite_def)

lemma val_join: "k \<le> length u \<Longrightarrow> val (take k u @ x) = val (take k u) + B ^ k * val x"
  by (simp only: val_append length_take min_absorb2)

lemma divloop_digit:
  assumes "v \<noteq> []" "length v + k < length u"
  defines "U \<equiv> seg k (length v + 1) u"
  shows "(let vn = length v; up = vn + k; qd = mpdigdiv (u ! (up - 1)) (u ! up) (v ! (vn - 1)) in
      if vn > 1 then trial (seg (vn - 2) 2 v) (seg (up - 2) 3 u) qd else qd) = qdigit v U"
proof -
  have n: "U ! i = u ! (k + i)" if "i \<le> length v" for i using that assms(2) by (simp add: U_def seg_def)
  have "length v + k - 1 = k + (length v - 1)" using assms(1) by (cases v) simp_all
  then have "u ! (length v + k - 1) = U ! (length v - 1)" "u ! (length v + k) = U ! length v"
    using n [of "length v - 1"] n [of "length v"] by (simp_all add: add.commute)
  moreover have "seg (length v - 2) 2 v = drop (length v - 2) v" by (simp add: seg_def)
  moreover have "seg (length v + k - 2) 3 u = drop (length v - 2) U" if "length v > 1"
  proof -
    have "k + (length v - 2) = length v + k - 2" "length v + 1 - (length v - 2) = 3" using that by simp_all
    then show ?thesis unfolding U_def drop_seg by simp
  qed
  ultimately show ?thesis by (simp add: qdigit_def Let_def)
qed

lemma divloop_step:
  assumes "v \<noteq> []" "B ^ length v \<le> 2 * val v" "length v + k + 1 < length u" "val (seg k (length v + 1) u) < val v * B"
  obtains u' q where "divloop v (Suc k) u qs = divloop v k u' (q # qs)" "length u' = length u"
    "unat q = val (seg k (length v + 1) u) div val v"
    "val (take (length v + k) u') = val (take k u) + B ^ k * (val (seg k (length v + 1) u) mod val v)"
proof -
  define n U qd where "n = length v" and "U = seg k (n + 1) u" and "qd = qdigit v U"
  have U: "length U = n + 1" "val U < val v * B" using assms(3,4) by (simp_all add: U_def n_def)
  define q where "q = val U div val v"
  have Q: "q \<le> unat qd" "unat qd \<le> q + 1"
    using qdigit_ok [OF assms(1) _ assms(2) U(2)] U(1) by (simp_all add: qd_def q_def n_def)
  obtain ds sg where m: "mpvecdigmulsub v qd U = (ds, sg)" by (cases "mpvecdigmulsub v qd U")
  note M = mpvecdigmulsub_ok [OF _ m]
  have lds: "length ds = n + 1" using M U(1) by (simp add: n_def)
  define u1 where "u1 = overwrite k ds u"
  have lu1: "length u1 = length u" unfolding u1_def using lds assms(3) by (simp add: n_def)
  have len: "k + length ds \<le> length u" using lds assms(3) by (simp add: n_def)
  have k: "k \<le> length u" using assms(3) by simp
  have sg1: "seg k (n + 1) u1 = ds" using seg_overwrite [OF len] unfolding lds u1_def .
  have step: "divloop v (Suc k) u qs = (if sg < 0 then divloop v k ((overwrite k (mpvecadd ds v) u1)[n + k := 0]) ((qd - 1) # qs)
      else divloop v k (u1[n + k := 0]) (qd # qs))"
  proof -
    have l: "length v + k < length u" "length v + k - length v = k" "n + k + 1 < length u1" using assms(3) lu1 by (simp_all add: n_def)
    have D: "(if 1 < length v then trial (seg (length v - 2) 2 v) (seg (length v + k - 2) 3 u)
        (mpdigdiv (u ! (length v + k - 1)) (u ! (length v + k)) (v ! (length v - 1)))
        else mpdigdiv (u ! (length v + k - 1)) (u ! (length v + k)) (v ! (length v - 1))) = qd"
      using divloop_digit [OF assms(1) l(1)] by (simp only: Let_def qd_def U_def n_def)
    show ?thesis unfolding divloop.simps Let_def D l(2) using m sg1 l(3) by (simp only: U_def n_def u1_def prod.case if_True)
  qed
  have "0 < B ^ length v" by (rule zero_less_power) simp
  then have V: "0 < val v" using assms(2) by linarith
  have vlt: "val U mod val v < B ^ n" using val_lt [of v] V by (metis n_def mod_less_divisor less_trans)
  have UQ: "val U = q * val v + val U mod val v" by (simp add: q_def)
  show ?thesis
  proof (cases "unat qd * val v \<le> val U")
    case True
    then have "unat qd \<le> q" unfolding q_def using less_eq_div_iff_mult_less_eq [OF V] by simp
    then have e: "unat qd = q" using Q(1) by simp
    have r: "sg = 1" "val ds = val U - unat qd * val v" using M U(1) True by (simp_all add: n_def)
    then have "val ds = val U mod val v" unfolding e using UQ by linarith
    then have "val (take n ds) = val U mod val v" using val_take_mod [of n ds] lds vlt by simp
    moreover have "take (n + k) (u1[n + k := 0]) = take k u @ take n ds"
      unfolding u1_def using take_overwrite_upd [of k n "n + k" ds u 0] lds len by (simp add: add.commute)
    ultimately have "val (take (n + k) (u1[n + k := 0])) = val (take k u) + B ^ k * (val U mod val v)"
      using val_join [of k u] k by (simp only:)
    moreover have "divloop v (Suc k) u qs = divloop v k (u1[n + k := 0]) (qd # qs)" using step r(1) by simp
    moreover have "length (u1[n + k := 0]) = length u" using lu1 by simp
    ultimately show ?thesis using that [of "u1[n + k := 0]" qd] e by (simp only: n_def U_def q_def)
  next
    case False
    then have e: "unat qd = q + 1" using Q UQ by (cases "unat qd = q") auto
    then have "qd \<noteq> 0" by auto
    then have e1: "unat (qd - 1) = q" using e by (simp add: unat_minus_one)
    have r: "sg = -1" "val ds + unat qd * val v = val U + B ^ (n + 1)" using M U(1) False by (simp_all add: n_def)
    have A: "val (mpvecadd ds v) = val ds + val v" "length (mpvecadd ds v) = n + 2"
      using mpvecadd_ok [of v ds] lds by (simp_all add: n_def)
    have "val ds + val v = val U mod val v + B ^ (n + 1)" using r(2) UQ unfolding e by (simp only: add_mult_distrib mult_1; linarith)
    then have "val (take n (mpvecadd ds v)) = (val U mod val v + B * B ^ n) mod B ^ n"
      using val_take_mod [of n "mpvecadd ds v"] A by simp
    also have "\<dots> = val U mod val v" using vlt by (simp only: mod_mult_self1 mod_less)
    finally have t: "val (take n (mpvecadd ds v)) = val U mod val v" .
    have l2: "k + length (mpvecadd ds v) \<le> length u1" using A(2) assms(3) lu1 by (simp add: n_def)
    have "take k u1 = take k u" unfolding u1_def overwrite_def using assms(3) by simp
    then have "take (n + k) ((overwrite k (mpvecadd ds v) u1)[n + k := 0]) = take k u @ take n (mpvecadd ds v)"
      using take_overwrite_upd [of k n "n + k" "mpvecadd ds v" u1 0] A(2) l2 by (simp add: add.commute)
    then have "val (take (n + k) ((overwrite k (mpvecadd ds v) u1)[n + k := 0])) = val (take k u) + B ^ k * (val U mod val v)"
      using val_join [of k u] k t by (simp only:)
    moreover have "divloop v (Suc k) u qs = divloop v k ((overwrite k (mpvecadd ds v) u1)[n + k := 0]) ((qd - 1) # qs)"
      using step r(1) by simp
    moreover have "length ((overwrite k (mpvecadd ds v) u1)[n + k := 0]) = length u" using l2 lu1 by simp
    ultimately show ?thesis using that [of "(overwrite k (mpvecadd ds v) u1)[n + k := 0]" "qd - 1"] e1
      by (simp only: n_def U_def q_def)
  qed
qed

theorem divloop_ok:
  "v \<noteq> [] \<Longrightarrow> B ^ length v \<le> 2 * val v \<Longrightarrow> length v + k < length u \<Longrightarrow> val (take (length v + k) u) < val v * B ^ k \<Longrightarrow>
     \<exists>u' ds. divloop v k u qs = Some (u', ds @ qs) \<and> length u' = length u \<and> length ds = k \<and>
       val ds = val (take (length v + k) u) div val v \<and> val (take (length v) u') = val (take (length v + k) u) mod val v"
proof (induction k arbitrary: u qs)
  case 0
  then show ?case by simp
next
  case (Suc k)
  define n W U where "n = length v" and "W = take (n + Suc k) u" and "U = seg k (n + 1) u"
  have kl: "k \<le> length W" "k \<le> length u" using Suc.prems(3) by (simp_all add: W_def n_def)
  have W: "val W = val (take k u) + B ^ k * val U"
    using val_cut [OF kl(1)] by (simp add: W_def U_def seg_def drop_take min_def)
  have tk: "val (take k u) < B ^ k" by (rule val_cut_lt [OF kl(2)])
  have "B ^ k * val U < B ^ k * (val v * B)"
    using Suc.prems(4) W unfolding W_def n_def by (simp only: power_Suc ac_simps; linarith)
  then have U: "val U < val v * B" by (simp only: mult_less_cancel1)
  obtain u1 q where s: "divloop v (Suc k) u qs = divloop v k u1 (q # qs)" "length u1 = length u"
    "unat q = val U div val v" "val (take (length v + k) u1) = val (take k u) + B ^ k * (val U mod val v)"
    by (rule divloop_step [OF Suc.prems(1,2) _ U [unfolded U_def n_def], of qs]) (use Suc.prems(3) in \<open>auto simp: U_def n_def\<close>)
  have "0 < B ^ length v" by (rule zero_less_power) simp
  then have V: "0 < val v" using Suc.prems(2) by linarith
  have lt: "val (take (length v + k) u1) < val v * B ^ k"
  proof -
    have "(val U mod val v + 1) * B ^ k \<le> val v * B ^ k" using V by (intro mult_le_mono1) (simp add: Suc_le_eq)
    then show ?thesis unfolding s(4) using tk by (simp only: add_mult_distrib mult_1 ac_simps; linarith)
  qed
  obtain u' ds where r: "divloop v k u1 (q # qs) = Some (u', ds @ q # qs)" "length u' = length u" "length ds = k"
    "val ds = val (take (length v + k) u1) div val v" "val (take (length v) u') = val (take (length v + k) u1) mod val v"
    using Suc.IH [OF Suc.prems(1,2) _ lt, of "q # qs"] s(2) Suc.prems(3) by auto
  define X where "X = val (take (length v + k) u1)"
  have e: "val W = X + B ^ k * unat q * val v"
  proof -
    have "val U = unat q * val v + val U mod val v" unfolding s(3) by simp
    then have "B ^ k * val U = B ^ k * unat q * val v + B ^ k * (val U mod val v)" by (metis distrib_left mult.assoc)
    then show ?thesis unfolding X_def s(4) W by linarith
  qed
  have "val (ds @ [q]) = val W div val v"
    unfolding e val_append r(3) using V r(4) by (simp add: X_def)
  moreover have "val (take (length v) u') = val W mod val v" unfolding e r(5) X_def by simp
  ultimately show ?case using s(1) r(1-3) by (intro exI [of _ u'] exI [of _ "ds @ [q]"]) (simp add: W_def n_def)
qed

end
