(* ===== verification/Mp_Num.thy ===== *)
theory Mp_Num
  imports Mp_Div
begin

text \<open>
  Extended precision arithmetic, the number theory: \<^verbatim>\<open>mpmod.c\<close>, \<^verbatim>\<open>mpmodop.c\<close>, \<^verbatim>\<open>mpexp.c\<close>, \<^verbatim>\<open>mpeuclid.c\<close> and the
  conversions to machine integers. A modulus may carry a reduction routine of its own (\<^verbatim>\<open>MPfield\<close>), which is
  called through a pointer: it is the parameter \<open>reduce\<close>, of the modulus, the number and the result, and
  returns whether it could not do the work. The loop of \<^verbatim>\<open>mpeuclid\<close> is a \<open>partial_function\<close> whose value \<open>None\<close> means
  that it does not end.
\<close>

section \<open>Conversion to machine integers: mptoi.c, mptoui.c, mptov.c, mptouv.c\<close>

abbreviation (input) MAXINT :: u32 where "MAXINT \<equiv> 0x7FFFFFFF"
abbreviation (input) MININT :: u32 where "MININT \<equiv> 0x80000000"
abbreviation (input) MAXUINT :: u32 where "MAXUINT \<equiv> 0xFFFFFFFF"
abbreviation (input) MAXVLONG :: u64 where "MAXVLONG \<equiv> 0x7FFFFFFFFFFFFFFF"
abbreviation (input) MINVLONG :: u64 where "MINVLONG \<equiv> 0x8000000000000000"

text \<open>A value read off the digits of a number; \<open>ok\<close> says which digits are read.\<close>

definition readmp :: "nat \<Rightarrow> (mpint \<Rightarrow> bool) \<Rightarrow> (mpint \<Rightarrow> 'a) \<Rightarrow> 'a cmd" where
  "readmp b ok f = withmp b (\<lambda>x s. bindR (guard (ok x) s) (\<lambda>_ s. Ret (f x) s))"

definition mptoi :: "nat \<Rightarrow> u32 cmd" where
  "mptoi b = readmp b (\<lambda>x. mtop x \<noteq> 0 \<longrightarrow> 0 < length (mdig x)) (\<lambda>x.
     if mtop x = 0 then 0
     else let v = mdig x ! 0 in
       if msign x > 0 then if mtop x > 1 \<or> v > MAXINT then MAXINT else v
       else if mtop x > 1 \<or> v > MAXINT + 1 then MININT else - v)"

definition mptoui :: "nat \<Rightarrow> u32 cmd" where
  "mptoui b = readmp b (\<lambda>x. 0 < length (mdig x)) (\<lambda>x.
     if msign x < 0 then 0 else if mtop x > 1 then MAXUINT else mdig x ! 0)"

text \<open>\<^verbatim>\<open>mptov\<close> shifts the digit itself, which has 32 bits, by 32 times its index: from the second digit on the
  shift is undefined.\<close>

definition mptov :: "nat \<Rightarrow> u64 cmd" where
  "mptov b = readmp b (\<lambda>x. mtop x \<le> 2 \<longrightarrow> mtop x \<le> length (mdig x) \<and> mtop x \<le> 1) (\<lambda>x.
     if mtop x = 0 then 0
     else if mtop x > 2 then if msign x > 0 then MAXVLONG else MINVLONG
     else let v = ucast (mdig x ! 0) in
       if msign x > 0 then if v > MAXVLONG then MAXVLONG else v
       else if v > MINVLONG then MINVLONG else - v)"

fun joindigits :: "nat \<Rightarrow> mpdigit list \<Rightarrow> u64" where
  "joindigits s (d # ds) = push_bit (s * Dbits) (ucast d) OR joindigits (s + 1) ds"
| "joindigits s [] = 0"

definition mptouv :: "nat \<Rightarrow> u64 cmd" where
  "mptouv b = readmp b (\<lambda>x. mtop x \<le> 2 \<longrightarrow> mtop x \<le> length (mdig x)) (\<lambda>x.
     if mtop x = 0 then 0 else if mtop x > 2 then MAXVLONG else joindigits 0 (take (mtop x) (mdig x)))"

section \<open>Residues: mpmod.c, mpmodop.c\<close>

definition mpmod :: "(nat \<Rightarrow> nat \<Rightarrow> nat \<Rightarrow> int cmd) \<Rightarrow> nat \<Rightarrow> nat \<Rightarrow> nat \<Rightarrow> unit cmd" where
  "mpmod reduce x n r = withmp x (\<lambda>xc s. let sign = msign xc in
     bindR (if sign < 0 \<and> n = r then mpcopy n s else Ret n s) (\<lambda>ns. block
       [withmp n (\<lambda>nc. if \<not> ffield nc then mpdiv x n nil r
          else (\<lambda>s. bindR (reduce n x r s) (\<lambda>v. whenC (v \<noteq> 0) (mpdiv x n nil r)))),
        whenC (sign < 0) (block [mpmagsub ns r r, whenC (ns \<noteq> n) (mpfree ns)])]))"

definition modarg :: "(nat \<Rightarrow> nat \<Rightarrow> nat \<Rightarrow> int cmd) \<Rightarrow> nat \<Rightarrow> nat \<Rightarrow> nat cmd" where
  "modarg reduce a m = withmp a (\<lambda>x. withmp m (\<lambda>y s. bindR
     (if length (mdig x) \<le> mtop y \<or> msign x < 0 then Ret True s
      else bindR (mpmagcmp a m s) (\<lambda>c s. Ret (c \<ge> 0) s))
     (\<lambda>big s.
       if big then bindR (mpcopy a s) (\<lambda>a. seqret a
         [mpmod reduce a m a,
          withmp m (\<lambda>y. mpbits a (int (Dbits * (mtop y + 1)))),
          withmp m (\<lambda>y. modify a (\<lambda>x. x\<lparr>mtop := mtop y\<rparr>))])
       else seqret a [whenC (mtop x < mtop y) (store a (mtop x) (replicate (mtop y - mtop x) 0))] s)))"

text \<open>The frees at the end of the three operations, and the choice between the two vectors of digits that the
  result holds by a mask.\<close>

definition freeargs :: "nat \<Rightarrow> nat \<Rightarrow> nat \<Rightarrow> nat \<Rightarrow> unit cmd" where
  "freeargs a b1 b b2 = block [whenC (a \<noteq> b1) (mpfree a), whenC (b \<noteq> b2) (mpfree b)]"

definition maskdigits :: "nat \<Rightarrow> mpdigit \<Rightarrow> mpdigit list \<Rightarrow> mpdigit list" where
  "maskdigits n d p = map (\<lambda>i. (p ! i AND d) OR (p ! (n + 1 + i) AND NOT d)) [0..<n]"

definition mpmodadd :: "(nat \<Rightarrow> nat \<Rightarrow> nat \<Rightarrow> int cmd) \<Rightarrow> nat \<Rightarrow> nat \<Rightarrow> nat \<Rightarrow> nat \<Rightarrow> unit cmd" where
  "mpmodadd reduce b1 b2 m dst s = bindR (modarg reduce b1 m s) (\<lambda>a s. bindR (modarg reduce b2 m s) (\<lambda>b. block
     [withmp a (\<lambda>x. withmp b (\<lambda>y. modify dst (\<lambda>z. z\<lparr>ftimesafe := ftimesafe z \<or> ftimesafe x \<or> ftimesafe y\<rparr>))),
      withmp m (\<lambda>n. mpbits dst (int (Dbits * 2 * (mtop n + 1)))),
      withmp m (\<lambda>n. vec2 mpvecadd a (mtop n) b (mtop n) dst),
      withmp m (\<lambda>n. withmp dst (\<lambda>z. block
        [guard (2 * mtop n + 2 \<le> length (mdig z) \<and> mtop n \<le> length (mdig n)),
         store dst (mtop n + 1) (mpvecsub (take (mtop n + 1) (mdig z)) (take (mtop n) (mdig n)))])),
      withmp m (\<lambda>n. withmp dst (\<lambda>z. store dst 0 (maskdigits (mtop n) (mdig z ! (2 * mtop n + 1)) (mdig z)))),
      withmp m (\<lambda>n. modify dst (\<lambda>z. z\<lparr>mtop := mtop n, msign := 1\<rparr>)),
      mpnorm dst,
      freeargs a b1 b b2]))"

definition mpmodsub :: "(nat \<Rightarrow> nat \<Rightarrow> nat \<Rightarrow> int cmd) \<Rightarrow> nat \<Rightarrow> nat \<Rightarrow> nat \<Rightarrow> nat \<Rightarrow> unit cmd" where
  "mpmodsub reduce b1 b2 m diff s = bindR (modarg reduce b1 m s) (\<lambda>a s. bindR (modarg reduce b2 m s) (\<lambda>b. block
     [withmp a (\<lambda>x. withmp b (\<lambda>y. modify diff (\<lambda>z. z\<lparr>ftimesafe := ftimesafe z \<or> ftimesafe x \<or> ftimesafe y\<rparr>))),
      withmp m (\<lambda>n. mpbits diff (int (Dbits * 2 * (mtop n + 1)))),
      withmp m (\<lambda>n. store a (mtop n) [0]),
      withmp m (\<lambda>n. vec2 mpvecsub a (mtop n + 1) b (mtop n) diff),
      withmp m (\<lambda>n. withmp diff (\<lambda>z. block
        [guard (2 * mtop n + 2 \<le> length (mdig z) \<and> mtop n \<le> length (mdig n)),
         store diff (mtop n + 1) (mpvecadd (take (mtop n) (mdig z)) (take (mtop n) (mdig n)))])),
      withmp m (\<lambda>n. withmp diff (\<lambda>z. store diff 0 (maskdigits (mtop n) (NOT (mdig z ! mtop n)) (mdig z)))),
      withmp m (\<lambda>n. modify diff (\<lambda>z. z\<lparr>mtop := mtop n, msign := 1\<rparr>)),
      mpnorm diff,
      freeargs a b1 b b2]))"

definition mpmodmul :: "(nat \<Rightarrow> nat \<Rightarrow> nat \<Rightarrow> int cmd) \<Rightarrow> nat \<Rightarrow> nat \<Rightarrow> nat \<Rightarrow> nat \<Rightarrow> unit cmd" where
  "mpmodmul reduce b1 b2 m dst s = bindR (modarg reduce b1 m s) (\<lambda>a s. bindR (modarg reduce b2 m s) (\<lambda>b. block
     [mpmul a b dst,
      mpmod reduce dst m dst,
      freeargs a b1 b b2]))"

section \<open>Powers: mpexp.c\<close>

text \<open>The loop over the bits of one digit \<open>d\<close> of the exponent, of which \<open>k\<close> are left, and over the digits. The
  numbers \<^verbatim>\<open>t[j]\<close> and \<^verbatim>\<open>t[j^1]\<close> are \<open>p\<close> and \<open>q\<close>; they change places.\<close>

fun expbits :: "(nat \<Rightarrow> nat \<Rightarrow> nat \<Rightarrow> unit cmd) \<Rightarrow> nat \<Rightarrow> mpdigit \<Rightarrow> nat \<Rightarrow> nat \<Rightarrow> nat \<Rightarrow> (nat \<times> nat) cmd" where
  "expbits mul b d (Suc k) p q s = bindR (mul p p q s) (\<lambda>_ s.
     if d AND push_bit k 1 \<noteq> 0 then bindR (mul q b p s) (\<lambda>_ s. expbits mul b d k p q s)
     else expbits mul b d k q p s)"
| "expbits mul b d 0 p q s = Ret (p, q) s"

fun expdigits :: "(nat \<Rightarrow> nat \<Rightarrow> nat \<Rightarrow> unit cmd) \<Rightarrow> nat \<Rightarrow> nat \<Rightarrow> nat \<Rightarrow> nat \<Rightarrow> nat \<Rightarrow> nat \<Rightarrow> (nat \<times> nat) cmd" where
  "expdigits mul b e (Suc i) k p q s =
     withmp e (\<lambda>x s. bindR (guard (i < length (mdig x)) s) (\<lambda>_ s. bindR (expbits mul b (mdig x ! i) k p q s)
       (\<lambda>(p, q) s. expdigits mul b e i Dbits p q s))) s"
| "expdigits mul b e 0 k p q s = Ret (p, q) s"

definition copyif :: "bool \<Rightarrow> nat \<Rightarrow> nat cmd" where
  "copyif c b s = (if c then mpcopy b s else Ret b s)"

definition expend :: "nat \<Rightarrow> nat \<Rightarrow> nat \<Rightarrow> unit cmd" where
  "expend p q res = (if p = res then mpfree q else block [mpassign p res, mpfree p])"

definition expmain :: "(nat \<Rightarrow> nat \<Rightarrow> nat \<Rightarrow> unit cmd) \<Rightarrow> nat \<Rightarrow> nat \<Rightarrow> nat \<Rightarrow> nat \<Rightarrow> unit cmd" where
  "expmain mul b e t res =
     withmp e (\<lambda>x s. bindR (guard (mtop x \<noteq> 0 \<and> mtop x \<le> length (mdig x)) s) (\<lambda>_.
       case bitscan Dbits (mdig x ! (mtop x - 1)) of None \<Rightarrow> guard False
       | Some k \<Rightarrow> (\<lambda>s. bindR (expdigits mul b e (mtop x) (k - 1) t res s) (\<lambda>(p, q). expend p q res))))"

text \<open>What follows the tests of the exponent.\<close>

definition exprest :: "(nat \<Rightarrow> nat \<Rightarrow> nat \<Rightarrow> int cmd) \<Rightarrow> nat \<Rightarrow> nat \<Rightarrow> nat \<Rightarrow> nat \<Rightarrow> unit cmd" where
  "exprest reduce b e m res s =
     bindR (mpcopy b s) (\<lambda>t s. bindR (copyif (res = b) b s) (\<lambda>b' s.
     bindR (copyif (res = e) e s) (\<lambda>e' s. bindR (copyif (res = m) m s) (\<lambda>m'. block
       [expmain (if m \<noteq> nil then \<lambda>a b r. mpmodmul reduce a b m' r else mpmul) b' e' t res,
        whenC (res = b) (mpfree b'), whenC (res = e) (mpfree e'), whenC (res = m) (mpfree m')]))))"

definition mpexp :: "(nat \<Rightarrow> nat \<Rightarrow> nat \<Rightarrow> int cmd) \<Rightarrow> nat \<Rightarrow> nat \<Rightarrow> nat \<Rightarrow> nat \<Rightarrow> unit cmd" where
  "mpexp reduce b e m res = block
     [whenC (m \<noteq> nil) (withmp m (\<lambda>x. assertC (fnorm x))),
      withmp e (\<lambda>x. assertC (\<not> ftimesafe x)),
      withmp b (\<lambda>x. modify res (\<lambda>y. y\<lparr>ftimesafe := ftimesafe y \<or> ftimesafe x\<rparr>)),
      \<lambda>s. bindR (mpcmp e mpzero s) (\<lambda>i s.
        if i = 0 then mpassign mpone res s
        else if i < 0 then Panic ''mpexp: negative exponent''
        else exprest reduce b e m res s)]"

section \<open>The greatest common divisor: mpeuclid.c\<close>

text \<open>A loop on the memory whose variables are \<open>x\<close>.\<close>

definition bindO :: "('a, 's) res \<Rightarrow> ('a \<Rightarrow> 's \<Rightarrow> ('b, 's) res option) \<Rightarrow> ('b, 's) res option" where
  "bindO m f = (case m of Ret a s \<Rightarrow> f a s | _ \<Rightarrow> Some (bindR m (\<lambda>_ _. Fault)))"

lemma bindO_mono [partial_function_mono]:
  "(\<And>a s. mono_option (\<lambda>g. f g a s)) \<Longrightarrow> mono_option (\<lambda>g. bindO m (f g))"
  by (cases m) (simp_all add: bindO_def partial_function_mono)

partial_function (option) whileC :: "('x \<Rightarrow> bool cmd) \<Rightarrow> ('x \<Rightarrow> 'x cmd) \<Rightarrow> 'x \<Rightarrow> mpst \<Rightarrow> ('x, mpst) res option" where
  "whileC test body x s = bindO (test x s) (\<lambda>c s.
     if c then bindO (body x s) (\<lambda>x s. whileC test body x s) else Some (Ret x s))"

record eregs =
  ra :: nat
  rb :: nat
  rx0 :: nat
  rx1 :: nat
  rx2 :: nat
  ry0 :: nat
  ry1 :: nat
  ry2 :: nat
  rq :: nat
  rr :: nat

definition euclid_test :: "eregs \<Rightarrow> bool cmd" where
  "euclid_test R = withmp (rb R) (\<lambda>y s. Ret (mtop y \<noteq> 0 \<and> msign y > 0) s)"

definition euclid_turn :: "eregs \<Rightarrow> eregs cmd" where
  "euclid_turn R s = bindR
     (block
       [mpdiv (ra R) (rb R) (rq R) (rr R),
        mpmul (rq R) (rx1 R) (rx0 R),
        mpsub (rx2 R) (rx0 R) (rx0 R),
        mpmul (rq R) (ry1 R) (ry0 R),
        mpsub (ry2 R) (ry0 R) (ry0 R)] s)
     (\<lambda>_ s. Ret (R\<lparr>ra := rb R, rb := rr R, rr := ra R, rx2 := rx1 R, rx1 := rx0 R, rx0 := rx2 R,
                 ry2 := ry1 R, ry1 := ry0 R, ry0 := ry2 R\<rparr>) s)"

definition euclid_args :: "nat \<Rightarrow> nat \<Rightarrow> nat \<Rightarrow> nat \<Rightarrow> nat \<Rightarrow> (nat \<times> nat \<times> nat \<times> nat) cmd" where
  "euclid_args a b d x y =
     withmp a (\<lambda>ca. withmp b (\<lambda>cb. withmp d (\<lambda>cd. withmp x (\<lambda>cx. withmp y (\<lambda>cy s.
       bindR (assertC (fnorm ca \<and> fnorm cb) s) (\<lambda>_ s.
       bindR (assertC (\<not> (ftimesafe ca \<or> ftimesafe cb \<or> ftimesafe cd \<or> ftimesafe cx \<or> ftimesafe cy)) s) (\<lambda>_ s.
       if msign ca < 0 \<or> msign cb < 0 then Panic ''mpeuclid: negative arg''
       else bindR (mpcmp a b s) (\<lambda>c s. Ret (if c < 0 then (b, a, y, x) else (a, b, x, y)) s))))))))"

definition euclid_new :: "nat \<Rightarrow> nat \<Rightarrow> eregs cmd" where
  "euclid_new a b s =
     bindR (mpcopy a s) (\<lambda>a s. bindR (mpcopy b s) (\<lambda>b s.
     bindR (mpnew 0 s) (\<lambda>x0 s. bindR (mpcopy mpzero s) (\<lambda>x1 s. bindR (mpcopy mpone s) (\<lambda>x2 s.
     bindR (mpnew 0 s) (\<lambda>y0 s. bindR (mpcopy mpone s) (\<lambda>y1 s. bindR (mpcopy mpzero s) (\<lambda>y2 s.
     bindR (mpnew 0 s) (\<lambda>q s. bindR (mpnew 0 s) (\<lambda>r s.
       Ret \<lparr>ra = a, rb = b, rx0 = x0, rx1 = x1, rx2 = x2, ry0 = y0, ry1 = y1, ry2 = y2, rq = q, rr = r\<rparr> s))))))))))"

definition euclid_end :: "nat \<Rightarrow> nat \<Rightarrow> nat \<Rightarrow> eregs \<Rightarrow> unit cmd" where
  "euclid_end d x y R = block
     ([mpassign (ra R) d, mpassign (rx2 R) x, mpassign (ry2 R) y] @
      map mpfree [rx0 R, rx1 R, rx2 R, ry0 R, ry1 R, ry2 R, rq R, rr R, ra R, rb R])"

text \<open>What follows the exchange of the arguments, which makes \<open>a\<close> the greater one.\<close>

definition euclid_rest :: "nat \<Rightarrow> nat \<Rightarrow> nat \<Rightarrow> nat \<Rightarrow> nat \<Rightarrow> mpst \<Rightarrow> (unit, mpst) res option" where
  "euclid_rest a b d x y s =
     bindO (withmp b (\<lambda>y s. Ret (mtop y = 0) s) s) (\<lambda>zero s.
       if zero then Some (block [mpassign a d, mpassign mpone x, mpassign mpzero y] s)
       else bindO (euclid_new a b s) (\<lambda>R s. Option.bind (whileC euclid_test euclid_turn R s)
         (\<lambda>r. Some (bindR r (\<lambda>R. euclid_end d x y R)))))"

definition mpeuclid :: "nat \<Rightarrow> nat \<Rightarrow> nat \<Rightarrow> nat \<Rightarrow> nat \<Rightarrow> mpst \<Rightarrow> (unit, mpst) res option" where
  "mpeuclid a b d x y s = bindO (euclid_args a b d x y s) (\<lambda>(a, b, x, y). euclid_rest a b d x y)"

end
