(* ===== verification/Mp_Div_Props.thy ===== *)
theory Mp_Div_Props
  imports Mp_Div
begin

text \<open>
  Division of numbers in memory: what \<^verbatim>\<open>mpdiv\<close> leaves in its two results, whichever of the four numbers are the
  same, and when that is the quotient and the remainder.
\<close>

section \<open>Preparing the operands\<close>

text \<open>Storing a result that may be nil.\<close>

definition putopt :: "nat \<Rightarrow> mpint \<Rightarrow> mpst \<Rightarrow> mpst" where
  "putopt b z s = (if b = nil then s else put b z s)"

lemma putopt_sel [simp]:
  "cells (putopt b z s) c = (if c = b \<and> b \<noteq> nil then Some z else cells s c)" "brk (putopt b z s) = brk s"
  "mindigits (putopt b z s) = mindigits s"
  by (simp_all add: putopt_def)

lemma whenC_run [simp]: "whenC True p = p" "whenC False p s = Ret () s"
  by (simp_all add: whenC_def)

lemma highbit_ok:
  "0 < k \<Longrightarrow> k \<le> 32 \<Longrightarrow> 2 ^ (32 - k) \<le> unat d \<Longrightarrow>
     \<exists>j < k. highbit k d s = Some (s + j) \<and> 2 ^ 31 \<le> unat d * 2 ^ j \<and> unat d * 2 ^ j < B"
proof (induction k d s rule: highbit.induct)
  case (1 k d s)
  have b: "d AND push_bit 31 1 = 0 \<longleftrightarrow> unat d < 2 ^ 31"
  proof -
    have "hasf d (push_bit 31 1) = bit d 31" by (rule hasf_push_bit) simp
    then show ?thesis unfolding hasf_def top_bit_nat by (simp only: not_le [symmetric]) blast
  qed
  show ?case
  proof (cases "unat d < 2 ^ 31")
    case True
    have k: "0 < k"
    proof (rule ccontr)
      assume "\<not> 0 < k"
      with "1.prems"(3) True show False by simp
    qed
    have d: "unat (push_bit 1 d) = unat d * 2" using push_bit_nat [of 1 d] True by simp
    have "(2 :: nat) ^ (32 - k) = 2 ^ (32 - Suc k) * 2" using "1.prems"(2) by (metis Suc_diff_Suc Suc_le_lessD power_Suc2)
    then have "2 ^ (32 - k) \<le> unat (push_bit 1 d)" using "1.prems"(3) unfolding d by simp
    then obtain j where "j < k" "highbit k (push_bit 1 d) (s + 1) = Some (s + 1 + j)" "2 ^ 31 \<le> unat (push_bit 1 d) * 2 ^ j"
      "unat (push_bit 1 d) * 2 ^ j < B"
      using "1.IH" [OF _ k] b True "1.prems"(2) by auto
    moreover from this have "2 ^ 31 \<le> unat d * 2 ^ Suc j" "unat d * 2 ^ Suc j < B" unfolding d by simp_all
    moreover have "highbit (Suc k) d s = highbit k (push_bit 1 d) (s + 1)" using True b by (simp only: highbit.simps if_True)
    ultimately show ?thesis by (intro exI [of _ "Suc j"]) simp
  next
    case False
    then show ?thesis using b digit_lt [of d] by (intro exI [of _ 0]) simp
  qed
qed simp

lemma highbit_32: "d \<noteq> 0 \<Longrightarrow> \<exists>j < 32. highbit 32 d 0 = Some j \<and> 2 ^ 31 \<le> unat d * 2 ^ j \<and> unat d * 2 ^ j < B"
  using highbit_ok [of 32 d 0] by (simp add: Suc_le_eq unat_gt_0)

text \<open>The leading digit of a number and its value.\<close>

lemma lead_digit:
  assumes "0 < n" "n \<le> length p"
  shows "val (take n p) = val (take (n - 1) p) + B ^ (n - 1) * unat (p ! (n - 1))" "val (take (n - 1) p) < B ^ (n - 1)"
proof -
  have "take n p = take (n - 1) p @ [p ! (n - 1)]" using assms take_Suc_conv_app_nth [of "n - 1" p] by simp
  then show "val (take n p) = val (take (n - 1) p) + B ^ (n - 1) * unat (p ! (n - 1))"
    using val_join [of "n - 1" p "[p ! (n - 1)]"] assms by simp
  show "val (take (n - 1) p) < B ^ (n - 1)" using assms by (intro val_cut_lt) simp
qed

text \<open>Leading digits in order bound the quotient by the difference of the lengths.\<close>

lemma lead_bound:
  assumes "0 < n" "n \<le> m" "m \<le> length u" "n \<le> length v" "u ! (m - 1) < v ! (n - 1)"
  shows "val (take m u) < val (take n v) * B ^ (m - n)"
proof -
  define P where "P = B ^ (m - 1)"
  have P: "P = B ^ (n - 1) * B ^ (m - n)" unfolding P_def power_add [symmetric] using assms(1,2) by simp
  have "val (take m u) < P + P * unat (u ! (m - 1))"
    using lead_digit [of m u] assms(1-3) unfolding P_def by linarith
  also have "\<dots> = P * (unat (u ! (m - 1)) + 1)" by simp
  also have "\<dots> \<le> P * unat (v ! (n - 1))" using assms(5) by (intro mult_le_mono2) (simp add: word_less_nat_alt)
  also have "\<dots> = (B ^ (n - 1) * unat (v ! (n - 1))) * B ^ (m - n)" unfolding P by (simp only: ac_simps)
  also have "\<dots> \<le> val (take n v) * B ^ (m - n)"
    using lead_digit [of n v] assms(1,4) by (intro mult_le_mono1) linarith
  finally show ?thesis .
qed

lemma divtop_ok:
  assumes "cells s u = Some x" "cells s v = Some y" "u \<noteq> v" "nrm x" "nrm y" "0 < mtop x" "0 < mtop y"
    "mtop x < length (mdig x)"
  obtains z where "divtop u v s = Ret () (put u z s)" "mag z = mag x" "mtop z \<le> length (mdig z)" "length (mdig z) = length (mdig x)"
    "msign z = msign x" "fstatic z = fstatic x" "room z" "mtop z = (if mdig y ! (mtop y - 1) \<le> mdig x ! (mtop x - 1) then mtop x + 1 else mtop x)"
    "mdig z ! (mtop z - 1) < mdig y ! (mtop y - 1)"
proof (cases "mdig y ! (mtop y - 1) \<le> mdig x ! (mtop x - 1)")
  case False
  then have "divtop u v s = Ret () (put u x s)" using assms by (simp add: divtop_def whenC_def nrm_def put_same)
  then show ?thesis using that [of x] False assms(4) nrm_room(2) [OF assms(4)] by (simp add: nrm_def)
next
  case True
  let ?z = "x\<lparr>mdig := overwrite (mtop x) [0] (mdig x), mtop := mtop x + 1\<rparr>"
  have run: "divtop u v s = Ret () (put u ?z s)" using assms True by (simp add: divtop_def whenC_def nrm_def upd_order)
  have mg: "mag ?z = mag x" using assms(8) by (simp add: mag_def overwrite_def val_append)
  have lead: "mdig ?z ! (mtop ?z - 1) < mdig y ! (mtop y - 1)"
  proof -
    have "mdig ?z ! (mtop ?z - 1) = 0" using assms(8) by (simp add: overwrite_def nth_append)
    moreover have "mdig y ! (mtop y - 1) \<noteq> 0" using assms(5,7) by (simp add: nrm_def)
    ultimately show ?thesis by (simp add: word_gt_0)
  qed
  have rm: "room ?z" "length (mdig ?z) = length (mdig x)" using assms(4,8) by (simp_all add: room_def nrm_def)
  then have "mtop ?z \<le> length (mdig ?z)" "mtop ?z = (if mdig y ! (mtop y - 1) \<le> mdig x ! (mtop x - 1) then mtop x + 1 else mtop x)"
    "msign ?z = msign x" "fstatic ?z = fstatic x" using True by (simp_all add: room_def)
  with run mg rm lead show ?thesis by (intro that)
qed

lemma divloop_run:
  assumes "room x" "nrm y" "0 < mtop y" "mtop y \<le> mtop x" "mtop x < length (mdig x)" "B ^ mtop y \<le> 2 * mag y"
    "mdig x ! (mtop x - 1) < mdig y ! (mtop y - 1)"
  obtains ds qs where "divloop (take (mtop y) (mdig y)) (mtop x - mtop y) (mdig x) [] = Some (ds, qs)"
    "length qs = mtop x - mtop y" "length ds = length (mdig x)" "val qs = mag x div mag y" "val (take (mtop y) ds) = mag x mod mag y"
proof -
  let ?v = "take (mtop y) (mdig y)"
  have l: "length ?v = mtop y" using assms(2) by (simp add: nrm_def)
  have k: "mtop y + (mtop x - mtop y) = mtop x" using assms(4) by simp
  have "val (take (mtop x) (mdig x)) < val ?v * B ^ (mtop x - mtop y)"
    using assms by (intro lead_bound) (simp_all add: nrm_def)
  moreover have "?v \<noteq> []" using assms(3) l by (metis less_irrefl list.size(3))
  ultimately show ?thesis
    using divloop_ok [of ?v "mtop x - mtop y" "mdig x" "[]"] assms(5,6) that unfolding l k mag_def append_Nil2 by metis
qed

text \<open>The sign given to the quotient: -1 when the operands differ in sign, otherwise the one it had.\<close>

lemma divdigits_ok:
  assumes "cells s u = Some x" "cells s v = Some y" "room x" "nrm y" "0 < mtop y" "mtop y \<le> mtop x" "mtop x < length (mdig x)"
    "B ^ mtop y \<le> 2 * mag y" "mdig x ! (mtop x - 1) < mdig y ! (mtop y - 1)" "mag y \<le> mag x"
    "quo \<noteq> nil \<Longrightarrow> cells s quo = Some z \<and> mtop z = mtop x - mtop y \<and> mtop z \<le> length (mdig z) \<and> \<not> ftimesafe z \<and> (msign z = 1 \<or> msign z = -1)"
    "cells s a = Some xa" "cells s b = Some yb" "u \<notin> {a, b, quo}"
  obtains x' zq where "divdigits a b quo u v s = Ret () (putopt quo zq (put u x' s))"
    "room x'" "mtop x' = mtop y" "mag x' = mag x mod mag y" "msign x' = msign x" "fstatic x' = fstatic x"
    "quo \<noteq> nil \<Longrightarrow> nrm zq \<and> mag zq = mag x div mag y \<and> kept z zq \<and> msign zq = (if msign xa \<noteq> msign yb then -1 else msign z)"
proof -
  obtain ds qs where L: "divloop (take (mtop y) (mdig y)) (mtop x - mtop y) (mdig x) [] = Some (ds, qs)"
    "length qs = mtop x - mtop y" "length ds = length (mdig x)" "val qs = mag x div mag y" "val (take (mtop y) ds) = mag x mod mag y"
    by (rule divloop_run [OF assms(3-9)])
  define x' where "x' = x\<lparr>mdig := ds, mtop := mtop y\<rparr>"
  have x': "room x'" "mtop x' = mtop y" "mag x' = mag x mod mag y" "msign x' = msign x" "fstatic x' = fstatic x"
    using assms(3,6,7) L(3,5) by (simp_all add: x'_def room_def mag_def)
  show ?thesis
  proof (cases "quo = nil")
    case True
    then have "divdigits a b quo u v s = Ret () (put u x' s)"
      using assms(1,2) L(1) by (simp add: divdigits_def x'_def)
    then show ?thesis using that [of _ x'] x' True by (simp add: putopt_def)
  next
    case False
    note z = assms(11) [OF False]
    let ?m = "made z qs (msign z)"
    have pos: "val qs \<noteq> 0"
    proof -
      have "0 < B ^ mtop y" by (rule zero_less_power) simp
      then have "0 < mag y" using assms(8) by linarith
      then show ?thesis unfolding L(4) using assms(10) by (simp add: div_eq_0_iff)
    qed
    have m: "nrm ?m" "mag ?m = val qs" "kept z ?m" "msign ?m = msign z" "mtop ?m \<noteq> 0"
      using made_ok [of qs z "msign z"] z L(2) pos mag_0 [of ?m] by auto
    define zq where "zq = (if msign xa \<noteq> msign yb then ?m\<lparr>msign := -1\<rparr> else ?m)"
    have zz: "z\<lparr>mdig := overwrite 0 qs (mdig z), mtop := length qs\<rparr> = z\<lparr>mdig := overwrite 0 qs (mdig z)\<rparr>"
      using z L(2) by (cases z) simp
    have st: "block (store quo 0 qs # withmp quo (\<lambda>q. assertC (\<not> ftimesafe q)) # mpnorm quo # cs) (put u x' s) = block cs (put quo ?m (put u x' s))" for cs
      using z L(2) assms(14) made_self [of z "msign z" qs] unfolding zz by simp
    have "cells (put quo ?m (put u x' s)) a = Some (if a = quo then ?m else xa)" "cells (put quo ?m (put u x' s)) b = Some (if b = quo then ?m else yb)"
      using assms(12-14) by auto
    moreover have "msign (if a = quo then ?m else xa) = msign xa" "msign (if b = quo then ?m else yb) = msign yb"
      using m(4) z assms(12,13) by auto
    ultimately have sg: "withmp a (\<lambda>x. withmp b (\<lambda>y. whenC (msign x \<noteq> msign y) (modify quo (\<lambda>q. q\<lparr>msign := -1\<rparr>)))) (put quo ?m (put u x' s)) =
        Ret () (put quo zq (put u x' s))"
      by (simp add: whenC_def zq_def)
    have "divdigits a b quo u v s = Ret () (put quo zq (put u x' s))"
    proof -
      have "divdigits a b quo u v s = block [store quo 0 qs, withmp quo (\<lambda>q. assertC (\<not> ftimesafe q)), mpnorm quo,
          withmp a (\<lambda>x. withmp b (\<lambda>y. whenC (msign x \<noteq> msign y) (modify quo (\<lambda>q. q\<lparr>msign := -1\<rparr>))))] (put u x' s)"
        using assms(1,2) L(1) False by (simp add: divdigits_def x'_def)
      then show ?thesis unfolding st using sg by simp
    qed
    moreover have "nrm zq \<and> mag zq = mag x div mag y \<and> kept z zq \<and> msign zq = (if msign xa \<noteq> msign yb then -1 else msign z)"
      using m nrm_sign [OF m(1,5), of "-1"] L(4) by (simp add: zq_def)
    ultimately show ?thesis using that [of zq x'] x' False by (simp add: putopt_def)
  qed
qed

text \<open>The remainder is in normal form but for the sign of zero.\<close>

definition nrm0 :: "mpint \<Rightarrow> bool" where
  "nrm0 z \<longleftrightarrow> nrm (if mtop z = 0 then z\<lparr>msign := 1\<rparr> else z)"

lemma nrm0_sign: "nrm z \<Longrightarrow> a = 1 \<or> a = -1 \<Longrightarrow> nrm0 (z\<lparr>msign := a\<rparr>)"
  by (auto simp: nrm0_def nrm_def)

lemma divrem_ok:
  assumes "cells s u = Some x" "room x" "mtop x \<noteq> 0" "rmd \<noteq> nil \<Longrightarrow> number s rmd w" "cells s a = Some xa" "u \<notin> {a, rmd}"
    "msign xa = 1 \<or> msign xa = -1"
  obtains w' where "divrem n a rmd u s = Ret () (putopt rmd w' s)"
    "rmd \<noteq> nil \<Longrightarrow> nrm0 w' \<and> mag w' = mag x div 2 ^ n \<and> kept w w' \<and>
      msign w' = (if a = rmd then if mag x div 2 ^ n = 0 then 1 else msign x else msign xa)"
proof (cases "rmd = nil")
  case True
  then show ?thesis using that [of w] by (simp add: divrem_def putopt_def)
next
  case False
  note w = assms(4) [OF False]
  obtain z where z: "mpright u (int n) rmd s = Ret () (put rmd z s)" "nrm z" "kept w z" "ival z = msign x * int (mag x div 2 ^ n)"
    by (rule mpright_other [OF assms(1-3) w]) (use assms(6) in auto)
  have sx: "msign x = 1 \<or> msign x = -1" using assms(2) by (simp add: room_def)
  have sz: "msign z = 1 \<or> msign z = -1" using z(2) by (simp add: nrm_def)
  have mz: "mag z = mag x div 2 ^ n" using z(4) sx sz by (auto simp: ival_def)
  have zs: "msign z = (if mag z = 0 then 1 else msign x)" using z(2,4) mag_0 [OF z(2)] sx sz unfolding mz by (auto simp: ival_def mz nrm_def)
  define sa where "sa = (if a = rmd then msign z else msign xa)"
  have "withmp a (\<lambda>x. modify rmd (\<lambda>r. r\<lparr>msign := msign x\<rparr>)) (put rmd z s) = Ret () (put rmd (z\<lparr>msign := sa\<rparr>) s)"
    using assms(5) by (auto simp: sa_def)
  then have "divrem n a rmd u s = Ret () (put rmd (z\<lparr>msign := sa\<rparr>) s)"
    using False w z(1) nrm_noflag(1) [of w] by (simp add: divrem_def)
  moreover have "nrm0 (z\<lparr>msign := sa\<rparr>)" using sz assms(7) by (intro nrm0_sign [OF z(2)]) (auto simp: sa_def)
  moreover have "sa = (if a = rmd then if mag x div 2 ^ n = 0 then 1 else msign x else msign xa)"
    unfolding sa_def using zs mz by simp
  ultimately show ?thesis using that [of "z\<lparr>msign := sa\<rparr>"] False mz z(3) by (simp add: putopt_def)
qed

lemma divroom_ok:
  assumes "cells s u = Some x" "cells s v = Some y" "quo \<noteq> nil \<Longrightarrow> cells s quo = Some z"
  shows "divroom quo u v s = Ret () (putopt quo ((bitsof (mtop x - mtop y) z)\<lparr>mtop := mtop x - mtop y\<rparr>) s)"
proof -
  have "mpbits quo (int ((mtop x - mtop y) * Dbits)) s = Ret () (put quo (bitsof (mtop x - mtop y) z) s)" if "quo \<noteq> nil"
    using mpbits_run [OF assms(3) [OF that], of "int ((mtop x - mtop y) * Dbits)"] unfolding DIGITS_mult by simp
  then show ?thesis using assms(1,2) by (simp add: divroom_def whenC_def putopt_def del: of_nat_mult)
qed

lemma new_number:
  assumes "mpstok s" "0 \<le> n"
  obtains z s' where "mpnew n s = Ret (brk s) s'" "s' = put (brk s) z (s\<lparr>brk := brk s + 1\<rparr>)" "nrm z" "ival z = 0" "mtop z = 0"
    "nat (DIGITS n) \<le> length (mdig z)" "\<not> fstatic z" "\<not> ffield z" "mindigits s \<le> length (mdig z)"
proof -
  have "0 \<le> DIGITS n" using assms(2) DIGITS_nat [of "nat n"] by simp
  then show ?thesis using that mpnew_run [OF _ assms(2), of s] by (auto simp: nrm_def ival_def mag_def)
qed

lemma mpleft_run:
  assumes "number s b x" "number s r y"
  obtains z where "mpleft b (int n) r s = Ret () (put r z s)" "nrm z" "kept y z" "ival z = ival x * 2 ^ n"
  using mpleft_ok(1) [OF assms, of "int n"] by (auto simp: shifted_def)

lemma divstart_ok:
  assumes "mpstok s" "number s a x" "number s b y" "number s u z" "u \<notin> {a, b, quo, rmd}" "\<not> fstatic z" "usable u" "{quo, rmd} \<subseteq> {..< brk s}"
  obtains v s' xu yv where "divstart n a b quo rmd u s = Ret v s'" "number s' u xu" "ival xu = ival x * 2 ^ n" "kept z xu"
    "number s' v yv" "ival yv = ival y * 2 ^ n" "v \<notin> {u, quo, rmd, nil}" "v = b \<or> (brk s \<le> v \<and> \<not> fstatic yv)"
    "\<And>c. c \<noteq> u \<Longrightarrow> c \<noteq> v \<or> v = b \<Longrightarrow> cells s' c = cells s c" "brk s \<le> brk s'" "\<And>c. brk s' \<le> c \<Longrightarrow> cells s' c = None"
    "mindigits s' = mindigits s"
proof -
  have fr: "cells s c = None" if "brk s \<le> c" for c using assms(1) that by (auto simp: mpstok_def)
  have lt: "u < brk s" "a < brk s" "b < brk s" using assms(2-4) mpstok_fresh(3) [OF assms(1)] by auto
  have b0: "b \<noteq> nil"
  proof
    assume "b = nil"
    then show False using assms(1,3) by (simp add: mpstok_def)
  qed
  show ?thesis
  proof (cases "n = 0 \<and> b \<noteq> quo \<and> b \<noteq> rmd")
    case True
    obtain xu where xu: "mpassign a u s = Ret () (put u xu s)" "nrm xu" "ival xu = ival x" "kept z xu"
      using mpassign_ok [of s a x u z] assms(2,4,7) by (metis less_nat_zero_code)
    have "divstart n a b quo rmd u s = Ret b (put u xu s)" using True xu(1) by (simp add: divstart_def seqret_def)
    then show ?thesis
      by (rule that [of _ _ xu y]) (use xu True assms lt b0 fr in \<open>auto simp: mpstok_def\<close>)
  next
    case False
    obtain xu where xu: "mpleft a (int n) u s = Ret () (put u xu s)" "nrm xu" "kept z xu" "ival xu = ival x * 2 ^ n"
      by (rule mpleft_run [OF assms(2,4)])
    let ?s = "put u xu s"
    define v where "v = brk s"
    have ok: "mpstok ?s" using becomes_ok [of u "ival xu" s ?s] becomes_put [of s u z xu "ival xu"] assms(1,4,7) xu by simp
    obtain w s2 where w: "mpnew (int (mtop y * Dbits)) ?s = Ret v s2" "s2 = put v w (?s\<lparr>brk := brk s + 1\<rparr>)" "nrm w" "\<not> fstatic w"
    proof (rule new_number [OF ok])
      show "0 \<le> int (mtop y * Dbits)" by (rule of_nat_0_le_iff)
      fix w s2
      assume "mpnew (int (mtop y * Dbits)) ?s = Ret (brk ?s) s2" "s2 = put (brk ?s) w (?s\<lparr>brk := brk ?s + 1\<rparr>)" "nrm w" "\<not> fstatic w"
      then show thesis by (intro that) (simp_all only: v_def put_sel)
    qed
    have n2: "number s2 b y" "number s2 v w" using w assms(3,5) lt by (auto simp: v_def)
    obtain yv where yv: "mpleft b (int n) v s2 = Ret () (put v yv s2)" "nrm yv" "kept w yv" "ival yv = ival y * 2 ^ n"
      by (rule mpleft_run [OF n2])
    have "divstart n a b quo rmd u s = Ret v (put v yv s2)"
    proof -
      have "cells ?s b = Some y" using assms(3,5) by auto
      then show ?thesis unfolding divstart_def if_not_P [OF False] xu(1) bindR.simps withmp_run w(1) seqret_def using yv(1) w(1)
        by (simp del: of_nat_mult)
    qed
    then show ?thesis
      by (rule that [of _ _ xu yv]) (use xu w yv assms lt fr in \<open>auto simp: v_def kept_def\<close>)
  qed
qed

text \<open>The results of a division: quotient, remainder, and everything else as it was.\<close>

definition results :: "nat \<Rightarrow> (mpint \<Rightarrow> mpint \<Rightarrow> bool) \<Rightarrow> nat \<Rightarrow> (mpint \<Rightarrow> mpint \<Rightarrow> bool) \<Rightarrow> mpst \<Rightarrow> mpst \<Rightarrow> bool" where
  "results quo P rmd Q s s' \<longleftrightarrow>
     (\<forall>c. c = nil \<or> c \<notin> {quo, rmd} \<longrightarrow> cells s' c = cells s c) \<and>
     (quo \<noteq> nil \<longrightarrow> (\<exists>y z. cells s quo = Some y \<and> cells s' quo = Some z \<and> nrm z \<and> kept y z \<and> P y z)) \<and>
     (rmd \<noteq> nil \<longrightarrow> (\<exists>y z. cells s rmd = Some y \<and> cells s' rmd = Some z \<and> nrm0 z \<and> kept y z \<and> Q y z)) \<and>
     brk s \<le> brk s' \<and> mindigits s' = mindigits s"

lemma divrest_ok:
  assumes u: "number s u xu" "u \<notin> {a, b, quo, rmd, v, nil}" "\<not> fstatic xu" and v: "number s v yv" "v \<notin> {quo, rmd, nil}"
    "v \<noteq> b \<Longrightarrow> \<not> fstatic yv \<and> v \<noteq> a" and ab: "number s a x" "number s b y"
    and q: "quo \<noteq> nil \<Longrightarrow> number s quo z" and r: "rmd \<noteq> nil \<Longrightarrow> number s rmd w" and qr: "quo \<noteq> rmd"
    and fresh: "\<And>c. brk s \<le> c \<Longrightarrow> cells s c = None" "0 < brk s"
    and val: "mag yv \<le> mag xu" "0 < mtop yv" "B ^ mtop yv \<le> 2 * mag yv" "mtop xu < length (mdig xu)"
    "mdig yv ! (mtop yv - 1) \<le> mdig xu ! (mtop xu - 1) \<Longrightarrow> mtop xu + 1 < length (mdig xu)"
  obtains s' zq w' where "divrest n a b quo rmd u v s = Ret () s'"
    "\<And>c. cells s' c = (if c = u \<or> c = v \<and> v \<noteq> b then None else if c = rmd \<and> rmd \<noteq> nil then Some w'
        else if c = quo \<and> quo \<noteq> nil then Some zq else cells s c)"
    "brk s \<le> brk s'" "mindigits s' = mindigits s"
    "quo \<noteq> nil \<Longrightarrow> nrm zq \<and> mag zq = mag xu div mag yv \<and> kept z zq \<and> msign zq = (if msign x \<noteq> msign y then -1 else msign z)"
    "rmd \<noteq> nil \<Longrightarrow> nrm0 w' \<and> mag w' = (mag xu mod mag yv) div 2 ^ n \<and> kept w w' \<and>
       msign w' = (if a = rmd then if mag w' = 0 then 1 else msign xu else if a = quo \<and> quo \<noteq> nil then msign zq else msign x)"
proof -
  have top: "mtop yv \<le> mtop xu" using mag_top_less [of yv xu] v(1) val(1) by (metis leD leI)
  obtain x1 where x1: "divtop u v s = Ret () (put u x1 s)" "mag x1 = mag xu" "mtop x1 \<le> length (mdig x1)" "length (mdig x1) = length (mdig xu)"
    "msign x1 = msign xu" "fstatic x1 = fstatic xu" "room x1"
    "mtop x1 = (if mdig yv ! (mtop yv - 1) \<le> mdig xu ! (mtop xu - 1) then mtop xu + 1 else mtop xu)"
    "mdig x1 ! (mtop x1 - 1) < mdig yv ! (mtop yv - 1)"
    by (rule divtop_ok [of s u xu v yv]) (use u v val top in auto)
  define t where "t = brk s"
  obtain tz where T: "mpnew (4 * int Dbits) (put u x1 s) = Ret t (put t tz ((put u x1 s)\<lparr>brk := t + 1\<rparr>))" "\<not> fstatic tz"
    using mpnew_run [of "4 * int Dbits" "put u x1 s"] DIGITS_nat [of 128] by (simp add: t_def)
  define s2 where "s2 = put t tz ((put u x1 s)\<lparr>brk := t + 1\<rparr>)"
  have tt: "cells s t = None" "t \<noteq> u" "t \<noteq> v" "t \<noteq> a" "t \<noteq> b" "quo \<noteq> nil \<Longrightarrow> t \<noteq> quo" "rmd \<noteq> nil \<Longrightarrow> t \<noteq> rmd" "t \<noteq> nil"
    using fresh u(1) v(1) ab q r by (auto simp: t_def)
  have c2: "cells s2 c = (if c = t then Some tz else if c = u then Some x1 else cells s c)" for c by (simp add: s2_def)
  define z1 where "z1 = (bitsof (mtop x1 - mtop yv) z)\<lparr>mtop := mtop x1 - mtop yv\<rparr>"
  have room: "divroom quo u v s2 = Ret () (putopt quo z1 s2)" unfolding z1_def
    by (rule divroom_ok) (use c2 tt u v q in auto)
  define s3 where "s3 = putopt quo z1 s2"
  have c3: "cells s3 c = (if c = quo \<and> quo \<noteq> nil then Some z1 else cells s2 c)" for c by (simp add: s3_def)
  have z1: "mtop z1 = mtop x1 - mtop yv \<and> mtop z1 \<le> length (mdig z1) \<and> \<not> ftimesafe z1 \<and> (msign z1 = 1 \<or> msign z1 = -1) \<and> kept z z1 \<and> msign z1 = msign z"
    if "quo \<noteq> nil"
    using q [OF that] bitsof_len [of z "mtop x1 - mtop yv"] kept_bitsof [of z "mtop x1 - mtop yv"] by (auto simp: z1_def nrm_def)
  define xa yb where "xa = (if a = quo \<and> quo \<noteq> nil then z1 else x)" and "yb = (if b = quo \<and> quo \<noteq> nil then z1 else y)"
  have sa: "msign xa = msign x" "msign yb = msign y" using z1 q ab by (auto simp: xa_def yb_def)
  obtain x2 zq where D: "divdigits a b quo u v s3 = Ret () (putopt quo zq (put u x2 s3))"
    "room x2" "mtop x2 = mtop yv" "mag x2 = mag x1 mod mag yv" "msign x2 = msign x1" "fstatic x2 = fstatic x1"
    "quo \<noteq> nil \<Longrightarrow> nrm zq \<and> mag zq = mag x1 div mag yv \<and> kept z1 zq \<and> msign zq = (if msign xa \<noteq> msign yb then -1 else msign z1)"
  proof (rule divdigits_ok)
    show "cells s3 u = Some x1" "cells s3 v = Some yv" using c3 c2 tt(2,3) u(2) v(1,2) by auto
    show "room x1" by (rule x1(7))
    show "nrm yv" using v(1) by simp
    show "0 < mtop yv" "B ^ mtop yv \<le> 2 * mag yv" by (rule val(2), rule val(3))
    show "mdig x1 ! (mtop x1 - 1) < mdig yv ! (mtop yv - 1)" by (rule x1(9))
    show "mtop yv \<le> mtop x1" "mag yv \<le> mag x1" using top x1(2,8) val(1) by simp_all
    show "mtop x1 < length (mdig x1)" unfolding x1(4) using x1(8) val(4,5) by simp
    show "cells s3 a = Some xa" "cells s3 b = Some yb" using c3 c2 tt(4,5) u(2) ab by (auto simp: xa_def yb_def)
    show "u \<notin> {a, b, quo}" using u(2) by simp
    show "cells s3 quo = Some z1 \<and> mtop z1 = mtop x1 - mtop yv \<and> mtop z1 \<le> length (mdig z1) \<and> \<not> ftimesafe z1 \<and> (msign z1 = 1 \<or> msign z1 = -1)"
      if "quo \<noteq> nil" using z1 [OF that] c3 [of quo] that by metis
  qed (rule that)
  define s4 where "s4 = putopt quo zq (put u x2 s3)"
  have c4: "cells s4 c = (if c = quo \<and> quo \<noteq> nil then Some zq else if c = u then Some x2 else cells s2 c)" for c
    by (simp add: s4_def c3)
  define xr where "xr = (if a = quo \<and> quo \<noteq> nil then zq else x)"
  have xr: "msign xr = 1 \<or> msign xr = -1" using D(7) ab(1) z1 q by (auto simp: xr_def nrm_def)
  obtain w' where R: "divrem n a rmd u s4 = Ret () (putopt rmd w' s4)"
    "rmd \<noteq> nil \<Longrightarrow> nrm0 w' \<and> mag w' = mag x2 div 2 ^ n \<and> kept w w' \<and>
      msign w' = (if a = rmd then if mag x2 div 2 ^ n = 0 then 1 else msign x2 else msign xr)"
  proof (rule divrem_ok)
    show "cells s4 u = Some x2" using c4 u(2) by simp
    show "room x2" by (rule D(2))
    show "mtop x2 \<noteq> 0" using D(3) val(2) by simp
    show "number s4 rmd w" if "rmd \<noteq> nil" using r [OF that] c4 c2 tt(7) u(2) qr that by auto
    show "cells s4 a = Some xr" using c4 c2 tt(4) u(2) ab(1) by (auto simp: xr_def)
    show "u \<notin> {a, rmd}" using u(2) by simp
  qed (rule xr, rule that)
  define s5 where "s5 = putopt rmd w' s4"
  have c5: "cells s5 c = (if c = rmd \<and> rmd \<noteq> nil then Some w' else cells s4 c)" for c by (simp add: s5_def)
  have t5: "cells s5 t = Some tz" using c5 c4 c2 tt by auto
  define s6 where "s6 = s5\<lparr>cells := (cells s5)(t := None)\<rparr>"
  have u6: "cells s6 u = Some x2" "\<not> fstatic x2" using c5 c4 tt(2) u(2,3) D(6) x1(6) by (auto simp: s6_def)
  define s7 where "s7 = s6\<lparr>cells := (cells s6)(u := None)\<rparr>"
  have v7: "cells s7 v = Some yv" using c5 c4 c2 tt(3) u(2) v(1,2) by (auto simp: s7_def s6_def)
  define s8 where "s8 = (if v \<noteq> b then s7\<lparr>cells := (cells s7)(v := None)\<rparr> else s7)"
  have frees: "block [mpfree t, mpfree u, whenC (v \<noteq> b) (mpfree v)] s5 = Ret () s8"
    using mpfree_run [OF t5 tt(8) T(2)] mpfree_run [OF u6(1) _ u6(2)] mpfree_run [OF v7] u(2) v(2,3)
    by (simp add: whenC_def s6_def [symmetric] s7_def [symmetric] s8_def)
  have run: "divrest n a b quo rmd u v s = Ret () s8"
  proof -
    have "block [divroom quo u v, divdigits a b quo u v, divrem n a rmd u, mpfree t, mpfree u, whenC (v \<noteq> b) (mpfree v)] s2 =
        block [mpfree t, mpfree u, whenC (v \<noteq> b) (mpfree v)] s5"
      by (simp only: block.simps room s3_def [symmetric] D(1) s4_def [symmetric] R(1) s5_def [symmetric] bindR.simps)
    moreover have "mpnew (4 * int Dbits) (put u x1 s) = Ret t s2" unfolding s2_def by (rule T(1))
    ultimately show ?thesis using frees x1(1) by (simp add: divrest_def)
  qed
  show ?thesis
  proof (rule that [OF run])
    show "cells s8 c = (if c = u \<or> c = v \<and> v \<noteq> b then None else if c = rmd \<and> rmd \<noteq> nil then Some w'
        else if c = quo \<and> quo \<noteq> nil then Some zq else cells s c)" for c
      using tt(1) c5 c4 c2 u(2) tt(6,7) by (auto simp: s8_def s7_def s6_def)
    show "brk s \<le> brk s8" "mindigits s8 = mindigits s"
      by (simp_all add: s8_def s7_def s6_def s5_def s4_def s3_def s2_def t_def)
    show "nrm zq \<and> mag zq = mag xu div mag yv \<and> kept z zq \<and> msign zq = (if msign x \<noteq> msign y then -1 else msign z)" if "quo \<noteq> nil"
      using D(7) [OF that] z1 [OF that] kept_trans [of z z1 zq] sa x1(2) by simp
    show "nrm0 w' \<and> mag w' = (mag xu mod mag yv) div 2 ^ n \<and> kept w w' \<and>
       msign w' = (if a = rmd then if mag w' = 0 then 1 else msign xu else if a = quo \<and> quo \<noteq> nil then msign zq else msign x)" if "rmd \<noteq> nil"
      using R(2) [OF that] D(4,5) x1(2,5) by (simp add: xr_def)
  qed
qed

text \<open>Shifting the divisor so that its highest bit is set keeps its length.\<close>

lemma nrm_lead: "nrm y \<Longrightarrow> 0 < mtop y \<Longrightarrow>
    B ^ (mtop y - 1) * unat (mdig y ! (mtop y - 1)) \<le> mag y \<and> mag y < B ^ (mtop y - 1) * (unat (mdig y ! (mtop y - 1)) + 1)"
  unfolding mag_def using lead_digit [of "mtop y" "mdig y"] by (simp add: nrm_def)

lemma nrm_length:
  assumes "nrm z" "B ^ (n - 1) \<le> mag z" "mag z < B ^ n" "0 < n"
  shows "mtop z = n"
proof (rule antisym)
  show "mtop z \<le> n"
  proof (rule ccontr)
    assume "\<not> mtop z \<le> n"
    then have "B ^ n \<le> B ^ (mtop z - 1)" "0 < mtop z" by (auto intro: power_increasing)
    then show False using mag_ge [OF assms(1)] assms(3) by linarith
  qed
  show "n \<le> mtop z"
  proof (rule ccontr)
    assume "\<not> n \<le> mtop z"
    then have "B ^ mtop z \<le> B ^ (n - 1)" by (intro power_increasing) simp_all
    then show False using mag_lt [of z] assms(2) by linarith
  qed
qed

lemma norm_divisor:
  assumes "nrm y" "0 < mtop y" "nrm yv" "mag yv = mag y * 2 ^ sh" "sh < 32"
    "2 ^ 31 \<le> unat (mdig y ! (mtop y - 1)) * 2 ^ sh" "unat (mdig y ! (mtop y - 1)) * 2 ^ sh < B"
  shows "mtop yv = mtop y" "B ^ mtop yv \<le> 2 * mag yv" "2 ^ 31 \<le> unat (mdig yv ! (mtop yv - 1))"
proof -
  define n P d where "n = mtop y" and "P = B ^ (mtop y - 1)" and "d = unat (mdig y ! (mtop y - 1))"
  have Pn: "B ^ mtop y = B * P" unfolding P_def using assms(2) by (simp only: power_Suc [symmetric] Suc_diff_1)
  have y: "P * d \<le> mag y" "mag y < P * (d + 1)" using nrm_lead [OF assms(1,2)] by (simp_all only: P_def d_def)
  have lo: "P * 2 ^ 31 \<le> mag yv"
  proof -
    have "P * 2 ^ 31 \<le> P * (d * 2 ^ sh)" using assms(6) unfolding d_def by (rule mult_le_mono2)
    also have "\<dots> = P * d * 2 ^ sh" by (simp only: mult.assoc)
    also have "\<dots> \<le> mag yv" unfolding assms(4) using y(1) by (rule mult_le_mono1)
    finally show ?thesis .
  qed
  have hi: "mag yv < B * P"
  proof -
    have BB: "B = 2 ^ (32 - sh) * 2 ^ sh" using assms(5) by (simp add: power_add [symmetric])
    then have "d < 2 ^ (32 - sh)" using assms(7) unfolding d_def by (metis mult_less_cancel2)
    then have "(d + 1) * 2 ^ sh \<le> B" unfolding BB by (intro mult_le_mono1) simp
    then have "P * ((d + 1) * 2 ^ sh) \<le> P * B" by (rule mult_le_mono2)
    moreover have "mag yv < P * (d + 1) * 2 ^ sh" unfolding assms(4) using y(2) by simp
    ultimately show ?thesis by (simp only: ac_simps; linarith)
  qed
  have B31: "(B :: nat) = 2 * 2 ^ 31" by simp
  have "P * 1 \<le> P * 2 ^ 31" by (rule mult_le_mono2) simp
  then have "P \<le> mag yv" using lo by linarith
  then show top: "mtop yv = mtop y" using nrm_length [OF assms(3), of "mtop y"] hi assms(2) unfolding P_def [symmetric] Pn by simp
  have twice: "B * P \<le> 2 * mag yv"
  proof -
    have "B * P = 2 * (P * 2 ^ 31)" unfolding B31 by (simp only: ac_simps)
    then show ?thesis using lo by linarith
  qed
  then show "B ^ mtop yv \<le> 2 * mag yv" unfolding top Pn .
  have "mag yv < P * (unat (mdig yv ! (mtop yv - 1)) + 1)" using nrm_lead [OF assms(3)] assms(2) unfolding top P_def by simp
  then have "P * 2 ^ 31 < P * (unat (mdig yv ! (mtop yv - 1)) + 1)" using lo by linarith
  then show "2 ^ 31 \<le> unat (mdig yv ! (mtop yv - 1))" by (simp only: mult_less_cancel1; linarith)
qed

lemma norm_dividend:
  assumes "nrm xu" "mag xu = mag x * 2 ^ sh" "sh < 32" "0 < mtop xu"
  shows "mtop xu \<le> mtop x + 1" "2 ^ 31 \<le> unat (mdig xu ! (mtop xu - 1)) \<Longrightarrow> mtop xu \<le> mtop x"
proof -
  have "(2 :: nat) ^ sh \<le> 2 ^ 31" using assms(3) by (intro power_increasing) simp_all
  then have "mag x * 2 ^ sh \<le> mag x * 2 ^ 31" by (rule mult_le_mono2)
  moreover have "mag x * 2 ^ 31 < B ^ mtop x * 2 ^ 31" using mag_lt [of x] by simp
  ultimately have lt: "mag xu < B ^ mtop x * 2 ^ 31" unfolding assms(2) by linarith
  have ge: "B ^ (mtop xu - 1) \<le> mag xu" by (rule mag_ge [OF assms(1,4)])
  show "mtop xu \<le> mtop x + 1"
  proof (rule ccontr)
    assume "\<not> mtop xu \<le> mtop x + 1"
    then have "B ^ (mtop x + 1) \<le> B ^ (mtop xu - 1)" by (intro power_increasing) simp_all
    moreover have "B ^ mtop x * 2 ^ 31 \<le> B ^ mtop x * B" by (rule mult_le_mono2) simp
    ultimately show False using lt ge by (simp only: power_add power_one_right; linarith)
  qed
  show "mtop xu \<le> mtop x" if d: "2 ^ 31 \<le> unat (mdig xu ! (mtop xu - 1))"
  proof (rule ccontr)
    assume "\<not> mtop xu \<le> mtop x"
    then have "B ^ mtop x \<le> B ^ (mtop xu - 1)" by (intro power_increasing) simp_all
    then have "B ^ mtop x * 2 ^ 31 \<le> B ^ (mtop xu - 1) * unat (mdig xu ! (mtop xu - 1))" using d by (rule mult_le_mono)
    then show False using nrm_lead [OF assms(1,4)] lt by linarith
  qed
qed

text \<open>A result parameter: nil or a number of the client.\<close>

definition resultpar :: "mpst \<Rightarrow> nat \<Rightarrow> bool" where
  "resultpar s r \<longleftrightarrow> r = nil \<or> usable r \<and> (\<exists>y. number s r y)"

lemma ival_scaled:
  assumes "nrm z" "nrm x" "ival z = ival x * 2 ^ n" "mag x \<noteq> 0"
  shows "mag z = mag x * 2 ^ n" "msign z = msign x"
proof -
  have s: "msign z = 1 \<or> msign z = -1" "msign x = 1 \<or> msign x = -1" using assms(1,2) by (auto simp: nrm_def)
  define m where "m = mag x * 2 ^ n"
  have "0 < m" using assms(4) by (simp add: m_def)
  moreover have e: "msign z * int (mag z) = msign x * int m" using assms(3) by (simp add: ival_def m_def)
  ultimately show "mag z = mag x * 2 ^ n" "msign z = msign x" unfolding m_def [symmetric] using s by auto
qed

lemma mpdiv_long:
  assumes "mpstok s" "number s a x" "number s b y" "resultpar s quo" "resultpar s rmd" "quo \<noteq> rmd" "mag y \<le> mag x" "0 < mtop y"
    "\<not> (mtop y = 1 \<and> mdig y ! 0 AND (mdig y ! 0 - 1) = 0)"
  shows "okR (mpdiv a b quo rmd s) (\<lambda>_. results
    quo (\<lambda>z0 z. mag z = mag x div mag y \<and> msign z = (if msign x \<noteq> msign y then -1 else msign z0))
    rmd (\<lambda>w0 w. mag w = mag x mod mag y \<and> msign w = (if a = rmd then if mag w = 0 then 1 else msign x
           else if a = quo \<and> quo \<noteq> nil \<and> msign x \<noteq> msign y then -1 else msign x)) s)"
proof -
  let ?d = "mdig y ! (mtop y - 1)"
  have "?d \<noteq> 0" using assms(3,8) by (simp add: nrm_def)
  then obtain sh where sh: "sh < 32" "highbit 32 ?d 0 = Some sh" "2 ^ 31 \<le> unat ?d * 2 ^ sh" "unat ?d * 2 ^ sh < B"
    using highbit_32 by blast
  define u where "u = brk s"
  have m0: "mag y \<noteq> 0" "mag x \<noteq> 0" using mag_0 [of y] assms(3,7,8) by auto
  obtain z s1 where z: "mpnew (int ((mtop x + 2) * Dbits + sh)) s = Ret u s1" "s1 = put u z (s\<lparr>brk := u + 1\<rparr>)" "nrm z"
    "nat (DIGITS (int ((mtop x + 2) * Dbits + sh))) \<le> length (mdig z)" "\<not> fstatic z"
    unfolding u_def by (rule new_number [OF assms(1), of "int ((mtop x + 2) * Dbits + sh)"]) (rule of_nat_0_le_iff, blast)
  have lz: "mtop x + 2 \<le> length (mdig z)"
  proof -
    have "mtop x + 2 = (mtop x + 2) * 32 div 32" by simp
    also have "\<dots> \<le> ((mtop x + 2) * Dbits + sh + 31) div 32" by (rule div_le_mono) simp
    finally show ?thesis using z(4) unfolding DIGITS_nat nat_int by linarith
  qed
  have fr: "cells s c = None" if "brk s \<le> c" for c using assms(1) that by (auto simp: mpstok_def)
  have un: "u \<notin> {a, b, quo, rmd, nil}" "usable u"
    using fr [of u] assms(2-5) mpstok_fresh(2) [OF assms(1)] by (auto simp: u_def resultpar_def)
  have small: "{quo, rmd} \<subseteq> {..< brk s1}"
    using assms(1,4,5) mpstok_fresh(2) [OF assms(1)] z(2) by (auto simp: resultpar_def mpstok_def u_def less_Suc_eq)
  have ok1: "mpstok s1" using assms(1) un z(2,5) unfolding mpstok_def by (auto simp: u_def less_Suc_eq)
  have n1: "number s1 a x" "number s1 b y" "number s1 u z" using assms(2,3) un z(2,3) by auto
  obtain v s2 xu yv where S: "divstart sh a b quo rmd u s1 = Ret v s2" "number s2 u xu" "ival xu = ival x * 2 ^ sh" "kept z xu"
    "number s2 v yv" "ival yv = ival y * 2 ^ sh" "v \<notin> {u, quo, rmd, nil}" "v = b \<or> (brk s1 \<le> v \<and> \<not> fstatic yv)"
    "\<And>c. c \<noteq> u \<Longrightarrow> c \<noteq> v \<or> v = b \<Longrightarrow> cells s2 c = cells s1 c" "brk s1 \<le> brk s2" "\<And>c. brk s2 \<le> c \<Longrightarrow> cells s2 c = None"
    "mindigits s2 = mindigits s1"
    by (rule divstart_ok [OF ok1 n1 _ z(5) un(2) small]) (use un(1) in auto)
  have mx: "mag xu = mag x * 2 ^ sh" "msign xu = msign x" using ival_scaled [of xu x sh] S(2,3) assms(2) m0 by simp_all
  have my: "mag yv = mag y * 2 ^ sh" using ival_scaled [of yv y sh] S(5,6) assms(3) m0 by simp_all
  have keep: "cells s2 c = cells s c" if "c < brk s" for c
    using S(8) S(9) [of c] that z(2) by (cases "v = b") (auto simp: u_def)
  have n2: "number s2 a x" "number s2 b y" "quo \<noteq> nil \<Longrightarrow> number s2 quo (the (cells s quo))" "rmd \<noteq> nil \<Longrightarrow> number s2 rmd (the (cells s rmd))"
    using keep assms(2-5) mpstok_fresh(3) [OF assms(1)] by (auto simp: resultpar_def)
  have nd: "mtop yv = mtop y" "B ^ mtop yv \<le> 2 * mag yv" "2 ^ 31 \<le> unat (mdig yv ! (mtop yv - 1))"
    using norm_divisor [OF _ assms(8) _ my sh(1,3,4)] assms(3) S(5) by simp_all
  have le: "mag yv \<le> mag xu" unfolding mx my using assms(7) by simp
  have tx: "0 < mtop xu" using mag_0 [of xu] S(2) mx(1) m0(2) by auto
  have lx: "mtop x + 2 \<le> length (mdig xu)" using lz S(4) by (simp add: kept_def)
  note nx = norm_dividend [OF conjunct2 [OF S(2)] mx(1) sh(1) tx]
  obtain s' zq w' where R: "divrest sh a b quo rmd u v s2 = Ret () s'"
    "\<And>c. cells s' c = (if c = u \<or> c = v \<and> v \<noteq> b then None else if c = rmd \<and> rmd \<noteq> nil then Some w'
        else if c = quo \<and> quo \<noteq> nil then Some zq else cells s2 c)"
    "brk s2 \<le> brk s'" "mindigits s' = mindigits s2"
    "quo \<noteq> nil \<Longrightarrow> nrm zq \<and> mag zq = mag xu div mag yv \<and> kept (the (cells s quo)) zq \<and> msign zq = (if msign x \<noteq> msign y then -1 else msign (the (cells s quo)))"
    "rmd \<noteq> nil \<Longrightarrow> nrm0 w' \<and> mag w' = (mag xu mod mag yv) div 2 ^ sh \<and> kept (the (cells s rmd)) w' \<and>
       msign w' = (if a = rmd then if mag w' = 0 then 1 else msign xu else if a = quo \<and> quo \<noteq> nil then msign zq else msign x)"
  proof (rule divrest_ok)
    show "number s2 u xu" "number s2 v yv" "number s2 a x" "number s2 b y" using S(2,5) n2(1,2) by simp_all
    show "u \<notin> {a, b, quo, rmd, v, nil}" "v \<notin> {quo, rmd, nil}" using un(1) S(7) by auto
    show "\<not> fstatic xu" using z(5) S(4) by (simp add: kept_def)
    show "\<not> fstatic yv \<and> v \<noteq> a" if "v \<noteq> b"
      using S(8) that mpstok_fresh(3) [OF assms(1,2)] z(2) by (auto simp: u_def)
    show "number s2 quo (the (cells s quo))" if "quo \<noteq> nil" using n2(3) that by blast
    show "number s2 rmd (the (cells s rmd))" if "rmd \<noteq> nil" using n2(4) that by blast
    show "quo \<noteq> rmd" by (rule assms(6))
    show "cells s2 c = None" if "brk s2 \<le> c" for c using S(11) that .
    show "0 < brk s2" using S(10) z(2) by simp
    show "mag yv \<le> mag xu" by (rule le)
    show "0 < mtop yv" "B ^ mtop yv \<le> 2 * mag yv" using nd assms(8) by simp_all
    show "mtop xu < length (mdig xu)" using lx nx(1) by linarith
    show "mtop xu + 1 < length (mdig xu)" if "mdig yv ! (mtop yv - 1) \<le> mdig xu ! (mtop xu - 1)"
    proof -
      have "2 ^ 31 \<le> unat (mdig xu ! (mtop xu - 1))" using nd(3) that unfolding word_le_nat_alt by linarith
      then show ?thesis using lx nx(2) by linarith
    qed
  qed (rule that)
  have run: "mpdiv a b quo rmd s = Ret () s'"
  proof -
    have c: "\<not> magcmp x y < 0" using magcmp_less [of x y] assms(2,3,7) by simp
    have "mpmagcmp a b s = Ret (magcmp x y) s" using assms(2,3) by (intro mpmagcmp_run) simp_all
    then show ?thesis using assms(2,3,6,8) c sh(2) z(1) S(1) R(1) nrm_noflag(1) [of x]
      unfolding mpdiv_def withmp_run [OF conjunct1 [OF assms(3)]] if_not_P [OF assms(9)]
      by (simp add: nrm_def del: of_nat_mult of_nat_add)
  qed
  have qd: "mag xu div mag yv = mag x div mag y" "(mag xu mod mag yv) div 2 ^ sh = mag x mod mag y"
    unfolding mx my by (simp_all add: mult_mod_left)
  have "results quo (\<lambda>z0 z. mag z = mag x div mag y \<and> msign z = (if msign x \<noteq> msign y then -1 else msign z0))
    rmd (\<lambda>w0 w. mag w = mag x mod mag y \<and> msign w = (if a = rmd then if mag w = 0 then 1 else msign x
           else if a = quo \<and> quo \<noteq> nil \<and> msign x \<noteq> msign y then -1 else msign x)) s s'"
    unfolding results_def
  proof (intro conjI impI allI)
    fix c
    assume c: "c = nil \<or> c \<notin> {quo, rmd}"
    show "cells s' c = cells s c"
    proof (cases "c < brk s")
      case True
      then have "c \<noteq> u" "v = b \<or> c \<noteq> v" using S(8) z(2) by (auto simp: u_def)
      then show ?thesis using R(2) [of c] keep [OF True] c by auto
    next
      case False
      then have "cells s c = None" using fr by simp
      moreover have "cells s' c = None"
      proof (cases "c = u \<or> c = v \<and> v \<noteq> b")
        case False
        then have "cells s2 c = cells s1 c" "cells s1 c = cells s c" using S(9) [of c] z(2) by auto
        then show ?thesis using R(2) [of c] c \<open>cells s c = None\<close> False by auto
      qed (use R(2) in simp)
      ultimately show ?thesis by simp
    qed
  next
    assume q: "quo \<noteq> nil"
    then have "cells s quo = Some (the (cells s quo))" "cells s' quo = Some zq"
      using n2(3) assms(4,6) R(2) [of quo] un(1) S(7) by (auto simp: resultpar_def)
    then show "\<exists>y' z. cells s quo = Some y' \<and> cells s' quo = Some z \<and> nrm z \<and> kept y' z \<and> mag z = mag x div mag y \<and>
        msign z = (if msign x \<noteq> msign y then -1 else msign y')"
      using R(5) [OF q] qd by auto
  next
    assume r: "rmd \<noteq> nil"
    have "cells s rmd = Some (the (cells s rmd))" "cells s' rmd = Some w'"
      using r n2(4) assms(5) R(2) [of rmd] un(1) S(7) by (auto simp: resultpar_def)
    moreover have W: "nrm0 w'" "mag w' = mag x mod mag y" "kept (the (cells s rmd)) w'"
      "msign w' = (if a = rmd then if mag w' = 0 then 1 else msign xu else if a = quo \<and> quo \<noteq> nil then msign zq else msign x)"
      using R(6) [OF r] unfolding qd by (blast, blast, blast, meson)
    have "msign zq = (if msign x \<noteq> msign y then -1 else msign x)" if "a = quo" "quo \<noteq> nil" using R(5) that assms(2) by simp
    then have "msign w' = (if a = rmd then if mag w' = 0 then 1 else msign x
        else if a = quo \<and> quo \<noteq> nil \<and> msign x \<noteq> msign y then -1 else msign x)"
      unfolding W(4) mx(2) by auto
    ultimately show "\<exists>y' z. cells s rmd = Some y' \<and> cells s' rmd = Some z \<and> nrm0 z \<and> kept y' z \<and> mag z = mag x mod mag y \<and>
        msign z = (if a = rmd then if mag z = 0 then 1 else msign x else if a = quo \<and> quo \<noteq> nil \<and> msign x \<noteq> msign y then -1 else msign x)"
      using W(1-3) by blast
  next
    show "brk s \<le> brk s'" "mindigits s' = mindigits s" using R(3,4) S(10,12) z(2) by (simp_all add: u_def)
  qed
  then show ?thesis using run by simp
qed

section \<open>Division by a power of two and of a smaller number\<close>

lemma lowbit_ok:
  "bit d j \<Longrightarrow> (\<And>i. i < j \<Longrightarrow> \<not> bit d i) \<Longrightarrow> s \<le> j \<Longrightarrow> j < s + k \<Longrightarrow> lowbit k d s = Some j"
proof (induction k d s rule: lowbit.induct)
  case (1 k d s)
  have b: "drop_bit s d AND 1 = 0 \<longleftrightarrow> \<not> bit d s" by (simp add: and_one_eq bit_iff_odd_drop_bit even_iff_mod_2_eq_zero)
  show ?case
  proof (cases "s = j")
    case True
    then show ?thesis using 1(2) b by simp
  next
    case False
    then have "s < j" using 1(4) by simp
    then have "\<not> bit d s" using 1(3) by blast
    then show ?thesis using 1 b \<open>s < j\<close> by simp
  qed
qed simp

text \<open>The test \<^verbatim>\<open>(d & d-1) == 0\<close>.\<close>

lemma power_of_two:
  fixes d :: mpdigit
  assumes "d \<noteq> 0" "d AND (d - 1) = 0"
  obtains j where "j < 32" "unat d = 2 ^ j" "lowbit 32 d 0 = Some j"
proof -
  have "\<exists>i. bit d i" using assms(1) by (metis bit_0_eq bit_eqI bot_apply bot_bool_def)
  define j where "j = (LEAST i. bit d i)"
  have bj: "bit d j" unfolding j_def using \<open>\<exists>i. bit d i\<close> by (rule LeastI_ex)
  have low: "\<not> bit d i" if "i < j" for i using that unfolding j_def by (rule not_less_Least)
  have j: "j < 32" using bit_imp_le_length [OF bj] by simp
  define m where "m = unat d div 2 ^ j"
  have "take_bit j (unat d) = 0"
    by (rule bit_eqI) (use low j in \<open>auto simp: bit_take_bit_iff bit_unsigned_iff\<close>)
  then have d: "unat d = 2 ^ j * m" by (simp add: m_def take_bit_eq_mod mod_0_imp_dvd)
  have odd: "odd m" using bj j by (simp add: m_def bit_unsigned_iff bit_iff_odd [of "unat d", symmetric])
  have u1: "unat (d - 1) = unat d - 1" using assms(1) by (rule unat_minus_one)
  have "unat d - 1 = 2 ^ j * (m - 1) + (2 ^ j - 1)"
    using odd unfolding d by (cases m) (simp_all add: algebra_simps)
  moreover have "(P * k + (P - 1)) div P = k" if "0 < P" for P k :: nat
    using that div_mult_self4 [of P k "P - 1"] by simp
  ultimately have h: "(unat d - 1) div 2 ^ j = m - 1" by (simp only: zero_less_power zero_less_numeral)
  have "m div 2 = 0"
  proof -
    have "drop_bit (Suc j) (unat d AND (unat d - 1)) = 0" using arg_cong [OF assms(2), of unat] by (simp only: unsigned_and_eq u1 unsigned_0 drop_bit_of_0)
    then have "drop_bit (Suc j) (unat d) AND drop_bit (Suc j) (unat d - 1) = 0" by (simp only: drop_bit_and)
    moreover have "drop_bit (Suc j) (unat d) = m div 2" by (simp only: drop_bit_eq_div m_def div_mult2_eq power_Suc2)
    moreover have "drop_bit (Suc j) (unat d - 1) = (m - 1) div 2"
      unfolding h [symmetric] by (simp only: drop_bit_eq_div div_mult2_eq power_Suc2)
    moreover have "(m - 1) div 2 = m div 2" using odd by presburger
    ultimately show ?thesis by simp
  qed
  then have "m = 1" using odd by presburger
  then show ?thesis using that [OF j] d lowbit_ok [OF bj low, of 0 32] j by simp
qed

text \<open>Conversion from machine integers.\<close>

lemma halves: "val [ucast v, ucast (drop_bit 32 v)] = unat v" for v :: u64
proof -
  have "unat (ucast v :: mpdigit) = unat v mod B" by (simp add: unsigned_ucast_eq take_bit_eq_mod)
  moreover have "unat (ucast (drop_bit 32 v) :: mpdigit) = unat v div B"
  proof -
    have "unat (drop_bit 32 v) = unat v div B" unfolding unat_drop_bit_eq by (rule drop_bit_eq_div)
    moreover have "unat v < 2 ^ LENGTH(64)" by (rule unsigned_less)
    then have "unat v < B * B" by simp
    then have "unat v div B < B" by (simp only: less_mult_imp_div_less)
    ultimately show ?thesis by (simp add: unsigned_ucast_eq take_bit_eq_mod)
  qed
  ultimately show ?thesis by simp
qed

lemma unat_abs: "int (unat (if sint v < 0 then - v else v)) = \<bar>sint v\<bar>" for v :: u64
proof (cases "sint v < 0")
  case True
  have e: "- v = of_int (- sint v)" by simp
  have b: "- (2 ^ 63) \<le> sint v" using sint_ge [of v] by simp
  have "uint (- v) = (- sint v) mod 2 ^ 64" unfolding e by (simp only: unsigned_of_int take_bit_eq_mod) simp
  also have "\<dots> = - sint v" using True b by (intro mod_pos_pos_trivial) simp_all
  finally show ?thesis using True by simp
next
  case False
  have "uint (of_int (sint v) :: u64) = sint v mod 2 ^ 64" by (simp only: unsigned_of_int take_bit_eq_mod) simp
  moreover have "sint v < 2 ^ 63" using sint_lt [of v] by simp
  then have "sint v mod 2 ^ 64 = sint v" using False by (intro mod_pos_pos_trivial) simp_all
  ultimately have "uint v = sint v" by simp
  then show ?thesis using False by simp
qed

lemma vtomp_ok:
  assumes "number s b y" "b \<noteq> nil" "2 \<le> length (mdig y)"
  obtains z where "vtomp v b s = Ret b (put b z s)" "nrm z" "kept y z" "ival z = sint v"
proof -
  define uv where "uv = (if sint v < 0 then - v else v)"
  define sg :: int where "sg = (if sint v < 0 then -1 else 1)"
  define w where "w = bitsof 1 y"
  have y: "mtop y \<le> length (mdig y)" "\<not> ftimesafe y" using assms(1) by (simp_all add: nrm_def)
  have w: "2 \<le> length (mdig w)" "\<not> ftimesafe w" "kept y w"
    using bitsof_len [OF y(1), of 1] kept_bitsof [OF y(1), of 1] assms(3) y(2) by (simp_all add: w_def)
  let ?ds = "[ucast uv, ucast (drop_bit 32 uv)] :: mpdigit list"
  have r: "vl_res b s = Ret b (put b w s)"
    using mpbits_run [of s b y 8] DIGITS_nat [of 8] assms(1,2) by (simp add: vl_res_def seqret_def w_def)
  have run: "vtomp v b s = Ret b (put b (made w ?ds sg) s)"
    unfolding vtomp_def r bindR.simps Let_def uv_def [symmetric] sg_def [symmetric]
    using w(1,2) by (simp add: seqret_def made_def upd_order numeral_2_eq_2)
  have sg: "sg = 1 \<or> sg = -1" by (simp add: sg_def)
  note m = made_ok [of ?ds w sg, OF _ sg w(2)]
  have "sg * int (val ?ds) = sint v"
    using unat_abs [of v] unfolding halves uv_def [symmetric] by (simp add: sg_def)
  then show ?thesis using that [OF run] m w(1) kept_trans [OF w(3)] by simp
qed

lemma sint_small: "- (2 ^ 63) \<le> k \<Longrightarrow> k < 2 ^ 63 \<Longrightarrow> sint (of_int k :: u64) = k"
  by (simp add: signed_of_int signed_take_bit_int_eq_self)

lemma low_bits:
  fixes d p :: mpdigit
  assumes "unat d = 2 ^ j"
  shows "unat (p AND (d - 1)) = unat p mod 2 ^ j"
proof -
  have "d \<noteq> 0" using assms by auto
  then have "unat (d - 1) = 2 ^ j - 1" using assms by (simp add: unat_minus_one)
  then have "unat (p AND (d - 1)) = unat p AND mask j" by (simp only: unsigned_and_eq mask_eq_exp_minus_1)
  then show ?thesis by (simp only: take_bit_eq_mask [symmetric] take_bit_eq_mod)
qed

lemma mag_mod:
  assumes "nrm x" "j < 32" "mdig x \<noteq> []" "mtop x = 0 \<Longrightarrow> mdig x ! 0 = 0"
  shows "mag x mod 2 ^ j = unat (mdig x ! 0) mod 2 ^ j"
proof (cases "mtop x")
  case 0
  then show ?thesis using assms(4) by (simp add: mag_def)
next
  case (Suc n)
  obtain p ps where p: "mdig x = p # ps" using assms(3) by (cases "mdig x") auto
  have "B = 2 ^ j * 2 ^ (32 - j)" using assms(2) by (simp add: power_add [symmetric])
  then have "mag x = unat p + 2 ^ j * (2 ^ (32 - j) * val (take n ps))" unfolding mag_def Suc p by (simp add: mult.assoc)
  then show ?thesis by (simp add: p)
qed

text \<open>The remainder of this case is the lowest digit, read whether or not the dividend has one.\<close>

lemma mpdiv_pow2:
  assumes "mpstok s" "number s a x" "number s b y" "resultpar s quo" "resultpar s rmd" "quo \<noteq> rmd"
    "mtop y = 1" "mdig y ! 0 AND (mdig y ! 0 - 1) = 0" "mdig x \<noteq> []" "\<And>w. cells s rmd = Some w \<Longrightarrow> 2 \<le> length (mdig w)"
  shows "okR (mpdiv a b quo rmd s) (\<lambda>_. results quo (\<lambda>_ z. ival z = msign x * int (mag x div mag y))
    rmd (\<lambda>_ w. nrm w \<and> ival w = msign x * int (unat (mdig x ! 0) mod mag y)) s)"
proof -
  let ?d = "mdig y ! 0" and ?p = "mdig x ! 0"
  have d0: "?d \<noteq> 0" using assms(3,7) by (simp add: nrm_def)
  obtain j where j: "j < 32" "unat ?d = 2 ^ j" "lowbit 32 ?d 0 = Some j" by (rule power_of_two [OF d0 assms(8)])
  have y: "mag y = 2 ^ j"
  proof -
    have "take 1 (mdig y) = [?d]" using assms(3,7) by (cases "mdig y") (simp_all add: nrm_def)
    then show ?thesis using j(2) assms(7) by (simp add: mag_def)
  qed
  define r :: u64 where "r = of_int (msign x) * ucast (?p AND (?d - 1))"
  have sr: "sint r = msign x * int (unat ?p mod 2 ^ j)"
  proof -
    have u: "unat (?p AND (?d - 1)) = unat ?p mod 2 ^ j" by (rule low_bits [OF j(2)])
    have "ucast (?p AND (?d - 1)) = (of_nat (unat (?p AND (?d - 1))) :: u64)" by simp
    then have "r = of_int (msign x * int (unat ?p mod 2 ^ j))" unfolding r_def u by simp
    moreover have "unat ?p mod 2 ^ j < 2 ^ 32" using digit_lt [of ?p] by (meson le_less_trans mod_less_eq_dividend)
    then have "int (unat ?p mod 2 ^ j) < 2 ^ 32" by (simp only: of_nat_less_numeral_power_cancel_iff)
    then have "- (2 ^ 63) \<le> msign x * int (unat ?p mod 2 ^ j)" "msign x * int (unat ?p mod 2 ^ j) < 2 ^ 63"
      using conjunct2 [OF assms(2)] by (auto simp: nrm_def)
    then have "sint (of_int (msign x * int (unat ?p mod 2 ^ j)) :: u64) = msign x * int (unat ?p mod 2 ^ j)" by (rule sint_small)
    ultimately show ?thesis by (simp only:)
  qed
  obtain z0 w0 where z0: "quo \<noteq> nil \<Longrightarrow> number s quo z0 \<and> usable quo" and w0: "rmd \<noteq> nil \<Longrightarrow> number s rmd w0 \<and> usable rmd"
    using assms(4,5) by (auto simp: resultpar_def)
  obtain zq where q: "whenC (quo \<noteq> nil) (mpright a (int j) quo) s = Ret () (putopt quo zq s)"
    "quo \<noteq> nil \<Longrightarrow> nrm zq \<and> kept z0 zq \<and> ival zq = msign x * int (mag x div 2 ^ j)"
  proof (cases "quo = nil")
    case False
    then obtain z where "mpright a (int j) quo s = Ret () (put quo z s)" "nrm z" "kept z0 z" "ival z = shifted (- int j) x"
      using mpleft_ok(2) [OF assms(2), of quo z0 "int j"] z0 by auto
    moreover have "shifted (- int j) x = msign x * int (mag x div 2 ^ j)" by (cases "j = 0") (simp_all add: shifted_def ival_def)
    ultimately show ?thesis using that [of z] False by (simp add: putopt_def)
  qed (use that [of undefined] in \<open>simp add: putopt_def\<close>)
  define s1 where "s1 = putopt quo zq s"
  have c1: "cells s1 a = Some (if a = quo \<and> quo \<noteq> nil then zq else x)" using assms(2) by (simp add: s1_def)
  have f1: "\<not> ftimesafe (if a = quo \<and> quo \<noteq> nil then zq else x)" using q(2) assms(2) by (auto simp: nrm_def)
  let ?rem = "block [withmp a (\<lambda>x. modify rmd (\<lambda>y. y\<lparr>ftimesafe := ftimesafe y \<or> ftimesafe x\<rparr>)), \<lambda>s. bindR (vtomp r rmd s) (\<lambda>_ s. Ret () s)]"
  obtain w where w: "whenC (rmd \<noteq> nil) ?rem s1 = Ret () (putopt rmd w s1)"
    "rmd \<noteq> nil \<Longrightarrow> nrm w \<and> kept w0 w \<and> ival w = msign x * int (unat ?p mod 2 ^ j)"
  proof (cases "rmd = nil")
    case False
    have n: "number s1 rmd w0" "2 \<le> length (mdig w0)" using w0 [OF False] assms(6,10) by (auto simp: s1_def)
    obtain w where "vtomp r rmd s1 = Ret rmd (put rmd w s1)" "nrm w" "kept w0 w" "ival w = sint r"
      by (rule vtomp_ok [OF n(1) False n(2)])
    moreover have "w0\<lparr>ftimesafe := False\<rparr> = w0" using n(1) by (intro no_ts) (simp add: nrm_def)
    ultimately show ?thesis using that [of w] False c1 f1 n(1) sr nrm_noflag(1) [of w0] by (simp add: putopt_def put_same)
  qed (use that [of undefined] in \<open>simp add: putopt_def\<close>)
  have run: "mpdiv a b quo rmd s = Ret () (putopt rmd w s1)"
  proof -
    have "divpow2 ?d a quo rmd s = Ret () (putopt rmd w s1)"
      using assms(2,9) q(1) w(1) j(3) by (simp add: divpow2_def r_def [symmetric] s1_def)
    then show ?thesis using assms(3,6,7,8) by (simp add: mpdiv_def nrm_def)
  qed
  have "results quo (\<lambda>_ z. ival z = msign x * int (mag x div mag y)) rmd (\<lambda>_ w. nrm w \<and> ival w = msign x * int (unat ?p mod mag y)) s (putopt rmd w s1)"
    unfolding results_def y using q(2) w(2) z0 w0 assms(6) by (auto simp: s1_def nrm0_def nrm_def)
  then show ?thesis using run by simp
qed

lemma mpdiv_less:
  assumes "mpstok s" "number s a x" "number s b y" "resultpar s quo" "resultpar s rmd" "quo \<noteq> rmd" "mag x < mag y" "0 < mtop y"
    "\<not> (mtop y = 1 \<and> mdig y ! 0 AND (mdig y ! 0 - 1) = 0)"
  shows "okR (mpdiv a b quo rmd s) (\<lambda>_. results quo (\<lambda>_ z. ival z = 0) rmd (\<lambda>_ w. nrm w \<and> ival w = ival x) s)"
proof -
  obtain z0 w0 where z0: "quo \<noteq> nil \<Longrightarrow> number s quo z0 \<and> usable quo" and w0: "rmd \<noteq> nil \<Longrightarrow> number s rmd w0 \<and> usable rmd"
    using assms(4,5) by (auto simp: resultpar_def)
  obtain w where w: "whenC (rmd \<noteq> nil) (mpassign a rmd) s = Ret () (putopt rmd w s)" "rmd \<noteq> nil \<Longrightarrow> nrm w \<and> ival w = ival x \<and> kept w0 w"
  proof (cases "rmd = nil")
    case False
    obtain w where "mpassign a rmd s = Ret () (put rmd w s)" "nrm w" "ival w = ival x" "kept w0 w"
      by (rule mpassign_ok [of s a x rmd w0]) (use w0 [OF False] assms(2) False in auto)
    then show ?thesis using that [of w] False by (simp add: putopt_def)
  qed (use that [of undefined] in \<open>simp add: putopt_def\<close>)
  define s1 where "s1 = putopt rmd w s"
  obtain z where z: "whenC (quo \<noteq> nil) (mpassign mpzero quo) s1 = Ret () (putopt quo z s1)" "quo \<noteq> nil \<Longrightarrow> nrm z \<and> ival z = 0 \<and> kept z0 z"
  proof (cases "quo = nil")
    case False
    have c: "cells s1 mpzero = Some mpzerocell" "cells s1 quo = Some z0"
      using assms(1,6) w0 z0 [OF False] by (auto simp: s1_def mpstok_def)
    obtain z where "mpassign mpzero quo s1 = Ret () (put quo z s1)" "nrm z" "ival z = ival mpzerocell" "kept z0 z"
      by (rule mpassign_ok [OF c False const_nrm(1)]) (use z0 [OF False] in auto)
    then show ?thesis using that [of z] False by (simp add: putopt_def)
  qed (use that [of undefined] in \<open>simp add: putopt_def\<close>)
  have run: "mpdiv a b quo rmd s = Ret () (putopt quo z s1)"
  proof -
    have c: "magcmp x y < 0" using magcmp_less [of x y] assms(2,3,7) by simp
    have "mpmagcmp a b s = Ret (magcmp x y) s" using assms(2,3) by (intro mpmagcmp_run) simp_all
    then show ?thesis using assms(2,3,6,8) c w(1) z(1) nrm_noflag(1) [of x] s1_def
      unfolding mpdiv_def withmp_run [OF conjunct1 [OF assms(3)]] if_not_P [OF assms(9)]
      by (simp add: nrm_def)
  qed
  have "results quo (\<lambda>_ z. ival z = 0) rmd (\<lambda>_ w. nrm w \<and> ival w = ival x) s (putopt quo z s1)"
    unfolding results_def using z(2) w(2) z0 w0 assms(6) by (auto simp: s1_def nrm0_def nrm_def)
  then show ?thesis using run by simp
qed

section \<open>Properties\<close>

lemma trunc_div:
  assumes "nrm x" "nrm y" "0 < ival y"
  shows "ival x sdiv ival y = msign x * int (mag x div mag y)" "ival x smod ival y = msign x * int (mag x mod mag y)"
proof -
  have y: "ival y = int (mag y)" using assms(2,3) by (auto simp: ival_def nrm_def)
  have sx: "msign x = 1 \<or> msign x = -1" using assms(1) by (auto simp: nrm_def)
  show "ival x sdiv ival y = msign x * int (mag x div mag y)"
    unfolding y using sx assms(3) by (cases "mag x = 0") (auto simp: ival_def signed_divide_int_def sgn_if zdiv_int y)
  show "ival x smod ival y = msign x * int (mag x mod mag y)"
    unfolding y using sx assms(3) by (cases "mag x = 0") (auto simp: ival_def signed_modulo_int_def sgn_if zmod_int y)
qed

lemma results_mono:
  assumes "results quo P rmd Q s s'" "\<And>y z. quo \<noteq> nil \<Longrightarrow> cells s quo = Some y \<Longrightarrow> P y z \<Longrightarrow> P' y z" "\<And>y z. nrm0 z \<Longrightarrow> Q y z \<Longrightarrow> Q' y z"
  shows "results quo P' rmd Q' s s'"
proof -
  note r = assms(1) [unfolded results_def]
  have "\<exists>y z. cells s quo = Some y \<and> cells s' quo = Some z \<and> nrm z \<and> kept y z \<and> P' y z" if n: "quo \<noteq> nil"
  proof -
    obtain y z where z: "cells s quo = Some y" "cells s' quo = Some z" "nrm z" "kept y z" "P y z"
      using mp [OF conjunct1 [OF conjunct2 [OF r]] n] by (elim exE conjE)
    from z(1,2,3,4) assms(2) [OF n z(1) z(5)] show ?thesis by (intro exI conjI)
  qed
  moreover have "\<exists>y z. cells s rmd = Some y \<and> cells s' rmd = Some z \<and> nrm0 z \<and> kept y z \<and> Q' y z" if n: "rmd \<noteq> nil"
  proof -
    obtain y z where z: "cells s rmd = Some y" "cells s' rmd = Some z" "nrm0 z" "kept y z" "Q y z"
      using mp [OF conjunct1 [OF conjunct2 [OF conjunct2 [OF r]]] n] by (elim exE conjE)
    from z(1,2,3,4) assms(3) [OF z(3) z(5)] show ?thesis by (intro exI conjI)
  qed
  ultimately show ?thesis unfolding results_def using conjunct1 [OF r] conjunct2 [OF conjunct2 [OF conjunct2 [OF r]]]
    by (intro conjI impI) simp_all
qed

lemma mpdiv_trunc:
  assumes "mpstok s" "number s a x" "number s b y" "0 < ival y" "resultpar s quo" "resultpar s rmd" "quo \<noteq> rmd"
    "\<And>z. cells s quo = Some z \<Longrightarrow> quo = a \<or> msign z = 1" "\<And>w. cells s rmd = Some w \<Longrightarrow> 2 \<le> length (mdig w)"
    "mdig x \<noteq> []" "mtop x = 0 \<Longrightarrow> mdig x ! 0 = 0"
  shows "okR (mpdiv a b quo rmd s)
    (\<lambda>_. results quo (\<lambda>_ z. ival z = ival x sdiv ival y) rmd (\<lambda>_ w. ival w = ival x smod ival y \<and> (msign x = 1 \<or> a = rmd \<longrightarrow> nrm w)) s)"
proof -
  have y: "0 < mtop y" "msign y = 1" "0 < mag y" using assms(3,4) mag_0 [of y] by (auto simp: ival_def nrm_def)
  note t = trunc_div [OF conjunct2 [OF assms(2)] conjunct2 [OF assms(3)] assms(4)]
  have sx: "msign x = 1 \<or> msign x = -1" using assms(2) by (auto simp: nrm_def)
  show ?thesis
  proof (cases "mtop y = 1 \<and> mdig y ! 0 AND (mdig y ! 0 - 1) = 0")
    case True
    then have p: "mtop y = 1" "mdig y ! 0 AND (mdig y ! 0 - 1) = 0" by simp_all
    have "unat (mdig x ! 0) mod mag y = mag x mod mag y"
    proof -
      have d0: "mdig y ! 0 \<noteq> 0" using assms(3) p(1) by (simp add: nrm_def)
      obtain j where j: "j < 32" "unat (mdig y ! 0) = 2 ^ j" by (rule power_of_two [OF d0 p(2)])
      have "take 1 (mdig y) = [mdig y ! 0]" using assms(3) p(1) by (cases "mdig y") (simp_all add: nrm_def)
      then have "mag y = 2 ^ j" using j p(1) by (simp add: mag_def)
      then show ?thesis using mag_mod [of x j] assms(2,10,11) j by simp
    qed
    note m = this
    show ?thesis unfolding t
    proof (rule okR_mono [OF mpdiv_pow2 [OF assms(1-3,5-7) p assms(10)]], rule assms(9))
      fix v s'
      assume "results quo (\<lambda>_ z. ival z = msign x * int (mag x div mag y))
        rmd (\<lambda>_ w. nrm w \<and> ival w = msign x * int (unat (mdig x ! 0) mod mag y)) s s'"
      then show "results quo (\<lambda>_ z. ival z = msign x * int (mag x div mag y)) rmd (\<lambda>_ w. ival w = msign x * int (mag x mod mag y) \<and> (msign x = 1 \<or> a = rmd \<longrightarrow> nrm w)) s s'"
        by (rule results_mono) (simp_all only: m simp_thms)
    qed
  next
    case False
    show ?thesis
    proof (cases "mag x < mag y")
      case True
      show ?thesis unfolding t
      proof (rule okR_mono [OF mpdiv_less [OF assms(1-3,5-7) True y(1) False]])
        fix v s'
        assume "results quo (\<lambda>_ z. ival z = 0) rmd (\<lambda>_ w. nrm w \<and> ival w = ival x) s s'"
        then show "results quo (\<lambda>_ z. ival z = msign x * int (mag x div mag y)) rmd (\<lambda>_ w. ival w = msign x * int (mag x mod mag y) \<and> (msign x = 1 \<or> a = rmd \<longrightarrow> nrm w)) s s'"
          by (rule results_mono) (use True in \<open>simp_all add: ival_def\<close>)
      qed
    next
      case ge: False
      then have le: "mag y \<le> mag x" by simp
      show ?thesis unfolding t
      proof (rule okR_mono [OF mpdiv_long [OF assms(1-3,5-7) le y(1) False]], erule results_mono, goal_cases)
        case (1 v s' z0 z)
        have "msign z = msign x"
        proof (cases "quo = a")
          case True
          with 1 assms(2) have "z0 = x" by simp
          with 1 sx y(2) show ?thesis by auto
        next
          case False
          with assms(8) [OF 1(2)] 1(3) sx y(2) show ?thesis by auto
        qed
        then show ?case using 1 by (simp add: ival_def)
      next
        case (2 v s' w0 w)
        have s: "msign w = msign x \<or> mag w = 0 \<and> msign w = 1" using 2(2) sx y(2) by (auto split: if_splits)
        have "nrm w" if "msign x = 1 \<or> a = rmd"
        proof (cases "msign w = 1")
          case True
          then show ?thesis using 2(1) by (auto simp: nrm0_def nrm_def split: if_splits)
        next
          case False
          then have "mtop w \<noteq> 0" using that 2(2) s mag_top [of w] y(2) by (auto split: if_splits)
          then show ?thesis using 2(1) by (simp add: nrm0_def)
        qed
        then show ?case using 2(2) s by (auto simp: ival_def)
      qed
    qed
  qed
qed

text \<open>C16. Dividing by a positive number, with any of the four numbers the same and either result left out, stores the
  quotient and the remainder of the division that truncates towards zero, without an access outside the digits
  allocated, and changes no other number. The quotient must not be negative before, unless it is the dividend; the
  remainder must have room for two digits; a dividend of no digits must have 0 in its unused lowest digit.\<close>

theorem mpdiv_exact:
  assumes "mpstok s" "number s a x" "number s b y" "0 < ival y" "resultpar s quo" "resultpar s rmd" "quo \<noteq> rmd"
    "\<And>z. cells s quo = Some z \<Longrightarrow> quo = a \<or> msign z = 1" "\<And>w. cells s rmd = Some w \<Longrightarrow> 2 \<le> length (mdig w)"
    "mdig x \<noteq> []" "mtop x = 0 \<Longrightarrow> mdig x ! 0 = 0"
  shows "okR (mpdiv a b quo rmd s)
    (\<lambda>_. results quo (\<lambda>_ z. ival z = ival x sdiv ival y) rmd (\<lambda>_ w. ival w = ival x smod ival y) s)"
  by (rule okR_mono [OF mpdiv_trunc [OF assms]], assumption+, erule results_mono) simp_all

theorem mpdiv_exact_witness:
  "okR (mpdiv 5 4 6 5 exst) (\<lambda>_. results 6 (\<lambda>_ z. ival z = -613566756) 5 (\<lambda>_ w. ival w = -4) exst)"
proof -
  have n: "mpstok exst" "number exst 4 (exnum 1 [7])" "number exst 5 (exnum (-1) [0, 1])" "number exst 6 (exnum 1 [])"
    using exst_ok by (simp_all add: allnrm_def) (simp_all add: exst_def nrm_def exnum_def)
  have v: "ival (exnum 1 [7]) = 7" "ival (exnum (-1) [0, 1]) = -4294967296"
    by (simp_all add: exnum_def mag_def ival_def)
  have t: "(-4294967296 :: int) sdiv 7 = -613566756" "(-4294967296 :: int) smod 7 = -4"
    by (simp_all add: signed_divide_int_def signed_modulo_int_def)
  show ?thesis using mpdiv_exact [OF n(1) n(3) n(2), of 6 5] n(3,4)
    by (simp add: v t resultpar_def) (simp add: exnum_def)
qed

section \<open>Where the division is not the division of integers\<close>

text \<open>C36. Dividing numbers of the same sign into a result that was negative before, when the divisor is not 0 and no power
  of two below \<open>2 ^ 32\<close> and the dividend is not smaller than the divisor in magnitude, gives the negated quotient: the
  quotient of two positive numbers is negative.\<close>

theorem mpdiv_stale_sign:
  assumes "mpstok s" "number s a x" "number s b y" "number s quo z0" "usable quo" "msign x = msign y" "msign z0 = -1"
    "mag y \<le> mag x" "0 < mtop y" "\<not> (mtop y = 1 \<and> mdig y ! 0 AND (mdig y ! 0 - 1) = 0)"
  shows "okR (mpdiv a b quo nil s) (\<lambda>_ s'. \<exists>z. cells s' quo = Some z \<and> ival z = - (ival x sdiv ival y) \<and> ival z < 0)"
proof (rule okR_mono [OF mpdiv_long [OF assms(1-3) _ _ _ assms(8-10), of quo nil]], goal_cases)
  case (4 v s')
  have sx: "msign x = 1 \<or> msign x = -1" and m: "0 < mag y"
    using assms(2,3,9) mag_0 [of y] by (auto simp: nrm_def)
  have q: "quo \<noteq> nil" using assms(5) by simp
  obtain z1 z where z: "cells s quo = Some z1" "cells s' quo = Some z" "mag z = mag x div mag y"
      "msign z = (if msign x \<noteq> msign y then -1 else msign z1)"
    using mp [OF conjunct1 [OF conjunct2 [OF 4 [unfolded results_def]]] q] by (elim exE conjE)
  have "z1 = z0" using z(1) assms(4) by simp
  then have i: "ival z = - int (mag x div mag y)" using z assms(6,7) by (simp add: ival_def)
  have "ival x sdiv ival y = int (mag x div mag y)"
    using sx assms(6) m by (auto simp: ival_def signed_divide_int_def sgn_if zdiv_int)
  moreover have "0 < mag x div mag y" using m assms(8) by (simp add: div_greater_zero_iff)
  ultimately show ?case using z(2) i by simp
qed (use assms(4,5) in \<open>auto simp: resultpar_def\<close>)

theorem mpdiv_stale_sign_witness:
  "okR (mpdiv 4 4 5 nil exst) (\<lambda>_ s'. \<exists>z. cells s' 5 = Some z \<and> ival z = -1)"
proof -
  have n: "mpstok exst" "number exst 4 (exnum 1 [7])" "number exst 5 (exnum (-1) [0, 1])"
    using exst_ok by (simp_all add: allnrm_def) (simp_all add: exst_def nrm_def exnum_def)
  have "okR (mpdiv 4 4 5 nil exst)
      (\<lambda>_ s'. \<exists>z. cells s' 5 = Some z \<and> ival z = - (ival (exnum 1 [7]) sdiv ival (exnum 1 [7])) \<and> ival z < 0)"
    by (rule mpdiv_stale_sign [OF n(1) n(2) n(2) n(3)]) (simp_all add: exnum_def)
  then show ?thesis by (rule okR_mono) (auto simp: exnum_def mag_def ival_def signed_divide_int_def)
qed

text \<open>The sign of a divisor that is a power of two is not looked at.\<close>

lemma mpdiv_negative_power:
  assumes "mpstok s" "number s a x" "number s b y" "number s quo z0" "usable quo"
    "msign y = -1" "mtop y = 1" "mdig y ! 0 AND (mdig y ! 0 - 1) = 0" "mdig x \<noteq> []"
  shows "okR (mpdiv a b quo nil s) (\<lambda>_ s'. \<exists>z. cells s' quo = Some z \<and> ival z = - (ival x sdiv ival y))"
proof (rule okR_mono [OF mpdiv_pow2 [OF assms(1-3) _ _ _ assms(7-9), of quo nil]], goal_cases)
  case (5 v s')
  have sx: "msign x = 1 \<or> msign x = -1" and m: "0 < mag y"
    using assms(2,3,7) mag_0 [of y] by (auto simp: nrm_def)
  have q: "quo \<noteq> nil" using assms(5) by simp
  obtain z1 z where z: "cells s' quo = Some z" "ival z = msign x * int (mag x div mag y)"
    using mp [OF conjunct1 [OF conjunct2 [OF 5 [unfolded results_def]]] q] by (elim exE conjE)
  have "ival x sdiv ival y = - (msign x * int (mag x div mag y))"
    using sx assms(6) m by (cases "mag x = 0") (auto simp: ival_def signed_divide_int_def sgn_if zdiv_int)
  then show ?case using z by simp
qed (use assms(1,4,5) in \<open>auto simp: resultpar_def mpstok_def\<close>)

text \<open>A dividend of no digits is divided by a power of two from whatever its lowest digit still holds.\<close>

lemma mpdiv_stale_digit:
  assumes "mpstok s" "number s a x" "number s b y" "number s rmd w0" "usable rmd" "2 \<le> length (mdig w0)"
    "mtop x = 0" "mtop y = 1" "mdig y ! 0 AND (mdig y ! 0 - 1) = 0" "mdig x \<noteq> []"
  shows "okR (mpdiv a b nil rmd s) (\<lambda>_ s'. \<exists>w. cells s' rmd = Some w \<and> ival w = int (unat (mdig x ! 0) mod mag y))"
proof (rule okR_mono [OF mpdiv_pow2 [OF assms(1-3) _ _ _ assms(8-10), of nil rmd]], goal_cases)
  case (5 v s')
  have q: "rmd \<noteq> nil" using assms(5) by simp
  have "msign x = 1" using assms(2,7) by (simp add: nrm_def)
  moreover obtain w1 w where "cells s' rmd = Some w" "ival w = msign x * int (unat (mdig x ! 0) mod mag y)"
    using mp [OF conjunct1 [OF conjunct2 [OF conjunct2 [OF 5 [unfolded results_def]]]] q] by (elim exE conjE)
  ultimately show ?case by simp
qed (use assms(1,4,5,6) in \<open>auto simp: resultpar_def\<close>)

end
