(* ===== verification/Mp_Num_Props.thy ===== *)
theory Mp_Num_Props
  imports Mp_Num Mp_Div_Props
begin

text \<open>
  The number theory of \<^verbatim>\<open>libmp\<close>. The routines run on a memory whose numbers are all in normal form and have
  room for two digits (\<open>good\<close>); there the effect of each operation of \<open>Mp\<close> and \<open>Mp_Div\<close> is a change of the
  integers the numbers stand for (\<open>ints\<close>). Loops on the memory end and meet their specification by the
  locale \<open>mploop\<close>.
\<close>

section \<open>Operations as changes of integers\<close>

definition good :: "mpst \<Rightarrow> bool" where
  "good s \<longleftrightarrow> allnrm s \<and> 2 \<le> mindigits s \<and> (\<forall>b x. usable b \<longrightarrow> cells s b = Some x \<longrightarrow> 2 \<le> length (mdig x))"

text \<open>\<open>to m s s'\<close>: the memory \<open>s\<close> has become \<open>s'\<close>, with the integers \<open>m\<close>.\<close>

definition to :: "(nat \<Rightarrow> int option) \<Rightarrow> mpst \<Rightarrow> mpst \<Rightarrow> bool" where
  "to m s s' \<longleftrightarrow> good s' \<and> ints s' = m \<and> brk s \<le> brk s'"

lemma good_number: "good s \<Longrightarrow> ints s b = Some i \<Longrightarrow> (\<And>x. number s b x \<Longrightarrow> ival x = i \<Longrightarrow> P) \<Longrightarrow> P"
  by (auto simp: good_def allnrm_def ints_def)

lemma good_some: "good s \<Longrightarrow> ints s b \<noteq> None \<Longrightarrow> (\<And>x. number s b x \<Longrightarrow> P) \<Longrightarrow> P"
  by (auto simp: good_def allnrm_def ints_def)

lemma good_ok: "good s \<Longrightarrow> mpstok s"
  by (simp add: good_def allnrm_def)

lemma good_const: "good s \<Longrightarrow> ints s mpzero = Some 0" "good s \<Longrightarrow> ints s mpone = Some 1" "good s \<Longrightarrow> ints s nil = None"
  by (simp_all add: good_def allnrm_def mpstok_def ints_def)

lemma good_fresh: "good s \<Longrightarrow> brk s \<le> b \<Longrightarrow> ints s b = None" "good s \<Longrightarrow> 3 < brk s"
  using mpstok_fresh(2) [OF good_ok] by (auto simp: good_def allnrm_def mpstok_def ints_def)

lemma good_put:
  assumes "good s" "nrm z" "2 \<le> length (mdig z)" "\<not> fstatic z" "cells s' = (cells s)(r \<mapsto> z)" "usable r" "r < brk s'"
    "brk s \<le> brk s'" "mindigits s' = mindigits s"
  shows "to ((ints s)(r \<mapsto> ival z)) s s'"
proof -
  have "mpstok s'" using good_ok [OF assms(1)] assms(4-9) unfolding mpstok_def
    by (auto split: if_splits)
  moreover have "ints s' = (ints s)(r \<mapsto> ival z)" using assms(5) by (auto simp: ints_def)
  ultimately show ?thesis using assms by (auto simp: to_def good_def allnrm_def)
qed

lemma becomes_to: "good s \<Longrightarrow> usable r \<Longrightarrow> becomes r v s s' \<Longrightarrow> to ((ints s)(r \<mapsto> v)) s s'"
proof -
  assume a: "good s" "usable r" "becomes r v s s'"
  then obtain y z where z: "cells s r = Some y" "nrm z" "ival z = v" "kept y z" "cells s' = (cells s)(r \<mapsto> z)" "brk s \<le> brk s'" "mindigits s' = mindigits s"
    by (auto simp: becomes_def)
  moreover have "\<not> fstatic y" "2 \<le> length (mdig y)" "r < brk s" using a(1,2) z(1) by (auto simp: good_def allnrm_def mpstok_def)
  ultimately show ?thesis using good_put [OF a(1) z(2) _ _ z(5) a(2)] by (auto simp: kept_def)
qed

context mpop
begin

lemma changes:
  assumes "good s" "ints s b1 = Some i1" "ints s b2 = Some i2" "ints s r \<noteq> None" "usable r"
  shows "okR (opr b1 b2 r s) (\<lambda>_. to ((ints s)(r \<mapsto> f i1 i2)) s)"
proof -
  obtain x1 x2 y where n: "number s b1 x1" "number s b2 x2" "number s r y" "ival x1 = i1" "ival x2 = i2"
    using good_number [OF assms(1,2)] good_number [OF assms(1,3)] good_some [OF assms(1,4)] by metis
  have "okR (opr b1 b2 r s) (\<lambda>_. becomes r (f i1 i2) s)"
    using opr_becomes [OF good_ok [OF assms(1)] n(1-3) assms(5)] n(4,5) by simp
  then show ?thesis by (rule okR_mono) (rule becomes_to [OF assms(1,5)])
qed

end

lemma mpassign_to:
  assumes "good s" "ints s a = Some i" "ints s r \<noteq> None" "usable r"
  shows "okR (mpassign a r s) (\<lambda>_. to ((ints s)(r \<mapsto> i)) s)"
proof -
  obtain x y where n: "number s a x" "ival x = i" "number s r y" 
    using good_number [OF assms(1,2)] good_some [OF assms(1,3)] by metis
  have "r \<noteq> nil" using assms(4) by simp
  obtain z where z: "mpassign a r s = Ret () (put r z s)" "nrm z" "ival z = ival x" "kept y z"
    by (rule mpassign_ok [of s a x r y]) (use n \<open>r \<noteq> nil\<close> in auto)
  then show ?thesis using becomes_to [OF assms(1,4) becomes_put [of s r y z i]] n by simp
qed

lemma mpfree_to:
  assumes "good s" "ints s b \<noteq> None" "usable b"
  shows "okR (mpfree b s) (\<lambda>_. to ((ints s)(b := None)) s)"
proof -
  obtain x where x: "cells s b = Some x" using assms(2) by (auto simp: ints_def)
  have "\<not> fstatic x" using good_ok [OF assms(1)] assms(3) x by (simp add: mpstok_def)
  with x assms(3) have "mpfree b s = Ret () (s\<lparr>cells := (cells s)(b := None)\<rparr>)" by simp
  then show ?thesis using assms by (auto simp: to_def good_def allnrm_def mpstok_def ints_def)
qed

text \<open>A new number is the next cell, which was not in use.\<close>

definition fresh :: "int \<Rightarrow> mpst \<Rightarrow> nat \<Rightarrow> mpst \<Rightarrow> bool" where
  "fresh i s b s' \<longleftrightarrow> b = brk s \<and> brk s' = Suc b \<and> to ((ints s)(b \<mapsto> i)) s s'"

lemma mpnew_to:
  assumes "good s"
  shows "okR (mpnew 0 s) (fresh 0 s)"
proof -
  have d: "DIGITS 0 = 0" by (simp add: DIGITS_def signed_divide_int_def)
  let ?z = "\<lparr>msign = 1, mtop = 0, mdig = replicate (mindigits s) 0, fstatic = False, fnorm = True, ftimesafe = False, ffield = False\<rparr>"
  have r: "mpnew 0 s = Ret (brk s) (put (brk s) ?z (s\<lparr>brk := brk s + 1\<rparr>))" using mpnew_run [of 0 s] d by simp
  have z: "nrm ?z" "ival ?z = 0" "2 \<le> length (mdig ?z)" using assms by (auto simp: nrm_def ival_def mag_def good_def)
  show ?thesis unfolding r using good_put [OF assms z(1,3), of "put (brk s) ?z (s\<lparr>brk := brk s + 1\<rparr>)" "brk s"] good_fresh(2) [OF assms] z(2)
    by (auto simp: fresh_def put_def)
qed

text \<open>The digits of a copy that are not in use are 0.\<close>

lemma mpcopy_run:
  assumes "2 \<le> mindigits s" "number s a x"
  obtains z where "mpcopy a s = Ret (brk s) (put (brk s) z (s\<lparr>brk := brk s + 1\<rparr>))" "nrm z" "ival z = ival x" "2 \<le> length (mdig z)"
    "\<not> fstatic z" "\<not> ffield z" "mtop z = 0 \<longrightarrow> mdig z ! 0 = 0" "mtop z = mtop x" "msign z = msign x"
proof -
  let ?n = "max (length (mdig x)) (mindigits s)"
  let ?z = "\<lparr>msign = msign x, mtop = mtop x, mdig = overwrite 0 (take (mtop x) (mdig x)) (replicate ?n 0), fstatic = False,
    fnorm = True, ftimesafe = False, ffield = False\<rparr>"
  have x: "mtop x \<le> length (mdig x)" "fnorm x" "\<not> ftimesafe x" using assms(2) by (simp_all add: nrm_def)
  have l: "mtop x \<le> ?n" "2 \<le> ?n" using x(1) assms(1) by auto
  have g: "take (mtop x) (mdig ?z) = take (mtop x) (mdig x)" using x(1) l(1) by (simp add: overwrite_def)
  have m: "mag ?z = mag x" using g by (simp add: mag_def)
  have t: "mdig ?z ! (mtop x - 1) = mdig x ! (mtop x - 1)" if "mtop x \<noteq> 0"
    using that arg_cong [OF g, of "\<lambda>l. l ! (mtop x - 1)"] by simp
  have run: "mpcopy a s = Ret (brk s) (put (brk s) ?z (s\<lparr>brk := brk s + 1\<rparr>))"
    using assms(2) x l mpnew_run [of "int (Dbits * length (mdig x))" s] DIGITS_mult(2) [of "length (mdig x)"]
    by (simp add: mpcopy_def)
  show ?thesis
    by (rule that [OF run]) (use assms(2) l m t in \<open>auto simp: nrm_def ival_def overwrite_def\<close>)
qed

lemma mpcopy_to:
  assumes "good s" "ints s a = Some i"
  shows "okR (mpcopy a s) (fresh i s)"
proof -
  obtain x where x: "number s a x" "ival x = i" using assms by (auto elim: good_number)
  obtain z where z: "mpcopy a s = Ret (brk s) (put (brk s) z (s\<lparr>brk := brk s + 1\<rparr>))" "nrm z" "ival z = ival x" "2 \<le> length (mdig z)" "\<not> fstatic z"
    by (rule mpcopy_run [of s a x]) (use assms(1) x(1) in \<open>auto simp: good_def\<close>)
  show ?thesis unfolding z(1)
    using good_put [OF assms(1) z(2,4,5), of "put (brk s) z (s\<lparr>brk := brk s + 1\<rparr>)" "brk s"] good_fresh(2) [OF assms(1)] z(3) x(2)
    by (auto simp: fresh_def put_def)
qed

text \<open>Division of a positive number by a positive number.\<close>

lemma results_to:
  assumes "good s" "results quo P rmd Q s s'" "quo = nil \<or> usable quo" "usable rmd" "quo \<noteq> rmd"
    "\<And>y z. quo \<noteq> nil \<Longrightarrow> P y z \<Longrightarrow> ival z = i" "\<And>y z. Q y z \<Longrightarrow> nrm z \<and> ival z = j"
  shows "to (((ints s)(rmd \<mapsto> j))(quo := if quo = nil then None else Some i)) s s'"
proof -
  note r = assms(2) [unfolded results_def]
  obtain y z where z: "cells s rmd = Some y" "cells s' rmd = Some z" "kept y z" "nrm z" "ival z = j"
    using mp [OF conjunct1 [OF conjunct2 [OF conjunct2 [OF r]]]] assms(4,7) by fastforce
  have e: "brk s \<le> brk s'" "mindigits s' = mindigits s" using conjunct2 [OF conjunct2 [OF conjunct2 [OF r]]] by simp_all
  have c: "cells s' c = cells s c" if "c = nil \<or> c \<notin> {quo, rmd}" for c using conjunct1 [OF r] that by blast
  have n: "rmd < brk s" "\<not> fstatic y" "2 \<le> length (mdig y)"
    using assms(1,4) z(1) by (auto simp: good_def allnrm_def mpstok_def)
  define s1 where "s1 = s\<lparr>cells := (cells s)(rmd \<mapsto> z), brk := brk s'\<rparr>"
  have s1: "to ((ints s)(rmd \<mapsto> j)) s s1"
    using good_put [OF assms(1) z(4), of s1 rmd] z(3,5) n e assms(4) by (auto simp: s1_def kept_def)
  show ?thesis
  proof (cases "quo = nil")
    case True
    have "cells s' b = cells s1 b" for b using c [of b] z(2) True assms(4) by (cases "b = rmd") (auto simp: s1_def)
    then have "cells s' = cells s1" by blast
    then have "s' = s1" using e by (cases s', cases s) (simp add: s1_def)
    moreover have "ints s nil = None" by (rule good_const(3) [OF assms(1)])
    ultimately show ?thesis using s1 True assms(4) by (simp add: fun_upd_idem)
  next
    case False
    obtain y1 z1 where z1: "cells s quo = Some y1" "cells s' quo = Some z1" "nrm z1" "kept y1 z1" "ival z1 = i"
      using mp [OF conjunct1 [OF conjunct2 [OF r]] False] assms(6) [OF False] by blast
    have n1: "quo < brk s" "\<not> fstatic y1" "2 \<le> length (mdig y1)"
      using assms(1,3) False z1(1) by (auto simp: good_def allnrm_def mpstok_def)
    have "cells s' = (cells s1)(quo \<mapsto> z1)" using c z(2) z1(2) False by (auto simp: s1_def fun_eq_iff)
    then have "to ((ints s1)(quo \<mapsto> i)) s1 s'"
      using good_put [of s1 z1 s' quo] s1 z1(3,4,5) n1 e assms(3) False by (auto simp: to_def s1_def kept_def)
    then show ?thesis using s1 False by (auto simp: to_def)
  qed
qed

lemma mpdiv_to:
  assumes "good s" "ints s a = Some i" "0 < i" "ints s b = Some j" "0 < j" "ints s quo = Some k" "0 \<le> k" "ints s rmd \<noteq> None"
    "usable quo" "usable rmd" "quo \<noteq> rmd"
  shows "okR (mpdiv a b quo rmd s) (\<lambda>_. to ((ints s)(rmd \<mapsto> i mod j, quo \<mapsto> i div j)) s)"
proof -
  obtain x y z w where n: "number s a x" "ival x = i" "number s b y" "ival y = j" "number s quo z" "ival z = k" "number s rmd w"
    using good_number [OF assms(1,2)] good_number [OF assms(1,4)] good_number [OF assms(1,6)] good_some [OF assms(1,8)] by metis
  have "mtop x \<noteq> 0" using n(2) assms(3) mag_top [of x] by (cases "mtop x = 0") (simp_all add: ival_def)
  then have x: "msign x = 1" "mtop x \<noteq> 0" "mdig x \<noteq> []" using n(1,2) assms(3) by (auto simp: nrm_def ival_def)
  have z: "msign z = 1" using n(5,6) assms(7) mag_0 [of z] by (auto simp: nrm_def ival_def zero_le_mult_iff)
  have w: "2 \<le> length (mdig w)" using assms(1,10) n(7) by (auto simp: good_def)
  have v: "ival x sdiv ival y = i div j" "ival x smod ival y = i mod j"
    using n(2,4) assms(3,5) by (simp_all add: signed_divide_int_def signed_modulo_int_def)
  have "okR (mpdiv a b quo rmd s) (\<lambda>_. results quo (\<lambda>_ z. ival z = ival x sdiv ival y)
      rmd (\<lambda>_ w. ival w = ival x smod ival y \<and> (msign x = 1 \<or> a = rmd \<longrightarrow> nrm w)) s)"
    by (rule mpdiv_trunc [OF good_ok [OF assms(1)] n(1,3)]) (use n assms(5,9-11) x z w in \<open>auto simp: resultpar_def\<close>)
  then show ?thesis
  proof (rule okR_mono)
    fix u s'
    assume "results quo (\<lambda>_ z. ival z = ival x sdiv ival y) rmd (\<lambda>_ w. ival w = ival x smod ival y \<and> (msign x = 1 \<or> a = rmd \<longrightarrow> nrm w)) s s'"
    from results_to [OF assms(1) this, of "i div j" "i mod j"] show "to ((ints s)(rmd \<mapsto> i mod j, quo \<mapsto> i div j)) s s'"
      using assms(9-11) v x(1) by simp
  qed
qed

lemma mpcmp_to:
  assumes "good s" "ints s a = Some i" "ints s b = Some j"
  obtains c where "mpcmp a b s = Ret c s" "c < 0 \<longleftrightarrow> i < j" "c = 0 \<longleftrightarrow> i = j"
proof -
  obtain x y where n: "number s a x" "ival x = i" "number s b y" "ival y = j"
    using good_number [OF assms(1,2)] good_number [OF assms(1,3)] by metis
  obtain c where c: "mpcmp a b s = Ret c s" "sgn c = sgn (ival x - ival y)"
    by (rule mpcmp_ok [of s a x b y]) (use n in auto)
  have "c < 0 \<longleftrightarrow> i < j" "c = 0 \<longleftrightarrow> i = j" using c(2) n(2,4) by (simp_all add: sgn_if split: if_splits)
  then show ?thesis using that c(1) by blast
qed

section \<open>Loops\<close>

lemma bindO_ok: "okR m (\<lambda>a s. \<exists>r. f a s = Some r \<and> okR r Q) \<Longrightarrow> \<exists>r. bindO m f = Some r \<and> okR r Q"
  by (auto simp: okR_def bindO_def)

text \<open>A loop that keeps an invariant, lowers a measure in each turn and leaves \<open>Q\<close> when its test fails.\<close>

locale mploop =
  fixes test :: "'x \<Rightarrow> bool cmd" and body :: "'x \<Rightarrow> 'x cmd" and I :: "'x \<Rightarrow> mpst \<Rightarrow> bool" and m :: "'x \<Rightarrow> mpst \<Rightarrow> nat" and Q :: "'x \<Rightarrow> mpst \<Rightarrow> bool"
  assumes turn: "I x s \<Longrightarrow> okR (test x s) (\<lambda>c s'. if c then okR (body x s') (\<lambda>x' s''. I x' s'' \<and> m x' s'' < m x s) else Q x s')"
begin

lemma returns: "I x s \<Longrightarrow> \<exists>r. whileC test body x s = Some r \<and> okR r Q"
proof (induction "m x s" arbitrary: x s rule: less_induct)
  case less
  from turn [OF less.prems] show ?case
    unfolding whileC.simps [of test body x s]
  proof (intro bindO_ok, elim okR_mono, goal_cases)
    case (1 c s')
    then show ?case
    proof (cases c)
      case True
      with 1 have "okR (body x s') (\<lambda>x' s''. I x' s'' \<and> m x' s'' < m x s)" by simp
      then have "okR (body x s') (\<lambda>x' s''. \<exists>r. whileC test body x' s'' = Some r \<and> okR r Q)"
        by (rule okR_mono) (use less.hyps in blast)
      with True show ?thesis using bindO_ok by simp
    qed simp
  qed
qed

end

section \<open>The greatest common divisor\<close>

lemma block_to:
  "okR (c s) (\<lambda>_. to m s) \<Longrightarrow> (\<And>s'. good s' \<Longrightarrow> ints s' = m \<Longrightarrow> brk s \<le> brk s' \<Longrightarrow> okR (block cs s') Q) \<Longrightarrow> okR (block (c # cs) s) Q"
  by (auto simp: to_def elim: okR_mono)

lemma exec_to:
  "good s \<Longrightarrow> list_all (allowed (dom (ints s))) is \<Longrightarrow> okR (block (map exec1 is) s) (\<lambda>_. to (fold eval1 is (ints s)) s)"
proof (induction "is" arbitrary: s)
  case (Cons i "is")
  have "okR (exec1 i s) (\<lambda>_. to (eval1 i (ints s)) s)"
    using Cons.prems padd.changes [OF Cons.prems(1)] psub.changes [OF Cons.prems(1)] pmul.changes [OF Cons.prems(1)]
    by (cases i) (auto simp: allowed_def)
  then show ?case
  proof (simp, elim okR_mono)
    fix s' assume t: "to (eval1 i (ints s)) s s'"
    have "okR (block (map exec1 is) s') (\<lambda>_. to (fold eval1 is (ints s')) s')"
      using t Cons.prems eval1_dom [of "ints s" i] by (intro Cons.IH) (auto simp: to_def)
    then show "okR (block (map exec1 is) s') (\<lambda>_. to (fold eval1 is (eval1 i (ints s))) s)"
      by (rule okR_mono) (use t in \<open>auto simp: to_def\<close>)
  qed
qed (simp add: to_def)

definition regs :: "eregs \<Rightarrow> nat list" where
  "regs R = [ra R, rb R, rx0 R, rx1 R, rx2 R, ry0 R, ry1 R, ry2 R, rq R, rr R]"

text \<open>The invariant of the loop for the numbers \<open>a0\<close> and \<open>b0\<close>, when the integers outside the variables are \<open>M\<close>.\<close>

definition euclid_inv :: "int \<Rightarrow> int \<Rightarrow> (nat \<Rightarrow> int option) \<Rightarrow> eregs \<Rightarrow> mpst \<Rightarrow> bool" where
  "euclid_inv a0 b0 M R s \<longleftrightarrow> good s \<and> distinct (regs R) \<and> (\<forall>c \<in> set (regs R). usable c \<and> M c = None \<and> ints s c \<noteq> None) \<and>
     (\<forall>c. c \<notin> set (regs R) \<longrightarrow> ints s c = M c) \<and>
     (\<exists>a b q x1 x2 y1 y2. ints s (ra R) = Some a \<and> ints s (rb R) = Some b \<and> ints s (rq R) = Some q \<and>
        ints s (rx1 R) = Some x1 \<and> ints s (rx2 R) = Some x2 \<and> ints s (ry1 R) = Some y1 \<and> ints s (ry2 R) = Some y2 \<and>
        0 < a \<and> 0 \<le> b \<and> 0 \<le> q \<and> a0 * x2 + b0 * y2 = a \<and> a0 * x1 + b0 * y1 = b \<and> gcd a b = gcd a0 b0)"

definition euclid_left :: "eregs \<Rightarrow> mpst \<Rightarrow> nat" where
  "euclid_left R s = (case ints s (rb R) of Some b \<Rightarrow> nat b | None \<Rightarrow> 0)"

lemma euclid_turn_ok:
  assumes "euclid_inv a0 b0 M R s" "ints s (rb R) = Some b" "0 < b"
  shows "okR (euclid_turn R s) (\<lambda>R' s'. euclid_inv a0 b0 M R' s' \<and> euclid_left R' s' < euclid_left R s)"
proof -
  let ?R = "R\<lparr>ra := rb R, rb := rr R, rr := ra R, rx2 := rx1 R, rx1 := rx0 R, rx0 := rx2 R, ry2 := ry1 R, ry1 := ry0 R, ry0 := ry2 R\<rparr>"
  note inv = assms(1) [unfolded euclid_inv_def]
  have g: "good s" and d: "distinct (regs R)" and u: "\<And>c. c \<in> set (regs R) \<Longrightarrow> usable c \<and> M c = None \<and> ints s c \<noteq> None"
    and o: "\<And>c. c \<notin> set (regs R) \<Longrightarrow> ints s c = M c"
    using inv by blast+
  obtain a q x1 x2 y1 y2 where v: "ints s (ra R) = Some a" "ints s (rq R) = Some q"
      "ints s (rx1 R) = Some x1" "ints s (rx2 R) = Some x2" "ints s (ry1 R) = Some y1" "ints s (ry2 R) = Some y2"
      "0 < a" "0 \<le> q" "a0 * x2 + b0 * y2 = a" "a0 * x1 + b0 * y1 = b" "gcd a b = gcd a0 b0"
    using inv assms(2) by auto
  have us: "usable (rq R)" "usable (rr R)" "usable (rx0 R)" "usable (ry0 R)" "ints s (rx0 R) \<noteq> None" "ints s (ry0 R) \<noteq> None" "ints s (rr R) \<noteq> None"
    using u by (simp_all add: regs_def)
  have dd: "distinct [ra R, rb R, rx0 R, rx1 R, rx2 R, ry0 R, ry1 R, ry2 R, rq R, rr R]" using d by (simp only: regs_def)
  let ?q = "a div b" and ?r = "a mod b"
  define m1 where "m1 = (ints s)(rr R \<mapsto> ?r, rq R \<mapsto> ?q)"
  define m2 where "m2 = m1(rx0 R \<mapsto> x2 - ?q * x1, ry0 R \<mapsto> y2 - ?q * y1)"
  note m = m1_def m2_def
  have fin: "euclid_inv a0 b0 M ?R s' \<and> euclid_left ?R s' < euclid_left R s" if s': "good s'" "ints s' = m2" for s'
  proof -
    have r: "distinct (regs ?R)" "set (regs ?R) = set (regs R)" using dd by (auto simp: regs_def)
    have i: "m2 (rb R) = Some b" "m2 (rr R) = Some ?r" "m2 (rq R) = Some ?q" "m2 (rx0 R) = Some (x2 - ?q * x1)" "m2 (rx1 R) = Some x1"
      "m2 (ry0 R) = Some (y2 - ?q * y1)" "m2 (ry1 R) = Some y1"
      using dd v assms(2) by (auto simp: m)
    have "m2 c = ints s c" if "c \<notin> set (regs R)" for c using that by (simp add: m regs_def)
    moreover have "m2 c \<noteq> None" if "ints s c \<noteq> None" for c using that by (simp add: m)
    ultimately have w: "\<forall>c. c \<notin> set (regs R) \<longrightarrow> m2 c = M c" "\<forall>c \<in> set (regs R). m2 c \<noteq> None"
      using o u by simp_all
    have e: "a0 * (x2 - ?q * x1) + b0 * (y2 - ?q * y1) = ?r"
    proof -
      have "a0 * (x2 - ?q * x1) + b0 * (y2 - ?q * y1) = (a0 * x2 + b0 * y2) - ?q * (a0 * x1 + b0 * y1)" by (simp add: algebra_simps)
      also have "\<dots> = a - a div b * b" unfolding v(9,10) ..
      finally show ?thesis by (simp add: minus_div_mult_eq_mod)
    qed
    have "gcd b ?r = gcd a0 b0" using v(11) by (simp add: gcd_red_int [symmetric])
    moreover have "0 \<le> ?r" "?r < b" "0 \<le> ?q" using assms(3) v(7) by (simp_all add: pos_imp_zdiv_nonneg_iff)
    moreover have "\<forall>c \<in> set (regs R). usable c \<and> M c = None \<and> m2 c \<noteq> None" using u w(2) by blast
    ultimately have "euclid_inv a0 b0 M ?R s'" unfolding euclid_inv_def s'(2) r(2)
      using s'(1) r(1) w(1) i v(10) e assms(3) by simp
    moreover have "euclid_left ?R s' < euclid_left R s"
      unfolding euclid_left_def s'(2) using i(2) assms(2,3) by simp
    ultimately show ?thesis ..
  qed
  have "okR (block (mpdiv (ra R) (rb R) (rq R) (rr R) # map exec1 [Mul (rq R) (rx1 R) (rx0 R), Sub (rx2 R) (rx0 R) (rx0 R),
      Mul (rq R) (ry1 R) (ry0 R), Sub (ry2 R) (ry0 R) (ry0 R)]) s) (\<lambda>_ s'. good s' \<and> ints s' = m2)"
  proof (rule block_to [where m = m1])
    show "okR (mpdiv (ra R) (rb R) (rq R) (rr R) s) (\<lambda>_. to m1 s)"
      unfolding m1_def by (rule mpdiv_to [OF g v(1) v(7) assms(2,3) v(2) v(8)]) (use us dd in auto)
    fix s1 assume s1: "good s1" "ints s1 = m1"
    let ?is = "[Mul (rq R) (rx1 R) (rx0 R), Sub (rx2 R) (rx0 R) (rx0 R), Mul (rq R) (ry1 R) (ry0 R), Sub (ry2 R) (ry0 R) (ry0 R)]"
    have p: "m1 (rq R) = Some ?q" "m1 (rx1 R) = Some x1" "m1 (rx2 R) = Some x2" "m1 (ry1 R) = Some y1" "m1 (ry2 R) = Some y2"
      "m1 (rx0 R) \<noteq> None" "m1 (ry0 R) \<noteq> None" using dd v us by (auto simp: m1_def)
    have "list_all (allowed (dom (ints s1))) ?is" using us p by (auto simp: s1(2) allowed_def)
    note e = exec_to [OF s1(1) this]
    have "rx2 R \<noteq> rx0 R" "rq R \<noteq> rx0 R" "ry1 R \<noteq> rx0 R" "ry2 R \<noteq> rx0 R" "ry2 R \<noteq> ry0 R" using dd by auto
    then have "fold eval1 ?is m1 = m2" using p by (simp add: m2_def)
    then have "okR (block (map exec1 ?is) s1) (\<lambda>_. to m2 s1)" using e by (simp only: s1(2))
    then show "okR (block (map exec1 ?is) s1) (\<lambda>_ s'. good s' \<and> ints s' = m2)"
      by (rule okR_mono) (simp only: to_def simp_thms)
  qed
  then show ?thesis unfolding euclid_turn_def okR_bindR by (simp, elim okR_mono) (use fin in simp)
qed

lemma euclid_test_ok:
  assumes "euclid_inv a0 b0 M R s"
  obtains b where "euclid_test R s = Ret (0 < b) s" "ints s (rb R) = Some b" "0 \<le> b"
proof -
  have g: "good s" using assms by (simp add: euclid_inv_def)
  obtain b where b: "ints s (rb R) = Some b" "0 \<le> b" using assms unfolding euclid_inv_def by blast
  obtain x where x: "number s (rb R) x" "ival x = b" using g b(1) by (auto elim: good_number)
  have "mtop x \<noteq> 0 \<and> 0 < msign x \<longleftrightarrow> 0 < b" using x b(2) mag_0 [of x] by (auto simp: ival_def nrm_def)
  then have "euclid_test R s = Ret (0 < b) s" using x(1) by (simp add: euclid_test_def)
  then show ?thesis using that b by blast
qed

interpretation eloop: mploop euclid_test euclid_turn "euclid_inv a0 b0 M" euclid_left "\<lambda>R s. euclid_inv a0 b0 M R s \<and> ints s (rb R) = Some 0"
  for a0 b0 M
proof
  fix R s
  assume i: "euclid_inv a0 b0 M R s"
  obtain b where b: "euclid_test R s = Ret (0 < b) s" "ints s (rb R) = Some b" "0 \<le> b" by (rule euclid_test_ok [OF i])
  show "okR (euclid_test R s) (\<lambda>c s'. if c then okR (euclid_turn R s') (\<lambda>R' s''. euclid_inv a0 b0 M R' s'' \<and> euclid_left R' s'' < euclid_left R s)
      else euclid_inv a0 b0 M R s' \<and> ints s' (rb R) = Some 0)"
    unfolding b(1) okR_Ret using euclid_turn_ok [OF i b(2)] i b(2,3) by (cases "0 < b") simp_all
qed

lemma alloc:
  "okR (c s) (fresh i s) \<Longrightarrow>
     (\<And>s'. good s' \<Longrightarrow> ints s' = (ints s)(brk s \<mapsto> i) \<Longrightarrow> brk s' = Suc (brk s) \<Longrightarrow> okR (f (brk s) s') Q) \<Longrightarrow> okR (bindR (c s) f) Q"
  by (auto simp: fresh_def to_def okR_def)

lemma free_all:
  "good s \<Longrightarrow> distinct cs \<Longrightarrow> \<forall>c \<in> set cs. usable c \<and> ints s c \<noteq> None \<Longrightarrow>
     okR (block (map mpfree cs) s) (\<lambda>_. to (\<lambda>c. if c \<in> set cs then None else ints s c) s)"
proof (induction cs arbitrary: s)
  case (Cons c cs)
  have "okR (mpfree c s) (\<lambda>_. to ((ints s)(c := None)) s)" using Cons.prems by (intro mpfree_to) auto
  then have "okR (block (mpfree c # map mpfree cs) s) (\<lambda>_. to (\<lambda>x. if x \<in> set (c # cs) then None else ints s x) s)"
  proof (rule block_to)
    fix s'
    assume s': "good s'" "ints s' = (ints s)(c := None)" "brk s \<le> brk s'"
    have "okR (block (map mpfree cs) s') (\<lambda>_. to (\<lambda>x. if x \<in> set cs then None else ints s' x) s')"
      using Cons.prems s'(2) by (intro Cons.IH [OF s'(1)]) auto
    moreover have "(\<lambda>x. if x \<in> set cs then None else ints s' x) = (\<lambda>x. if x \<in> set (c # cs) then None else ints s x)"
      using s'(2) by auto
    ultimately show "okR (block (map mpfree cs) s') (\<lambda>_. to (\<lambda>x. if x \<in> set (c # cs) then None else ints s x) s)"
      using s'(3) by (auto simp: to_def elim: okR_mono)
  qed
  then show ?case by simp
qed (simp add: to_def)

lemma euclid_end_ok:
  assumes "euclid_inv a0 b0 M R s" "ints s (rb R) = Some 0" "distinct [d, x, y]" "usable d" "usable x" "usable y"
    "M d \<noteq> None" "M x \<noteq> None" "M y \<noteq> None"
  shows "okR (euclid_end d x y R s) (\<lambda>_ s'. good s' \<and> (\<exists>u v. ints s' = M(d \<mapsto> gcd a0 b0, x \<mapsto> u, y \<mapsto> v) \<and> a0 * u + b0 * v = gcd a0 b0))"
proof -
  note inv = assms(1) [unfolded euclid_inv_def]
  have g: "good s" and dr: "distinct (regs R)" and u: "\<And>c. c \<in> set (regs R) \<Longrightarrow> usable c \<and> M c = None \<and> ints s c \<noteq> None"
    and o: "\<And>c. c \<notin> set (regs R) \<Longrightarrow> ints s c = M c"
    using inv by blast+
  obtain a b x2 y2 where v: "ints s (ra R) = Some a" "ints s (rx2 R) = Some x2" "ints s (ry2 R) = Some y2" "0 < a"
      "a0 * x2 + b0 * y2 = a" "gcd a b = gcd a0 b0" "ints s (rb R) = Some b"
    using inv by (elim conjE exE)
  have a: "a = gcd a0 b0" using v(4,6,7) assms(2) by simp
  have r: "ra R \<in> set (regs R)" "rx2 R \<in> set (regs R)" "ry2 R \<in> set (regs R)" by (simp_all add: regs_def)
  have "c \<notin> set (regs R)" if "M c \<noteq> None" for c using u [of c] that by blast
  note n = this [OF assms(7)] this [OF assms(8)] this [OF assms(9)]
  have e: "ints s d \<noteq> None" "ints s x \<noteq> None" "ints s y \<noteq> None" using o n assms(7-9) by simp_all
  let ?fs = "[rx0 R, rx1 R, rx2 R, ry0 R, ry1 R, ry2 R, rq R, rr R, ra R, rb R]"
  have fs: "distinct ?fs" "set ?fs = set (regs R)" using dr by (auto simp: regs_def)
  define m where "m = (ints s)(d \<mapsto> a, x \<mapsto> x2, y \<mapsto> y2)"
  have mm: "(\<lambda>c. if c \<in> set (regs R) then None else m c) = M(d \<mapsto> gcd a0 b0, x \<mapsto> x2, y \<mapsto> y2)"
    using o u n by (auto simp: m_def a fun_eq_iff)
  have "okR (block (mpassign (ra R) d # mpassign (rx2 R) x # mpassign (ry2 R) y # map mpfree ?fs) s)
      (\<lambda>_ s'. good s' \<and> ints s' = (\<lambda>c. if c \<in> set (regs R) then None else m c))"
  proof (rule block_to, rule mpassign_to [OF g v(1) e(1) assms(4)])
    fix s1 assume s1: "good s1" "ints s1 = (ints s)(d \<mapsto> a)"
    have p: "ints s1 (rx2 R) = Some x2" "ints s1 x \<noteq> None" using s1(2) v(2) e(2) n(1) r(2) by auto
    show "okR (block (mpassign (rx2 R) x # mpassign (ry2 R) y # map mpfree ?fs) s1)
      (\<lambda>_ s'. good s' \<and> ints s' = (\<lambda>c. if c \<in> set (regs R) then None else m c))"
    proof (rule block_to, rule mpassign_to [OF s1(1) p assms(5)])
      fix s2 assume s2: "good s2" "ints s2 = (ints s1)(x \<mapsto> x2)"
      have p: "ints s2 (ry2 R) = Some y2" "ints s2 y \<noteq> None" using s1(2) s2(2) v(3) e(3) n(1,2) r(3) by auto
      show "okR (block (mpassign (ry2 R) y # map mpfree ?fs) s2)
        (\<lambda>_ s'. good s' \<and> ints s' = (\<lambda>c. if c \<in> set (regs R) then None else m c))"
      proof (rule block_to, rule mpassign_to [OF s2(1) p assms(6)])
        fix s3 assume s3: "good s3" "ints s3 = (ints s2)(y \<mapsto> y2)"
        have m: "ints s3 = m" using s1(2) s2(2) s3(2) by (simp add: m_def)
        have "\<forall>c \<in> set ?fs. usable c \<and> ints s3 c \<noteq> None" unfolding fs(2) m using u by (simp add: m_def)
        from free_all [OF s3(1) fs(1) this] show "okR (block (map mpfree ?fs) s3)
          (\<lambda>_ s'. good s' \<and> ints s' = (\<lambda>c. if c \<in> set (regs R) then None else m c))"
          unfolding fs(2) m by (rule okR_mono) (simp only: to_def simp_thms)
      qed
    qed
  qed
  then show ?thesis unfolding mm euclid_end_def append.simps by (rule okR_mono) (use v(5) a in auto)
qed

lemma euclid_new_ok:
  assumes "good s" "ints s a = Some i" "ints s b = Some j" "0 < j" "0 < i"
  shows "okR (euclid_new a b s) (euclid_inv i j (ints s))"
proof -
  let ?k = "brk s"
  define m where "m = (ints s)(?k \<mapsto> i, ?k + 1 \<mapsto> j, ?k + 2 \<mapsto> 0, ?k + 3 \<mapsto> 0, ?k + 4 \<mapsto> 1, ?k + 5 \<mapsto> 0, ?k + 6 \<mapsto> 1, ?k + 7 \<mapsto> 0, ?k + 8 \<mapsto> 0, ?k + 9 \<mapsto> 0)"
  let ?R = "\<lparr>ra = ?k, rb = ?k + 1, rx0 = ?k + 2, rx1 = ?k + 3, rx2 = ?k + 4, ry0 = ?k + 5, ry1 = ?k + 6, ry2 = ?k + 7, rq = ?k + 8, rr = ?k + 9\<rparr>"
  have k: "3 < ?k" "\<And>c. ?k \<le> c \<Longrightarrow> ints s c = None" using good_fresh [OF assms(1)] by auto
  have bk: "b < ?k" using assms(3) k(2) [of b] by (cases "?k \<le> b") simp_all
  have fin: "euclid_inv i j (ints s) ?R s'" if s': "good s'" "ints s' = m" for s'
  proof -
    have "\<forall>c. c \<notin> set (regs ?R) \<longrightarrow> m c = ints s c" by (simp add: regs_def m_def)
    moreover have "\<forall>c \<in> set (regs ?R). usable c \<and> ints s c = None" using k by (simp add: regs_def)
    moreover have "\<forall>c \<in> set (regs ?R). m c \<noteq> None" by (simp add: regs_def m_def)
    moreover have "distinct (regs ?R)" by (simp add: regs_def)
    moreover have "m ?k = Some i" "m (?k + 1) = Some j" "m (?k + 3) = Some 0" "m (?k + 4) = Some 1" "m (?k + 6) = Some 1" "m (?k + 7) = Some 0" "m (?k + 8) = Some 0"
      by (simp_all add: m_def)
    ultimately show ?thesis unfolding euclid_inv_def s'(2) using s'(1) assms(4,5) by simp
  qed
  show ?thesis unfolding euclid_new_def
  proof (rule alloc, rule mpcopy_to [OF assms(1,2)])
    fix s1 assume s1: "good s1" "ints s1 = (ints s)(brk s \<mapsto> i)" "brk s1 = Suc ?k"
    then have "ints s1 b = Some j" using assms(3) bk by simp
    from mpcopy_to [OF s1(1) this]
    show "okR (bindR (mpcopy b s1) (\<lambda>b s. bindR (mpnew 0 s) (\<lambda>x0 s. bindR (mpcopy mpzero s) (\<lambda>x1 s. bindR (mpcopy mpone s) (\<lambda>x2 s.
        bindR (mpnew 0 s) (\<lambda>y0 s. bindR (mpcopy mpone s) (\<lambda>y1 s. bindR (mpcopy mpzero s) (\<lambda>y2 s. bindR (mpnew 0 s) (\<lambda>q s. bindR (mpnew 0 s) (\<lambda>r s.
          Ret \<lparr>ra = ?k, rb = b, rx0 = x0, rx1 = x1, rx2 = x2, ry0 = y0, ry1 = y1, ry2 = y2, rq = q, rr = r\<rparr> s)))))))))) (euclid_inv i j (ints s))"
    proof (rule alloc, goal_cases)
      case (1 s2)
      show ?case
      proof (rule alloc, rule mpnew_to [OF 1(1)], rule alloc, rule mpcopy_to, assumption, erule good_const(1),
          rule alloc, rule mpcopy_to, assumption, erule good_const(2), rule alloc, erule mpnew_to,
          rule alloc, rule mpcopy_to, assumption, erule good_const(2), rule alloc, rule mpcopy_to, assumption, erule good_const(1),
          rule alloc, erule mpnew_to, rule alloc, erule mpnew_to, goal_cases)
        case (1 s3 s4 s5 s6 s7 s8 s9 s10)
        have "ints s10 = m" using 1 s1 \<open>ints s2 = _\<close> \<open>brk s2 = _\<close> by (simp add: m_def eval_nat_numeral)
        then have "euclid_inv i j (ints s) ?R s10" using 1 fin by simp
        then show ?case using 1 s1(3) \<open>brk s2 = _\<close> by (simp add: eval_nat_numeral)
      qed
    qed
  qed
qed

definition bezout :: "int \<Rightarrow> int \<Rightarrow> nat \<Rightarrow> nat \<Rightarrow> nat \<Rightarrow> mpst \<Rightarrow> mpst \<Rightarrow> bool" where
  "bezout i j d x y s s' \<longleftrightarrow> good s' \<and> (\<exists>u v. ints s' = (ints s)(d \<mapsto> gcd i j, x \<mapsto> u, y \<mapsto> v) \<and> i * u + j * v = gcd i j)"

lemma bezout_swap: "bezout j i d y x s s' \<Longrightarrow> x \<noteq> y \<Longrightarrow> bezout i j d x y s s'"
  unfolding bezout_def by (metis add.commute fun_upd_twist gcd.commute)

lemma euclid_rest_ok:
  assumes "good s" "ints s a = Some i" "ints s b = Some j" "0 \<le> j" "j \<le> i" "distinct [d, x, y]" "usable d" "usable x" "usable y"
    "ints s d \<noteq> None" "ints s x \<noteq> None" "ints s y \<noteq> None"
  shows "\<exists>r. euclid_rest a b d x y s = Some r \<and> okR r (\<lambda>_. bezout i j d x y s)"
proof -
  obtain cb where cb: "number s b cb" "ival cb = j" by (rule good_number [OF assms(1) assms(3)])
  have z: "mtop cb = 0 \<longleftrightarrow> j = 0" using cb mag_0 [of cb] by (auto simp: ival_def nrm_def)
  show ?thesis
  proof (cases "j = 0")
    case True
    have "okR (block [mpassign a d, mpassign mpone x, mpassign mpzero y] s)
        (\<lambda>_ s'. good s' \<and> ints s' = (ints s)(d \<mapsto> i, x \<mapsto> 1, y \<mapsto> 0))"
    proof (rule block_to, rule mpassign_to [OF assms(1) assms(2) assms(10,7)], rule block_to, rule mpassign_to)
      fix s1 assume s1: "good s1" "ints s1 = (ints s)(d \<mapsto> i)"
      show "good s1" "ints s1 mpone = Some 1" by (rule s1(1), rule good_const(2) [OF s1(1)])
      show "ints s1 x \<noteq> None" "usable x" using assms(8,11) s1(2) by simp_all
      fix s2 assume s2: "good s2" "ints s2 = (ints s1)(x \<mapsto> 1)"
      show "okR (block [mpassign mpzero y] s2) (\<lambda>_ s'. good s' \<and> ints s' = (ints s)(d \<mapsto> i, x \<mapsto> 1, y \<mapsto> 0))"
        by (rule block_to, rule mpassign_to [OF s2(1) good_const(1) [OF s2(1)]]) (use assms(6-12) s1(2) s2(2) in auto)
    qed
    moreover have "bezout i j d x y s s'" if "good s' \<and> ints s' = (ints s)(d \<mapsto> i, x \<mapsto> 1, y \<mapsto> 0)" for s'
      unfolding bezout_def using that True assms(5) by (intro conjI exI [of _ 1] exI [of _ 0]) auto
    ultimately show ?thesis using True cb z by (auto simp: euclid_rest_def bindO_def elim!: okR_mono)
  next
    case False
    have "0 < j" "0 < i" using False assms(4,5) by simp_all
    note new = euclid_new_ok [OF assms(1) assms(2,3) this]
    have "\<exists>r. bindO (euclid_new a b s) (\<lambda>R s. Option.bind (whileC euclid_test euclid_turn R s) (\<lambda>r. Some (bindR r (\<lambda>R. euclid_end d x y R)))) = Some r \<and>
      okR r (\<lambda>_. bezout i j d x y s)"
    proof (rule bindO_ok, rule okR_mono [OF new])
      fix R s1 assume "euclid_inv i j (ints s) R s1"
      from eloop.returns [OF this] obtain r where r: "whileC euclid_test euclid_turn R s1 = Some r"
          "okR r (\<lambda>R s'. euclid_inv i j (ints s) R s' \<and> ints s' (rb R) = Some 0)" by blast
      have "okR (bindR r (\<lambda>R. euclid_end d x y R))
          (\<lambda>_. bezout i j d x y s)"
        unfolding okR_bindR bezout_def by (rule okR_mono [OF r(2)], rule euclid_end_ok) (use assms(6-12) in auto)
      then show "\<exists>r. Option.bind (whileC euclid_test euclid_turn R s1) (\<lambda>r. Some (bindR r (\<lambda>R. euclid_end d x y R))) = Some r \<and>
          okR r (\<lambda>_. bezout i j d x y s)"
        unfolding r(1) by simp
    qed
    then show ?thesis using False cb z by (simp add: euclid_rest_def bindO_def)
  qed
qed

lemma mpeuclid_ok:
  assumes "good s" "ints s a = Some i" "ints s b = Some j" "0 \<le> i" "0 \<le> j" "distinct [d, x, y]" "usable d" "usable x" "usable y"
    "ints s d \<noteq> None" "ints s x \<noteq> None" "ints s y \<noteq> None"
  shows "\<exists>r. mpeuclid a b d x y s = Some r \<and> okR r (\<lambda>_. bezout i j d x y s)"
proof -
  have args: "euclid_args a b d x y s = Ret (if i < j then (b, a, y, x) else (a, b, x, y)) s"
  proof -
    obtain ca cb cd cx cy where n: "number s a ca" "ival ca = i" "number s b cb" "ival cb = j" "number s d cd" "number s x cx" "number s y cy"
      using good_number [OF assms(1,2)] good_number [OF assms(1,3)] good_some [OF assms(1,10)] good_some [OF assms(1,11)] good_some [OF assms(1,12)] by metis
    have "0 < msign ca" "0 < msign cb" using n(1-4) assms(4,5) mag_0 [of ca] mag_0 [of cb]
      by (auto simp: nrm_def ival_def zero_le_mult_iff)
    moreover obtain c where "mpcmp a b s = Ret c s" "c < 0 \<longleftrightarrow> i < j" by (rule mpcmp_to [OF assms(1-3)])
    ultimately show ?thesis using n by (simp add: euclid_args_def nrm_def)
  qed
  show ?thesis
  proof (cases "i < j")
    case True
    have "\<exists>r. euclid_rest b a d y x s = Some r \<and> okR r (\<lambda>_. bezout j i d y x s)"
      by (rule euclid_rest_ok) (use assms True in auto)
    then show ?thesis using True args assms(6) by (auto simp: mpeuclid_def bindO_def elim!: okR_mono bezout_swap)
  next
    case False
    have "\<exists>r. euclid_rest a b d x y s = Some r \<and> okR r (\<lambda>_. bezout i j d x y s)"
      by (rule euclid_rest_ok) (use assms False in auto)
    then show ?thesis using False args by (simp add: mpeuclid_def bindO_def)
  qed
qed

section \<open>Properties\<close>

lemma exst_good: "good exst"
  using exst_ok by (auto simp: good_def exst_def mpinit_def exnum_def split: if_splits)

text \<open>C17. The extended Euclidean algorithm ends for all numbers that are not negative, the results being operands or not,
  and stores their greatest common divisor and numbers that combine them to it. No other number changes, and every
  number it allocated is freed.\<close>

theorem mpeuclid_ends:
  assumes "good s" "ints s a = Some i" "ints s b = Some j" "0 \<le> i" "0 \<le> j" "distinct [d, x, y]" "usable d" "usable x" "usable y"
    "ints s d \<noteq> None" "ints s x \<noteq> None" "ints s y \<noteq> None"
  shows "\<exists>s' u v. mpeuclid a b d x y s = Some (Ret () s') \<and> good s' \<and>
    ints s' = (ints s)(d \<mapsto> gcd i j, x \<mapsto> u, y \<mapsto> v) \<and> i * u + j * v = gcd i j"
  using mpeuclid_ok [OF assms] by (auto simp: okR_def bezout_def)

theorem mpeuclid_ends_witness:
  "\<exists>s' u v. mpeuclid 4 2 4 5 6 exst = Some (Ret () s') \<and> good s' \<and>
    ints s' = (ints exst)(4 \<mapsto> 1, 5 \<mapsto> u, 6 \<mapsto> v) \<and> 7 * u + v = 1"
  using mpeuclid_ends [OF exst_good, of 4 7 2 1 4 5 6] by (simp add: exst_ints)

end
