(* ===== verification/Mp_Mod_Props.thy ===== *)
theory Mp_Mod_Props
  imports Mp_Num_Props
begin

text \<open>
  Residues: \<^verbatim>\<open>mpmod\<close> and the multiplication modulo a number. The operations modulo a number
  work on copies of operands that are too large; while they run, the memory holds numbers that are not in
  normal form (\<open>midway\<close>).
\<close>

section \<open>Residues\<close>

text \<open>What \<^verbatim>\<open>mpmod\<close> computes: the residue, but the modulus itself for its negative multiples.\<close>

definition residue :: "int \<Rightarrow> int \<Rightarrow> int" where
  "residue i j = (if i < 0 then j - (- i) mod j else i mod j)"

lemma residue_pos: "0 \<le> i \<Longrightarrow> residue i j = i mod j"
  by (simp add: residue_def)

lemma residue_if: "0 < j \<Longrightarrow> residue i j = (if i < 0 \<and> i mod j = 0 then j else i mod j)"
proof -
  assume "0 < j"
  then have "(- i) mod j = (if i mod j = 0 then 0 else j - i mod j)" by (simp add: zmod_zminus1_eq_if)
  then show ?thesis unfolding residue_def by simp
qed

lemma residue_mod: "0 < j \<Longrightarrow> residue i j mod j = i mod j" "0 < j \<Longrightarrow> 0 \<le> residue i j \<and> residue i j \<le> j"
  by (simp_all add: residue_if less_imp_le)

text \<open>The lowest digit of a number without digits is 0.\<close>

definition lowzero :: "mpint \<Rightarrow> bool" where
  "lowzero x \<longleftrightarrow> mdig x \<noteq> [] \<and> (mtop x = 0 \<longrightarrow> mdig x ! 0 = 0)"

lemma mpmod_ok:
  assumes "mpstok s" "number s a x" "lowzero x" "number s n y" "0 < ival y" "\<not> ffield y" "number s r z" "usable r" "n \<noteq> r" "2 \<le> length (mdig z)"
    "a = r \<or> 0 \<le> ival x"
  shows "okR (mpmod red a n r s) (\<lambda>_. becomes r (residue (ival x) (ival y)) s)"
proof -
  have sx: "msign x = 1 \<or> msign x = -1" using assms(2) by (auto simp: nrm_def)
  have neg: "msign x < 0 \<longleftrightarrow> ival x < 0" using sx mag_0 [of x] assms(2) by (auto simp: ival_def nrm_def)
  have r0: "r \<noteq> nil" using assms(8) by simp
  have "cells s nil = None" using assms(1) by (simp add: mpstok_def)
  then have "okR (mpdiv a n nil r s) (\<lambda>_. results nil (\<lambda>_ z. ival z = ival x sdiv ival y)
      r (\<lambda>_ w. ival w = ival x smod ival y \<and> (msign x = 1 \<or> a = r \<longrightarrow> nrm w)) s)"
    by (intro mpdiv_trunc [OF assms(1,2,4,5)]) (use assms(3,7,8,10) in \<open>auto simp: resultpar_def lowzero_def\<close>)
  then obtain s1 where s1: "mpdiv a n nil r s = Ret () s1" "results nil (\<lambda>_ z. ival z = ival x sdiv ival y)
      r (\<lambda>_ w. ival w = ival x smod ival y \<and> (msign x = 1 \<or> a = r \<longrightarrow> nrm w)) s s1"
    by (elim okR_E) simp
  note q = s1(2) [unfolded results_def]
  have e: "brk s \<le> brk s1" "mindigits s1 = mindigits s" using q by simp_all
  obtain w where w: "cells s1 r = Some w" "kept z w" "ival w = ival x smod ival y" "nrm w"
    using mp [OF conjunct1 [OF conjunct2 [OF conjunct2 [OF q]]] r0] assms(7,11) neg sx by fastforce
  have c: "cells s1 b = cells s b" if "b \<noteq> r" for b using conjunct1 [OF q] that by (cases "b = nil") simp_all
  have c1: "cells s1 = (cells s)(r \<mapsto> w)" using c w(1) by (auto simp: fun_eq_iff)
  have run: "mpmod red a n r s = whenC (ival x < 0) (block [mpmagsub n r r, whenC False (mpfree n)]) s1"
    using assms(2,4,6,9) s1(1) neg by (simp add: mpmod_def whenC_def)
  show ?thesis
  proof (cases "ival x < 0")
    case False
    then have "ival x smod ival y = residue (ival x) (ival y)"
      using assms(5) by (cases "ival x = 0") (simp_all add: residue_def signed_modulo_int_def)
    then have "becomes r (residue (ival x) (ival y)) s s1"
      unfolding becomes_def using w assms(7) c1 e by (intro conjI exI [of _ z] exI [of _ w]) simp_all
    then show ?thesis using run False by (simp add: whenC_def)
  next
    case True
    have y1: "cells s1 n = Some y" using c assms(4,9) by simp
    obtain v where v: "mpmagsub n r r s1 = Ret () (put r v s1)" "nrm v" "ival v = int (mag y) - int (mag w)" "kept w v"
      by (rule mpmagsub_ok [OF y1 w(1,1) _ w(4,4) assms(8)]) (use assms(4) in auto)
    have "int (mag y) = ival y" using assms(4,5) by (auto simp: ival_def nrm_def)
    moreover have "int (mag w) = (- ival x) mod ival y"
    proof -
      have "int (mag w) = \<bar>ival w\<bar>" using w(4) by (auto simp: ival_def nrm_def)
      also have "\<dots> = (- ival x) mod ival y" unfolding w(3) using True assms(5) by (simp add: signed_modulo_int_def abs_mult)
      finally show ?thesis .
    qed
    ultimately have "ival v = residue (ival x) (ival y)" using v(3) True by (simp add: residue_def)
    then have "becomes r (residue (ival x) (ival y)) s (put r v s1)"
      using v(2) kept_trans [OF w(2) v(4)] assms(7) c1 e by (auto simp: becomes_def put_def)
    then show ?thesis using run True v(1) by (simp add: whenC_def)
  qed
qed

section \<open>Numbers in the making\<close>

text \<open>The memory while a routine runs: the integers \<open>M\<close>, all in normal form, and the numbers \<open>F\<close> that are its own.\<close>

definition midway :: "(nat \<Rightarrow> int option) \<Rightarrow> nat set \<Rightarrow> mpst \<Rightarrow> bool" where
  "midway M F s \<longleftrightarrow> mpstok s \<and> 2 \<le> mindigits s \<and> (\<forall>c \<in> F. usable c \<and> M c = None \<and> cells s c \<noteq> None) \<and>
     (\<forall>c. c \<notin> F \<longrightarrow> ints s c = M c \<and> (\<forall>x. cells s c = Some x \<longrightarrow> nrm x \<and> (usable c \<longrightarrow> 2 \<le> length (mdig x))))"

lemma midway_good: "good s \<Longrightarrow> midway (ints s) {} s"
  by (auto simp: good_def midway_def allnrm_def)

lemma midway_done: "midway M {} s \<Longrightarrow> good s \<and> ints s = M"
  by (auto simp: good_def midway_def allnrm_def)

lemma midway_ok: "midway M F s \<Longrightarrow> mpstok s \<and> 2 \<le> mindigits s"
  by (simp add: midway_def)

lemma midway_number:
  assumes "midway M F s" "M b = Some i"
  obtains x where "number s b x" "ival x = i" "usable b \<longrightarrow> 2 \<le> length (mdig x)" "b \<notin> F"
proof -
  have f: "b \<notin> F" using assms by (auto simp: midway_def)
  then have "ints s b = Some i" using assms by (simp add: midway_def)
  then obtain x where x: "cells s b = Some x" "ival x = i" by (auto simp: ints_def)
  then show ?thesis using that [of x] assms(1) f by (simp add: midway_def)
qed

lemma mpstok_put:
  assumes "mpstok s" "cells s' = (cells s)(r \<mapsto> z)" "usable r" "\<not> fstatic z" "r < brk s'" "brk s \<le> brk s'" "mindigits s' = mindigits s"
  shows "mpstok s'"
  using assms unfolding mpstok_def by (auto split: if_splits)

lemma midway_becomes:
  assumes "midway M F s" "becomes r v s s'" "usable r" "r \<notin> F"
  shows "midway (M(r \<mapsto> v)) F s'"
proof -
  obtain y z where z: "cells s r = Some y" "nrm z" "ival z = v" "kept y z" "cells s' = (cells s)(r \<mapsto> z)" "mindigits s' = mindigits s"
    using assms(2) by (auto simp: becomes_def)
  have "mpstok s'" using becomes_ok [OF assms(2) _ assms(3)] assms(1) by (simp add: midway_def)
  moreover have "2 \<le> length (mdig z)" using z(1,4) assms(1,3,4) by (auto simp: midway_def kept_def)
  ultimately show ?thesis using z assms unfolding midway_def by (auto simp: ints_def)
qed

lemma midway_temp:
  assumes "midway M F s" "cells s' = (cells s)(b \<mapsto> z)" "b \<in> F \<or> cells s b = None" "usable b" "\<not> fstatic z" "b < brk s'" "brk s \<le> brk s'" "mindigits s' = mindigits s"
  shows "midway M (insert b F) s'"
proof -
  have "mpstok s'" using mpstok_put [of s s' b z] assms by (simp add: midway_def)
  moreover have "M b = None"
  proof (cases "b \<in> F")
    case False
    then have "ints s b = M b" "cells s b = None" using assms(1,3) by (simp_all add: midway_def)
    then show ?thesis by (simp add: ints_def)
  qed (use assms(1) in \<open>simp add: midway_def\<close>)
  ultimately show ?thesis using assms unfolding midway_def by (auto simp: ints_def)
qed

lemma midway_free:
  assumes "midway M F s" "b \<in> F"
  shows "okR (mpfree b s) (\<lambda>_ s'. midway M (F - {b}) s' \<and> brk s' = brk s \<and> (\<forall>c. c \<noteq> b \<longrightarrow> cells s' c = cells s c))"
proof -
  have u: "usable b" "M b = None" using assms by (auto simp: midway_def)
  obtain x where x: "cells s b = Some x" using assms by (auto simp: midway_def)
  have "\<not> fstatic x" using assms(1) u x by (simp add: midway_def mpstok_def)
  with x u have r: "mpfree b s = Ret () (s\<lparr>cells := (cells s)(b := None)\<rparr>)" by simp
  have "mpstok (s\<lparr>cells := (cells s)(b := None)\<rparr>)" using assms(1) u unfolding midway_def mpstok_def by auto
  then show ?thesis unfolding r using assms u by (auto simp: midway_def ints_def)
qed

text \<open>What \<^verbatim>\<open>modarg\<close> returns: digits of the modulus in number and value, and one more digit of room.\<close>

definition reduced :: "nat \<Rightarrow> int \<Rightarrow> mpint \<Rightarrow> bool" where
  "reduced n v z \<longleftrightarrow> shaped z \<and> msign z = 1 \<and> mtop z \<le> n \<and> n < length (mdig z) \<and> int (mag z) = v \<and> int (val (take n (mdig z))) = v"

lemma val_padded: "t \<le> n \<Longrightarrow> t \<le> length ds \<Longrightarrow> val (take n (take t ds @ replicate (n - t) 0 @ rest)) = val (take t ds)"
  by (simp add: val_append)

lemma modarg_ok:
  assumes "midway M F s" "M a = Some i" "cells s m = Some y" "M m = Some j" "0 < j" "\<not> ffield y"
  shows "okR (modarg red a m s) (\<lambda>a' s'. \<exists>z F'. midway M F' s' \<and> brk s \<le> brk s' \<and> cells s' a' = Some z \<and> reduced (mtop y) (residue i j) z \<and>
    (a' = a \<and> F' = F \<or> cells s a' = None \<and> F' = insert a' F) \<and> a' \<noteq> m \<and> (\<forall>c. c \<noteq> a' \<longrightarrow> cells s' c = cells s c))"
proof -
  have ok: "mpstok s" "2 \<le> mindigits s" using midway_ok [OF assms(1)] by simp_all
  obtain x where x: "number s a x" "ival x = i" "usable a \<longrightarrow> 2 \<le> length (mdig x)" "a \<notin> F" by (rule midway_number [OF assms(1,2)])
  have y: "nrm y" "ival y = j" using midway_number [OF assms(1,4)] assms(3) by auto
  have "mtop y \<noteq> 0" using mag_top [of y] y(2) assms(5) by (cases "mtop y = 0") (simp_all add: ival_def)
  then have y1: "msign y = 1" "int (mag y) = j" "0 < mtop y" using y assms(5) by (auto simp: nrm_def ival_def)
  have cmp: "mpmagcmp a m s = Ret (magcmp x y) s" using x(1) assms(3) y(1) by (intro mpmagcmp_run) auto
  have c: "magcmp x y < 0 \<longleftrightarrow> mag x < mag y" using magcmp_less x(1) y(1) by blast
  show ?thesis
  proof (cases "length (mdig x) \<le> mtop y \<or> msign x < 0 \<or> mag y \<le> mag x")
    case False
    define ds where "ds = overwrite (mtop x) (replicate (mtop y - mtop x) 0) (mdig x)"
    define z where "z = x\<lparr>mdig := ds\<rparr>"
    have f: "mtop y < length (mdig x)" "msign x = 1" "mag x < mag y" using False x(1) by (auto simp: nrm_def)
    have t: "mtop x \<le> mtop y" using mag_top_less [of x y] x(1) f(3) by (meson leI less_asym)
    have d: "length ds = length (mdig x)" "take (mtop x) ds = take (mtop x) (mdig x)"
        "take (mtop y) ds = take (mtop x) (mdig x) @ replicate (mtop y - mtop x) 0"
      using t f(1) by (simp_all add: ds_def overwrite_def)
    have m: "mag z = mag x" "ival z = ival x" using d(2) by (simp_all add: z_def mag_def ival_def)
    have "ds ! (mtop x - 1) = mdig x ! (mtop x - 1)" if "mtop x \<noteq> 0" using that arg_cong [OF d(2), of "\<lambda>l. l ! (mtop x - 1)"] by simp
    then have n: "nrm z" using x(1) d(1) by (auto simp: nrm_def z_def)
    have "val (take (mtop y) (mdig z)) = mag x" using d(3) by (simp add: z_def val_append mag_def)
    moreover have "residue i j = int (mag x)"
    proof -
      have "i = int (mag x)" using x(2) f(2) by (simp add: ival_def)
      then show ?thesis using f(3) y1(2) by (simp add: residue_def)
    qed
    ultimately have r: "reduced (mtop y) (residue i j) z" using n m t f d(1) by (simp add: reduced_def nrm_shaped) (simp add: z_def)
    have run: "modarg red a m s = Ret a (put a z s)"
    proof (cases "mtop x < mtop y")
      case True
      then show ?thesis using x(1) assms(3) f cmp c by (simp add: modarg_def seqret_def whenC_def z_def ds_def)
    next
      case False
      then have "z = x" by (simp add: z_def ds_def overwrite_def)
      then show ?thesis using False x(1) assms(3) f cmp c by (simp add: modarg_def seqret_def whenC_def put_same)
    qed
    have "usable a"
    proof (rule ccontr)
      assume "\<not> usable a"
      then have "a = 0 \<or> a = 1 \<or> a = 2 \<or> a = 3" by auto
      then show False using ok(1) x(1) f(1) y1(3) by (auto simp: mpstok_def mpzerocell_def mponecell_def mptwocell_def)
    qed
    moreover have "becomes a i s (put a z s)" using x(1,2) n m d(1) by (intro becomes_put [of s a x]) (auto simp: kept_def z_def)
    ultimately have "midway (M(a \<mapsto> i)) F (put a z s)" using midway_becomes [OF assms(1)] x(4) by blast
    then have "midway M F (put a z s)" using assms(2) by (simp add: fun_upd_idem)
    moreover have "a \<noteq> m" using f(3) x(1) assms(3) by auto
    ultimately show ?thesis unfolding run using r by auto
  next
    case True
    obtain z0 where z0: "mpcopy a s = Ret (brk s) (put (brk s) z0 (s\<lparr>brk := brk s + 1\<rparr>))" "nrm z0" "ival z0 = ival x" "2 \<le> length (mdig z0)"
        "\<not> fstatic z0" "mtop z0 = 0 \<longrightarrow> mdig z0 ! 0 = 0"
      by (rule mpcopy_run [OF ok(2) x(1)])
    define k where "k = brk s"
    define s1 where "s1 = put k z0 (s\<lparr>brk := k + 1\<rparr>)"
    have k: "cells s k = None" "usable k" "m \<noteq> k" "a \<noteq> k"
      using mpstok_fresh(1,2) [OF ok(1)] assms(3) x(1) by (auto simp: k_def)
    have ok1: "mpstok s1" using mpstok_put [OF ok(1), of s1 k z0] k z0(5) by (simp add: s1_def put_def k_def)
    have n1: "number s1 k z0" "number s1 m y" using z0(2) k(3) assms(3) y(1) by (simp_all add: s1_def)
    have l: "lowzero z0" using z0(4,6) by (auto simp: lowzero_def)
    have "okR (mpmod red k m k s1) (\<lambda>_. becomes k (residue i j) s1)"
      using mpmod_ok [OF ok1 n1(1) l n1(2) _ assms(6) n1(1) k(2,3) z0(4)] y(2) assms(5) z0(3) x(2) by simp
    then obtain s2 where s2: "mpmod red k m k s1 = Ret () s2" "becomes k (residue i j) s1 s2" by (elim okR_E) simp
    obtain w where w: "nrm w" "ival w = residue i j" "kept z0 w" "cells s2 = (cells s1)(k \<mapsto> w)" "brk s1 \<le> brk s2" "mindigits s2 = mindigits s1"
      using s2(2) n1(1) by (auto simp: becomes_def)
    have v: "msign w = 1" "int (mag w) = residue i j" using w(1,2) residue_mod(2) [OF assms(5), of i] mag_0 [of w] by (auto simp: nrm_def ival_def)
    have "mag w \<le> mag y" using v(2) y1(2) residue_mod(2) [OF assms(5), of i] by simp
    then have t: "mtop w \<le> mtop y" using mag_top_less [of w y] w(1) by (meson leI not_le)
    define z where "z = (growto (mtop y + 1) w)\<lparr>mtop := mtop y\<rparr>"
    have wl: "mtop w \<le> length (mdig w)" "\<not> ftimesafe w" using w(1) by (simp_all add: nrm_def)
    have val: "val (take (mtop y) (mdig z)) = mag w"
      using t wl by (simp add: z_def growto_def val_append mag_def)
    have len: "mtop y < length (mdig z)" using t wl by (simp add: z_def growto_def)
    have r: "reduced (mtop y) (residue i j) z"
      using val v len wl(2) by (simp add: reduced_def shaped_def mag_def [of z]) (simp add: z_def growto_def)
    have c2: "cells s2 k = Some w" "cells s2 m = Some y" using w(4) n1(2) k(3) by simp_all
    have b: "bitsof (mtop y + 1) w = growto (mtop y + 1) w" using t by (simp add: bitsof_def)
    have d: "DIGITS (int (Dbits * (mtop y + 1))) = int (mtop y + 1)" by (rule DIGITS_mult)
    have tail: "block [withmp m (\<lambda>y. mpbits k (int (Dbits * (mtop y + 1)))), withmp m (\<lambda>y. modify k (\<lambda>x. x\<lparr>mtop := mtop y\<rparr>))] s2 = Ret () (put k z s2)"
    proof -
      have "mpbits k (int (Dbits * (mtop y + 1))) s2 = Ret () (put k (growto (mtop y + 1) w) s2)"
        using mpbits_run [OF c2(1), of "int (Dbits * (mtop y + 1))"] unfolding d by (simp only: nat_int of_nat_0_le_iff b)
      then show ?thesis using c2 k(3) by (simp add: z_def del: of_nat_mult of_nat_add)
    qed
    have big: "(if length (mdig x) \<le> mtop y \<or> msign x < 0 then Ret True s else bindR (mpmagcmp a m s) (\<lambda>c s. Ret (c \<ge> 0) s)) = Ret True s"
      using True cmp c by (auto simp: not_less)
    have run: "modarg red a m s = Ret k (put k z s2)"
      unfolding modarg_def withmp_run [OF conjunct1 [OF x(1)]] withmp_run [OF assms(3)] big
      using z0(1) s2(1) tail by (simp add: seqret_def s1_def k_def)
    have "midway M (insert k F) (put k z s2)"
      by (rule midway_temp [OF assms(1), of _ k z]) (use k w s1_def z0(5) in \<open>auto simp: put_def k_def z_def growto_def kept_def\<close>)
    moreover have "\<forall>c. c \<noteq> k \<longrightarrow> cells (put k z s2) c = cells s c" using w(4) by (simp add: s1_def)
    moreover have "brk s \<le> brk s2" using w(5) by (simp add: s1_def k_def)
    ultimately show ?thesis unfolding run using r k(1,3) by auto
  qed
qed

text \<open>Both operands of an operation.\<close>

definition twoargs :: "(nat \<Rightarrow> int option) \<Rightarrow> nat set \<Rightarrow> nat \<Rightarrow> nat \<Rightarrow> nat \<Rightarrow> mpst \<Rightarrow> nat \<Rightarrow> nat \<Rightarrow> mpst \<Rightarrow> int \<Rightarrow> int \<Rightarrow> mpint \<Rightarrow> bool" where
  "twoargs M F b1 b2 m s a b s' v1 v2 y \<longleftrightarrow> midway M F s' \<and> brk s \<le> brk s' \<and> F = {c \<in> {a, b}. M c = None} \<and>
     (\<exists>x1 x2. cells s' a = Some x1 \<and> reduced (mtop y) v1 x1 \<and> cells s' b = Some x2 \<and> reduced (mtop y) v2 x2) \<and>
     (a = b1 \<or> M a = None) \<and> (b = b2 \<or> M b = None) \<and> (a = b \<longrightarrow> M a \<noteq> None) \<and> a \<noteq> m \<and> b \<noteq> m \<and> cells s' m = Some y"

lemma modargs_ok:
  assumes "good s" "ints s b1 = Some i1" "ints s b2 = Some i2" "cells s m = Some y" "ints s m = Some j" "0 < j" "\<not> ffield y"
  shows "okR (bindR (modarg red b1 m s) (\<lambda>a s. bindR (modarg red b2 m s) (\<lambda>b s. Ret (a, b) s)))
    (\<lambda>(a, b) s'. \<exists>F. twoargs (ints s) F b1 b2 m s a b s' (residue i1 j) (residue i2 j) y)"
proof -
  let ?M = "ints s"
  obtain a s1 z1 F1 where a: "modarg red b1 m s = Ret a s1" "midway ?M F1 s1" "brk s \<le> brk s1" "cells s1 a = Some z1" "reduced (mtop y) (residue i1 j) z1"
      "a = b1 \<and> F1 = {} \<or> cells s a = None \<and> F1 = {a}" "a \<noteq> m" "\<And>c. c \<noteq> a \<Longrightarrow> cells s1 c = cells s c"
    using modarg_ok [OF midway_good [OF assms(1)] assms(2,4-7), of red] by (elim okR_E) auto
  have m1: "cells s1 m = Some y" using a(7,8) assms(4) by metis
  obtain b s2 z2 F2 where b: "modarg red b2 m s1 = Ret b s2" "midway ?M F2 s2" "brk s1 \<le> brk s2" "cells s2 b = Some z2" "reduced (mtop y) (residue i2 j) z2"
      "b = b2 \<and> F2 = F1 \<or> cells s1 b = None \<and> F2 = insert b F1" "b \<noteq> m" "\<And>c. c \<noteq> b \<Longrightarrow> cells s2 c = cells s1 c"
    using modarg_ok [OF a(2) assms(3) m1 assms(5-7), of red] by (elim okR_E) auto
  have m2: "cells s2 m = Some y" using b(7,8) m1 by metis
  have none: "cells s c = None \<longleftrightarrow> ?M c = None" for c by (simp add: ints_def)
  have aM: "F1 = {c \<in> {a}. ?M c = None}" using a(6) assms(2) none by auto
  have bb: "b = b2 \<and> ?M b \<noteq> None \<or> ?M b = None \<and> b \<noteq> a"
  proof (cases "b = b2")
    case False
    then have "cells s1 b = None" using b(6) by blast
    moreover from this have "b \<noteq> a" using a(4) by auto
    ultimately show ?thesis using a(8) none by auto
  qed (use assms(3) in simp)
  have "cells s1 b2 \<noteq> None" using a(4,8) assms(3) none by (cases "b2 = a") auto
  then have F2: "F2 = {c \<in> {a, b}. ?M c = None}" using b(6) bb aM a(4) assms(3) by auto
  have "\<exists>x1. cells s2 a = Some x1 \<and> reduced (mtop y) (residue i1 j) x1"
  proof (cases "a = b")
    case True
    then have "?M a \<noteq> None" "b = b2" using bb by auto
    then have "a = b1" using a(6) none by auto
    then have "i1 = i2" using True \<open>b = b2\<close> assms(2,3) by simp
    then show ?thesis using True b(4,5) by simp
  qed (use a(4,5) b(8) in auto)
  then have "twoargs ?M F2 b1 b2 m s a b s2 (residue i1 j) (residue i2 j) y"
    unfolding twoargs_def using b(2,4,5,7) a(3,6,7) b(3) F2 bb m2 none by auto
  then show ?thesis using a(1) b(1) by auto
qed

lemma freeargs_ok:
  assumes "midway M F s" "F = {c \<in> {a, b}. M c = None}" "a = b1 \<or> M a = None" "b = b2 \<or> M b = None" "a = b \<longrightarrow> M a \<noteq> None"
    "M b1 \<noteq> None" "M b2 \<noteq> None"
  shows "okR (freeargs a b1 b b2 s) (\<lambda>_ s'. good s' \<and> ints s' = M \<and> brk s' = brk s \<and> (\<forall>c. c \<noteq> a \<and> c \<noteq> b \<longrightarrow> cells s' c = cells s c))"
proof -
  have e: "a \<noteq> b1 \<longleftrightarrow> M a = None" "b \<noteq> b2 \<longleftrightarrow> M b = None" using assms(3-7) by auto
  have 1: "okR (whenC (a \<noteq> b1) (mpfree a) s) (\<lambda>_ s'. midway M (F - {a}) s' \<and> brk s' = brk s \<and> (\<forall>c. c \<noteq> a \<longrightarrow> cells s' c = cells s c))"
  proof (cases "M a = None")
    case True
    then show ?thesis using midway_free [OF assms(1), of a] assms(2) e(1) by (simp add: whenC_def)
  next
    case False
    then have "F - {a} = F" using assms(2) by auto
    moreover have "a = b1" using False assms(3) by auto
    ultimately show ?thesis using assms(1) by (simp add: whenC_def)
  qed
  have 2: "okR (whenC (b \<noteq> b2) (mpfree b) s1) (\<lambda>_ s'. good s' \<and> ints s' = M \<and> brk s' = brk s1 \<and> (\<forall>c. c \<noteq> b \<longrightarrow> cells s' c = cells s1 c))" if s1: "midway M (F - {a}) s1" for s1
  proof (cases "M b = None")
    case True
    then have f: "b \<in> F - {a}" "F - {a} - {b} = {}" using assms(2,5) by auto
    have "okR (mpfree b s1) (\<lambda>_ s'. good s' \<and> ints s' = M \<and> brk s' = brk s1 \<and> (\<forall>c. c \<noteq> b \<longrightarrow> cells s' c = cells s1 c))"
      by (rule okR_mono [OF midway_free [OF s1 f(1)]]) (use midway_done f(2) in auto)
    then show ?thesis using True e(2) by (simp add: whenC_def)
  next
    case False
    then have "F - {a} = {}" using assms(2) by auto
    then have "good s1 \<and> ints s1 = M" using midway_done s1 by metis
    moreover have "b = b2" using False assms(4) by auto
    ultimately show ?thesis by (simp add: whenC_def)
  qed
  show ?thesis unfolding freeargs_def using 1 2 by (fastforce elim!: okR_mono)
qed

text \<open>A product that is stored in neither operand; when it is 0 its lowest digit is 0.\<close>

lemma mpmul_other:
  assumes "cells s b1 = Some x1 \<and> shaped x1" "cells s b2 = Some x2 \<and> shaped x2" "number s r y" "r \<noteq> b1" "r \<noteq> b2"
  obtains z where "mpmul b1 b2 r s = Ret () (put r z s)" "nrm z" "ival z = ival x1 * ival x2" "kept y z" "lowzero z"
proof -
  let ?n = "mtop x1 + mtop x2 + 1" and ?sg = "msign x1 * msign x2" and ?v = "mulvec x1 x2"
  define w where "w = bitsof ?n (y\<lparr>mtop := 0\<rparr>)"
  have y: "\<not> ftimesafe y" "mtop y \<le> length (mdig y)" using assms(3) by (simp_all add: nrm_def)
  have v: "val ?v = mag x1 * mag x2" "length ?v = ?n" using mulvec_ok [of x1 x2] assms(1,2) by simp_all
  have w: "length ?v \<le> length (mdig w)" "\<not> ftimesafe w" "kept y w"
    using bitsof_len [of "y\<lparr>mtop := 0\<rparr>" ?n] kept_bitsof [of "y\<lparr>mtop := 0\<rparr>" ?n] y v(2) by (simp_all add: w_def)
  have sg: "?sg = 1 \<or> ?sg = -1" using assms(1,2) by (auto simp: shaped_def)
  note m = made_ok [OF w(1) sg w(2)]
  have run: "mpmul b1 b2 r s = Ret () (put r (made w ?v ?sg) s)"
    using assms mulbody_run [of s r y x1 x2 "[block []]"] y by (simp add: mpmul_def w_def)
  have d: "mdig (made w ?v ?sg) = overwrite 0 ?v (mdig w)" by (simp add: made_def normalise_def Let_def)
  have "lowzero (made w ?v ?sg)" unfolding lowzero_def
  proof (intro conjI impI)
    show "mdig (made w ?v ?sg) \<noteq> []" using m(6) w(1) v(2) by (metis One_nat_def add_gr_0 leD less_numeral_extra(1) list.size(3))
    assume "mtop (made w ?v ?sg) = 0"
    then have "val ?v = 0" using mag_top m(2) by metis
    then have "?v ! 0 = 0" using v(2) by (cases ?v) (simp_all add: val_0 unat_eq_zero)
    then show "mdig (made w ?v ?sg) ! 0 = 0" using v(2) by (simp add: d overwrite_def nth_append)
  qed
  moreover have "ival (made w ?v ?sg) = ival x1 * ival x2" using m(3) v(1) by (simp add: ival_def)
  ultimately show ?thesis using that [OF run m(1)] kept_trans [OF w(3) m(4)] by blast
qed

text \<open>What an operation modulo a number does between the reduction of its operands and their release.\<close>

lemma two_bind:
  assumes "okR (bindR X (\<lambda>a s. bindR (Y s) (\<lambda>b s. Ret (a, b) s))) P" "\<And>a b s'. P (a, b) s' \<Longrightarrow> okR (K a b s') Q"
  shows "okR (bindR X (\<lambda>a s. bindR (Y s) (\<lambda>b. K a b))) Q"
  using assms(1) unfolding okR_bindR okR_Ret by (elim okR_mono) (use assms(2) in blast)

lemma ival_reduced: "reduced n v x \<Longrightarrow> ival x = v" "reduced n v x \<Longrightarrow> shaped x"
  by (simp_all add: reduced_def ival_def)

lemma mpmodmul_to:
  assumes "good s" "ints s b1 = Some i1" "ints s b2 = Some i2" "cells s m = Some y" "ints s m = Some j" "0 < j" "\<not> ffield y"
    "ints s r \<noteq> None" "usable r" "r \<notin> {b1, b2, m}"
  shows "okR (mpmodmul red b1 b2 m r s) (\<lambda>_ s'. to ((ints s)(r \<mapsto> i1 * i2 mod j)) s s' \<and> cells s' m = Some y)"
  unfolding mpmodmul_def
proof (rule two_bind [OF modargs_ok [OF assms(1-7)]], clarsimp simp del: block.simps)
  fix a b s1 F
  let ?M = "ints s" and ?v1 = "residue i1 j" and ?v2 = "residue i2 j"
  assume t: "twoargs ?M F b1 b2 m s a b s1 ?v1 ?v2 y"
  note t' = t [unfolded twoargs_def]
  obtain x1 x2 where x: "cells s1 a = Some x1" "reduced (mtop y) ?v1 x1" "cells s1 b = Some x2" "reduced (mtop y) ?v2 x2" using t' by blast
  have mid: "midway ?M F s1" "F = {c \<in> {a, b}. ?M c = None}" and m1: "cells s1 m = Some y" "a \<noteq> m" "b \<noteq> m" and br: "brk s \<le> brk s1" using t' by blast+
  have ab: "a = b1 \<or> ?M a = None" "b = b2 \<or> ?M b = None" "a = b \<longrightarrow> ?M a \<noteq> None" using t' by simp_all
  obtain k where k: "?M r = Some k" using assms(8) by auto
  obtain yr where yr: "number s1 r yr" "2 \<le> length (mdig yr)" "r \<notin> F" using midway_number [OF mid(1) k] assms(9) by metis
  have ra: "r \<noteq> a" "r \<noteq> b" using ab k assms(10) by auto
  obtain z where z: "mpmul a b r s1 = Ret () (put r z s1)" "nrm z" "ival z = ival x1 * ival x2" "kept yr z" "lowzero z"
    by (rule mpmul_other [of s1 a x1 b x2 r yr]) (use x yr(1) ra ival_reduced(2) in auto)
  define s2 where "s2 = put r z s1"
  have p: "ival z = ?v1 * ?v2" "0 \<le> ?v1 * ?v2" using z(3) ival_reduced(1) x(2,4) residue_mod(2) [OF assms(6)] by simp_all
  have "becomes r (?v1 * ?v2) s1 s2" unfolding s2_def by (rule becomes_put [of s1 r yr]) (use yr(1) z(2,4) p(1) in auto)
  then have mid2: "midway (?M(r \<mapsto> ?v1 * ?v2)) F s2" using midway_becomes [OF mid(1) _ assms(9) yr(3)] by blast
  have y: "nrm y" "ival y = j" using assms(1,4,5) by (auto simp: good_def allnrm_def ints_def)
  have n2: "number s2 r z" "number s2 m y" using z(2) m1(1) y(1) assms(10) by (auto simp: s2_def)
  have "okR (mpmod red r m r s2) (\<lambda>_. becomes r (residue (ival z) (ival y)) s2)"
    by (rule mpmod_ok [OF _ n2(1) z(5) n2(2) _ assms(7) n2(1) assms(9)]) (use midway_ok [OF mid2] y(2) assms(6,10) yr(2) z(4) in \<open>auto simp: kept_def\<close>)
  moreover have "residue (ival z) (ival y) = i1 * i2 mod j"
    using residue_pos [of "?v1 * ?v2" j] p y(2) residue_mod(1) [OF assms(6)] by (metis mod_mult_eq)
  ultimately obtain s3 where s3: "mpmod red r m r s2 = Ret () s3" "becomes r (i1 * i2 mod j) s2 s3" by (elim okR_E) simp
  have m3: "cells s3 m = Some y" using s3(2) n2(2) assms(10) by (auto simp: becomes_def)
  have "midway (?M(r \<mapsto> ?v1 * ?v2, r \<mapsto> i1 * i2 mod j)) F s3" using midway_becomes [OF mid2 s3(2) assms(9) yr(3)] by blast
  then have mid3: "midway (?M(r \<mapsto> i1 * i2 mod j)) F s3" by simp
  have "okR (freeargs a b1 b b2 s3) (\<lambda>_ s'. good s' \<and> ints s' = ?M(r \<mapsto> i1 * i2 mod j) \<and> brk s' = brk s3 \<and> (\<forall>c. c \<noteq> a \<and> c \<noteq> b \<longrightarrow> cells s' c = cells s3 c))"
    by (rule freeargs_ok [OF mid3]) (use mid(2) ab ra assms(2,3,10) in auto)
  moreover have "brk s \<le> brk s3" using br s3(2) by (simp add: becomes_def s2_def)
  ultimately show "okR (block [mpmul a b r, mpmod red r m r, freeargs a b1 b b2] s1) (\<lambda>_ s'. to (?M(r \<mapsto> i1 * i2 mod j)) s s' \<and> cells s' m = Some y)"
    using z(1) s3(1) m3 m1(2,3) by (auto simp: s2_def to_def elim!: okR_mono)
qed

end
