(* ===== verification/Mp_Exp_Props.thy ===== *)
theory Mp_Exp_Props
  imports Mp_Mod_Props
begin

text \<open>
  Powers: \<^verbatim>\<open>mpexp\<close>, which squares and multiplies along the bits of the exponent, with the multiplication of
  integers or the one modulo a number. What it needs of either is the locale \<open>powop\<close>.
\<close>

section \<open>Squaring and multiplying\<close>

lemma bitscan_ok:
  assumes "d \<noteq> 0"
  obtains k where "k < 32" "bitscan 32 d = Some (Suc k)" "unat d = 2 ^ k + unat (take_bit k d)"
proof -
  have "\<exists>k < n. bitscan n d = Some (Suc k) \<and> unat (take_bit n d) = 2 ^ k + unat (take_bit k d)" if "take_bit n d \<noteq> 0" for n
    using that
  proof (induction n)
    case (Suc n)
    have b: "d AND push_bit n 1 \<noteq> 0 \<longleftrightarrow> bit d n" by (simp add: and_exp_eq_0_iff_not_bit push_bit_eq_mult)
    have t: "unat (take_bit (Suc n) d) = (if bit d n then 2 ^ n else 0) + unat (take_bit n d)"
      by (simp add: unsigned_take_bit_eq take_bit_Suc_from_most bit_unsigned_iff possible_bit_def)
    show ?case
    proof (cases "bit d n")
      case False
      then have "take_bit n d \<noteq> 0" using Suc.prems t by (metis add_0 unat_eq_zero)
      then show ?thesis using Suc.IH False b t by (auto simp: less_Suc_eq)
    qed (use b t in auto)
  qed simp
  from this [of 32] show ?thesis using that assms by (auto simp: take_bit_word_eq_self)
qed

text \<open>Powers up to \<open>f\<close>; the one with the exponent 1 is the number itself, without \<open>f\<close>.\<close>

definition power1 :: "(int \<Rightarrow> int) \<Rightarrow> int \<Rightarrow> nat \<Rightarrow> int" where
  "power1 f i n = (if n = 1 then i else f (i ^ n))"

text \<open>The numbers \<open>p\<close> and \<open>q\<close>, of which \<open>p\<close> holds the power so far.\<close>

definition powst :: "(mpst \<Rightarrow> bool) \<Rightarrow> (nat \<Rightarrow> int option) \<Rightarrow> nat \<Rightarrow> nat \<Rightarrow> int \<Rightarrow> mpst \<Rightarrow> mpst \<Rightarrow> bool" where
  "powst ready M p q v s0 s \<longleftrightarrow> good s \<and> ready s \<and> brk s0 \<le> brk s \<and> ints s p = Some v \<and> ints s q \<noteq> None \<and> (\<forall>c. c \<noteq> p \<longrightarrow> c \<noteq> q \<longrightarrow> ints s c = M c)"

text \<open>A multiplication of numbers in memory up to \<open>f\<close>, which may not store its result in \<open>K\<close> or in an operand.\<close>

locale powop =
  fixes mul :: "nat \<Rightarrow> nat \<Rightarrow> nat \<Rightarrow> unit cmd" and f :: "int \<Rightarrow> int" and K :: "nat set" and ready :: "mpst \<Rightarrow> bool"
  assumes mul_to: "good s \<Longrightarrow> ready s \<Longrightarrow> ints s a = Some i \<Longrightarrow> ints s b = Some j \<Longrightarrow> ints s r \<noteq> None \<Longrightarrow> usable r \<Longrightarrow>
      r \<notin> {a, b} \<Longrightarrow> r \<notin> K \<Longrightarrow> okR (mul a b r s) (\<lambda>_ s'. to ((ints s)(r \<mapsto> f (i * j))) s s' \<and> ready s')"
    and f_mult: "f (f i * j) = f (i * j)"
begin

lemma f_mult2: "f (f i * f j) = f (i * j)"
  by (metis f_mult mult.commute)

lemma power1_square: "0 < n \<Longrightarrow> f (power1 f i n * power1 f i n) = power1 f i (2 * n)"
  using f_mult2 by (auto simp: power1_def power2_eq_square mult_2 power_add)

lemma power1_mult: "0 < n \<Longrightarrow> f (power1 f i (2 * n) * i) = power1 f i (2 * n + 1)"
  using f_mult by (simp add: power1_def mult.commute)

lemma expbits_ok:
  assumes "powst ready M p q (power1 f i n) s0 s" "M b = Some i" "0 < n" "distinct [p, q, b]" "usable p" "usable q" "p \<notin> K" "q \<notin> K"
  shows "okR (expbits mul b d k p q s) (\<lambda>(p', q') s'. {p', q'} = {p, q} \<and> powst ready M p' q' (power1 f i (n * 2 ^ k + unat (take_bit k d))) s0 s')"
  using assms
proof (induction k arbitrary: p q n s)
  case (Suc k)
  let ?n = "2 * n"
  have st: "good s" "ready s" "ints s p = Some (power1 f i n)" "ints s q \<noteq> None" "ints s b = Some i" "brk s0 \<le> brk s"
    using Suc.prems(1,2,4) by (auto simp: powst_def)
  have bitk: "d AND push_bit k 1 \<noteq> 0 \<longleftrightarrow> bit d k" by (simp add: and_exp_eq_0_iff_not_bit push_bit_eq_mult)
  have tb: "unat (take_bit (Suc k) d) = (if bit d k then 2 ^ k else 0) + unat (take_bit k d)"
    by (simp add: unsigned_take_bit_eq take_bit_Suc_from_most bit_unsigned_iff possible_bit_def)
  have sq: "okR (mul p p q s) (\<lambda>_ s'. to ((ints s)(q \<mapsto> power1 f i ?n)) s s' \<and> ready s')"
    using mul_to [OF st(1,2,3,3,4) Suc.prems(6)] power1_square [OF Suc.prems(3)] Suc.prems(4,8) by auto
  show ?case
  proof (cases "bit d k")
    case False
    have "okR (expbits mul b d k q p s1) (\<lambda>(p', q') s'. {p', q'} = {p, q} \<and> powst ready M p' q' (power1 f i (n * 2 ^ Suc k + unat (take_bit (Suc k) d))) s0 s')"
      if s1: "to ((ints s)(q \<mapsto> power1 f i ?n)) s s1" "ready s1" for s1
    proof -
      have "powst ready M q p (power1 f i ?n) s0 s1" using Suc.prems(1) s1 st by (auto simp: powst_def to_def)
      from Suc.IH [OF this Suc.prems(2) _ _ Suc.prems(6,5,8,7)] Suc.prems(3,4)
      have "okR (expbits mul b d k q p s1) (\<lambda>(p', q') s'. {p', q'} = {q, p} \<and> powst ready M p' q' (power1 f i (?n * 2 ^ k + unat (take_bit k d))) s0 s')" by auto
      moreover have "?n * 2 ^ k + unat (take_bit k d) = n * 2 ^ Suc k + unat (take_bit (Suc k) d)" unfolding tb using False by simp
      ultimately show ?thesis by (simp add: insert_commute)
    qed
    then show ?thesis using False bitk by (auto intro: okR_mono [OF sq])
  next
    case True
    have "okR (mul q b p s1) (\<lambda>_ s2. okR (expbits mul b d k p q s2)
        (\<lambda>(p', q') s'. {p', q'} = {p, q} \<and> powst ready M p' q' (power1 f i (n * 2 ^ Suc k + unat (take_bit (Suc k) d))) s0 s'))"
      if s1: "to ((ints s)(q \<mapsto> power1 f i ?n)) s s1" "ready s1" for s1
    proof -
      have i1: "good s1" "ints s1 q = Some (power1 f i ?n)" "ints s1 b = Some i" "ints s1 p \<noteq> None" using s1 st Suc.prems(4) by (auto simp: to_def)
      have "okR (mul q b p s1) (\<lambda>_ s'. to ((ints s1)(p \<mapsto> power1 f i (?n + 1))) s1 s' \<and> ready s')"
        using mul_to [OF i1(1) s1(2) i1(2,3,4) Suc.prems(5)] power1_mult [OF Suc.prems(3)] Suc.prems(4,7) by auto
      then show ?thesis
      proof (rule okR_mono)
        fix u s2
        assume s2: "to ((ints s1)(p \<mapsto> power1 f i (?n + 1))) s1 s2 \<and> ready s2"
        have "powst ready M p q (power1 f i (?n + 1)) s0 s2" using Suc.prems(1,4) s1 s2 st by (auto simp: powst_def to_def)
        from Suc.IH [OF this Suc.prems(2) _ Suc.prems(4-8)]
        have "okR (expbits mul b d k p q s2) (\<lambda>(p', q') s'. {p', q'} = {p, q} \<and> powst ready M p' q' (power1 f i ((?n + 1) * 2 ^ k + unat (take_bit k d))) s0 s')" by simp
        moreover have "(?n + 1) * 2 ^ k + unat (take_bit k d) = n * 2 ^ Suc k + unat (take_bit (Suc k) d)"
          unfolding tb using True by (simp add: algebra_simps)
        ultimately show "okR (expbits mul b d k p q s2)
          (\<lambda>(p', q') s'. {p', q'} = {p, q} \<and> powst ready M p' q' (power1 f i (n * 2 ^ Suc k + unat (take_bit (Suc k) d))) s0 s')" by (simp only:)
      qed
    qed
    then show ?thesis using True bitk by (auto intro: okR_mono [OF sq])
  qed
qed simp

text \<open>The digits of the exponent are those of its normal form, wherever it is read.\<close>

lemma expdigits_ok:
  assumes "powst ready M p q (power1 f i n) s0 s" "M b = Some i" "M e = Some E" "0 < n" "distinct [p, q, b]" "e \<notin> {p, q}" "usable p" "usable q" "p \<notin> K" "q \<notin> K"
    "nrm x" "ival x = E" "l \<le> mtop x" "k \<le> Dbits"
  shows "okR (expdigits mul b e l k p q s) (\<lambda>(p', q') s'. {p', q'} = {p, q} \<and>
    powst ready M p' q' (power1 f i (if l = 0 then n else (n * 2 ^ k + unat (take_bit k (mdig x ! (l - 1)))) * B ^ (l - 1) + val (take (l - 1) (mdig x)))) s0 s')"
  using assms
proof (induction l arbitrary: p q n s k)
  case (Suc l)
  have st: "good s" "ints s e = Some E" using Suc.prems(1,3,6) by (auto simp: powst_def)
  obtain y where y: "number s e y" "ival y = E" by (rule good_number [OF st])
  have u: "mtop y = mtop x" "take (mtop x) (mdig y) = take (mtop x) (mdig x)" using nrm_unique [of y x] y Suc.prems(11,12) by auto
  have l: "l < length (mdig y)" using y(1) u(1) Suc.prems(13) by (simp add: nrm_def)
  have dg: "mdig y ! l = mdig x ! l" using arg_cong [OF u(2), of "\<lambda>v. v ! l"] Suc.prems(13) by simp
  let ?N = "n * 2 ^ k + unat (take_bit k (mdig x ! l))"
  have N: "0 < ?N" using Suc.prems(4) by simp
  have "okR (expbits mul b (mdig x ! l) k p q s) (\<lambda>(p', q') s'. {p', q'} = {p, q} \<and> powst ready M p' q' (power1 f i ?N) s0 s')"
    by (rule expbits_ok [OF Suc.prems(1,2,4,5,7-10)])
  then have "okR (expbits mul b (mdig x ! l) k p q s) (\<lambda>(p', q') s'. okR (expdigits mul b e l Dbits p' q' s')
     (\<lambda>(p', q') s'. {p', q'} = {p, q} \<and> powst ready M p' q' (power1 f i (?N * B ^ l + val (take l (mdig x)))) s0 s'))"
  proof (rule okR_mono, clarify)
    fix p' q' s'
    assume s': "{p', q'} = {p, q}" "powst ready M p' q' (power1 f i ?N) s0 s'"
    then have d: "distinct [p', q', b]" "e \<notin> {p', q'}" "usable p'" "usable q'" "p' \<notin> K" "q' \<notin> K"
      using Suc.prems(5-10) by (auto simp: doubleton_eq_iff)
    have l': "l \<le> mtop x" using Suc.prems(13) by simp
    have "val (take l (mdig x)) = unat (mdig x ! (l - 1)) * B ^ (l - 1) + val (take (l - 1) (mdig x))" if "l \<noteq> 0"
    proof -
      have "l - 1 < length (mdig x)" using l' that Suc.prems(11) by (auto simp: nrm_def)
      then have "take l (mdig x) = take (l - 1) (mdig x) @ [mdig x ! (l - 1)]" using that take_Suc_conv_app_nth [of "l - 1" "mdig x"] by simp
      then show ?thesis using \<open>l - 1 < length (mdig x)\<close> by (simp only: val_append) simp
    qed
    then have e: "(if l = 0 then ?N else (?N * 2 ^ 32 + unat (take_bit 32 (mdig x ! (l - 1)))) * B ^ (l - 1) + val (take (l - 1) (mdig x))) = ?N * B ^ l + val (take l (mdig x))"
      by (cases l) (simp_all add: algebra_simps take_bit_word_eq_self)
    from Suc.IH [OF s'(2) Suc.prems(2,3) N d Suc.prems(11,12) l' le_refl]
    show "okR (expdigits mul b e l Dbits p' q' s') (\<lambda>(p', q') s'. {p', q'} = {p, q} \<and> powst ready M p' q' (power1 f i (?N * B ^ l + val (take l (mdig x)))) s0 s')"
      unfolding e s'(1) .
  qed
  then show ?case using y(1) l dg by (simp add: split_def)
qed simp

text \<open>From the first bit of the exponent to the assignment of the result.\<close>

lemma expmain_ok:
  assumes "good s" "ready s" "ints s t = Some i" "ints s b = Some i" "ints s e = Some E" "0 < E" "ints s res \<noteq> None"
    "distinct [t, res, b]" "e \<notin> {t, res}" "usable t" "usable res" "t \<notin> K" "res \<notin> K"
  shows "okR (expmain mul b e t res s) (\<lambda>_. to ((ints s)(res \<mapsto> power1 f i (nat E), t := None)) s)"
proof -
  obtain x where x: "number s e x" "ival x = E" by (rule good_number [OF assms(1,5)])
  have E: "nat E = mag x" using x assms(6) by (auto simp: ival_def nrm_def)
  have "mtop x \<noteq> 0" using E assms(6) mag_top [of x] by (cases "mtop x = 0") simp_all
  then have tx: "mtop x \<noteq> 0" "mtop x \<le> length (mdig x)" "mdig x ! (mtop x - 1) \<noteq> 0" using x(1) by (auto simp: nrm_def)
  let ?d = "mdig x ! (mtop x - 1)" and ?l = "mtop x - 1"
  obtain k where k: "k < 32" "bitscan 32 ?d = Some (Suc k)" "unat ?d = 2 ^ k + unat (take_bit k ?d)" by (rule bitscan_ok [OF tx(3)])
  have ds: "(1 * 2 ^ k + unat (take_bit k ?d)) * B ^ ?l + val (take ?l (mdig x)) = mag x"
  proof -
    have "take (mtop x) (mdig x) = take ?l (mdig x) @ [?d]" using tx take_Suc_conv_app_nth [of ?l "mdig x"] by simp
    then have "mag x = val (take ?l (mdig x)) + B ^ length (take ?l (mdig x)) * unat ?d" unfolding mag_def by (simp only: val_append) simp
    moreover have "length (take ?l (mdig x)) = ?l" using tx(2) by simp
    ultimately show ?thesis using k(3) by (simp only: mult_1 add.commute mult.commute)
  qed
  have "powst ready (ints s) t res (power1 f i 1) s s" using assms by (simp add: powst_def power1_def)
  from expdigits_ok [OF this assms(4,5) _ assms(8-13) conjunct2 [OF x(1)] x(2) le_refl, of k]
  have "okR (expdigits mul b e (mtop x) k t res s) (\<lambda>(p', q') s'. {p', q'} = {t, res} \<and> powst ready (ints s) p' q' (power1 f i (mag x)) s s')"
    using k(1) tx(1) ds by simp
  then have "okR (expdigits mul b e (mtop x) k t res s) (\<lambda>pq s'. okR ((case pq of (p, q) \<Rightarrow> expend p q res) s')
      (\<lambda>_. to ((ints s)(res \<mapsto> power1 f i (nat E), t := None)) s))"
  proof (rule okR_mono, clarify)
    fix p q s'
    assume pq: "{p, q} = {t, res}" "powst ready (ints s) p q (power1 f i (mag x)) s s'"
    let ?v = "power1 f i (nat E)"
    have g: "good s'" "brk s \<le> brk s'" "ints s' p = Some ?v" "ints s' q \<noteq> None" "\<And>c. c \<noteq> p \<Longrightarrow> c \<noteq> q \<Longrightarrow> ints s' c = ints s c"
      using pq(2) E by (simp_all add: powst_def)
    show "okR (expend p q res s') (\<lambda>_. to ((ints s)(res \<mapsto> ?v, t := None)) s)"
    proof (cases "p = res")
      case True
      then have q: "q = t" using pq(1) assms(8) by (auto simp: doubleton_eq_iff)
      then have "(ints s')(t := None) = (ints s)(res \<mapsto> ?v, t := None)" using g(3,5) True by (auto simp: fun_eq_iff)
      moreover have "okR (mpfree t s') (\<lambda>_. to ((ints s')(t := None)) s')" by (rule mpfree_to) (use g q assms(10) in auto)
      ultimately show ?thesis using True q g(2) by (auto simp: expend_def to_def elim!: okR_mono)
    next
      case False
      then have q: "p = t" "q = res" using pq(1) by (auto simp: doubleton_eq_iff)
      have "okR (block [mpassign t res, mpfree t] s') (\<lambda>_. to ((ints s)(res \<mapsto> ?v, t := None)) s)"
      proof (rule block_to, rule mpassign_to)
        show "good s'" "ints s' t = Some ?v" "ints s' res \<noteq> None" "usable res" using g q assms(11) by auto
        fix s2 assume s2: "good s2" "ints s2 = (ints s')(res \<mapsto> ?v)" "brk s' \<le> brk s2"
        then have m: "(ints s2)(t := None) = (ints s)(res \<mapsto> ?v, t := None)" using g(5) q by (auto simp: fun_eq_iff)
        have "okR (mpfree t s2) (\<lambda>_. to ((ints s2)(t := None)) s2)" by (rule mpfree_to) (use s2 g q assms(8,10) in auto)
        then show "okR (block [mpfree t] s2) (\<lambda>_. to ((ints s)(res \<mapsto> ?v, t := None)) s)"
          unfolding m using g(2) s2(3) by (auto simp: to_def elim!: okR_mono)
      qed
      then show ?thesis using False q by (simp add: expend_def)
    qed
  qed
  then show ?thesis using x(1) tx k(2) by (simp add: expmain_def)
qed

end

interpretation plainpow: powop mpmul "\<lambda>v. v" "{}" "\<lambda>_. True"
  by unfold_locales (use pmul.changes in simp_all)

interpretation modpow: powop "\<lambda>a b r. mpmodmul red a b m r" "\<lambda>v. v mod j" "{m}" "\<lambda>s. 0 < j \<and> (\<exists>y. cells s m = Some y \<and> ival y = j \<and> \<not> ffield y)"
  for red m j
proof
  fix s a i b k r
  assume a: "good s" "0 < j \<and> (\<exists>y. cells s m = Some y \<and> ival y = j \<and> \<not> ffield y)" "ints s a = Some i" "ints s b = Some k" "ints s r \<noteq> None"
    "usable r" "r \<notin> {a, b}" "r \<notin> {m}"
  then obtain y where y: "cells s m = Some y" "ival y = j" "\<not> ffield y" by blast
  have "okR (mpmodmul red a b m r s) (\<lambda>_ s'. to ((ints s)(r \<mapsto> i * k mod j)) s s' \<and> cells s' m = Some y)"
    by (rule mpmodmul_to [OF a(1,3,4) y(1) _ _ y(3) a(5,6)]) (use a y in \<open>auto simp: ints_def\<close>)
  then show "okR (mpmodmul red a b m r s) (\<lambda>_ s'. to ((ints s)(r \<mapsto> i * k mod j)) s s' \<and> 0 < j \<and> (\<exists>y. cells s' m = Some y \<and> ival y = j \<and> \<not> ffield y))"
    by (rule okR_mono) (use a(2) y in auto)
qed (simp add: mod_mult_left_eq)

section \<open>The whole routine\<close>

text \<open>The integers \<open>M\<close> and numbers \<open>F\<close> that were allocated on the way.\<close>

definition extra :: "(nat \<Rightarrow> int option) \<Rightarrow> nat set \<Rightarrow> mpst \<Rightarrow> bool" where
  "extra M F s \<longleftrightarrow> good s \<and> (\<forall>c \<in> F. M c = None \<and> usable c \<and> ints s c \<noteq> None) \<and> (\<forall>c. c \<notin> F \<longrightarrow> ints s c = M c)"

lemma extra_some:
  assumes "extra M F s" "M c = Some i"
  shows "ints s c = Some i" "c \<notin> F"
  using assms unfolding extra_def by (cases "c \<in> F"; simp)+

lemma copyif_ok:
  assumes "extra M F s" "M b = Some i"
  shows "okR (copyif c b s) (\<lambda>b' s'. extra M (if c then insert b' F else F) s' \<and> brk s \<le> brk s' \<and> (\<forall>a x. cells s a = Some x \<longrightarrow> cells s' a = Some x) \<and>
    ints s' b' = Some i \<and> (if c then ints s b' = None \<and> (\<exists>x. cells s' b' = Some x \<and> ival x = i \<and> \<not> ffield x) else b' = b))"
proof (cases c)
  case True
  have g: "good s" "ints s b = Some i" using assms(1) extra_some(1) [OF assms] by (simp_all add: extra_def)
  obtain x where x: "number s b x" "ival x = i" by (rule good_number [OF g])
  obtain z where z: "mpcopy b s = Ret (brk s) (put (brk s) z (s\<lparr>brk := brk s + 1\<rparr>))" "nrm z" "ival z = ival x" "2 \<le> length (mdig z)" "\<not> fstatic z" "\<not> ffield z"
    by (rule mpcopy_run [of s b x]) (use g(1) x(1) in \<open>auto simp: good_def\<close>)
  define s' where "s' = put (brk s) z (s\<lparr>brk := brk s + 1\<rparr>)"
  have f: "ints s (brk s) = None" "usable (brk s)" "cells s (brk s) = None" using good_fresh [OF g(1)] mpstok_fresh(1) [OF good_ok [OF g(1)]] by auto
  have t: "to ((ints s)(brk s \<mapsto> ival z)) s s'"
    by (rule good_put [OF g(1) z(2,4,5)]) (use f(2) in \<open>auto simp: put_def s'_def\<close>)
  have "brk s \<notin> F \<and> M (brk s) = None" using assms(1) f(1) by (auto simp: extra_def)
  then have "extra M (insert (brk s) F) s'" using assms(1) t f(2) by (auto simp: extra_def to_def)
  moreover have "cells s' a = Some y" if "cells s a = Some y" for a y using that f(3) by (auto simp: s'_def)
  moreover have "ints s' (brk s) = Some i" "cells s' (brk s) = Some z" "brk s \<le> brk s'" using t z(3) x(2) by (simp_all add: to_def s'_def)
  moreover have "copyif c b s = Ret (brk s) s'" using True z(1) by (simp add: copyif_def s'_def)
  ultimately show ?thesis using True z(3,6) x(2) f(1) by simp
qed (use assms(1) extra_some(1) [OF assms] in \<open>simp add: copyif_def\<close>)

lemma whenfree_ok:
  assumes "extra M F s" "c \<Longrightarrow> b \<in> F"
  shows "okR (whenC c (mpfree b) s) (\<lambda>_ s'. extra M (if c then F - {b} else F) s' \<and> brk s \<le> brk s')"
proof (cases c)
  case True
  have "okR (mpfree b s) (\<lambda>_. to ((ints s)(b := None)) s)" by (rule mpfree_to) (use assms True in \<open>auto simp: extra_def\<close>)
  then show ?thesis using True assms by (auto simp: whenC_def to_def extra_def elim!: okR_mono split: if_splits)
qed (use assms(1) in \<open>simp add: whenC_def\<close>)

text \<open>What is computed: nothing is reduced when the exponent is 1, or 0.\<close>

definition powmod :: "int \<Rightarrow> nat \<Rightarrow> int option \<Rightarrow> int" where
  "powmod i n jo = (case jo of None \<Rightarrow> i ^ n | Some j \<Rightarrow> if n = 0 then 1 else if n = 1 then i else i ^ n mod j)"

text \<open>The modulus, when there is one, is positive and has no reduction routine of its own.\<close>

definition modulus :: "mpst \<Rightarrow> nat \<Rightarrow> int option \<Rightarrow> bool" where
  "modulus s m jo \<longleftrightarrow> (case jo of None \<Rightarrow> m = nil | Some j \<Rightarrow> 0 < j \<and> (\<exists>y. cells s m = Some y \<and> ival y = j \<and> \<not> ffield y))"

lemma expmain_any:
  assumes "extra M F s" "t \<in> F" "ints s t = Some i" "ints s b = Some i" "ints s e = Some E" "0 < E" "M res \<noteq> None" "usable res"
    "b \<notin> {t, res}" "e \<notin> {t, res}" "modulus s m jo" "m \<notin> {t, res}"
  shows "okR (expmain (if m \<noteq> nil then \<lambda>a b r. mpmodmul red a b m r else mpmul) b e t res s)
    (\<lambda>_ s'. extra (M(res \<mapsto> powmod i (nat E) jo)) (F - {t}) s' \<and> brk s \<le> brk s')"
proof -
  obtain k where k: "M res = Some k" using assms(7) by blast
  have r: "res \<notin> F" "t \<noteq> res" "ints s res \<noteq> None" "good s" "usable t" using extra_some [OF assms(1) k] assms(1,2) by (auto simp: extra_def)
  have fin: "extra (M(res \<mapsto> v)) (F - {t}) s'" if "to ((ints s)(res \<mapsto> v, t := None)) s s'" for v s'
    using that assms(1,2) r(1,2) by (auto simp: extra_def to_def)
  have d: "distinct [t, res, b]" using assms(9) r(2) by auto
  have "okR (expmain (if m \<noteq> nil then \<lambda>a b r. mpmodmul red a b m r else mpmul) b e t res s)
      (\<lambda>_. to ((ints s)(res \<mapsto> powmod i (nat E) jo, t := None)) s)"
  proof (cases jo)
    case None
    then have "m = nil" using assms(11) by (simp add: modulus_def)
    moreover have "power1 (\<lambda>v. v) i (nat E) = powmod i (nat E) jo" using None by (simp add: power1_def powmod_def)
    ultimately show ?thesis
      using plainpow.expmain_ok [OF r(4) TrueI assms(3-6) r(3) d assms(10) r(5) assms(8)] by simp
  next
    case (Some j)
    then obtain y where y: "0 < j" "cells s m = Some y" "ival y = j" "\<not> ffield y" using assms(11) by (auto simp: modulus_def)
    have "cells s nil = None" using good_ok [OF r(4)] by (simp add: mpstok_def)
    then have m: "m \<noteq> nil" using y(2) by (metis option.distinct(1))
    have "power1 (\<lambda>v. v mod j) i (nat E) = powmod i (nat E) jo" using Some assms(6) by (auto simp: power1_def powmod_def)
    moreover have "0 < j \<and> (\<exists>y. cells s m = Some y \<and> ival y = j \<and> \<not> ffield y)" using y by blast
    ultimately show ?thesis
      using modpow.expmain_ok [OF r(4) _ assms(3-6) r(3) d assms(10) r(5) assms(8), of j m red] assms(12) m by simp
  qed
  then show ?thesis by (rule okR_mono) (use fin in \<open>auto simp: to_def\<close>)
qed

lemma exprest_ok:
  assumes "good s" "ints s b = Some i" "ints s e = Some E" "0 < E" "ints s res \<noteq> None" "usable res" "modulus s m jo"
  shows "okR (exprest red b e m res s) (\<lambda>_. to ((ints s)(res \<mapsto> powmod i (nat E) jo)) s)"
proof -
  let ?M = "ints s" and ?v = "powmod i (nat E) jo"
  have x0: "extra ?M {} s" using assms(1) by (simp add: extra_def)
  obtain t s1 where s1: "mpcopy b s = Ret t s1" "extra ?M {t} s1" "brk s \<le> brk s1" "\<forall>a x. cells s a = Some x \<longrightarrow> cells s1 a = Some x" "?M t = None" "ints s1 t = Some i"
    using copyif_ok [OF x0 assms(2), of True] by (auto simp: copyif_def elim!: okR_E)
  define F2 where "F2 b' = (if res = b then insert b' {t} else {t})" for b'
  obtain b' s2 where s2: "copyif (res = b) b s1 = Ret b' s2" "extra ?M (F2 b') s2" "brk s1 \<le> brk s2" "\<forall>a x. cells s1 a = Some x \<longrightarrow> cells s2 a = Some x"
      "ints s2 b' = Some i" "if res = b then ints s1 b' = None \<and> (\<exists>x. cells s2 b' = Some x \<and> ival x = i \<and> \<not> ffield x) else b' = b"
    using copyif_ok [OF s1(2) assms(2), of "res = b", folded F2_def] by (elim okR_E conjE)
  define F3 where "F3 e' = (if res = e then insert e' (F2 b') else F2 b')" for e'
  obtain e' s3 where s3: "copyif (res = e) e s2 = Ret e' s3" "extra ?M (F3 e') s3" "brk s2 \<le> brk s3" "\<forall>a x. cells s2 a = Some x \<longrightarrow> cells s3 a = Some x"
      "ints s3 e' = Some E" "if res = e then ints s2 e' = None \<and> (\<exists>x. cells s3 e' = Some x \<and> ival x = E \<and> \<not> ffield x) else e' = e"
    using copyif_ok [OF s2(2) assms(3), of "res = e", folded F3_def] by (elim okR_E conjE)
  define F4 where "F4 m' = (if res = m then insert m' (F3 e') else F3 e')" for m'
  have mi: "\<exists>j. ?M m = Some j" if "res = m" using assms(5) that by auto
  obtain m' s4 where s4: "copyif (res = m) m s3 = Ret m' s4" "extra ?M (F4 m') s4" "brk s3 \<le> brk s4" "\<forall>a x. cells s3 a = Some x \<longrightarrow> cells s4 a = Some x"
      "if res = m then ints s3 m' = None \<and> (\<exists>x. cells s4 m' = Some x \<and> Some (ival x) = ?M m \<and> \<not> ffield x) else m' = m"
  proof (cases "res = m")
    case True
    then obtain j where j: "?M m = Some j" using mi by blast
    show ?thesis using copyif_ok [OF s3(2) j, of "res = m", folded F4_def] that True j by (elim okR_E conjE) simp
  next
    case False
    then show ?thesis using that [of m s3] s3(2) by (simp add: copyif_def F4_def)
  qed
  have i4: "ints s4 t = Some i" "ints s4 b' = Some i" "ints s4 e' = Some E"
    using s1(6) s2(4,5) s3(4,5) s4(4) by (auto simp: ints_def)
  have ne: "c \<noteq> t" if "?M c \<noteq> None" for c using that s1(5) by auto
  have fr: "x \<notin> {t, res}" if "ints sx x = None" "extra ?M F sx" "t \<in> F" for x F sx
    using that assms(5) extra_some(1) [OF that(2), of res] by (auto simp: extra_def)
  have b4: "b' \<notin> {t, res}" using s2(6) ne [of b] assms(2) fr [OF _ s1(2)] by (cases "res = b") auto
  have e4: "e' \<notin> {t, res}" using s3(6) ne [of e] assms(3) fr [OF _ s2(2)] by (cases "res = e") (auto simp: F2_def)
  have m4: "modulus s4 m' jo" "m' \<notin> {t, res}" "m' = nil \<longleftrightarrow> m = nil"
  proof -
    have u: "usable t" "good s4" using s1(2) s4(2) by (auto simp: extra_def)
    then have n0: "cells s4 nil = None" using good_ok by (simp add: mpstok_def)
    have up: "cells s4 c = Some y" if "cells s c = Some y" for c y using that s1(4) s2(4) s3(4) s4(4) by blast
    show "modulus s4 m' jo" "m' \<notin> {t, res}" "m' = nil \<longleftrightarrow> m = nil"
    proof (atomize (full), cases "res = m")
      case True
      then obtain x where x: "ints s3 m' = None" "cells s4 m' = Some x" "Some (ival x) = ?M m" "\<not> ffield x" using s4(5) by auto
      have "m \<noteq> nil" using True assms(6) by simp
      moreover have "m' \<noteq> nil" using x(2) n0 by (metis option.distinct(1))
      moreover have "modulus s4 m' jo" using assms(7) x \<open>m \<noteq> nil\<close> by (auto simp: modulus_def ints_def split: option.splits)
      moreover have "m' \<notin> {t, res}" using fr [OF x(1) s3(2)] by (simp add: F3_def F2_def)
      ultimately show "modulus s4 m' jo \<and> m' \<notin> {t, res} \<and> (m' = nil \<longleftrightarrow> m = nil)" by simp
    next
      case False
      then have m: "m' = m" using s4(5) by simp
      have "m \<noteq> t"
      proof (cases jo)
        case (Some j)
        then have "?M m \<noteq> None" using assms(7) by (auto simp: modulus_def ints_def)
        then show ?thesis by (rule ne)
      qed (use assms(7) u(1) in \<open>auto simp: modulus_def\<close>)
      moreover have "modulus s4 m jo" using assms(7) up by (auto simp: modulus_def split: option.splits)
      ultimately show "modulus s4 m' jo \<and> m' \<notin> {t, res} \<and> (m' = nil \<longleftrightarrow> m = nil)" using False m by auto
    qed
  qed
  have st: "t \<in> F4 m'" by (simp add: F4_def F3_def F2_def)
  have main: "okR (expmain (if m \<noteq> nil then \<lambda>a b r. mpmodmul red a b m' r else mpmul) b' e' t res s4)
      (\<lambda>_ s'. extra (?M(res \<mapsto> ?v)) (F4 m' - {t}) s' \<and> brk s4 \<le> brk s')"
    using expmain_any [OF s4(2) st i4 assms(4-6) b4 e4 m4(1,2), of red] m4(3) by simp
  have "okR (block [expmain (if m \<noteq> nil then \<lambda>a b r. mpmodmul red a b m' r else mpmul) b' e' t res,
      whenC (res = b) (mpfree b'), whenC (res = e) (mpfree e'), whenC (res = m) (mpfree m')] s4) (\<lambda>_. to (?M(res \<mapsto> ?v)) s)"
  proof -
    let ?M' = "?M(res \<mapsto> ?v)"
    define G1 where "G1 = F4 m' - {t}"
    define G2 where "G2 = (if res = b then G1 - {b'} else G1)"
    define G3 where "G3 = (if res = e then G2 - {e'} else G2)"
    define G4 where "G4 = (if res = m then G3 - {m'} else G3)"
    have mem: "res = b \<Longrightarrow> b' \<in> G1" "res = e \<Longrightarrow> e' \<in> G2" "res = m \<Longrightarrow> m' \<in> G3"
    proof -
      show "b' \<in> G1" if "res = b" using that b4 by (simp add: G1_def F4_def F3_def F2_def)
      have "e' \<noteq> b'" if "res = e" using that s3(6) s2(5) by auto
      then show "e' \<in> G2" if "res = e" using that e4 by (simp add: G2_def G1_def F4_def F3_def)
      have "m' \<noteq> b'" "m' \<noteq> e'" if "res = m" using that s4(5) s3(4,5) s2(5) by (auto simp: ints_def)
      then show "m' \<in> G3" if "res = m" using that m4(2) by (simp add: G3_def G2_def G1_def F4_def)
    qed
    have "G4 = {}" by (auto simp: G4_def G3_def G2_def G1_def F4_def F3_def F2_def)
    then have fin: "to ?M' s s'" if "extra ?M' G4 s'" "brk s \<le> brk s'" for s' using that by (auto simp: extra_def to_def)
    have "brk s \<le> brk s4" using s1(3) s2(3) s3(3) s4(3) by simp
    then have 1: "okR (expmain (if m \<noteq> nil then \<lambda>a b r. mpmodmul red a b m' r else mpmul) b' e' t res s4) (\<lambda>_ s'. extra ?M' G1 s' \<and> brk s \<le> brk s')"
      by (intro okR_mono [OF main]) (auto simp: G1_def)
    have 2: "okR (whenC (res = b) (mpfree b') s5) (\<lambda>_ s'. extra ?M' G2 s' \<and> brk s \<le> brk s')" if "extra ?M' G1 s5 \<and> brk s \<le> brk s5" for s5
      unfolding G2_def by (rule okR_mono [OF whenfree_ok [of ?M' G1 s5 "res = b" b']]) (use that mem(1) in auto)
    have 3: "okR (whenC (res = e) (mpfree e') s5) (\<lambda>_ s'. extra ?M' G3 s' \<and> brk s \<le> brk s')" if "extra ?M' G2 s5 \<and> brk s \<le> brk s5" for s5
      unfolding G3_def by (rule okR_mono [OF whenfree_ok [of ?M' G2 s5 "res = e" e']]) (use that mem(2) in auto)
    have 4: "okR (whenC (res = m) (mpfree m') s5) (\<lambda>_. to ?M' s)" if "extra ?M' G3 s5 \<and> brk s \<le> brk s5" for s5
      by (rule okR_mono [OF whenfree_ok [of ?M' G3 s5 "res = m" m', folded G4_def]]) (use that mem(3) fin in auto)
    show ?thesis unfolding block.simps okR_bindR okR_Ret
      by (rule okR_mono [OF 1], erule 2 [THEN okR_mono], erule 3 [THEN okR_mono], erule 4 [THEN okR_mono], assumption)
  qed
  then show ?thesis using s1(1) s2(1) s3(1) s4(1) by (simp add: exprest_def)
qed

lemma mpexp_ok:
  assumes "good s" "ints s b = Some i" "ints s e = Some E" "0 \<le> E" "ints s res \<noteq> None" "usable res" "modulus s m jo"
  shows "okR (mpexp red b e m res s) (\<lambda>_. to ((ints s)(res \<mapsto> powmod i (nat E) jo)) s)"
proof -
  obtain x y z where n: "number s b x" "number s e y" "number s res z"
    using good_number [OF assms(1,2)] good_number [OF assms(1,3)] good_some [OF assms(1,5)] by metis
  have f: "\<not> ftimesafe x" "\<not> ftimesafe y" "\<not> ftimesafe z" using n nrm_noflag(1) by blast+
  have m: "whenC (m \<noteq> nil) (withmp m (\<lambda>x. assertC (fnorm x))) s = Ret () s"
  proof (cases jo)
    case (Some j)
    then obtain w where "cells s m = Some w" using assms(7) by (auto simp: modulus_def)
    moreover from this have "nrm w" using assms(1) by (simp add: good_def allnrm_def)
    ultimately show ?thesis by (simp add: whenC_def nrm_def)
  qed (use assms(7) in \<open>simp add: modulus_def whenC_def\<close>)
  obtain c where c: "mpcmp e mpzero s = Ret c s" "c < 0 \<longleftrightarrow> E < 0" "c = 0 \<longleftrightarrow> E = 0" by (rule mpcmp_to [OF assms(1,3) good_const(1) [OF assms(1)]])
  have "mpexp red b e m res s = (if E = 0 then mpassign mpone res s else exprest red b e m res s)"
    using m n f c assms(4) by (simp add: mpexp_def no_ts put_same)
  moreover have "okR (mpassign mpone res s) (\<lambda>_. to ((ints s)(res \<mapsto> 1)) s)"
    by (rule mpassign_to [OF assms(1) good_const(2) [OF assms(1)] assms(5,6)])
  moreover have "powmod i 0 jo = 1" by (simp add: powmod_def split: option.splits)
  moreover have "okR (exprest red b e m res s) (\<lambda>_. to ((ints s)(res \<mapsto> powmod i (nat E) jo)) s)" if "E \<noteq> 0"
    using exprest_ok [OF assms(1-3) _ assms(5-7)] that assms(4) by simp
  ultimately show ?thesis by (cases "E = 0") simp_all
qed

section \<open>Properties\<close>

text \<open>C18. For every base and every exponent that is not negative, \<^verbatim>\<open>mpexp\<close> without a modulus stores the power, and with a positive
  modulus the power modulo it when the exponent is at least 2; the result may be stored over any of the arguments, no
  other number changes and nothing allocated is left. With the exponent 1 the base is stored as it is, not
  reduced, and with the exponent 0 the result is 1 whatever the modulus.\<close>

theorem mpexp_power:
  assumes "good s" "ints s b = Some i" "ints s e = Some E" "0 \<le> E" "ints s res \<noteq> None" "usable res" "modulus s m jo"
  shows "okR (mpexp red b e m res s) (\<lambda>_ s'. good s' \<and> ints s' = (ints s)(res \<mapsto>
    (case jo of None \<Rightarrow> i ^ nat E | Some j \<Rightarrow> if E = 0 then 1 else if E = 1 then i else i ^ nat E mod j)))"
proof -
  have "powmod i (nat E) jo = (case jo of None \<Rightarrow> i ^ nat E | Some j \<Rightarrow> if E = 0 then 1 else if E = 1 then i else i ^ nat E mod j)"
    using assms(4) by (auto simp: powmod_def split: option.splits)
  then show ?thesis using mpexp_ok [OF assms, of red] by (auto simp: to_def elim!: okR_mono)
qed

theorem mpexp_power_witness:
  "okR (mpexp (\<lambda>_ _ _. Ret 1) 5 4 4 5 exst) (\<lambda>_ s'. ints s' 5 = Some 3) \<and>
   okR (mpexp (\<lambda>_ _ _. Ret 1) 4 4 0 6 exst) (\<lambda>_ s'. ints s' 6 = Some 823543)"
proof -
  have "modulus exst 4 (Some 7)" by (simp add: modulus_def exst_def exnum_def ival_def mag_def)
  from mpexp_power [OF exst_good, of 5 "- 4294967296" 4 7 5 4 "Some 7" "\<lambda>_ _ _. Ret 1"] this
  have "okR (mpexp (\<lambda>_ _ _. Ret 1) 5 4 4 5 exst) (\<lambda>_ s'. ints s' 5 = Some 3)" by (auto simp: exst_ints elim: okR_mono)
  moreover have "modulus exst 0 None" by (simp add: modulus_def)
  with mpexp_power [OF exst_good, of 4 7 4 7 6 0 None "\<lambda>_ _ _. Ret 1"]
  have "okR (mpexp (\<lambda>_ _ _. Ret 1) 4 4 0 6 exst) (\<lambda>_ s'. ints s' 6 = Some 823543)" by (auto simp: exst_ints elim: okR_mono)
  ultimately show ?thesis ..
qed

end
