(* ===== verification/Spec2Isabelle.thy ===== *)
theory Spec2Isabelle
  imports Queue_Conc User_Locks Pipe_Props Rune_Props Mp_Exp_Props
begin

text \<open>
  A verification of the core of the operating system: how the kernel moves bytes between processes
  and devices, how processes wait for each other, and the formats in which everything is named and
  exchanged. Paths below are under \<^verbatim>\<open>sys/src\<close>; the kernel is the 64-bit one, \<^verbatim>\<open>9k\<close>.

  \<^bold>\<open>The parts and how they interact.\<close> Data travels in \<^emph>\<open>blocks\<close> (\<^verbatim>\<open>9k/port/allocb.c\<close>): a buffer with a read and
  a write pointer. \<^emph>\<open>Queues\<close> (\<^verbatim>\<open>9k/port/qio.c\<close>) hold blocks between a producer and a consumer, either of
  which may be a process, which sleeps, or an interrupt handler, which may not. Sleeping is ordered by the
  \<^emph>\<open>locks\<close> of the kernel (\<^verbatim>\<open>9k/port/qlock.c\<close>); user programs have their own with the same interface
  (\<^verbatim>\<open>libc/9sys/qlock.c\<close>), built on the rendezvous system call. Every resource is a file of some
  server, and servers are spoken to in \<^emph>\<open>9P\<close>: messages are packed and unpacked by
  \<^verbatim>\<open>libc/9sys/convS2M.c\<close> and \<^verbatim>\<open>libc/9sys/convM2S.c\<close>, directory entries by \<^verbatim>\<open>libc/9sys/convD2M.c\<close> and
  \<^verbatim>\<open>libc/9sys/convM2D.c\<close>. Kernel devices are file servers that are called directly; what they share is the
  \<^emph>\<open>generic device code\<close> (\<^verbatim>\<open>9k/port/dev.c\<close>), and \<^emph>\<open>pipes\<close> (\<^verbatim>\<open>9k/port/devpipe.c\<close>) are the device that joins it
  with the queues. Names are text in \<^emph>\<open>UTF-8\<close>
  (\<^verbatim>\<open>libc/port/rune.c\<close> and the string functions on it). What protects names and data between machines is
  built on \<^emph>\<open>extended precision arithmetic\<close> (\<^verbatim>\<open>libmp/port\<close>): numbers of any length as vectors of 32-bit digits.

  \<^bold>\<open>Results and state.\<close> A routine that changes state is a function from the state to a result of type
  \<open>res\<close> (theory \<open>Prelude\<close>): a normal return, \<^verbatim>\<open>error()\<close>, asleep, \<^verbatim>\<open>panic()\<close>, machine halted, or undefined
  behaviour (an access outside a buffer, a nil pointer), each with the state it leaves. \<open>okR r P\<close> says that
  the routine returns normally and \<open>P\<close> holds then: it excludes all the others. Machine integers are
  words where they can wrap; counts that the code keeps small are \<open>int\<close> or \<open>nat\<close>. Memory allocation is a
  parameter: \<open>mallocs w n sz\<close> is the answer to the \<open>n\<close>-th call, an address or a failure.

  \<^bold>\<open>Theories.\<close>

  \<^descr> \<open>Prelude\<close>: results, list segments, flag bits, the fact collections.

  \<^descr> \<open>Blocks\<close>, \<open>Block_Props\<close>: \<^verbatim>\<open>allocb.c\<close> and the routines of \<^verbatim>\<open>qio.c\<close> on strings of blocks. A \<open>Block\<close> has the
  fields of the structure, its buffer as a byte list and its pointers as offsets; \<open>Kern\<close> holds what is
  global: the allocator, the accounts of interrupt-time memory, the counters. Shown: the layout
  computed by \<^verbatim>\<open>_allocb\<close> is sound for every address and every size for which its \<^verbatim>\<open>int\<close> arithmetic is; each routine keeps well-formedness and
  the bytes, and frees what it drops (\<open>balanced\<close> accounts for every interrupt-time byte).

  \<^descr> \<open>Queues\<close>, \<open>Queue_Props\<close>: every operation on a \<open>Queue\<close>. Wakeups and kicks are entries of its event
  log. A loop that sleeps is one turn of the loop; it starts over when woken. Shown: the invariant
  \<open>qinv\<close> (the byte counts are those of the blocks) and the effect of each operation on the byte stream
  \<open>qbytes\<close>, on every branch.

  \<^descr> \<open>Queue_Stream\<close>: the contract of a queue as the locales \<open>channel\<close> and \<open>fifo\<close>, interpreted on the stream
  operations and on the block operations of drivers.

  \<^descr> \<open>Queue_Conc\<close>: a reader, a writer and a device as an inductive step relation \<open>qstep\<close> whose steps are the
  locked regions of the code, sleeps that are interrupted included; \<open>inp\<close> is the history of all bytes accepted, with
  those marked that a flush or a close threw away. On queues that are not message queues the bytes stay in order in
  every interleaving, and no wakeup is lost, with the two exceptions that are shown as such (a queue that coalesces, and
  \<^verbatim>\<open>qflush\<close>).

  \<^descr> \<open>Qlocks\<close>: \<open>QLock\<close> and \<open>RWlock\<close> of the kernel with the processes that use them; exclusion, order of
  service, absence of the panics.

  \<^descr> \<open>User_Locks\<close>: the locks of user programs, their pool of slots and the rendezvous; exclusion, and
  that the readers-writer lock is simulated by the kernel's.

  \<^descr> \<open>Wire\<close>, \<open>Fcalls\<close>, \<open>Fcall_Props\<close>: the 9P message codec. Shown: what is stored is the layout of the protocol,
  reading back gives the message, reading is safe on any bytes and leaves no reference that leads out of the
  message; the two ways in which sizes overflow.

  \<^descr> \<open>Dirs\<close>: the same for directory entries.

  \<^descr> \<open>Devs\<close>: the generic device code. What it relies on of a generator of directory entries is the
  locale \<open>table\<close>, extended to \<open>tree\<close> for walking; both are interpreted on \<^verbatim>\<open>devgen\<close>. Shown: walks,
  directory reads and opens end and do what they should.

  \<^descr> \<open>Pipes\<close>, \<open>Pipe_Props\<close>: every handler of the pipe device. The generator is a \<open>tree\<close>; a pair of channels is a
  \<open>channel\<close>. The pipe with all channels to it is a step relation \<open>pstep\<close>. Shown: the reference
  counts are exact in every reachable state and no panic can be reached while there is memory; bytes go through in
  order; after the last close of an end the other reads what is left, then end of file; the blocks that are
  lost at the very last close.

  \<^descr> \<open>Runes\<close>, \<open>Rune_Props\<close>: the UTF-8 codec and string functions. Shown: exactly the shortest encodings are
  accepted, round trip, no read past the end of a string.

  \<^descr> \<open>Mp_Vec\<close>, \<open>Mp_Vec_Props\<close>: the routines of \<^verbatim>\<open>libmp\<close> on vectors of digits (\<^verbatim>\<open>mpvecadd.c\<close>, \<^verbatim>\<open>mpvecsub.c\<close>,
  \<^verbatim>\<open>mpveccmp.c\<close>, \<^verbatim>\<open>mpvectscmp.c\<close>, \<^verbatim>\<open>mpvecdigmuladd.c\<close>, \<^verbatim>\<open>mpdigdiv.c\<close>, the vector part of \<^verbatim>\<open>mpmul.c\<close>), carries and borrows
  on words of 32 bits. \<open>val\<close> is the number a vector stands for; shown: each routine computes on it what its
  name says, the Karatsuba recursion included, which ends.

  \<^descr> \<open>Mp\<close>, \<open>Mp_Props\<close>: numbers (\<open>mpint\<close>, as the structure has it) in a memory of cells (\<open>mpst\<close>), so that an operand and
  the result of a routine may be the same number; allocation and normal form (\<^verbatim>\<open>mpaux.c\<close>), comparison, addition,
  subtraction, multiplication, shifts, conversion from machine integers. \<open>ival\<close> is the integer a number stands
  for. Shown: the operations meet the contract of the locale \<open>mpop\<close>, which refines sequences of them to
  operations on integers; shifts multiply and divide by powers of two.

  \<^descr> \<open>Mp_Div\<close>, \<open>Mp_Div_Props\<close>: \<^verbatim>\<open>mpdiv.c\<close>. Shown: the digit loop (Knuth's algorithm D) computes quotient and
  remainder and never leaves the digits allocated; the whole routine divides towards zero, with the cases
  of signs in which it does not.

  \<^descr> \<open>Mp_Num\<close>, \<open>Mp_Num_Props\<close>: number theory on top: conversion back to machine integers, \<^verbatim>\<open>mpmod.c\<close>, \<^verbatim>\<open>mpmodop.c\<close>, \<^verbatim>\<open>mpexp.c\<close> and
  \<^verbatim>\<open>mpeuclid.c\<close>. \<open>good\<close> is a memory of numbers that meet the side conditions of the division, \<open>ints\<close> the integers in it;
  the locale \<open>mploop\<close> gives the termination of a loop over numbers from a measure on the integers. Shown: the extended
  Euclidean algorithm ends with the greatest common divisor and its coefficients, and frees what it allocated.

  \<^descr> \<open>Mp_Mod_Props\<close>, \<open>Mp_Exp_Props\<close>: residues and modular multiplication; exponentiation, whose loops over digits and bits
  are proved for any multiplication that meets the locale \<open>powop\<close>, interpreted on \<^verbatim>\<open>mpmul\<close> and on \<^verbatim>\<open>mpmodmul\<close>. Shown: \<^verbatim>\<open>mpexp\<close> stores the
  power, modulo the modulus if there is one, wherever the result is stored.

  \<^bold>\<open>Loops.\<close> Recursion is structural or has a termination proof, except where the code itself may not end: the loops
  over a generator in \<open>Devs\<close> depend on a caller's function, and \<^verbatim>\<open>while\<close> loops over numbers in memory (\<open>whileC\<close> in
  \<open>Mp_Num\<close>) on what the numbers are. These are \<open>partial_function\<close>s whose value \<open>None\<close> means that they do not
  return, and it is proved that they do. No fuel is used.

  \<^bold>\<open>Not modelled.\<close> The scheduler, virtual memory and interrupt handling appear only as the steps they
  interleave; the memory allocators as the parameter above. Printing, tracing and statistics for people are
  left out where they change nothing. Sizes of blocks are taken to be what the \<^verbatim>\<open>int\<close> arithmetic of the code can
  handle, and strings in directory entries to have less than 2 GiB. Of \<^verbatim>\<open>libmp\<close>, memory is taken not to run out (the
  library ends the program then) and bit counts not to overflow an \<^verbatim>\<open>int\<close> (stated as a hypothesis where the number of
  bits is an argument); fields with a reduction routine of their own are a parameter; \<^verbatim>\<open>mpextendedgcd.c\<close>, \<^verbatim>\<open>mpinvert.c\<close>,
  random numbers, conversion to text and bytes and the residue number systems are left out, and \<^verbatim>\<open>mpmodadd\<close>,
  \<^verbatim>\<open>mpmodsub\<close> and the conversions to machine integers are modelled without a proof. The name space (\<^verbatim>\<open>chan.c\<close>), the 9P client (\<^verbatim>\<open>devmnt.c\<close>), the network
  stack and the thread library build on what is here and are left for later; drivers, machine
  code, compilers and commands are outside the scope.
\<close>

end
